(* ===== verification/Prelude.thy ===== *)
theory Prelude
  imports Main "HOL-Library.Word"
begin

text \<open>
  Shared vocabulary of the development: the machine types of the C++ sources, the
  vocabulary of contiguous layouts (a list of sizes laid out from a file offset and a
  destination address), numbered lists, and the generic lemmas on words, sums and lists
  that the component theories use.

  \<open>size_t\<close> and pointers are 64-bit words and \<open>unsigned\<close> is a 32-bit word, so every addition
  below wraps around exactly as the compiled code does on the platforms the streamer supports.
\<close>

section \<open>Machine types\<close>

type_synonym size_t = "64 word"
type_synonym ptr = "64 word"
type_synonym uint = "32 word"
type_synonym submission_id = "64 word"

text \<open>\<open>std::numeric_limits<size_t>::max()\<close>, also written \<open>static_cast<size_t>(-1)\<close>.\<close>

abbreviation (input) size_max :: size_t where
  "size_max \<equiv> - 1"

abbreviation (input) nullptr :: ptr where
  "nullptr \<equiv> 0"

named_theorems word_to_nat \<open>facts that read word arithmetic as arithmetic on natural numbers\<close>
named_theorems layout \<open>facts on contiguous layouts\<close>

section \<open>Words as natural numbers\<close>

lemma unat_lt64 [simp]: "unat (x :: size_t) < 18446744073709551616"
  using unsigned_less [of x] by simp

lemma unat_lt32 [simp]: "unat (x :: uint) < 4294967296"
  using unsigned_less [of x] by simp

lemma unat_size_max [simp]: "unat size_max = 18446744073709551615"
  by (simp add: unsigned_minus_1_eq_mask mask_eq_exp_minus_1)

lemma unat_add_small [word_to_nat]:
  "unat x + unat y < 18446744073709551616 \<Longrightarrow> unat (x + y :: size_t) = unat x + unat y"
  by (simp add: unat_word_ariths)

lemma unat_sub_le [word_to_nat]: "y \<le> x \<Longrightarrow> unat (x - y :: 'a::len word) = unat x - unat y"
  by (simp add: unat_sub)

lemma unat_min [word_to_nat]: "unat (min x y :: 'a::len word) = min (unat x) (unat y)"
  by (simp add: min_def word_le_nat_alt)

lemma unat_max [word_to_nat]: "unat (max x y :: 'a::len word) = max (unat x) (unat y)"
  by (simp add: max_def word_le_nat_alt)

lemma unat_pos_iff: "0 < unat (x :: 'a::len word) \<longleftrightarrow> 0 < x"
  by (simp add: unat_gt_0 word_neq_0_conv)

lemma unat_word_eq_iff: "(x :: 'a::len word) = y \<longleftrightarrow> unat x = unat y"
  by (simp add: word_unat_eq_iff)

text \<open>The overflow test \<open>total > max - x\<close> of the sources is exact.\<close>

lemma add_overflow_iff:
  "size_max - y < x \<longleftrightarrow> 18446744073709551616 \<le> unat x + unat (y :: size_t)"
proof -
  have "unat (size_max - y) = 18446744073709551615 - unat y"
    by (subst unat_sub_le) auto
  then show ?thesis
    using unat_lt64 [of y] by (auto simp: word_less_nat_alt simp del: unat_lt64)
qed

lemma unat_sum_list:
  "sum_list (map unat xs) < 18446744073709551616 \<Longrightarrow>
    unat (sum_list xs :: size_t) = sum_list (map unat xs)"
  by (induction xs) (auto simp: word_to_nat)

section \<open>Contiguous layouts\<close>

text \<open>
  A segment is a piece of a read: a file offset, a number of bytes and the address the bytes
  go to. \<open>lay off dst sizes\<close> is the list of segments of the given sizes that starts at file
  offset \<open>off\<close> and address \<open>dst\<close> and advances both by the size of each piece: the shape that
  coalescing, the division between workers, the tasks of a batch and the chunks of an object
  read all have.
\<close>

type_synonym segment = "size_t \<times> size_t \<times> ptr"

fun lay :: "size_t \<Rightarrow> ptr \<Rightarrow> size_t list \<Rightarrow> segment list" where
  "lay off dst [] = []"
| "lay off dst (s # ss) = (off, s, dst) # lay (off + s) (dst + s) ss"

lemma length_lay [simp, layout]: "length (lay off dst ss) = length ss"
  by (induction ss arbitrary: off dst) auto

lemma lay_append [layout]:
  "lay off dst (xs @ ys) = lay off dst xs @ lay (off + sum_list xs) (dst + sum_list xs) ys"
  by (induction xs arbitrary: off dst) (auto simp: add.assoc)

lemma lay_sizes [simp, layout]: "map (\<lambda>(off, s, dst). s) (lay off dst ss) = ss"
  by (induction ss arbitrary: off dst) auto

lemma lay_nth:
  "i < length ss \<Longrightarrow>
    lay off dst ss ! i = (off + sum_list (take i ss), ss ! i, dst + sum_list (take i ss))"
proof (induction ss arbitrary: off dst i)
  case (Cons s ss)
  then show ?case by (cases i) (auto simp: add.assoc)
qed simp

lemma lay_eq_Nil [simp, layout]: "lay off dst ss = [] \<longleftrightarrow> ss = []"
  by (cases ss) auto

definition seg_bytes :: "segment list \<Rightarrow> nat" where
  "seg_bytes xs = sum_list (map (\<lambda>(off, s, dst). unat s) xs)"

lemma seg_bytes_simps [simp]:
  "seg_bytes [] = 0"
  "seg_bytes ((off, s, dst) # xs) = unat s + seg_bytes xs"
  "seg_bytes (xs @ ys) = seg_bytes xs + seg_bytes ys"
  by (simp_all add: seg_bytes_def)

lemma seg_bytes_lay [simp, layout]: "seg_bytes (lay off dst ss) = sum_list (map unat ss)"
  by (induction ss arbitrary: off dst) auto

section \<open>Numbered lists\<close>

text \<open>\<open>number f i xs\<close> labels the elements of \<open>xs\<close> with \<open>f\<close> and the indices \<open>i, i + 1, ...\<close>\<close>

fun number :: "'f \<Rightarrow> nat \<Rightarrow> 'a list \<Rightarrow> ('f \<times> nat \<times> 'a) list" where
  "number f i [] = []"
| "number f i (x # xs) = (f, i, x) # number f (Suc i) xs"

lemma number_append [simp]:
  "number f i (xs @ ys) = number f i xs @ number f (i + length xs) ys"
  by (induction xs arbitrary: i) auto

lemma length_number [simp]: "length (number f i xs) = length xs"
  by (induction xs arbitrary: i) auto

lemma map_number_label [simp]: "map (\<lambda>(f, i, x). (f, i)) (number g i xs) = map (Pair g) [i..<i + length xs]"
  by (induction xs arbitrary: i) (auto simp: upt_rec)

lemma map_number_value [simp]: "map (\<lambda>(f, i, x). x) (number g i xs) = xs"
  by (induction xs arbitrary: i) auto

section \<open>Lists\<close>

lemma last_index_update:
  "i = length xs - 1 \<Longrightarrow> xs \<noteq> [] \<Longrightarrow> xs[i := x] = butlast xs @ [x]"
  by (cases xs rule: rev_cases) (auto simp: list_update_append)

lemma sum_list_list_update_nat:
  fixes f :: "'a \<Rightarrow> nat"
  assumes "i < length xs"
  shows "sum_list (map f (xs[i := x])) + f (xs ! i) = sum_list (map f xs) + f x"
  using assms
proof (induction xs arbitrary: i)
  case (Cons y ys)
  then show ?case by (cases i) auto
qed simp

lemma sum_list_drop_nth:
  fixes f :: "'a \<Rightarrow> nat"
  assumes "i < length xs"
  shows "sum_list (map f (drop i xs)) = f (xs ! i) + sum_list (map f (drop (Suc i) xs))"
  using assms by (subst Cons_nth_drop_Suc [symmetric]) auto

lemma sum_list_list_update_group:
  fixes f :: "'a \<Rightarrow> 'b::ab_group_add"
  assumes "i < length xs"
  shows "sum_list (map f (xs[i := x])) = sum_list (map f xs) - f (xs ! i) + f x"
  using assms
proof (induction xs arbitrary: i)
  case (Cons y ys)
  then show ?case by (cases i) (auto simp: algebra_simps)
qed simp

lemma sum_list_replicate_word:
  "sum_list (replicate n (x :: 'a::len word)) = of_nat n * x"
  by (induction n) (auto simp: algebra_simps)

end
