(* ===== verification/ResponseCodes.thy ===== *)
theory ResponseCodes
  imports Prelude
begin

text \<open>
  The response codes every layer reports (\<open>common/response_code\<close>), the exceptions the code
  throws (\<open>common/exception\<close> and the fatal logging macros of \<open>utils/logging\<close>), and the two
  response records (\<open>common/response\<close> and \<open>common/backend_api/response\<close>).
\<close>

section \<open>Response codes\<close>

datatype response_code =
    Success
  | FinishedError
  | FileAccessError
  | EofError
  | S3NotSupported
  | GlibcPrerequisite
  | InsufficientFdLimit
  | InvalidParameterError
  | EmptyRequestError
  | BusyError
  | CaFileNotFound
  | UnknownError
  | ObjPluginLoadError
  | GCSNotSupported
  | AzureBlobNotSupported
  | FileTruncatedError
  | TimedOut
  | UnsupportedBackendMix
  | CredentialsAlreadySet
  | RC_Max

text \<open>The value of each enumerator, \<open>static_cast<int>(code)\<close>.\<close>

fun code_value :: "response_code \<Rightarrow> int" where
  "code_value Success = 0"
| "code_value FinishedError = 1"
| "code_value FileAccessError = 2"
| "code_value EofError = 3"
| "code_value S3NotSupported = 4"
| "code_value GlibcPrerequisite = 5"
| "code_value InsufficientFdLimit = 6"
| "code_value InvalidParameterError = 7"
| "code_value EmptyRequestError = 8"
| "code_value BusyError = 9"
| "code_value CaFileNotFound = 10"
| "code_value UnknownError = 11"
| "code_value ObjPluginLoadError = 12"
| "code_value GCSNotSupported = 13"
| "code_value AzureBlobNotSupported = 14"
| "code_value FileTruncatedError = 15"
| "code_value TimedOut = 16"
| "code_value UnsupportedBackendMix = 17"
| "code_value CredentialsAlreadySet = 18"
| "code_value RC_Max = 19"

definition enumerators :: "response_code list" where
  "enumerators = [Success, FinishedError, FileAccessError, EofError, S3NotSupported,
     GlibcPrerequisite, InsufficientFdLimit, InvalidParameterError, EmptyRequestError, BusyError,
     CaFileNotFound, UnknownError, ObjPluginLoadError, GCSNotSupported, AzureBlobNotSupported,
     FileTruncatedError, TimedOut, UnsupportedBackendMix, CredentialsAlreadySet]"

text \<open>
  \<open>response_code_from\<close>: a value outside the enumeration reaches a \<open>throw;\<close> with no exception
  in flight, which ends the process; that is \<open>None\<close> here.
\<close>

definition response_code_from :: "int \<Rightarrow> response_code option" where
  "response_code_from value =
     (if value < 0 \<or> code_value RC_Max \<le> value then None else Some (enumerators ! nat value))"

definition response_invalid :: string where
  "response_invalid = ''Invalid response code''"

definition messages :: "string list" where
  "messages = [
     ''Request sent successfuly'',
     ''Finished all responses'',
     ''File access error'',
     ''End of file reached'',
     ''S3 not supported'',
     ''GLIBC version should be at least 2.29'',
     ''Increase process fd limit or decrease the concurrency level. Recommended value for the streamer alone is the concurrency multiplied by 64, in addition to your application fd usage'',
     ''Invalid request parameters'',
     ''Empty request parameters'',
     ''Streamer is handling previous request'',
     ''CA bundle file not found'',
     ''Unknown Error'',
     ''Error loading object storage plugin'',
     ''GCS not supported'',
     ''Azure Blob not supported'',
     ''Object storage returned an unexpected number of bytes for the requested range (truncated or over-length response)'',
     ''Timed out waiting for a response'',
     ''Streamer is locked to a single object-storage backend (S3/GCS/Azure); mixing object-storage backends in one streamer or submission is not supported'',
     ''Credentials were already set to a different value; create a new streamer to use different credentials'']"

definition description :: "int \<Rightarrow> string" where
  "description response_code =
     (if response_code < 0 \<or> code_value RC_Max \<le> response_code then response_invalid
      else messages ! nat response_code)"

lemma enumerators_nth: "c \<noteq> RC_Max \<Longrightarrow> enumerators ! nat (code_value c) = c"
  by (cases c) (simp_all add: enumerators_def)

lemma length_messages: "int (length messages) = code_value RC_Max"
  by (simp add: messages_def)

lemma code_value_range: "c \<noteq> RC_Max \<Longrightarrow> 0 \<le> code_value c \<and> code_value c < code_value RC_Max"
  by (cases c) simp_all

section \<open>Exceptions\<close>

text \<open>
  \<open>CommonException c\<close> is a \<open>common::Exception\<close> carrying a code, \<open>StdException\<close> the plain
  \<open>std::exception\<close> (or \<open>std::system_error\<close>) that a failed \<open>ASSERT\<close> or \<open>PASSERT\<close> throws, and
  \<open>Trap\<close> a hardware trap that no handler catches (an integer division by zero).
\<close>

datatype exn = CommonException response_code | StdException | Trap

text \<open>What a handler \<open>catch (const common::Exception & e) ... catch (...)\<close> reports.\<close>

fun caught_code :: "exn \<Rightarrow> response_code" where
  "caught_code (CommonException c) = c"
| "caught_code StdException = UnknownError"
| "caught_code Trap = UnknownError"

text \<open>An exception that a caller learns of: it is no undefined behaviour and its code is no success.\<close>

definition thrown :: "exn \<Rightarrow> bool" where
  "thrown e \<longleftrightarrow> e \<noteq> Trap \<and> caught_code e \<noteq> Success"

lemma thrown_simps [simp]: "thrown StdException" "\<not> thrown Trap" "thrown (CommonException c) \<longleftrightarrow> c \<noteq> Success"
  by (simp_all add: thrown_def)

section \<open>Response records\<close>

text \<open>\<open>common::Response\<close>: the answer for one range of one submission.\<close>

record response =
  resp_submission_id :: submission_id
  resp_file_index :: nat
  resp_index :: nat
  resp_ret :: response_code

definition sentinel_response :: "response_code \<Rightarrow> response" where
  "sentinel_response c =
     \<lparr>resp_submission_id = 0, resp_file_index = 0, resp_index = 0, resp_ret = c\<rparr>"

text \<open>\<open>common::backend_api::Response\<close>: one completion of a storage plugin.\<close>

record backend_response =
  br_handle :: "64 word"
  br_ret :: response_code

definition sentinel_backend_response :: "response_code \<Rightarrow> backend_response" where
  "sentinel_backend_response c = \<lparr>br_handle = 0, br_ret = c\<rparr>"

end
