(* ===== verification/Env.thy ===== *)
theory Env
  imports ResponseCodes
begin

text \<open>
  Typed environment variables (\<open>utils/env\<close>). The environment is a map from names to values;
  the numeric conversions are those of the C++ library (\<open>std::stoul\<close>, \<open>std::stoi\<close>): leading
  white space, one optional sign, decimal digits, and a conversion error when there is no digit
  or the value does not fit. Every conversion error and every failed \<open>ASSERT\<close> is a
  \<open>StdException\<close>.
\<close>

type_synonym environment = "string \<Rightarrow> string option"

section \<open>Decimal numbers of the C++ library\<close>

definition is_space :: "char \<Rightarrow> bool" where
  "is_space c \<longleftrightarrow> (let n = of_char c :: nat in n = 32 \<or> (9 \<le> n \<and> n \<le> 13))"

definition is_digit :: "char \<Rightarrow> bool" where
  "is_digit c \<longleftrightarrow> (let n = of_char c :: nat in 48 \<le> n \<and> n \<le> 57)"

definition digit_value :: "char \<Rightarrow> nat" where
  "digit_value c = of_char c - 48"

definition digits_value :: "string \<Rightarrow> nat" where
  "digits_value ds = foldl (\<lambda>n c. 10 * n + digit_value c) 0 ds"

text \<open>The sign and the rest of a number: \<open>(negative, characters read, digits)\<close>.\<close>

definition scan_number :: "string \<Rightarrow> bool \<times> nat \<times> string" where
  "scan_number s =
     (let w = length (takeWhile is_space s); r = drop w s
      in case r of
           [] \<Rightarrow> (False, w, [])
         | c # cs \<Rightarrow>
             if c = CHR ''-'' then (True, w + 1, takeWhile is_digit cs)
             else if c = CHR ''+'' then (False, w + 1, takeWhile is_digit cs)
             else (False, w, takeWhile is_digit r))"

text \<open>\<open>std::stoul\<close>: the value and the number of characters used. A minus sign negates modulo
  \<open>2 ^ 64\<close>.\<close>

definition stoul :: "string \<Rightarrow> exn + (size_t \<times> nat)" where
  "stoul s =
     (case scan_number s of (neg, k, ds) \<Rightarrow>
        if ds = [] then Inl StdException
        else if 2 ^ 64 \<le> digits_value ds then Inl StdException
        else Inr (if neg then - of_nat (digits_value ds) else of_nat (digits_value ds),
                  k + length ds))"

definition stoi :: "string \<Rightarrow> exn + (int \<times> nat)" where
  "stoi s =
     (case scan_number s of (neg, k, ds) \<Rightarrow>
        if ds = [] then Inl StdException
        else let v = (if neg then - int (digits_value ds) else int (digits_value ds)) in
             if v < - (2 ^ 31) \<or> 2 ^ 31 \<le> v then Inl StdException
             else Inr (v, k + length ds))"

section \<open>Reading variables\<close>

definition try_getenv_string :: "environment \<Rightarrow> string \<Rightarrow> string option" where
  "try_getenv_string env variable = env variable"

definition try_getenv_int :: "environment \<Rightarrow> string \<Rightarrow> exn + int option" where
  "try_getenv_int env variable =
     (case try_getenv_string env variable of
        None \<Rightarrow> Inr None
      | Some s \<Rightarrow>
          (case stoi s of
             Inl e \<Rightarrow> Inl e
           | Inr (i, idx) \<Rightarrow> if idx = length s then Inr (Some i) else Inl StdException))"

definition try_getenv_ulong :: "environment \<Rightarrow> string \<Rightarrow> exn + size_t option" where
  "try_getenv_ulong env variable =
     (case try_getenv_string env variable of
        None \<Rightarrow> Inr None
      | Some s \<Rightarrow>
          (case stoul s of
             Inl e \<Rightarrow> Inl e
           | Inr (i, idx) \<Rightarrow> if idx = length s then Inr (Some i) else Inl StdException))"

definition try_getenv_bool :: "environment \<Rightarrow> string \<Rightarrow> exn + bool option" where
  "try_getenv_bool env variable =
     (case try_getenv_int env variable of
        Inl e \<Rightarrow> Inl e
      | Inr None \<Rightarrow> Inr None
      | Inr (Some i) \<Rightarrow> Inr (Some (i \<noteq> 0)))"

definition env_exists :: "environment \<Rightarrow> string \<Rightarrow> bool" where
  "env_exists env variable \<longleftrightarrow> try_getenv_string env variable \<noteq> None"

definition getenv_string :: "environment \<Rightarrow> string \<Rightarrow> exn + string" where
  "getenv_string env variable =
     (case try_getenv_string env variable of None \<Rightarrow> Inl StdException | Some v \<Rightarrow> Inr v)"

definition getenv_int :: "environment \<Rightarrow> string \<Rightarrow> exn + int" where
  "getenv_int env variable =
     (case getenv_string env variable of
        Inl e \<Rightarrow> Inl e
      | Inr s \<Rightarrow>
          (case stoi s of
             Inl e \<Rightarrow> Inl e
           | Inr (i, idx) \<Rightarrow> if idx = length s then Inr i else Inl StdException))"

definition getenv_ulong :: "environment \<Rightarrow> string \<Rightarrow> exn + size_t" where
  "getenv_ulong env variable =
     (case getenv_string env variable of
        Inl e \<Rightarrow> Inl e
      | Inr s \<Rightarrow>
          (case stoul s of
             Inl e \<Rightarrow> Inl e
           | Inr (i, idx) \<Rightarrow> if idx = length s then Inr i else Inl StdException))"

definition getenv_bool :: "environment \<Rightarrow> string \<Rightarrow> exn + bool" where
  "getenv_bool env variable =
     (case getenv_int env variable of Inl e \<Rightarrow> Inl e | Inr i \<Rightarrow> Inr (i \<noteq> 0))"

definition getenv_int_or :: "environment \<Rightarrow> string \<Rightarrow> int \<Rightarrow> exn + int" where
  "getenv_int_or env variable def =
     (case try_getenv_string env variable of
        None \<Rightarrow> Inr def
      | Some raw \<Rightarrow>
          (case stoi raw of
             Inl e \<Rightarrow> Inl e
           | Inr (i, idx) \<Rightarrow> if idx = length raw then Inr i else Inl StdException))"

definition getenv_ulong_or :: "environment \<Rightarrow> string \<Rightarrow> size_t \<Rightarrow> exn + size_t" where
  "getenv_ulong_or env variable def =
     (case try_getenv_string env variable of
        None \<Rightarrow> Inr def
      | Some raw \<Rightarrow>
          (case stoul raw of
             Inl e \<Rightarrow> Inl e
           | Inr (i, idx) \<Rightarrow> if idx = length raw then Inr i else Inl StdException))"

definition getenv_bool_or :: "environment \<Rightarrow> string \<Rightarrow> bool \<Rightarrow> exn + bool" where
  "getenv_bool_or env variable def =
     (case getenv_int_or env variable (if def then 1 else 0) of
        Inl e \<Rightarrow> Inl e
      | Inr i \<Rightarrow> Inr (i \<noteq> 0))"

definition getenv_string_or :: "environment \<Rightarrow> string \<Rightarrow> string \<Rightarrow> string" where
  "getenv_string_or env variable def =
     (case try_getenv_string env variable of None \<Rightarrow> def | Some v \<Rightarrow> v)"

section \<open>Printing and reading back\<close>

text \<open>\<open>std::to_string\<close> on an unsigned number.\<close>

fun to_string :: "nat \<Rightarrow> string" where
  "to_string n =
     (if n < 10 then [char_of (48 + n)] else to_string (n div 10) @ [char_of (48 + n mod 10)])"

declare to_string.simps [simp del]

lemma digit_char:
  assumes "d < 10"
  shows "is_digit (char_of (48 + d))" and "digit_value (char_of (48 + d)) = d"
proof -
  have "of_char (char_of (48 + d) :: char) = 48 + d"
    using assms by (simp add: of_char_of)
  with assms show "is_digit (char_of (48 + d))" and "digit_value (char_of (48 + d)) = d"
    by (simp_all add: is_digit_def digit_value_def)
qed

lemma digits_value_snoc: "digits_value (ds @ [c]) = 10 * digits_value ds + digit_value c"
  by (simp add: digits_value_def)

lemma to_string_props:
  "to_string n \<noteq> [] \<and> list_all is_digit (to_string n) \<and> digits_value (to_string n) = n"
proof (induction n rule: to_string.induct)
  case (1 n)
  show ?case
  proof (cases "n < 10")
    case True
    then show ?thesis
      using digit_char [of n] by (simp add: to_string.simps [of n] digits_value_def)
  next
    case False
    then show ?thesis
      using 1 digit_char [of "n mod 10"]
      by (simp add: to_string.simps [of n] digits_value_snoc)
  qed
qed

lemma digit_not_space: "is_digit c \<Longrightarrow> \<not> is_space c \<and> c \<noteq> CHR ''-'' \<and> c \<noteq> CHR ''+''"
  by (auto simp: is_digit_def is_space_def Let_def)

lemma scan_number_digits:
  assumes "ds \<noteq> []" and "list_all is_digit ds"
  shows "scan_number ds = (False, 0, ds)"
proof -
  obtain c cs where ds: "ds = c # cs" using assms(1) by (cases ds) auto
  with assms(2) have "\<not> is_space c" "c \<noteq> CHR ''-''" "c \<noteq> CHR ''+''"
    using digit_not_space by auto
  moreover have "takeWhile is_digit ds = ds"
    using assms(2) by (simp add: takeWhile_eq_all_conv list_all_iff)
  ultimately show ?thesis
    by (simp add: scan_number_def ds)
qed

lemma stoul_to_string:
  assumes "n < 2 ^ 64"
  shows "stoul (to_string n) = Inr (of_nat n, length (to_string n))"
  using assms to_string_props [of n] scan_number_digits [of "to_string n"]
  by (simp add: stoul_def)

text \<open>All that the readers of numbers throw are the exceptions of the library.\<close>

lemma getenv_ulong_or_error: "getenv_ulong_or env v d = Inl e \<Longrightarrow> e = StdException"
  by (auto simp: getenv_ulong_or_def stoul_def Let_def split: option.splits sum.splits prod.splits if_splits)

lemma getenv_bool_or_error: "getenv_bool_or env v d = Inl e \<Longrightarrow> e = StdException"
  by (auto simp: getenv_bool_or_def getenv_int_or_def stoi_def Let_def
      split: option.splits sum.splits prod.splits if_splits)

text \<open>A variable that holds the decimal print of a 64-bit value reads back as it.\<close>

lemma getenv_ulong_or_to_string:
  assumes "env variable = Some (to_string (unat v))"
  shows "getenv_ulong_or env variable d = Inr v"
  using assms stoul_to_string [of "unat v"]
  by (simp add: getenv_ulong_or_def try_getenv_string_def)

end
