(* ===== verification/Config.thy ===== *)
theory Config
  imports Env
begin

text \<open>
  The streamer's configuration (\<open>streamer/impl/config\<close>): the number of workers and the block
  size of each backend, taken from the environment with a default per backend and, unless a test
  asks otherwise, raised to the minimum block sizes.
\<close>

record config =
  concurrency :: uint
  s3_concurrency :: uint
  s3_block_bytesize :: size_t
  fs_block_bytesize :: size_t

definition min_fs_block_bytesize :: size_t where
  "min_fs_block_bytesize = 2 * 1024 * 1024"

text \<open>\<open>S3ClientWrapper::min_chunk_bytesize\<close> and \<open>default_chunk_bytesize\<close>.\<close>

definition min_chunk_bytesize :: size_t where
  "min_chunk_bytesize = 5 * 1024 * 1024"

definition default_chunk_bytesize :: size_t where
  "default_chunk_bytesize = 8 * 1024 * 1024"

text \<open>The constructor with explicit values.\<close>

definition config_make :: "uint \<Rightarrow> uint \<Rightarrow> size_t \<Rightarrow> size_t \<Rightarrow> bool \<Rightarrow> exn + config" where
  "config_make conc s3_conc s3_block fs_block enforce_minimum =
     (if conc = 0 then Inl StdException
      else if s3_block = 0 then Inl StdException
      else
        let s3_block' = (if enforce_minimum \<and> s3_block < min_chunk_bytesize
                         then min_chunk_bytesize else s3_block);
            fs_block' = (if enforce_minimum \<and> fs_block < min_fs_block_bytesize
                         then min_fs_block_bytesize else fs_block)
        in Inr \<lparr>concurrency = conc, s3_concurrency = s3_conc,
                s3_block_bytesize = s3_block', fs_block_bytesize = fs_block'\<rparr>)"

text \<open>
  The constructor that reads the environment. The two concurrency values are 64-bit numbers
  narrowed to \<open>unsigned\<close> by the call.
\<close>

definition config_from_env :: "environment \<Rightarrow> bool \<Rightarrow> exn + config" where
  "config_from_env env enforce_minimum =
     (case getenv_ulong_or env ''RUNAI_STREAMER_CONCURRENCY'' 16 of
        Inl e \<Rightarrow> Inl e
      | Inr conc \<Rightarrow>
          (case getenv_ulong_or env ''RUNAI_STREAMER_CONCURRENCY'' 8 of
             Inl e \<Rightarrow> Inl e
           | Inr s3_conc \<Rightarrow>
               (case getenv_ulong_or env ''RUNAI_STREAMER_CHUNK_BYTESIZE'' default_chunk_bytesize of
                  Inl e \<Rightarrow> Inl e
                | Inr s3_block \<Rightarrow>
                    (case getenv_ulong_or env ''RUNAI_STREAMER_CHUNK_BYTESIZE''
                            min_fs_block_bytesize of
                       Inl e \<Rightarrow> Inl e
                     | Inr fs_block \<Rightarrow>
                         config_make (ucast conc) (ucast s3_conc) s3_block fs_block
                           enforce_minimum))))"

definition max_concurrency :: "config \<Rightarrow> uint" where
  "max_concurrency c = max (concurrency c) (s3_concurrency c)"

section \<open>What a constructed configuration satisfies\<close>

text \<open>What the division of work and the chunking of reads need of a configuration.\<close>

definition config_ok :: "config \<Rightarrow> bool" where
  "config_ok c \<longleftrightarrow> 0 < concurrency c \<and> 0 < s3_concurrency c \<and>
     0 < s3_block_bytesize c \<and> 0 < fs_block_bytesize c"

lemma config_make_minimum:
  assumes "config_make conc s3_conc s3_block fs_block True = Inr c"
  shows "min_chunk_bytesize \<le> s3_block_bytesize c \<and> min_fs_block_bytesize \<le> fs_block_bytesize c"
  using assms by (auto simp: config_make_def Let_def not_less split: if_splits)

lemma config_make_positive:
  assumes "config_make conc s3_conc s3_block fs_block enforce = Inr c"
  shows "0 < concurrency c \<and> 0 < s3_block_bytesize c"
  using assms
  by (auto simp: config_make_def Let_def word_gt_0 min_chunk_bytesize_def split: if_splits)

text \<open>
  The environment gives both concurrency values from one variable, so they are both positive or
  the construction fails.
\<close>

lemma config_from_env_cases:
  assumes "config_from_env env enforce = Inr c"
  obtains conc s3_conc s3_block fs_block :: size_t where
    "config_make (ucast conc) (ucast s3_conc) s3_block fs_block enforce = Inr c"
    "(conc = s3_conc) \<or> (conc = 16 \<and> s3_conc = 8)"
proof -
  from assms obtain conc s3_conc s3_block fs_block where
    c: "getenv_ulong_or env ''RUNAI_STREAMER_CONCURRENCY'' 16 = Inr conc"
      "getenv_ulong_or env ''RUNAI_STREAMER_CONCURRENCY'' 8 = Inr s3_conc"
    and mk: "config_make (ucast conc) (ucast s3_conc) s3_block fs_block enforce = Inr c"
    unfolding config_from_env_def by (simp split: sum.splits)
  from c have "conc = s3_conc \<or> (conc = 16 \<and> s3_conc = 8)"
    unfolding getenv_ulong_or_def
    by (cases "try_getenv_string env ''RUNAI_STREAMER_CONCURRENCY''")
      (auto split: sum.splits prod.splits if_splits)
  with mk show thesis by (rule that)
qed

lemma config_from_env_ok:
  assumes "config_from_env env True = Inr c"
  shows "config_ok c \<and> min_chunk_bytesize \<le> s3_block_bytesize c \<and>
    min_fs_block_bytesize \<le> fs_block_bytesize c"
proof -
  from assms obtain conc s3_conc s3_block fs_block :: size_t where
    mk: "config_make (ucast conc) (ucast s3_conc) s3_block fs_block True = Inr c"
    and conc: "(conc = s3_conc) \<or> (conc = 16 \<and> s3_conc = 8)"
    by (rule config_from_env_cases)
  from config_make_minimum [OF mk]
  have blocks: "min_chunk_bytesize \<le> s3_block_bytesize c"
    "min_fs_block_bytesize \<le> fs_block_bytesize c" by auto
  then have "0 < s3_block_bytesize c" "0 < fs_block_bytesize c"
    by (auto simp: min_chunk_bytesize_def min_fs_block_bytesize_def word_less_nat_alt word_le_nat_alt)
  moreover have "0 < concurrency c"
    using config_make_positive [OF mk] by simp
  moreover have "0 < s3_concurrency c"
    using mk conc by (auto simp: config_make_def Let_def word_gt_0 split: if_splits)
  ultimately show ?thesis
    using blocks by (simp add: config_ok_def)
qed

text \<open>Property C33: a configuration read from the environment with the minimums enforced has
  positive concurrencies and block sizes, and blocks of at least 5 MiB for object storage and
  2 MiB for files, whatever the variables hold.\<close>

theorem config_from_env_valid:
  assumes "config_from_env env True = Inr c"
  shows "config_ok c \<and> min_chunk_bytesize \<le> s3_block_bytesize c \<and>
    min_fs_block_bytesize \<le> fs_block_bytesize c"
  using assms by (rule config_from_env_ok)

theorem config_from_env_valid_witness:
  "\<exists>c. config_from_env (\<lambda>v. None) True = Inr c \<and> config_ok c \<and> concurrency c = 16 \<and>
     s3_concurrency c = 8"
proof -
  let ?c = "\<lparr>concurrency = 16, s3_concurrency = 8, s3_block_bytesize = default_chunk_bytesize,
             fs_block_bytesize = min_fs_block_bytesize\<rparr>"
  have "config_from_env (\<lambda>v. None) True = Inr ?c"
    by (simp add: config_from_env_def getenv_ulong_or_def try_getenv_string_def config_make_def
        min_chunk_bytesize_def default_chunk_bytesize_def min_fs_block_bytesize_def)
  with config_from_env_valid [OF this] show ?thesis by auto
qed

end
