(* ===== verification/FileReader.thy ===== *)
theory FileReader
  imports Config
begin

text \<open>
  Reading files: the descriptor loops of \<open>utils/fd\<close> and the file reader on top of them
  (\<open>streamer/impl/file\<close>). The system calls are parameters on an abstract state; what the loops
  rely on of \<open>read(2)\<close> is the predicate \<open>posix_file\<close>. Memory maps addresses to bytes.
\<close>

type_synonym byte = "8 word"
type_synonym memory = "ptr \<Rightarrow> byte"

section \<open>Memory\<close>

fun write_bytes :: "memory \<Rightarrow> ptr \<Rightarrow> byte list \<Rightarrow> memory" where
  "write_bytes mem p [] = mem"
| "write_bytes mem p (b # bs) = write_bytes (mem(p := b)) (p + 1) bs"

definition mem_bytes :: "memory \<Rightarrow> ptr \<Rightarrow> nat \<Rightarrow> byte list" where
  "mem_bytes mem p n = map (\<lambda>i. mem (p + of_nat i)) [0..<n]"

text \<open>The addresses of a buffer.\<close>

definition buffer_addrs :: "ptr \<Rightarrow> nat \<Rightarrow> ptr set" where
  "buffer_addrs p n = {p + of_nat i | i. i < n}"

lemma buffer_addrs_mono: "m \<le> n \<Longrightarrow> buffer_addrs p m \<subseteq> buffer_addrs p n"
  by (auto simp: buffer_addrs_def)

lemma of_nat_inj64:
  "i < 18446744073709551616 \<Longrightarrow> j < 18446744073709551616 \<Longrightarrow> of_nat i = (of_nat j :: 64 word) \<longleftrightarrow> i = j"
  by (simp add: word_unat_eq_iff unat_of_nat)

lemma write_bytes_outside:
  "a \<notin> buffer_addrs p (length bs) \<Longrightarrow> write_bytes mem p bs a = mem a"
proof (induction mem p bs rule: write_bytes.induct)
  case (2 mem p b bs)
  have "a \<noteq> p + of_nat i" if "i < Suc (length bs)" for i
    using "2.prems" that unfolding buffer_addrs_def by auto
  from this [of 0] this [of "Suc i" for i] have "a \<noteq> p"
    and "\<And>i. i < length bs \<Longrightarrow> a \<noteq> p + 1 + of_nat i"
    by (auto simp: add.assoc)
  then have "a \<noteq> p" and "a \<notin> buffer_addrs (p + 1) (length bs)"
    unfolding buffer_addrs_def by blast+
  then show ?case
    unfolding write_bytes.simps using "2.IH" by (metis fun_upd_other)
qed simp

lemma write_bytes_inside:
  "length bs < 18446744073709551616 \<Longrightarrow> i < length bs \<Longrightarrow> write_bytes mem p bs (p + of_nat i) = bs ! i"
proof (induction mem p bs arbitrary: i rule: write_bytes.induct)
  case (2 mem p b bs)
  show ?case
  proof (cases i)
    case 0
    have "p \<noteq> p + 1 + of_nat j" if "j < length bs" for j
    proof -
      have "of_nat (Suc j) \<noteq> (of_nat 0 :: 64 word)"
        using "2.prems"(1) that by (subst of_nat_inj64) auto
      then show ?thesis by (simp add: add.assoc)
    qed
    then have "p \<notin> buffer_addrs (p + 1) (length bs)"
      unfolding buffer_addrs_def by blast
    then show ?thesis using 0 by (simp add: write_bytes_outside)
  next
    case (Suc j)
    have "p + of_nat (Suc j) = p + 1 + of_nat j" by simp
    moreover have "write_bytes (mem(p := b)) (p + 1) bs (p + 1 + of_nat j) = bs ! j"
      using "2.prems" Suc by (intro "2.IH") auto
    ultimately show ?thesis
      unfolding write_bytes.simps Suc by (metis nth_Cons_Suc)
  qed
qed simp

lemma length_mem_bytes [simp]: "length (mem_bytes mem p n) = n"
  by (simp add: mem_bytes_def)

lemma mem_bytes_write_same:
  "length bs < 18446744073709551616 \<Longrightarrow> mem_bytes (write_bytes mem p bs) p (length bs) = bs"
  by (rule nth_equalityI) (auto simp: mem_bytes_def write_bytes_inside)

lemma mem_bytes_cong:
  "(\<And>a. a \<in> buffer_addrs p n \<Longrightarrow> mem a = mem' a) \<Longrightarrow> mem_bytes mem p n = mem_bytes mem' p n"
  unfolding mem_bytes_def buffer_addrs_def by (intro map_cong refl) auto

lemma mem_bytes_split:
  "mem_bytes mem p (m + n) = mem_bytes mem p m @ mem_bytes mem (p + of_nat m) n"
proof (induction n)
  case (Suc n)
  have "mem_bytes mem p (Suc k) = mem_bytes mem p k @ [mem (p + of_nat k)]" for p k
    by (simp add: mem_bytes_def)
  then show ?case
    using Suc by (simp add: add.assoc)
qed (simp add: mem_bytes_def)

text \<open>Two parts of a buffer that does not wrap do not overlap.\<close>

lemma buffer_disjoint:
  assumes "m + n < 18446744073709551616"
  shows "buffer_addrs p m \<inter> buffer_addrs (p + of_nat m) n = {}"
proof -
  have "p + of_nat i \<noteq> p + of_nat m + of_nat j" if "i < m" "j < n" for i j
  proof -
    have "of_nat i \<noteq> (of_nat (m + j) :: 64 word)"
      using assms that by (subst of_nat_inj64) auto
    then show ?thesis by (simp add: add.assoc)
  qed
  then show ?thesis unfolding buffer_addrs_def by blast
qed

lemma mem_bytes_write_after:
  assumes "m + length bs < 18446744073709551616"
  shows "mem_bytes (write_bytes mem (p + of_nat m) bs) p m = mem_bytes mem p m"
  using buffer_disjoint [OF assms, of p]
  by (intro mem_bytes_cong write_bytes_outside) blast

section \<open>\<open>Fd::read\<close>\<close>

datatype read_mode = Exactly | UpTo | Eof

text \<open>
  One answer of \<open>_os_read\<close>: interrupted by a signal, failed, or the bytes read (none at the end of
  the file). The system call takes the state of the descriptor and the number of bytes asked for.
\<close>

datatype os_result = OsInterrupted | OsFailed | OsData "byte list"

type_synonym 'os os_read = "'os \<Rightarrow> size_t \<Rightarrow> os_result \<times> 'os"

definition fd_read_end :: "read_mode \<Rightarrow> size_t \<Rightarrow> size_t \<Rightarrow> exn + size_t" where
  "fd_read_end mode n tot = (if mode = Exactly \<and> tot \<noteq> n then Inl StdException else Inr tot)"

text \<open>The loop, from \<open>tot\<close> bytes read so far; \<open>None\<close> is a read that is interrupted forever.\<close>

partial_function (option) fd_read_loop ::
  "('os \<Rightarrow> size_t \<Rightarrow> os_result \<times> 'os) \<Rightarrow> size_t \<Rightarrow> ptr \<Rightarrow> read_mode \<Rightarrow> size_t \<Rightarrow> size_t \<Rightarrow> 'os \<Rightarrow>
    memory \<Rightarrow> ((exn + size_t) \<times> 'os \<times> memory) option" where
  "fd_read_loop os_read n data mode chunk tot s mem =
     (if tot < n then
        (case os_read s (min chunk (n - tot)) of
           (OsInterrupted, s') \<Rightarrow> fd_read_loop os_read n data mode chunk tot s' mem
         | (OsFailed, s') \<Rightarrow> Some (Inl StdException, s', mem)
         | (OsData bs, s') \<Rightarrow>
             if bs = [] then
               Some (if mode = Eof then fd_read_end mode n tot else Inl StdException, s', mem)
             else
               let mem' = write_bytes mem (data + tot) bs; tot' = tot + of_nat (length bs) in
               if mode = UpTo then Some (fd_read_end mode n tot', s', mem')
               else fd_read_loop os_read n data mode chunk tot' s' mem')
      else Some (fd_read_end mode n tot, s, mem))"

declare fd_read_loop.simps [code]

definition fd_read ::
  "('os \<Rightarrow> size_t \<Rightarrow> os_result \<times> 'os) \<Rightarrow> size_t \<Rightarrow> ptr \<Rightarrow> read_mode \<Rightarrow> size_t \<Rightarrow> 'os \<Rightarrow> memory \<Rightarrow>
    ((exn + size_t) \<times> 'os \<times> memory) option" where
  "fd_read os_read n data mode chunk s mem = fd_read_loop os_read n data mode chunk 0 s mem"

text \<open>\<open>Fd::write\<close>: the answer of \<open>_os_write\<close> is the number of bytes taken.\<close>

datatype os_written = OsWriteInterrupted | OsWriteFailed | OsWritten nat

partial_function (option) fd_write_loop ::
  "('os \<Rightarrow> byte list \<Rightarrow> os_written \<times> 'os) \<Rightarrow> byte list \<Rightarrow> nat \<Rightarrow> nat \<Rightarrow> 'os \<Rightarrow>
    ((exn + unit) \<times> 'os) option" where
  "fd_write_loop os_write bs chunk tot s =
     (if tot < length bs then
        (case os_write s (take (min chunk (length bs - tot)) (drop tot bs)) of
           (OsWriteInterrupted, s') \<Rightarrow> fd_write_loop os_write bs chunk tot s'
         | (OsWriteFailed, s') \<Rightarrow> Some (Inl StdException, s')
         | (OsWritten k, s') \<Rightarrow>
             if k = 0 then Some (Inl StdException, s')
             else fd_write_loop os_write bs chunk (tot + k) s')
      else Some (if tot = length bs then Inr () else Inl StdException, s))"

declare fd_write_loop.simps [code]

text \<open>
  \<open>Fd::seek\<close>: \<open>fsize\<close> is the answer of \<open>fstat\<close>, or \<open>None\<close> when it fails, and \<open>lseek\<close> answers with
  the descriptor's new state, or \<open>None\<close>.
\<close>

definition fd_seek ::
  "('os \<Rightarrow> size_t option) \<Rightarrow> ('os \<Rightarrow> size_t \<Rightarrow> 'os option) \<Rightarrow> size_t \<Rightarrow> 'os \<Rightarrow> exn + 'os" where
  "fd_seek fsize lseek offset s =
     (case fsize s of
        None \<Rightarrow> Inl StdException
      | Some k \<Rightarrow>
          if k < offset then Inl StdException
          else (case lseek s offset of None \<Rightarrow> Inl StdException | Some s' \<Rightarrow> Inr s'))"

section \<open>The file reader\<close>

text \<open>The system calls of a file: opening, its size, seeking and reading.\<close>

record 'os file_system =
  fs_open :: "string \<Rightarrow> 'os option"
  fs_size :: "'os \<Rightarrow> size_t option"
  fs_lseek :: "'os \<Rightarrow> size_t \<Rightarrow> 'os option"
  fs_read :: "'os \<Rightarrow> size_t \<Rightarrow> os_result \<times> 'os"

definition file_open :: "'os file_system \<Rightarrow> string \<Rightarrow> exn + 'os" where
  "file_open fs path =
     (case fs_open fs path of
        None \<Rightarrow> Inl (CommonException FileAccessError) | Some s \<Rightarrow> Inr s)"

definition file_seek :: "'os file_system \<Rightarrow> size_t \<Rightarrow> 'os \<Rightarrow> exn + 'os" where
  "file_seek fs offset s =
     (case fd_seek (fs_size fs) (fs_lseek fs) offset s of
        Inl e \<Rightarrow> Inl (CommonException EofError) | Inr s' \<Rightarrow> Inr s')"

definition file_read ::
  "'os file_system \<Rightarrow> size_t \<Rightarrow> size_t \<Rightarrow> ptr \<Rightarrow> 'os \<Rightarrow> memory \<Rightarrow>
    ((exn + unit) \<times> 'os \<times> memory) option" where
  "file_read fs block bytesize buffer s mem =
     (case fd_read (fs_read fs) bytesize buffer Eof block s mem of
        None \<Rightarrow> None
      | Some (Inl e, s', mem') \<Rightarrow> Some (Inl (CommonException FileAccessError), s', mem')
      | Some (Inr result, s', mem') \<Rightarrow>
          if result \<noteq> bytesize then Some (Inl (CommonException EofError), s', mem')
          else Some (Inr (), s', mem'))"

text \<open>\<open>File::async_read\<close> and \<open>File::async_response\<close> are not implemented.\<close>

definition file_async :: "exn + response_code" where
  "file_async = Inl (CommonException UnknownError)"

section \<open>What the loop relies on\<close>

text \<open>
  \<open>read(2)\<close> on a file with the given content: it delivers the next bytes, at most as many as asked
  for and none only at the end (or when none are asked for), and moves the offset past them; a
  failure or a signal moves nothing. \<open>pos\<close> is the offset and \<open>patience\<close> bounds the number of
  signals that can still interrupt it.
\<close>

definition posix_read ::
  "'os os_read \<Rightarrow> byte list \<Rightarrow> ('os \<Rightarrow> nat) \<Rightarrow> ('os \<Rightarrow> nat) \<Rightarrow> bool" where
  "posix_read os_read content pos patience \<longleftrightarrow>
     (\<forall>s n. case os_read s n of
        (OsInterrupted, s') \<Rightarrow> pos s' = pos s \<and> patience s' < patience s
      | (OsFailed, s') \<Rightarrow> pos s' = pos s
      | (OsData bs, s') \<Rightarrow>
          length bs \<le> unat n \<and> bs = take (length bs) (drop (pos s) content) \<and>
          pos s' = pos s + length bs \<and> (bs = [] \<longrightarrow> n = 0 \<or> length content \<le> pos s))"

text \<open>
  The outcome of a read to the end of the file or of the buffer: a prefix of what the file holds
  is in the buffer and nothing else changed, and it is a full prefix unless the system call
  failed or the file ended.
\<close>

definition read_outcome ::
  "byte list \<Rightarrow> ('os \<Rightarrow> nat) \<Rightarrow> 'os \<Rightarrow> size_t \<Rightarrow> ptr \<Rightarrow> memory \<Rightarrow> (exn + size_t) \<times> 'os \<times> memory \<Rightarrow> bool" where
  "read_outcome content pos s n data mem out \<longleftrightarrow> (case out of (r, s', mem') \<Rightarrow>
     \<exists>k \<le> unat n.
       pos s' = pos s + k \<and>
       mem_bytes mem' data k = take k (drop (pos s) content) \<and>
       (\<forall>a. a \<notin> buffer_addrs data k \<longrightarrow> mem' a = mem a) \<and>
       (case r of
          Inl e \<Rightarrow> e = StdException
        | Inr result \<Rightarrow> result = of_nat k \<and> (k = unat n \<or> length content \<le> pos s + k)))"

lemma posix_read_cases:
  assumes "posix_read os_read content pos patience" and "os_read s n = (r, s')"
  shows "r = OsInterrupted \<Longrightarrow> pos s' = pos s \<and> patience s' < patience s"
    and "r = OsFailed \<Longrightarrow> pos s' = pos s"
    and "r = OsData bs \<Longrightarrow> length bs \<le> unat n \<and> bs = take (length bs) (drop (pos s) content) \<and>
          pos s' = pos s + length bs \<and> (bs = [] \<longrightarrow> n = 0 \<or> length content \<le> pos s)"
  using assms(1) [unfolded posix_read_def, rule_format, of s n] assms(2) by auto

lemma fd_read_loop_spec:
  assumes posix: "posix_read os_read content pos patience" and chunk: "0 < chunk"
    and "unat tot \<le> unat n" and "pos s = pos s0 + unat tot"
    and "mem_bytes mem data (unat tot) = take (unat tot) (drop (pos s0) content)"
    and "\<forall>a. a \<notin> buffer_addrs data (unat tot) \<longrightarrow> mem a = mem0 a"
  shows "\<exists>out. fd_read_loop os_read n data Eof chunk tot s mem = Some out \<and>
    read_outcome content pos s0 n data mem0 out"
  using assms(3-)
proof (induction x \<equiv> "(unat n - unat tot, patience s)" arbitrary: tot s mem
    rule: wf_induct_rule [OF wf_lex_prod [OF wf_less_than wf_less_than]])
  case 1
  note loop = fd_read_loop.simps [of os_read n data Eof chunk tot s mem]
  show ?case
  proof (cases "tot < n")
    case False
    then have "unat tot = unat n"
      using "1.prems"(1) by (simp add: word_less_nat_alt)
    then show ?thesis
      using False "1.prems"
      by (auto simp: loop fd_read_end_def read_outcome_def word_unat_eq_iff intro!: exI [of _ "unat n"])
  next
    case True
    let ?m = "min chunk (n - tot)"
    obtain r s' where os: "os_read s ?m = (r, s')" by fastforce
    note r = posix_read_cases [OF posix os]
    have sub: "unat (n - tot) = unat n - unat tot"
      using True by (intro unat_sub_le) simp
    have m: "unat ?m \<le> unat n - unat tot"
      unfolding unat_min sub by simp
    have "0 < unat ?m"
      unfolding unat_min sub using True chunk by (simp add: word_less_nat_alt)
    then have "?m \<noteq> 0" by auto
    show ?thesis
    proof (cases r)
      case OsInterrupted
      have "\<exists>out. fd_read_loop os_read n data Eof chunk tot s' mem = Some out \<and>
          read_outcome content pos s0 n data mem0 out"
        using r(1) [OF OsInterrupted] "1.prems" by (intro "1.hyps") auto
      then show ?thesis using True os OsInterrupted by (simp add: loop)
    next
      case OsFailed
      then show ?thesis
        using True os r(2) "1.prems"
        by (auto simp: loop read_outcome_def intro!: exI [of _ "unat tot"])
    next
      case (OsData bs)
      have bs: "length bs \<le> unat ?m" "bs = take (length bs) (drop (pos s) content)"
        "pos s' = pos s + length bs" "bs = [] \<Longrightarrow> length content \<le> pos s"
        using r(3) [OF OsData] \<open>?m \<noteq> 0\<close> by auto
      show ?thesis
      proof (cases "bs = []")
        case True
        then show ?thesis
          using \<open>tot < n\<close> os OsData bs(3,4) "1.prems"
          by (auto simp: loop fd_read_end_def read_outcome_def intro!: exI [of _ "unat tot"])
      next
        case False
        let ?tot = "tot + of_nat (length bs)" and ?mem = "write_bytes mem (data + tot) bs"
        have le: "unat tot + length bs \<le> unat n"
          using bs(1) m "1.prems"(1) by linarith
        then have small: "unat tot + length bs < 18446744073709551616"
          using unat_lt64 [of n] by linarith
        then have tot: "unat ?tot = unat tot + length bs"
          by (simp add: word_to_nat unat_of_nat)
        have data: "data + tot = data + of_nat (unat tot)" by simp
        have "mem_bytes ?mem data (unat ?tot) =
            mem_bytes ?mem data (unat tot) @ mem_bytes ?mem (data + tot) (length bs)"
          unfolding tot data by (simp only: mem_bytes_split)
        also have "\<dots> = take (unat tot) (drop (pos s0) content) @ bs"
          using small "1.prems"(3) unfolding data
          by (simp only: mem_bytes_write_after mem_bytes_write_same)
        also have "\<dots> = take (unat ?tot) (drop (pos s0) content)"
          unfolding tot take_add using bs(2) "1.prems"(2) by (simp add: add.commute)
        finally have mem: "mem_bytes ?mem data (unat ?tot) = take (unat ?tot) (drop (pos s0) content)" .
        have "\<forall>a. a \<notin> buffer_addrs data (unat ?tot) \<longrightarrow> ?mem a = mem0 a"
        proof (intro allI impI)
          fix a assume a: "a \<notin> buffer_addrs data (unat ?tot)"
          have "a \<noteq> data + tot + of_nat i" if "i < length bs" for i
          proof -
            have "unat tot + i < unat ?tot" using tot that by simp
            then have "a \<noteq> data + of_nat (unat tot + i)"
              using a unfolding buffer_addrs_def by blast
            then show ?thesis by (simp add: add.assoc)
          qed
          then have "?mem a = mem a"
            by (intro write_bytes_outside) (auto simp: buffer_addrs_def)
          then show "?mem a = mem0 a"
            using a "1.prems"(4) buffer_addrs_mono [of "unat tot" "unat ?tot" data] tot by auto
        qed
        moreover have "0 < length bs"
          using False by simp
        then have "unat n - unat ?tot < unat n - unat tot"
          using le tot by linarith
        ultimately have "\<exists>out. fd_read_loop os_read n data Eof chunk ?tot s' ?mem = Some out \<and>
            read_outcome content pos s0 n data mem0 out"
          using le tot mem bs(3) "1.prems"(2) by (intro "1.hyps") simp_all
        then show ?thesis
          using \<open>tot < n\<close> os OsData False by (simp add: loop Let_def)
      qed
    qed
  qed
qed

section \<open>The reader interface\<close>

text \<open>
  \<open>Reader\<close> as the batches use it: seek once, then read piece after piece. A reader of \<open>content\<close>
  delivers the bytes at its position, writes nothing outside of the buffer, always returns, and
  reports one of two errors.
\<close>

locale reader =
  fixes seek :: "size_t \<Rightarrow> 'r \<Rightarrow> exn + 'r"
    and read :: "size_t \<Rightarrow> ptr \<Rightarrow> 'r \<Rightarrow> memory \<Rightarrow> ((exn + unit) \<times> 'r \<times> memory) option"
    and content :: "byte list"
    and pos :: "'r \<Rightarrow> nat"
  assumes seek_moves: "seek offset s = Inr s' \<Longrightarrow> pos s' = unat offset"
    and seek_error: "seek offset s = Inl e \<Longrightarrow> e = CommonException EofError"
    and read_returns: "\<exists>r s' mem'. read n buffer s mem = Some (r, s', mem')"
    and read_keeps: "read n buffer s mem = Some (r, s', mem') \<Longrightarrow> a \<notin> buffer_addrs buffer (unat n) \<Longrightarrow>
      mem' a = mem a"
    and read_delivers: "read n buffer s mem = Some (Inr u, s', mem') \<Longrightarrow>
      pos s' = pos s + unat n \<and> mem_bytes mem' buffer (unat n) = take (unat n) (drop (pos s) content)"
    and read_error: "read n buffer s mem = Some (Inl e, s', mem') \<Longrightarrow>
      e = CommonException FileAccessError \<or>
      e = CommonException EofError \<and> length content < pos s + unat n"

text \<open>What a file's system calls must satisfy.\<close>

definition posix_file ::
  "'os file_system \<Rightarrow> byte list \<Rightarrow> ('os \<Rightarrow> nat) \<Rightarrow> ('os \<Rightarrow> nat) \<Rightarrow> bool" where
  "posix_file fs content pos patience \<longleftrightarrow>
     posix_read (fs_read fs) content pos patience \<and>
     (\<forall>s k s'. fs_lseek fs s k = Some s' \<longrightarrow> pos s' = unat k)"

lemma posix_file_read:
  assumes "posix_file fs content pos patience" and "0 < block"
  shows "\<exists>r s' mem'. file_read fs block n buffer s mem = Some (r, s', mem') \<and>
    (\<forall>a. a \<notin> buffer_addrs buffer (unat n) \<longrightarrow> mem' a = mem a) \<and>
    (case r of
       Inl e \<Rightarrow> e = CommonException FileAccessError \<or>
         e = CommonException EofError \<and> length content < pos s + unat n
     | Inr u \<Rightarrow> pos s' = pos s + unat n \<and>
         mem_bytes mem' buffer (unat n) = take (unat n) (drop (pos s) content))"
proof -
  have "\<exists>out. fd_read (fs_read fs) n buffer Eof block s mem = Some out \<and>
      read_outcome content pos s n buffer mem out"
    unfolding fd_read_def
    using assms by (intro fd_read_loop_spec [where patience = patience])
      (auto simp: posix_file_def mem_bytes_def)
  then obtain r s' mem' where
    rd: "fd_read (fs_read fs) n buffer Eof block s mem = Some (r, s', mem')"
    and out: "read_outcome content pos s n buffer mem (r, s', mem')"
    by (metis prod_cases3)
  from out obtain k where k: "k \<le> unat n" "pos s' = pos s + k"
    "mem_bytes mem' buffer k = take k (drop (pos s) content)"
    "\<forall>a. a \<notin> buffer_addrs buffer k \<longrightarrow> mem' a = mem a"
    and r: "\<And>result. r = Inr result \<Longrightarrow> result = of_nat k \<and> (k = unat n \<or> length content \<le> pos s + k)"
    unfolding read_outcome_def by (cases r) auto
  have keep: "\<forall>a. a \<notin> buffer_addrs buffer (unat n) \<longrightarrow> mem' a = mem a"
    using k(4) buffer_addrs_mono [OF k(1), of buffer] by blast
  have "k = unat n" if "r = Inr n"
  proof -
    have "k < 18446744073709551616"
      using k(1) unat_lt64 [of n] by linarith
    then show ?thesis using r [OF that] by (simp add: unat_of_nat)
  qed
  moreover have "length content < pos s + unat n" if "r = Inr result" "result \<noteq> n" for result
    using r [OF that(1)] that(2) k(1) by (cases "k = unat n") auto
  ultimately show ?thesis
    using rd keep k by (cases r) (auto simp: file_read_def)
qed

lemma file_is_reader:
  assumes "posix_file fs content pos patience" and "0 < block"
  shows "reader (file_seek fs) (file_read fs block) content pos"
proof
  show "pos s' = unat offset" if "file_seek fs offset s = Inr s'" for offset s s'
    using that assms(1)
    by (auto simp: file_seek_def fd_seek_def posix_file_def split: sum.splits option.splits if_splits)
  show "e = CommonException EofError" if "file_seek fs offset s = Inl e" for offset s e
    using that by (auto simp: file_seek_def split: sum.splits)
next
  fix n buffer s mem
  show "\<exists>r s' mem'. file_read fs block n buffer s mem = Some (r, s', mem')"
    using posix_file_read [OF assms, of n buffer s mem] by blast
next
  fix n buffer s mem r s' mem' a
  assume "file_read fs block n buffer s mem = Some (r, s', mem')" "a \<notin> buffer_addrs buffer (unat n)"
  then show "mem' a = mem a"
    using posix_file_read [OF assms, of n buffer s mem] by auto
next
  fix n buffer s mem u s' mem'
  assume "file_read fs block n buffer s mem = Some (Inr u, s', mem')"
  then show "pos s' = pos s + unat n \<and>
      mem_bytes mem' buffer (unat n) = take (unat n) (drop (pos s) content)"
    using posix_file_read [OF assms, of n buffer s mem] by auto
next
  fix n buffer s mem e s' mem'
  assume "file_read fs block n buffer s mem = Some (Inl e, s', mem')"
  then show "e = CommonException FileAccessError \<or>
      e = CommonException EofError \<and> length content < pos s + unat n"
    using posix_file_read [OF assms, of n buffer s mem] by auto
qed

section \<open>A file in memory\<close>

text \<open>
  System calls on a content held in memory: the state is the offset and the number of signals
  that are still to interrupt a read, and a read delivers at most three bytes at a time.
\<close>

definition ram_read :: "byte list \<Rightarrow> nat \<times> nat \<Rightarrow> size_t \<Rightarrow> os_result \<times> (nat \<times> nat)" where
  "ram_read content st n =
     (case st of (p, i) \<Rightarrow>
        if 0 < i then (OsInterrupted, (p, i - 1))
        else let bs = take (min 3 (unat n)) (drop p content) in (OsData bs, (p + length bs, i)))"

definition ram_file :: "byte list \<Rightarrow> (nat \<times> nat) file_system" where
  "ram_file content =
     \<lparr>fs_open = (\<lambda>path. Some (0, 1)), fs_size = (\<lambda>st. Some (of_nat (length content))),
      fs_lseek = (\<lambda>st k. Some (unat k, snd st)), fs_read = ram_read content\<rparr>"

lemma ram_posix: "posix_file (ram_file content) content fst snd"
proof -
  have "take (min (length content - a) m) (drop a content) = take m (drop a content)" for a m
    by (simp add: min_def)
  moreover have "min 3 (unat n) = 0 \<longleftrightarrow> n = 0" for n :: size_t
    by (auto simp: min_def unat_eq_0)
  ultimately have "posix_read (ram_read content) content fst snd"
    by (auto simp: posix_read_def ram_read_def Let_def split: prod.splits)
  then show ?thesis
    by (simp add: posix_file_def ram_file_def)
qed

interpretation ram: reader "file_seek (ram_file content)" "file_read (ram_file content) 4"
    content fst for content
  by (rule file_is_reader [OF ram_posix]) simp

text \<open>Property C21: on any file whose system calls behave as \<open>read(2)\<close>, however the bytes are chopped
  into short reads and however often signals interrupt it, a read returns. It touches nothing
  but its buffer; a success means that the buffer holds exactly the next bytes of the file and the
  offset is past them, and an end-of-file error means that the file is too short.\<close>

theorem file_read_correct:
  assumes "posix_file fs content pos patience" and "0 < block"
  shows "\<exists>r s' mem'. file_read fs block n buffer s mem = Some (r, s', mem') \<and>
    (\<forall>a. a \<notin> buffer_addrs buffer (unat n) \<longrightarrow> mem' a = mem a) \<and>
    (case r of
       Inl e \<Rightarrow> e = CommonException FileAccessError \<or>
         e = CommonException EofError \<and> length content < pos s + unat n
     | Inr u \<Rightarrow> pos s' = pos s + unat n \<and>
         mem_bytes mem' buffer (unat n) = take (unat n) (drop (pos s) content))"
  using assms by (rule posix_file_read)

theorem file_read_correct_witness:
  "\<exists>r s' mem'. file_read (ram_file [1, 2, 3, 4, 5]) 4 2 100 (1, 1) (\<lambda>a. 0) = Some (r, s', mem') \<and>
     mem' 99 = 0 \<and> (\<forall>u. r = Inr u \<longrightarrow> mem_bytes mem' 100 2 = [2, 3])"
proof -
  have "(99 :: ptr) \<noteq> 100 + of_nat i" if "i < 2" for i
  proof -
    have "i = 0 \<or> i = 1" using that by linarith
    then show ?thesis by auto
  qed
  then have "(99 :: ptr) \<notin> buffer_addrs 100 2"
    unfolding buffer_addrs_def by blast
  moreover obtain r s' mem' where
    rd: "file_read (ram_file [1, 2, 3, 4, 5]) 4 2 100 (1, 1) (\<lambda>a. 0) = Some (r, s', mem')"
    and keep: "\<forall>a. a \<notin> buffer_addrs 100 2 \<longrightarrow> mem' a = 0"
    and r: "\<And>u. r = Inr u \<Longrightarrow> mem_bytes mem' 100 2 = [2, 3]"
    using file_read_correct [OF ram_posix [of "[1, 2, 3, 4, 5]"], of 4 2 100 "(1, 1)" "\<lambda>a. 0"]
    by (fastforce split: sum.splits)
  ultimately show ?thesis by blast
qed

end
