(* ===== verification/FileDescriptors.thy ===== *)
theory FileDescriptors
  imports FileReader "HOL-Library.Multiset"
begin

text \<open>
  The rest of \<open>utils/fd\<close>: who owns a descriptor, however \<open>Fd\<close> objects are moved and destroyed, and
  the functions that read or write a whole file. The kernel chooses the numbers of the descriptors.
\<close>

section \<open>Ownership\<close>

text \<open>
  The \<open>Fd\<close> objects of a process in the order in which they were made, with \<open>_fd\<close>, which is \<open>-1\<close> for
  none; a destroyed object is \<open>None\<close>. \<open>fw_open\<close> are the open descriptors, \<open>fw_foreign\<close> those that
  other code opened, and \<open>fw_strays\<close> counts calls of \<open>close\<close> on what is not open.
\<close>

record fd_world =
  fw_objects :: "int option list"
  fw_open :: "int set"
  fw_foreign :: "int set"
  fw_strays :: nat

definition fd_close :: "int \<Rightarrow> fd_world \<Rightarrow> fd_world" where
  "fd_close fd w =
     (if fd \<noteq> -1 then
        if fd \<in> fw_open w then w\<lparr>fw_open := fw_open w - {fd}\<rparr> else w\<lparr>fw_strays := Suc (fw_strays w)\<rparr>
      else w)"

definition fd_make :: "int \<Rightarrow> fd_world \<Rightarrow> fd_world" where
  "fd_make fd w = w\<lparr>fw_objects := fw_objects w @ [Some fd]\<rparr>"

definition fd_move :: "nat \<Rightarrow> fd_world \<Rightarrow> fd_world" where
  "fd_move i w =
     (case fw_objects w ! i of
        None \<Rightarrow> w
      | Some fd \<Rightarrow> w\<lparr>fw_objects := (fw_objects w)[i := Some (-1)] @ [Some fd]\<rparr>)"

text \<open>Assignment closes first, then takes the descriptor of the other object, which may be itself.\<close>

definition fd_assign :: "nat \<Rightarrow> nat \<Rightarrow> fd_world \<Rightarrow> fd_world" where
  "fd_assign i j w =
     (case (fw_objects w ! i, fw_objects w ! j) of
        (Some fd, Some other) \<Rightarrow>
          let w1 = fd_close fd w in w1\<lparr>fw_objects := (fw_objects w1)[i := Some other, j := Some (-1)]\<rparr>
      | _ \<Rightarrow> w)"

definition fd_destroy :: "nat \<Rightarrow> fd_world \<Rightarrow> fd_world" where
  "fd_destroy i w =
     (case fw_objects w ! i of
        None \<Rightarrow> w
      | Some fd \<Rightarrow> let w1 = fd_close fd w in w1\<lparr>fw_objects := (fw_objects w1)[i := None]\<rparr>)"

text \<open>
  Objects are made from what \<open>open\<close> returns: a number that is free, or \<open>-1\<close>. Other code of the
  process opens and closes its own descriptors, and the kernel gives the free numbers out again.
\<close>

inductive fd_step :: "fd_world \<Rightarrow> fd_world \<Rightarrow> bool" where
  opens: "0 \<le> k \<Longrightarrow> k \<notin> fw_open w \<Longrightarrow> fd_step w (fd_make k (w\<lparr>fw_open := insert k (fw_open w)\<rparr>))"
| fails: "fd_step w (fd_make (-1) w)"
| moves: "i < length (fw_objects w) \<Longrightarrow> fd_step w (fd_move i w)"
| assigns: "i < length (fw_objects w) \<Longrightarrow> j < length (fw_objects w) \<Longrightarrow> fd_step w (fd_assign i j w)"
| destroys: "i < length (fw_objects w) \<Longrightarrow> fd_step w (fd_destroy i w)"
| other_opens: "0 \<le> k \<Longrightarrow> k \<notin> fw_open w \<Longrightarrow>
    fd_step w (w\<lparr>fw_open := insert k (fw_open w), fw_foreign := insert k (fw_foreign w)\<rparr>)"
| other_closes: "k \<in> fw_foreign w \<Longrightarrow>
    fd_step w (w\<lparr>fw_open := fw_open w - {k}, fw_foreign := fw_foreign w - {k}\<rparr>)"

definition fd_start :: "int set \<Rightarrow> fd_world" where
  "fd_start opened = \<lparr>fw_objects = [], fw_open = opened, fw_foreign = opened, fw_strays = 0\<rparr>"

inductive fd_reachable :: "int set \<Rightarrow> fd_world \<Rightarrow> bool" for opened where
  start: "fd_reachable opened (fd_start opened)"
| step: "fd_reachable opened w \<Longrightarrow> fd_step w w' \<Longrightarrow> fd_reachable opened w'"

definition held :: "int option list \<Rightarrow> int list" where
  "held xs = filter (\<lambda>fd. fd \<noteq> -1) (concat (map (case_option [] (\<lambda>fd. [fd])) xs))"

lemma held_simps [simp]:
  "held [] = []"
  "held (xs @ ys) = held xs @ held ys"
  "held (None # xs) = held xs"
  "held (Some fd # xs) = (if fd = -1 then held xs else fd # held xs)"
  by (simp_all add: held_def)

lemma mset_held_update:
  assumes "i < length xs"
  shows "mset (held (xs[i := x])) + mset (held [xs ! i]) = mset (held xs) + mset (held [x])"
proof -
  have "held (xs[i := x]) = held (take i xs) @ held [x] @ held (drop (Suc i) xs)"
    using assms upd_conv_take_nth_drop [OF assms, of x] held_simps(2) [of _ "x # drop (Suc i) xs"]
      held_simps(2) [of "[x]" "drop (Suc i) xs"] by simp
  moreover have "held xs = held (take i xs) @ held [xs ! i] @ held (drop (Suc i) xs)"
    using id_take_nth_drop [OF assms] held_simps(2) [of "take i xs" "xs ! i # drop (Suc i) xs"]
      held_simps(2) [of "[xs ! i]" "drop (Suc i) xs"] by simp
  ultimately show ?thesis by simp
qed

text \<open>An empty object takes over what another one holds.\<close>

lemma held_swap:
  assumes "i < length xs" "j < length xs" "xs ! i = Some (-1)" "xs ! j = Some other"
  shows "mset (held (xs[i := Some other, j := Some (-1)])) = mset (held xs)"
proof (cases "i = j")
  case True
  then show ?thesis using assms by (metis list_update_id list_update_overwrite)
next
  case False
  then show ?thesis
    using mset_held_update [OF assms(1), of "Some other"] mset_held_update [of j "xs[i := Some other]" "Some (-1)"] assms
    by simp
qed

definition fd_inv :: "fd_world \<Rightarrow> bool" where
  "fd_inv w \<longleftrightarrow> fw_strays w = 0 \<and> distinct (held (fw_objects w)) \<and>
     fw_open w = set (held (fw_objects w)) \<union> fw_foreign w \<and>
     set (held (fw_objects w)) \<inter> fw_foreign w = {}"

lemma fd_inv_objects:
  assumes "fd_inv w" and "mset (held xs) = mset (held (fw_objects w))"
  shows "fd_inv (w\<lparr>fw_objects := xs\<rparr>)"
  using assms mset_eq_setD [OF assms(2)] mset_eq_imp_distinct_iff [OF assms(2)] by (simp add: fd_inv_def)

text \<open>Closing what an object holds and emptying the object.\<close>

lemma fd_inv_release:
  assumes inv: "fd_inv w" and i: "i < length (fw_objects w)" "fw_objects w ! i = Some fd" and x: "held [x] = []"
  shows "fd_inv ((fd_close fd w)\<lparr>fw_objects := (fw_objects w)[i := x]\<rparr>)"
proof (cases "fd = -1")
  case True
  have "mset (held ((fw_objects w)[i := x])) = mset (held (fw_objects w))"
    using mset_held_update [OF i(1), of x] i(2) True x by simp
  then show ?thesis using fd_inv_objects [OF inv] True by (simp add: fd_close_def)
next
  case False
  let ?ys = "held ((fw_objects w)[i := x])"
  have m: "mset (held (fw_objects w)) = mset (fd # ?ys)"
    using mset_held_update [OF i(1), of x] i(2) False x by simp
  have "distinct (fd # ?ys)" and set: "set (held (fw_objects w)) = insert fd (set ?ys)"
    using mset_eq_imp_distinct_iff [OF m] mset_eq_setD [OF m] inv by (simp_all add: fd_inv_def)
  then show ?thesis using inv False unfolding fd_inv_def fd_close_def set by auto
qed

lemma fd_close_objects [simp]: "fw_objects (fd_close fd w) = fw_objects w"
  by (simp add: fd_close_def)

lemma fd_inv_step: "fd_step w w' \<Longrightarrow> fd_inv w \<Longrightarrow> fd_inv w'"
proof (induction rule: fd_step.induct)
  case (opens k w)
  then show ?case by (auto simp: fd_inv_def fd_make_def)
next
  case (fails w)
  then show ?case by (simp add: fd_inv_def fd_make_def)
next
  case (moves i w)
  show ?case
  proof (cases "fw_objects w ! i")
    case (Some fd)
    have "mset (held ((fw_objects w)[i := Some (-1)] @ [Some fd])) = mset (held (fw_objects w))"
      using mset_held_update [OF moves(1), of "Some (-1)"] Some by simp
    then show ?thesis using fd_inv_objects [OF moves(2)] Some by (simp add: fd_move_def)
  qed (use moves in \<open>simp add: fd_move_def\<close>)
next
  case (assigns i w j)
  show ?case
  proof (cases "fw_objects w ! i = None \<or> fw_objects w ! j = None")
    case False
    then obtain fd other where fd: "fw_objects w ! i = Some fd" "fw_objects w ! j = Some other" by auto
    let ?w1 = "(fd_close fd w)\<lparr>fw_objects := (fw_objects w)[i := Some (-1)]\<rparr>"
    have inv1: "fd_inv ?w1" using fd_inv_release [OF assigns(3,1) fd(1)] by simp
    have w': "fd_assign i j w = ?w1\<lparr>fw_objects := (fw_objects w)[i := Some other, j := Some (-1)]\<rparr>"
      using fd by (simp add: fd_assign_def Let_def)
    show ?thesis
    proof (cases "i = j")
      case True
      then show ?thesis using inv1 unfolding w' by simp
    next
      case False
      then show ?thesis
        using fd_inv_objects [OF inv1, of "(fw_objects w)[i := Some other, j := Some (-1)]"]
          held_swap [of i "(fw_objects w)[i := Some (-1)]" j other] assigns(1,2) fd unfolding w' by simp
    qed
  qed (use assigns in \<open>auto simp: fd_assign_def split: option.split\<close>)
next
  case (destroys i w)
  then show ?case
    using fd_inv_release [of w i _ None] by (auto simp: fd_destroy_def Let_def split: option.split)
qed (auto simp: fd_inv_def)

lemma fd_inv_reachable: "fd_reachable opened w \<Longrightarrow> fd_inv w"
proof (induction rule: fd_reachable.induct)
  case start
  then show ?case by (simp add: fd_inv_def fd_start_def)
qed (rule fd_inv_step)


text \<open>Two objects; the first is assigned the second, then both are destroyed.\<close>

definition sample_fds :: fd_world where
  "sample_fds = fd_destroy 1 (fd_destroy 0 (fd_assign 0 1
     \<lparr>fw_objects = [Some 3, Some 4], fw_open = {0, 1, 3, 4}, fw_foreign = {0, 1}, fw_strays = 0\<rparr>))"

lemma sample_fds_run:
  "fd_reachable {0, 1} sample_fds" "fw_objects sample_fds = [None, None]" "fw_foreign sample_fds = {0, 1}"
proof -
  let ?a = "fd_make 3 ((fd_start {0, 1})\<lparr>fw_open := insert 3 (fw_open (fd_start {0, 1}))\<rparr>)"
  let ?b = "fd_make 4 (?a\<lparr>fw_open := insert 4 (fw_open ?a)\<rparr>)"
  have a: "fd_reachable {0, 1} ?a" by (rule fd_reachable.step [OF fd_reachable.start fd_step.opens]) (simp_all add: fd_start_def)
  have b: "fd_reachable {0, 1} ?b" by (rule fd_reachable.step [OF a fd_step.opens]) (simp_all add: fd_start_def fd_make_def)
  have two: "?b = \<lparr>fw_objects = [Some 3, Some 4], fw_open = {0, 1, 3, 4}, fw_foreign = {0, 1}, fw_strays = 0\<rparr>"
    by (auto simp: fd_make_def fd_start_def)
  have c: "fd_reachable {0, 1} (fd_assign 0 1 ?b)"
    by (rule fd_reachable.step [OF b fd_step.assigns]) (simp_all add: two)
  have d: "fd_reachable {0, 1} (fd_destroy 0 (fd_assign 0 1 ?b))"
    by (rule fd_reachable.step [OF c fd_step.destroys]) (simp add: two fd_assign_def Let_def)
  have "fd_reachable {0, 1} (fd_destroy 1 (fd_destroy 0 (fd_assign 0 1 ?b)))"
    by (rule fd_reachable.step [OF d fd_step.destroys]) (simp add: two fd_destroy_def fd_assign_def Let_def)
  then show "fd_reachable {0, 1} sample_fds" unfolding two sample_fds_def .
  show "fw_objects sample_fds = [None, None]" "fw_foreign sample_fds = {0, 1}"
    by (simp_all add: sample_fds_def fd_destroy_def fd_assign_def fd_close_def Let_def)
qed

text \<open>Property C38: however \<open>Fd\<close> objects are made, moved, assigned (also to themselves) and destroyed, and whatever
  other code of the process opens and closes: \<open>close\<close> is only called on an open descriptor that the
  object owns, no two objects own the same one, and no descriptor is lost: those that are open are
  the ones objects hold and the ones of other code.\<close>

theorem descriptors_owned:
  assumes "fd_reachable opened w"
  shows "fw_strays w = 0 \<and> distinct (held (fw_objects w)) \<and>
    fw_open w = set (held (fw_objects w)) \<union> fw_foreign w \<and> set (held (fw_objects w)) \<inter> fw_foreign w = {} \<and>
    (list_all (\<lambda>x. x = None \<or> x = Some (-1)) (fw_objects w) \<longrightarrow> fw_open w = fw_foreign w)"
proof -
  have "held xs = []" if "list_all (\<lambda>x. x = None \<or> x = Some (-1)) xs" for xs
    using that by (induction xs) auto
  then show ?thesis using fd_inv_reachable [OF assms] by (auto simp: fd_inv_def)
qed

theorem descriptors_owned_witness: "fw_strays sample_fds = 0 \<and> fw_open sample_fds = {0, 1}"
  using descriptors_owned [OF sample_fds_run(1)] sample_fds_run(2,3) by simp

section \<open>Reading exactly\<close>

text \<open>The three modes differ only in what ends the loop: an exact read fails where one to the end is short.\<close>

definition exact_outcome :: "size_t \<Rightarrow> (exn + size_t) \<times> 'os \<times> memory \<Rightarrow> (exn + size_t) \<times> 'os \<times> memory" where
  "exact_outcome n out = (case out of (r, s, mem) \<Rightarrow>
     (case r of Inl e \<Rightarrow> Inl e | Inr k \<Rightarrow> if k = n then Inr k else Inl StdException, s, mem))"

lemma fd_read_loop_exactly:
  assumes posix: "posix_read os_read content pos patience" and chunk: "0 < chunk" and "unat tot \<le> unat n"
  shows "fd_read_loop os_read n data Exactly chunk tot s mem =
    map_option (exact_outcome n) (fd_read_loop os_read n data Eof chunk tot s mem)"
  using assms(3)
proof (induction x \<equiv> "(unat n - unat tot, patience s)" arbitrary: tot s mem
    rule: wf_induct_rule [OF wf_lex_prod [OF wf_less_than wf_less_than]])
  case 1
  note loop = fd_read_loop.simps [of os_read n data _ chunk tot s mem]
  show ?case
  proof (cases "tot < n")
    case False
    then have "tot = n" using "1.prems" by (simp add: word_le_nat_alt word_less_nat_alt word_unat_eq_iff)
    then show ?thesis unfolding loop using False by (simp add: fd_read_end_def exact_outcome_def)
  next
    case True
    obtain r s' where os: "os_read s (min chunk (n - tot)) = (r, s')" by fastforce
    note r = posix_read_cases [OF posix os]
    have sub: "unat (n - tot) = unat n - unat tot" using True by (intro unat_sub_le) simp
    show ?thesis
    proof (cases r)
      case OsInterrupted
      then show ?thesis using True os r(1) "1.hyps" [of tot s' mem] "1.prems" by (simp add: loop)
    next
      case OsFailed
      then show ?thesis using True os by (simp add: loop exact_outcome_def)
    next
      case (OsData bs)
      show ?thesis
      proof (cases "bs = []")
        case empty: True
        then show ?thesis using True os OsData by (auto simp: loop fd_read_end_def exact_outcome_def)
      next
        case False
        let ?tot = "tot + of_nat (length bs)" and ?mem = "write_bytes mem (data + tot) bs"
        have "length bs \<le> unat n - unat tot" using r(3) [OF OsData] by (auto simp: unat_min sub)
        then have le: "unat tot + length bs \<le> unat n" using "1.prems" by linarith
        then have "unat tot + length bs < 18446744073709551616" using unat_lt64 [of n] by linarith
        then have tot: "unat ?tot = unat tot + length bs" by (simp add: word_to_nat unat_of_nat)
        have "0 < length bs" using False by simp
        then have "unat n - unat ?tot < unat n - unat tot" using le tot by linarith
        then have "fd_read_loop os_read n data Exactly chunk ?tot s' ?mem =
            map_option (exact_outcome n) (fd_read_loop os_read n data Eof chunk ?tot s' ?mem)"
          using le tot by (intro "1.hyps") simp_all
        then show ?thesis using True os OsData False by (simp add: loop Let_def)
      qed
    qed
  qed
qed

section \<open>Whole files\<close>

text \<open>
  The functions on a vector, whose buffer is at \<open>p\<close>, and on a path. The object that is opened is
  destroyed at the end of the scope, also when an exception leaves it.
\<close>

definition fd_chunk_size :: size_t where
  "fd_chunk_size = 16384"

definition fd_read_vector ::
  "('os \<Rightarrow> size_t \<Rightarrow> os_result \<times> 'os) \<Rightarrow> size_t \<Rightarrow> ptr \<Rightarrow> read_mode \<Rightarrow> 'os \<Rightarrow> memory \<Rightarrow>
    ((exn + byte list) \<times> 'os) option" where
  "fd_read_vector os_read n p mode s mem =
     (case fd_read os_read n p mode fd_chunk_size s mem of
        None \<Rightarrow> None
      | Some (Inl e, s', mem') \<Rightarrow> Some (Inl e, s')
      | Some (Inr got, s', mem') \<Rightarrow> Some (Inr (mem_bytes mem' p (unat got)), s'))"

definition fd_size :: "('os \<Rightarrow> size_t option) \<Rightarrow> 'os \<Rightarrow> exn + size_t" where
  "fd_size fsize s = (case fsize s of None \<Rightarrow> Inl StdException | Some n \<Rightarrow> Inr n)"

definition fd_read_path :: "'os file_system \<Rightarrow> string \<Rightarrow> ptr \<Rightarrow> memory \<Rightarrow> (exn + byte list) option" where
  "fd_read_path fs path p mem =
     (case fs_open fs path of
        None \<Rightarrow> Some (Inl StdException)
      | Some s \<Rightarrow>
          (case fd_size (fs_size fs) s of
             Inl e \<Rightarrow> Some (Inl e)
           | Inr n \<Rightarrow> map_option fst (fd_read_vector (fs_read fs) n p Exactly s mem)))"

definition fd_read_path_at ::
  "'os file_system \<Rightarrow> string \<Rightarrow> size_t \<Rightarrow> size_t \<Rightarrow> ptr \<Rightarrow> memory \<Rightarrow> (exn + byte list) option" where
  "fd_read_path_at fs path offset bytes p mem =
     (case fs_open fs path of
        None \<Rightarrow> Some (Inl StdException)
      | Some s \<Rightarrow>
          (case fd_seek (fs_size fs) (fs_lseek fs) offset s of
             Inl e \<Rightarrow> Some (Inl e)
           | Inr s' \<Rightarrow> map_option fst (fd_read_vector (fs_read fs) bytes p Exactly s' mem)))"

definition fd_write_path ::
  "(string \<Rightarrow> 'os option) \<Rightarrow> ('os \<Rightarrow> byte list \<Rightarrow> os_written \<times> 'os) \<Rightarrow> string \<Rightarrow> byte list \<Rightarrow>
    (exn + unit) option" where
  "fd_write_path os_open os_write path bs =
     (case os_open path of
        None \<Rightarrow> Some (Inl StdException)
      | Some s \<Rightarrow> map_option fst (fd_write_loop os_write bs (unat fd_chunk_size) 0 s))"

definition fd_exists :: "(string \<Rightarrow> bool) \<Rightarrow> string \<Rightarrow> bool" where
  "fd_exists access path = access path"

lemma fd_read_vector_exactly:
  assumes posix: "posix_read os_read content pos patience"
  shows "\<exists>r s'. fd_read_vector os_read n p Exactly s mem = Some (r, s') \<and>
    (case r of Inl e \<Rightarrow> e = StdException | Inr bs \<Rightarrow> bs = take (unat n) (drop (pos s) content) \<and> length bs = unat n)"
proof -
  have c: "0 < fd_chunk_size" by (simp add: fd_chunk_size_def)
  have "\<exists>out. fd_read_loop os_read n p Eof fd_chunk_size 0 s mem = Some out \<and> read_outcome content pos s n p mem out"
    using posix c by (intro fd_read_loop_spec [where patience = patience]) (auto simp: mem_bytes_def)
  then obtain r s' mem' where eof: "fd_read_loop os_read n p Eof fd_chunk_size 0 s mem = Some (r, s', mem')"
    and out: "read_outcome content pos s n p mem (r, s', mem')" by (metis prod_cases3)
  have run: "fd_read os_read n p Exactly fd_chunk_size s mem = Some (exact_outcome n (r, s', mem'))"
    using fd_read_loop_exactly [OF posix c, of 0 n p s mem] eof by (simp add: fd_read_def)
  from out obtain k where k: "k \<le> unat n" "mem_bytes mem' p k = take k (drop (pos s) content)"
    and r: "case r of Inl e \<Rightarrow> e = StdException | Inr result \<Rightarrow> result = of_nat k"
    unfolding read_outcome_def by (cases r) auto
  show ?thesis
  proof (cases r)
    case (Inl e)
    then show ?thesis using run r by (simp add: fd_read_vector_def exact_outcome_def)
  next
    case (Inr got)
    have "k < 18446744073709551616" using k(1) unat_lt64 [of n] by linarith
    then have "unat got = k" using Inr r by (simp add: unat_of_nat)
    then show ?thesis
      using Inr run k length_mem_bytes [of mem' p k]
      by (cases "got = n") (auto simp: fd_read_vector_def exact_outcome_def)
  qed
qed

text \<open>
  Reading a whole file returns its content, and reading a part of it the bytes asked for, or it
  throws; it never returns less or anything else.
\<close>

theorem whole_file_read:
  assumes posix: "posix_file fs content pos patience" and "fs_open fs path = Some s" "pos s = 0"
    and "fs_size fs s = Some (of_nat (length content))" "length content < 18446744073709551616"
  shows "fd_read_path fs path p mem \<in> {Some (Inr content), Some (Inl StdException)} \<and>
    (\<exists>r. fd_read_path_at fs path offset bytes p mem = Some r \<and>
      (case r of
         Inl e \<Rightarrow> e = StdException
       | Inr bs \<Rightarrow> bs = take (unat bytes) (drop (unat offset) content) \<and> length bs = unat bytes))"
proof
  have read: "posix_read (fs_read fs) content pos patience" using posix by (simp add: posix_file_def)
  show "fd_read_path fs path p mem \<in> {Some (Inr content), Some (Inl StdException)}"
  proof -
    obtain r s' where run: "fd_read_vector (fs_read fs) (of_nat (length content)) p Exactly s mem = Some (r, s')"
      and r: "case r of Inl e \<Rightarrow> e = StdException
        | Inr bs \<Rightarrow> bs = take (unat (of_nat (length content) :: size_t)) (drop (pos s) content) \<and>
            length bs = unat (of_nat (length content) :: size_t)"
      using fd_read_vector_exactly [OF read] by blast
    then have "fd_read_path fs path p mem = Some r" using assms(2,4) by (simp add: fd_read_path_def fd_size_def)
    then show ?thesis using r assms(3,5) by (cases r) (simp_all add: unat_of_nat)
  qed
  show "\<exists>r. fd_read_path_at fs path offset bytes p mem = Some r \<and>
      (case r of
         Inl e \<Rightarrow> e = StdException
       | Inr bs \<Rightarrow> bs = take (unat bytes) (drop (unat offset) content) \<and> length bs = unat bytes)"
  proof (cases "fd_seek (fs_size fs) (fs_lseek fs) offset s")
    case (Inl e)
    then have "e = StdException" by (auto simp: fd_seek_def split: option.splits if_splits)
    then show ?thesis using Inl assms(2) by (simp add: fd_read_path_at_def)
  next
    case (Inr s')
    then have "pos s' = unat offset" using posix by (auto simp: fd_seek_def posix_file_def split: option.splits if_splits)
    then show ?thesis
      using Inr assms(2) fd_read_vector_exactly [OF read, of bytes p s' mem]
      by (auto simp: fd_read_path_at_def \<open>pos s' = unat offset\<close> split: sum.splits)
  qed
qed

theorem whole_file_read_witness:
  "fd_read_path (ram_file [1, 2, 3, 4, 5]) ''/f'' 100 (\<lambda>a. 0) \<in> {Some (Inr [1, 2, 3, 4, 5]), Some (Inl StdException)}"
  using whole_file_read [OF ram_posix [of "[1, 2, 3, 4, 5]"], where path = "''/f''" and s = "(0, 1)" and p = 100 and mem = "\<lambda>a. 0"]
  by (simp add: ram_file_def)

section \<open>Writing\<close>

text \<open>\<open>write(2)\<close> appends some of the bytes to what was written, or is interrupted finitely often.\<close>

definition posix_write ::
  "('os \<Rightarrow> byte list \<Rightarrow> os_written \<times> 'os) \<Rightarrow> ('os \<Rightarrow> byte list) \<Rightarrow> ('os \<Rightarrow> nat) \<Rightarrow> bool" where
  "posix_write os_write written patience \<longleftrightarrow>
     (\<forall>s bs. case os_write s bs of
        (OsWriteInterrupted, s') \<Rightarrow> written s' = written s \<and> patience s' < patience s
      | (OsWriteFailed, s') \<Rightarrow> written s' = written s
      | (OsWritten k, s') \<Rightarrow> k \<le> length bs \<and> written s' = written s @ take k bs)"

lemma fd_write_loop_spec:
  assumes posix: "posix_write os_write written patience" and chunk: "0 < chunk" and "tot \<le> length bs"
  shows "\<exists>r s' k. fd_write_loop os_write bs chunk tot s = Some (r, s') \<and> tot + k \<le> length bs \<and>
    written s' = written s @ take k (drop tot bs) \<and>
    (case r of Inl e \<Rightarrow> e = StdException | Inr u \<Rightarrow> tot + k = length bs)"
  using assms(3)
proof (induction x \<equiv> "(length bs - tot, patience s)" arbitrary: tot s
    rule: wf_induct_rule [OF wf_lex_prod [OF wf_less_than wf_less_than]])
  case 1
  note loop = fd_write_loop.simps [of os_write bs chunk tot s]
  let ?part = "take (min chunk (length bs - tot)) (drop tot bs)"
  show ?case
  proof (cases "tot < length bs")
    case False
    then show ?thesis using "1.prems" by (subst loop) (auto intro!: exI [of _ 0])
  next
    case True
    obtain r s' where os: "os_write s ?part = (r, s')" by fastforce
    note w = posix [unfolded posix_write_def, rule_format, of s ?part]
    show ?thesis
    proof (cases r)
      case OsWriteInterrupted
      then have step: "written s' = written s" "patience s' < patience s" using w os by auto
      from "1.hyps" [of tot s'] obtain r' s'' k where
        "fd_write_loop os_write bs chunk tot s' = Some (r', s'')" "tot + k \<le> length bs"
        "written s'' = written s' @ take k (drop tot bs)"
        "case r' of Inl e \<Rightarrow> e = StdException | Inr u \<Rightarrow> tot + k = length bs"
        using step "1.prems" by auto
      then show ?thesis using True os OsWriteInterrupted step by (subst loop) auto
    next
      case OsWriteFailed
      then show ?thesis using True os w by (subst loop) (auto intro!: exI [of _ 0])
    next
      case (OsWritten j)
      then have step: "j \<le> min chunk (length bs - tot)" "written s' = written s @ take j ?part" using w os True by auto
      then have part: "take j ?part = take j (drop tot bs)" by (simp add: min_def)
      show ?thesis
      proof (cases "j = 0")
        case True
        then show ?thesis using \<open>tot < length bs\<close> os OsWritten step by (subst loop) (auto intro!: exI [of _ 0])
      next
        case False
        have less: "((length bs - (tot + j), patience s'), length bs - tot, patience s) \<in> less_than <*lex*> less_than"
          and le: "tot + j \<le> length bs"
          using False True step(1) by auto
        from "1.hyps" [OF less le] obtain r' s'' k where
          ih: "fd_write_loop os_write bs chunk (tot + j) s' = Some (r', s'')" "tot + j + k \<le> length bs"
          "written s'' = written s' @ take k (drop (tot + j) bs)"
          "case r' of Inl e \<Rightarrow> e = StdException | Inr u \<Rightarrow> tot + j + k = length bs"
          by blast
        have "written s'' = written s @ take (j + k) (drop tot bs)"
          using ih(3) step(2) unfolding part by (simp add: take_add add.commute)
        moreover have "fd_write_loop os_write bs chunk tot s = Some (r', s'')"
          using True False os OsWritten ih(1) by (simp add: loop)
        ultimately show ?thesis
          using ih(2,4) [unfolded add.assoc] by (intro exI [of _ r'] exI [of _ s''] exI [of _ "j + k"]) simp
      qed
    qed
  qed
qed

text \<open>Writing a vector returns, and after a success the file has all of it, in order, once.\<close>

theorem vector_written:
  assumes "posix_write os_write written patience"
  shows "\<exists>r s'. fd_write_loop os_write bs (unat fd_chunk_size) 0 s = Some (r, s') \<and>
    (case r of
       Inl e \<Rightarrow> e = StdException \<and> (\<exists>k\<le>length bs. written s' = written s @ take k bs)
     | Inr u \<Rightarrow> written s' = written s @ bs)"
proof -
  have "0 < unat fd_chunk_size" by (simp add: fd_chunk_size_def)
  from fd_write_loop_spec [OF assms this, of 0 bs s] obtain r s' k where
    "fd_write_loop os_write bs (unat fd_chunk_size) 0 s = Some (r, s')" "k \<le> length bs"
    "written s' = written s @ take k bs" "case r of Inl e \<Rightarrow> e = StdException | Inr u \<Rightarrow> k = length bs"
    unfolding add_0 drop_0 by blast
  then show ?thesis by (cases r) auto
qed

end
