(* ===== verification/Semaphores.thy ===== *)
theory Semaphores
  imports ResponseCodes
begin

text \<open>
  \<open>Semaphore\<close> (\<open>utils/semaphore\<close>): the calls of \<open>sem_overview(7)\<close> with their restarts after a
  signal. The calls are parameters on the state of the process; what the queue and the pool of
  threads rely on, one token for each wait that succeeds, is proved of them here.
\<close>

section \<open>The calls\<close>

datatype errno = EINTR | EAGAIN | ETIMEDOUT | EINVAL | EOVERFLOW

text \<open>\<open>None\<close> is the return value 0.\<close>

record 's sem_calls =
  sys_init :: "uint \<Rightarrow> 's \<Rightarrow> errno option \<times> 's"
  sys_post :: "'s \<Rightarrow> errno option \<times> 's"
  sys_wait :: "'s \<Rightarrow> errno option \<times> 's"
  sys_trywait :: "'s \<Rightarrow> errno option \<times> 's"
  sys_clockwait :: "int \<times> int \<Rightarrow> 's \<Rightarrow> errno option \<times> 's"
  sys_getvalue :: "'s \<Rightarrow> int option"
  sys_now :: "'s \<Rightarrow> int"

text \<open>The clock counts nanoseconds. The casts of \<open>chrono\<close> truncate towards zero.\<close>

definition to_timespec :: "int \<Rightarrow> int \<times> int" where
  "to_timespec tp = (let secs = sgn tp * (\<bar>tp\<bar> div 1000000000) in (secs, tp - secs * 1000000000))"

text \<open>The loops that restart an interrupted call; \<open>None\<close> is a call that is interrupted forever.\<close>

partial_function (option) restarted ::
  "('s \<Rightarrow> errno option \<times> 's) \<Rightarrow> 's \<Rightarrow> (errno option \<times> 's) option" where
  "restarted sys s = (case sys s of
     (Some EINTR, s') \<Rightarrow> restarted sys s'
   | (ret, s') \<Rightarrow> Some (ret, s'))"

declare restarted.simps [code]

definition semaphore_make :: "'s sem_calls \<Rightarrow> uint \<Rightarrow> 's \<Rightarrow> (exn + unit) \<times> 's" where
  "semaphore_make sys n s = (case sys_init sys n s of (ret, s') \<Rightarrow>
     (if ret = None then Inr () else Inl StdException, s'))"

definition semaphore_post :: "'s sem_calls \<Rightarrow> 's \<Rightarrow> (exn + unit) \<times> 's" where
  "semaphore_post sys s = (case sys_post sys s of (ret, s') \<Rightarrow>
     (if ret = None then Inr () else Inl StdException, s'))"

definition semaphore_wait :: "'s sem_calls \<Rightarrow> 's \<Rightarrow> ((exn + unit) \<times> 's) option" where
  "semaphore_wait sys s = map_option (\<lambda>(ret, s').
     (if ret = None then Inr () else Inl StdException, s')) (restarted (sys_wait sys) s)"

definition semaphore_try_wait :: "'s sem_calls \<Rightarrow> 's \<Rightarrow> ((exn + bool) \<times> 's) option" where
  "semaphore_try_wait sys s = map_option (\<lambda>(ret, s').
     (if ret = None then Inr True else if ret = Some EAGAIN then Inr False else Inl StdException, s'))
     (restarted (sys_trywait sys) s)"

text \<open>The deadline is computed once, so restarts do not prolong the wait.\<close>

definition semaphore_wait_for :: "'s sem_calls \<Rightarrow> uint \<Rightarrow> 's \<Rightarrow> ((exn + bool) \<times> 's) option" where
  "semaphore_wait_for sys timeout_ms s =
     (let deadline = to_timespec (sys_now sys s + uint timeout_ms * 1000000) in
      map_option (\<lambda>(ret, s').
        (if ret = None then Inr True else if ret = Some ETIMEDOUT then Inr False else Inl StdException, s'))
        (restarted (sys_clockwait sys deadline) s))"

definition semaphore_value :: "'s sem_calls \<Rightarrow> 's \<Rightarrow> exn + uint" where
  "semaphore_value sys s = (case sys_getvalue sys s of None \<Rightarrow> Inl StdException | Some v \<Rightarrow> Inr (of_int v))"

section \<open>Tokens\<close>

text \<open>
  \<open>taken\<close> counts the tokens the calling thread took from the semaphore. A call that returns 0 took
  one, and any other took none; signals interrupt it a finite number of times (\<open>patience\<close>).
\<close>

definition sem_call :: "('s \<Rightarrow> nat) \<Rightarrow> ('s \<Rightarrow> nat) \<Rightarrow> ('s \<Rightarrow> errno option \<times> 's) \<Rightarrow> bool" where
  "sem_call taken patience sys \<longleftrightarrow> (\<forall>s. case sys s of
     (None, s') \<Rightarrow> taken s' = Suc (taken s)
   | (Some e, s') \<Rightarrow> taken s' = taken s \<and> (e = EINTR \<longrightarrow> patience s' < patience s))"

lemma restarted_spec:
  assumes "sem_call taken patience sys"
  shows "\<exists>ret s'. restarted sys s = Some (ret, s') \<and> ret \<noteq> Some EINTR \<and>
    taken s' = taken s + (if ret = None then 1 else 0)"
proof (induction "patience s" arbitrary: s rule: less_induct)
  case less
  obtain ret s' where run: "sys s = (ret, s')" by fastforce
  note call = assms [unfolded sem_call_def, rule_format, of s, unfolded run]
  show ?case
  proof (cases "ret = Some EINTR")
    case True
    then have step: "patience s' < patience s" "taken s' = taken s" using call by simp_all
    have "restarted sys s = restarted sys s'" using run True by (subst restarted.simps) simp
    then show ?thesis using less [OF step(1)] step(2) by simp
  next
    case False
    then have "restarted sys s = Some (ret, s')"
      using run by (subst restarted.simps) (auto split: option.split errno.split)
    then show ?thesis using False call by (cases ret) auto
  qed
qed

text \<open>
  Whatever signals arrive, the waits return, and they take one token exactly when they report
  success; the deadline of a timed wait is normalised, and it is the start plus the timeout.
\<close>

theorem semaphore_tokens:
  assumes "sem_call taken patience (sys_wait sys)" "sem_call taken patience (sys_trywait sys)"
    and "\<And>deadline. sem_call taken patience (sys_clockwait sys deadline)" and "0 \<le> sys_now sys s"
  shows "(\<exists>r s'. semaphore_wait sys s = Some (r, s') \<and> taken s' = taken s + (if r = Inr () then 1 else 0)) \<and>
    (\<exists>r s'. semaphore_try_wait sys s = Some (r, s') \<and> taken s' = taken s + (if r = Inr True then 1 else 0)) \<and>
    (\<exists>r s'. semaphore_wait_for sys ms s = Some (r, s') \<and> taken s' = taken s + (if r = Inr True then 1 else 0)) \<and>
    (case to_timespec (sys_now sys s + uint ms * 1000000) of (secs, nsecs) \<Rightarrow>
       0 \<le> nsecs \<and> nsecs < 1000000000 \<and> secs * 1000000000 + nsecs = sys_now sys s + uint ms * 1000000)"
proof (intro conjI)
  from restarted_spec [OF assms(1), of s] obtain ret s' where
    "restarted (sys_wait sys) s = Some (ret, s')" "taken s' = taken s + (if ret = None then 1 else 0)" by blast
  then show "\<exists>r s'. semaphore_wait sys s = Some (r, s') \<and> taken s' = taken s + (if r = Inr () then 1 else 0)"
    by (simp add: semaphore_wait_def)
  from restarted_spec [OF assms(2), of s] obtain ret s' where
    "restarted (sys_trywait sys) s = Some (ret, s')" "taken s' = taken s + (if ret = None then 1 else 0)" by blast
  then show "\<exists>r s'. semaphore_try_wait sys s = Some (r, s') \<and> taken s' = taken s + (if r = Inr True then 1 else 0)"
    by (simp add: semaphore_try_wait_def)
  from restarted_spec [OF assms(3), of "to_timespec (sys_now sys s + uint ms * 1000000)" s] obtain ret s' where
    "restarted (sys_clockwait sys (to_timespec (sys_now sys s + uint ms * 1000000))) s = Some (ret, s')"
    "taken s' = taken s + (if ret = None then 1 else 0)" by blast
  then show "\<exists>r s'. semaphore_wait_for sys ms s = Some (r, s') \<and> taken s' = taken s + (if r = Inr True then 1 else 0)"
    by (simp add: semaphore_wait_for_def Let_def)
  have "0 \<le> uint ms" by simp
  then have "0 \<le> sys_now sys s + uint ms * 1000000" using assms(4) by simp
  then have "to_timespec (sys_now sys s + uint ms * 1000000) =
      ((sys_now sys s + uint ms * 1000000) div 1000000000, (sys_now sys s + uint ms * 1000000) mod 1000000000)"
    by (cases "sys_now sys s + uint ms * 1000000 = 0") (simp_all add: to_timespec_def Let_def sgn_if minus_div_mult_eq_mod)
  then show "case to_timespec (sys_now sys s + uint ms * 1000000) of (secs, nsecs) \<Rightarrow>
       0 \<le> nsecs \<and> nsecs < 1000000000 \<and> secs * 1000000000 + nsecs = sys_now sys s + uint ms * 1000000"
    by simp
qed

text \<open>A semaphore of one process: the tokens, what was taken, and the signals still to come.\<close>

definition sample_wait :: "errno \<Rightarrow> nat \<times> nat \<times> nat \<Rightarrow> errno option \<times> nat \<times> nat \<times> nat" where
  "sample_wait none = (\<lambda>(count, taken, signals).
     if 0 < signals then (Some EINTR, count, taken, signals - 1)
     else if count = 0 then (Some none, count, taken, signals) else (None, count - 1, Suc taken, signals))"

definition sample_semaphore :: "(nat \<times> nat \<times> nat) sem_calls" where
  "sample_semaphore = \<lparr>sys_init = (\<lambda>n s. (None, (unat n, snd s))), sys_post = (\<lambda>(c, s). (None, Suc c, s)),
     sys_wait = sample_wait EINVAL, sys_trywait = sample_wait EAGAIN, sys_clockwait = (\<lambda>d. sample_wait ETIMEDOUT),
     sys_getvalue = (\<lambda>(c, s). Some (int c)), sys_now = (\<lambda>s. 1999999999)\<rparr>"

theorem semaphore_tokens_witness:
  "\<exists>r s'. semaphore_wait_for sample_semaphore 5 (1, 0, 2) = Some (r, s') \<and>
    fst (snd s') = (if r = Inr True then 1 else 0)"
proof -
  have call: "sem_call (\<lambda>(c, t, n). t) (\<lambda>(c, t, n). n) (sample_wait e)" if "e \<noteq> EINTR" for e
    using that by (auto simp: sem_call_def sample_wait_def)
  have "case r of (c, t, n) \<Rightarrow> P t \<Longrightarrow> P (fst (snd r))" for r :: "nat \<times> nat \<times> nat" and P by (auto split: prod.splits)
  then show ?thesis
    using semaphore_tokens [where sys = sample_semaphore and s = "(1, 0, 2)" and ms = 5 and taken = "\<lambda>(c, t, n). t"
        and patience = "\<lambda>(c, t, n). n"] call
    by (fastforce simp: sample_semaphore_def split: prod.splits)
qed

end
