(* ===== verification/StorageUri.thy ===== *)
theory StorageUri
  imports ResponseCodes
begin

text \<open>
  Object storage URIs (\<open>common/storage_uri\<close>). The constructor matches the whole path against
  \<open>^(s3|gs|az)://([^/]+)/(.+)$\<close> and throws when it does not match; the dot of the regular
  expression stands for any character but a line terminator.
\<close>

record storage_uri =
  uri_scheme :: string
  uri_uri :: string
  uri_bucket :: string
  uri_path :: string

definition schemes :: "string list" where
  "schemes = [''s3'', ''gs'', ''az'']"

definition line_terminator :: "char \<Rightarrow> bool" where
  "line_terminator c \<longleftrightarrow> c = CHR 0x0A \<or> c = CHR 0x0D"

definition make_storage_uri :: "string \<Rightarrow> exn + storage_uri" where
  "make_storage_uri uri =
     (let scheme = take 2 uri;
          rest = drop 5 uri;
          bucket = takeWhile (\<lambda>c. c \<noteq> CHR ''/'') rest;
          tail = dropWhile (\<lambda>c. c \<noteq> CHR ''/'') rest;
          path = drop 1 tail
      in if scheme \<in> set schemes \<and> take 3 (drop 2 uri) = ''://'' \<and> bucket \<noteq> [] \<and> tail \<noteq> [] \<and>
            path \<noteq> [] \<and> list_all (\<lambda>c. \<not> line_terminator c) path
         then Inr \<lparr>uri_scheme = scheme, uri_uri = uri, uri_bucket = bucket, uri_path = path\<rparr>
         else Inl StdException)"

definition is_gcs :: "storage_uri \<Rightarrow> bool" where
  "is_gcs u \<longleftrightarrow> uri_scheme u = ''gs''"

definition is_azure :: "storage_uri \<Rightarrow> bool" where
  "is_azure u \<longleftrightarrow> uri_scheme u = ''az''"

text \<open>The match, written as the regular expression reads.\<close>

definition uri_matches :: "string \<Rightarrow> string \<Rightarrow> string \<Rightarrow> string \<Rightarrow> bool" where
  "uri_matches uri scheme bucket path \<longleftrightarrow>
     uri = scheme @ ''://'' @ bucket @ ''/'' @ path \<and> scheme \<in> set schemes \<and>
     bucket \<noteq> [] \<and> CHR ''/'' \<notin> set bucket \<and> path \<noteq> [] \<and> (\<forall>c\<in>set path. \<not> line_terminator c)"

lemma scheme_length: "scheme \<in> set schemes \<Longrightarrow> length scheme = 2"
  by (auto simp: schemes_def)

lemma make_storage_uri_complete:
  assumes "uri_matches uri scheme bucket path"
  shows "make_storage_uri uri =
    Inr \<lparr>uri_scheme = scheme, uri_uri = uri, uri_bucket = bucket, uri_path = path\<rparr>"
proof -
  have m: "uri = scheme @ ''://'' @ bucket @ ''/'' @ path" "scheme \<in> set schemes" "bucket \<noteq> []"
    "CHR ''/'' \<notin> set bucket" "path \<noteq> []" "\<forall>c\<in>set path. \<not> line_terminator c"
    using assms by (auto simp: uri_matches_def)
  have s: "take 2 uri = scheme" "take 3 (drop 2 uri) = ''://''"
    "drop 5 uri = bucket @ ''/'' @ path"
    using m(1) scheme_length [OF m(2)] by auto
  have b: "takeWhile (\<lambda>c. c \<noteq> CHR ''/'') (bucket @ ''/'' @ path) = bucket"
    "dropWhile (\<lambda>c. c \<noteq> CHR ''/'') (bucket @ ''/'' @ path) = ''/'' @ path"
    using m(4) by (auto simp: takeWhile_append dropWhile_append)
  show ?thesis
    unfolding make_storage_uri_def Let_def s b
    using m(2-6) by (simp add: list_all_iff)
qed

lemma make_storage_uri_sound:
  assumes "make_storage_uri uri = Inr u"
  shows "uri_matches uri (uri_scheme u) (uri_bucket u) (uri_path u) \<and> uri_uri u = uri"
proof -
  let ?rest = "drop 5 uri"
  let ?b = "takeWhile (\<lambda>c. c \<noteq> CHR ''/'') ?rest"
  let ?t = "dropWhile (\<lambda>c. c \<noteq> CHR ''/'') ?rest"
  have c: "take 2 uri \<in> set schemes" "take 3 (drop 2 uri) = ''://''" "?b \<noteq> []" "?t \<noteq> []"
    "drop 1 ?t \<noteq> []" "\<forall>c\<in>set (drop 1 ?t). \<not> line_terminator c"
    and u: "uri_scheme u = take 2 uri" "uri_bucket u = ?b" "uri_path u = drop 1 ?t" "uri_uri u = uri"
    using assms by (auto simp: make_storage_uri_def Let_def list_all_iff split: if_splits)
  have "?t = CHR ''/'' # drop 1 ?t"
    using c(4) hd_dropWhile [of "\<lambda>c. c \<noteq> CHR ''/''" ?rest] by (cases ?t) auto
  then have rest: "?rest = ?b @ ''/'' @ drop 1 ?t"
    by (metis append_Cons append_Nil takeWhile_dropWhile_id)
  have "uri = take 2 uri @ take 3 (drop 2 uri) @ drop 3 (drop 2 uri)"
    by (simp only: append_take_drop_id)
  moreover have "drop 3 (drop 2 uri) = ?rest"
    by simp
  ultimately have "uri = take 2 uri @ ''://'' @ ?rest"
    using c(2) by simp
  with rest c u show ?thesis
    by (auto simp: uri_matches_def dest: set_takeWhileD)
qed

lemma make_storage_uri_error:
  "make_storage_uri uri = Inl e \<Longrightarrow> e = StdException \<and> (\<nexists>scheme bucket path. uri_matches uri scheme bucket path)"
  using make_storage_uri_complete
  by (fastforce simp: make_storage_uri_def Let_def split: if_splits)

text \<open>Property C31: an object-storage address is accepted exactly when it reads
  \<open>scheme://bucket/path\<close> with one of the three schemes, a bucket without a slash and a path
  without a line break, and the parts it is split into are these.\<close>

theorem storage_uri_exact:
  "make_storage_uri uri = Inr u \<longleftrightarrow>
     uri_matches uri (uri_scheme u) (uri_bucket u) (uri_path u) \<and> uri_uri u = uri"
  using make_storage_uri_sound [of uri u]
    make_storage_uri_complete [of uri "uri_scheme u" "uri_bucket u" "uri_path u"]
  by (cases u) auto

end
