(* ===== verification/Assigner.thy ===== *)
theory Assigner
  imports Config StorageUri
begin

text \<open>
  The division of a submission between workers (\<open>streamer/impl/assigner\<close>). \<open>coalesce\<close> merges a
  file's ranges that are adjacent in both the file and the destination into contiguous
  transfers; \<open>assign\<close> cuts the transfers into one slice per worker, by bytes. The theory defines
  both passes, the constructor that runs them and the checks at its end, and shows that no range
  is lost or moved by coalescing, that the slices of a transfer lie one after the other and
  cover it exactly, that every worker gets its target, and that the checks never fail.
\<close>

section \<open>The input and the result\<close>

text \<open>\<open>ReadRange\<close> and \<open>FileRanges\<close>: what the caller submits.\<close>

record read_range =
  rng_offset :: size_t
  rng_size :: size_t
  rng_dst :: ptr

record file_ranges =
  fr_path :: string
  fr_ranges :: "read_range list"

text \<open>\<open>FileReadTask\<close>: one worker's slice of a transfer.\<close>

record file_read_task =
  workload_index :: nat
  original_file_index :: nat
  offset_in_file :: size_t
  slice_size :: size_t
  slice_destination :: ptr

text \<open>\<open>ContiguousTransfer\<close>.\<close>

record contiguous_transfer =
  tr_file_index :: nat
  tr_offset :: size_t
  tr_size :: size_t
  tr_destination :: ptr
  first_range_index :: nat
  range_sizes :: "size_t list"
  tr_tasks :: "file_read_task list"

section \<open>Coalescing\<close>

definition extends_transfer :: "contiguous_transfer \<Rightarrow> read_range \<Rightarrow> bool" where
  "extends_transfer current rng \<longleftrightarrow>
     tr_offset current + tr_size current = rng_offset rng \<and>
     tr_destination current + tr_size current = rng_dst rng"

definition extend_transfer :: "contiguous_transfer \<Rightarrow> read_range \<Rightarrow> contiguous_transfer" where
  "extend_transfer current rng =
     current\<lparr>tr_size := tr_size current + rng_size rng,
             range_sizes := range_sizes current @ [rng_size rng]\<rparr>"

definition open_transfer :: "nat \<Rightarrow> nat \<Rightarrow> read_range \<Rightarrow> contiguous_transfer" where
  "open_transfer file_index i rng =
     \<lparr>tr_file_index = file_index, tr_offset = rng_offset rng, tr_size = rng_size rng,
      tr_destination = rng_dst rng, first_range_index = i, range_sizes = [rng_size rng],
      tr_tasks = []\<rparr>"

text \<open>
  The loop over one file's ranges. \<open>opn\<close> is the index of the transfer that is open for
  extension, or the number of transfers when none is. (The \<open>ordered\<close> flag of the source only
  drives a log line.)
\<close>

fun coalesce_ranges ::
  "nat \<Rightarrow> nat \<Rightarrow> read_range list \<Rightarrow> size_t \<Rightarrow> contiguous_transfer list \<Rightarrow> nat \<Rightarrow>
    exn + size_t \<times> contiguous_transfer list" where
  "coalesce_ranges file_index i [] tot transfers opn = Inr (tot, transfers)"
| "coalesce_ranges file_index i (rng # ranges) tot transfers opn =
     (if size_max - rng_size rng < tot then Inl (CommonException InvalidParameterError)
      else
        let tot' = tot + rng_size rng in
        if opn < length transfers \<and> extends_transfer (transfers ! opn) rng then
          coalesce_ranges file_index (Suc i) ranges tot'
            (transfers[opn := extend_transfer (transfers ! opn) rng]) opn
        else
          coalesce_ranges file_index (Suc i) ranges tot'
            (transfers @ [open_transfer file_index i rng]) (length transfers))"

text \<open>The loop over the files: no transfer is open at the start of a file.\<close>

fun coalesce_files ::
  "nat \<Rightarrow> file_ranges list \<Rightarrow> size_t \<Rightarrow> contiguous_transfer list \<Rightarrow>
    exn + size_t \<times> contiguous_transfer list" where
  "coalesce_files file_index [] tot transfers = Inr (tot, transfers)"
| "coalesce_files file_index (file # files) tot transfers =
     (case coalesce_ranges file_index 0 (fr_ranges file) tot transfers (length transfers) of
        Inl e \<Rightarrow> Inl e
      | Inr (tot', transfers') \<Rightarrow> coalesce_files (Suc file_index) files tot' transfers')"

definition coalesce :: "file_ranges list \<Rightarrow> exn + size_t \<times> contiguous_transfer list" where
  "coalesce request = coalesce_files 0 request 0 []"

section \<open>Dividing the transfers between the workers\<close>

text \<open>
  The variables of \<open>assign\<close>: the transfers (with the slices given so far), the bytes given to
  each worker, the transfer being assigned and how many of its bytes are assigned already.
\<close>

record assign_state =
  as_transfers :: "contiguous_transfer list"
  as_worker_bytes :: "size_t list"
  as_index :: nat
  as_consumed :: size_t

text \<open>One round of the inner loop, past its guards: cut a slice of \<open>n\<close> bytes for worker \<open>w\<close>.\<close>

definition cut_slice :: "nat \<Rightarrow> size_t \<Rightarrow> assign_state \<Rightarrow> assign_state" where
  "cut_slice w n st =
     (let t = as_transfers st ! as_index st;
          slice = \<lparr>workload_index = w, original_file_index = tr_file_index t,
                   offset_in_file = tr_offset t + as_consumed st, slice_size = n,
                   slice_destination = tr_destination t + as_consumed st\<rparr>;
          consumed' = as_consumed st + n;
          finished = (consumed' = tr_size t)
      in \<lparr>as_transfers = (as_transfers st)[as_index st := t\<lparr>tr_tasks := tr_tasks t @ [slice]\<rparr>],
          as_worker_bytes = (as_worker_bytes st)[w := as_worker_bytes st ! w + n],
          as_index = (if finished then Suc (as_index st) else as_index st),
          as_consumed = (if finished then 0 else consumed')\<rparr>)"

text \<open>
  The inner loop for worker \<open>w\<close>, a \<open>while\<close> whose end the source argues from the sizes: \<open>None\<close>
  is a loop that does not end.
\<close>

partial_function (option) assign_worker ::
  "nat \<Rightarrow> size_t \<Rightarrow> assign_state \<Rightarrow> size_t \<Rightarrow> (assign_state \<times> size_t) option" where
  "assign_worker w target st assigned =
     (if as_index st < length (as_transfers st) then
        (let t = as_transfers st ! as_index st in
         if 0 < tr_size t \<and> target \<le> assigned then Some (st, assigned)
         else
           let remaining = tr_size t - as_consumed st;
               to_assign = min remaining (target - assigned)
           in assign_worker w target (cut_slice w to_assign st) (assigned + to_assign))
      else Some (st, assigned))"

declare assign_worker.simps [code]

text \<open>The target of worker \<open>w\<close>: the first worker also takes the remainder.\<close>

definition worker_target :: "size_t \<Rightarrow> size_t \<Rightarrow> nat \<Rightarrow> size_t" where
  "worker_target base remainder w = (if w = 0 then base + remainder else base)"

text \<open>The outer loop: \<open>n\<close> workers are left, the next one is \<open>w\<close>.\<close>

fun assign_workers ::
  "nat \<Rightarrow> nat \<Rightarrow> size_t \<Rightarrow> size_t \<Rightarrow> assign_state \<Rightarrow> assign_state option" where
  "assign_workers 0 w base remainder st = Some st"
| "assign_workers (Suc n) w base remainder st =
     (if as_index st < length (as_transfers st) then
        case assign_worker w (worker_target base remainder w) st 0 of
          None \<Rightarrow> None
        | Some (st', assigned) \<Rightarrow> assign_workers n (Suc w) base remainder st'
      else Some st)"

text \<open>
  \<open>bytes_per_worker\<close>: the number of workloads, the bytes of each and the remainder that goes to
  the first one. The caller guards the division by zero, which traps.
\<close>

definition num_workloads_of :: "size_t \<Rightarrow> uint \<Rightarrow> size_t \<Rightarrow> size_t" where
  "num_workloads_of block workers tot = max (min (tot div block) (ucast workers)) 1"

definition bytes_per_worker :: "size_t \<Rightarrow> uint \<Rightarrow> size_t \<Rightarrow> size_t \<times> size_t \<times> size_t" where
  "bytes_per_worker block workers tot =
     (let num_blocks = tot div block;
          num_workloads = num_workloads_of block workers tot;
          base = num_blocks div num_workloads * block
      in (num_workloads, base, tot - num_workloads * base))"

text \<open>The checks at the end of \<open>assign\<close>: both \<open>ASSERT\<close>s.\<close>

definition assign_verified :: "size_t \<Rightarrow> assign_state \<Rightarrow> bool" where
  "assign_verified tot st \<longleftrightarrow>
     sum_list (as_worker_bytes st) = tot \<and>
     list_all (\<lambda>t. sum_list (map slice_size (tr_tasks t)) = tr_size t) (as_transfers st)"

text \<open>
  \<open>assign\<close>: \<open>None\<close> would be a division that never ends. The result is the number of workloads and
  the transfers with their slices.
\<close>

definition assign ::
  "size_t \<Rightarrow> uint \<Rightarrow> size_t \<Rightarrow> contiguous_transfer list \<Rightarrow>
    (exn + size_t \<times> contiguous_transfer list) option" where
  "assign block workers tot transfers =
     (if block = 0 then Some (Inl Trap)
      else case bytes_per_worker block workers tot of (num_workloads, base, remainder) \<Rightarrow>
        (case assign_workers (unat workers) 0 base remainder
                \<lparr>as_transfers = transfers, as_worker_bytes = replicate (unat workers) 0,
                 as_index = 0, as_consumed = 0\<rparr> of
           None \<Rightarrow> None
         | Some st \<Rightarrow>
             if assign_verified tot st then Some (Inr (num_workloads, as_transfers st))
             else Some (Inl StdException)))"

section \<open>The constructor\<close>

text \<open>\<open>check_object_storage\<close>: the first file that has ranges decides.\<close>

fun check_object_storage :: "file_ranges list \<Rightarrow> bool" where
  "check_object_storage [] = False"
| "check_object_storage (file # files) =
     (if fr_ranges file = [] then check_object_storage files
      else case make_storage_uri (fr_path file) of Inl e \<Rightarrow> False | Inr uri \<Rightarrow> True)"

record assigner =
  asg_num_workers :: uint
  asg_num_workloads :: size_t
  asg_transfers :: "contiguous_transfer list"

definition assigner_make :: "file_ranges list \<Rightarrow> config \<Rightarrow> (exn + assigner) option" where
  "assigner_make request cfg =
     (let object_storage = check_object_storage request;
          workers = (if object_storage then s3_concurrency cfg else concurrency cfg);
          block = (if object_storage then s3_block_bytesize cfg else fs_block_bytesize cfg);
          empty = \<lparr>asg_num_workers = workers, asg_num_workloads = 0, asg_transfers = []\<rparr>
      in if request = [] then Some (Inr empty)
         else case coalesce request of
           Inl e \<Rightarrow> Some (Inl e)
         | Inr (tot, transfers) \<Rightarrow>
             if transfers = [] then Some (Inr empty)
             else case assign block workers tot transfers of
               None \<Rightarrow> None
             | Some (Inl e) \<Rightarrow> Some (Inl e)
             | Some (Inr (num_workloads, transfers')) \<Rightarrow>
                 Some (Inr \<lparr>asg_num_workers = workers, asg_num_workloads = num_workloads,
                            asg_transfers = transfers'\<rparr>))"

section \<open>Coalescing loses nothing\<close>

definition range_segment :: "read_range \<Rightarrow> segment" where
  "range_segment r = (rng_offset r, rng_size r, rng_dst r)"

text \<open>
  The ranges of a submission, each with its file index and its index within the file, and the
  ranges a transfer stands for.
\<close>

fun request_ranges :: "nat \<Rightarrow> file_ranges list \<Rightarrow> (nat \<times> nat \<times> segment) list" where
  "request_ranges f [] = []"
| "request_ranges f (file # files) =
     number f 0 (map range_segment (fr_ranges file)) @ request_ranges (Suc f) files"

definition transfer_ranges :: "contiguous_transfer \<Rightarrow> (nat \<times> nat \<times> segment) list" where
  "transfer_ranges t =
     number (tr_file_index t) (first_range_index t)
       (lay (tr_offset t) (tr_destination t) (range_sizes t))"

definition transfer_bytes :: "contiguous_transfer list \<Rightarrow> nat" where
  "transfer_bytes ts = sum_list (map (\<lambda>t. unat (tr_size t)) ts)"

definition request_bytes :: "file_ranges list \<Rightarrow> nat" where
  "request_bytes files =
     sum_list (map (\<lambda>file. sum_list (map (\<lambda>r. unat (rng_size r)) (fr_ranges file))) files)"

text \<open>A coalesced transfer: at least one range, whose sizes add up without wrapping.\<close>

definition transfer_ok :: "contiguous_transfer \<Rightarrow> bool" where
  "transfer_ok t \<longleftrightarrow> range_sizes t \<noteq> [] \<and> tr_tasks t = [] \<and>
     unat (tr_size t) = sum_list (map unat (range_sizes t))"

text \<open>The state of the loop: what is open is the last transfer, and range \<open>i\<close> comes next.\<close>

definition coalesce_inv :: "nat \<Rightarrow> nat \<Rightarrow> size_t \<Rightarrow> contiguous_transfer list \<Rightarrow> nat \<Rightarrow> bool" where
  "coalesce_inv f i tot ts opn \<longleftrightarrow>
     list_all transfer_ok ts \<and> transfer_bytes ts = unat tot \<and>
     (opn < length ts \<longrightarrow> opn = length ts - 1 \<and> tr_file_index (ts ! opn) = f \<and>
       first_range_index (ts ! opn) + length (range_sizes (ts ! opn)) = i)"

lemma transfer_ok_sum: "transfer_ok t \<Longrightarrow> tr_size t = sum_list (range_sizes t)"
  using unat_sum_list [of "range_sizes t"] unat_lt64 [of "tr_size t"]
  by (simp add: transfer_ok_def unat_word_eq_iff del: unat_lt64)

lemma transfer_ranges_open: "transfer_ranges (open_transfer f i r) = [(f, i, range_segment r)]"
  by (simp add: transfer_ranges_def open_transfer_def range_segment_def)

lemma transfer_ranges_extend:
  assumes "transfer_ok t" and "extends_transfer t r"
  shows "transfer_ranges (extend_transfer t r) =
    transfer_ranges t @
      [(tr_file_index t, first_range_index t + length (range_sizes t), range_segment r)]"
  using assms transfer_ok_sum [OF assms(1)]
  by (simp add: transfer_ranges_def extend_transfer_def extends_transfer_def range_segment_def
      lay_append)

lemma transfer_bytes_simps [simp]:
  "transfer_bytes [] = 0"
  "transfer_bytes (t # ts) = unat (tr_size t) + transfer_bytes ts"
  "transfer_bytes (ts @ us) = transfer_bytes ts + transfer_bytes us"
  by (simp_all add: transfer_bytes_def)

lemma coalesce_inv_open:
  assumes "coalesce_inv f i tot ts opn" and "unat tot + unat (rng_size r) < 18446744073709551616"
  shows "coalesce_inv f (Suc i) (tot + rng_size r) (ts @ [open_transfer f i r]) (length ts)"
  using assms
  by (auto simp: coalesce_inv_def open_transfer_def transfer_ok_def word_to_nat)

lemma coalesce_inv_last:
  assumes "coalesce_inv f i tot ts opn" and "opn < length ts"
  obtains us t where "ts = us @ [t]" "opn = length us" "transfer_ok t" "tr_file_index t = f"
    "first_range_index t + length (range_sizes t) = i"
proof -
  obtain us t where ts: "ts = us @ [t]"
    using assms(2) by (cases ts rule: rev_cases) auto
  with assms show thesis
    by (intro that [of us t]) (auto simp: coalesce_inv_def)
qed

lemma coalesce_inv_extend:
  assumes inv: "coalesce_inv f i tot (us @ [t]) (length us)"
    and small: "unat tot + unat (rng_size r) < 18446744073709551616"
  shows "coalesce_inv f (Suc i) (tot + rng_size r) (us @ [extend_transfer t r]) (length us)"
proof -
  have "unat (tr_size t) + unat (rng_size r) < 18446744073709551616"
    using inv small by (auto simp: coalesce_inv_def)
  then show ?thesis
    using inv small
    by (auto simp: coalesce_inv_def extend_transfer_def transfer_ok_def word_to_nat)
qed

lemma coalesce_ranges_Inr:
  assumes "coalesce_ranges f i rs tot ts opn = Inr (tot', ts')"
    and "coalesce_inv f i tot ts opn"
  shows "concat (map transfer_ranges ts') =
      concat (map transfer_ranges ts) @ number f i (map range_segment rs) \<and>
    list_all transfer_ok ts' \<and> transfer_bytes ts' = unat tot' \<and>
    unat tot' = unat tot + sum_list (map (\<lambda>r. unat (rng_size r)) rs)"
  using assms
proof (induction f i rs tot ts opn rule: coalesce_ranges.induct)
  case (1 f i tot ts opn)
  then show ?case by (auto simp: coalesce_inv_def)
next
  case (2 f i r rs tot ts opn)
  from "2.prems"(1) have small: "unat tot + unat (rng_size r) < 18446744073709551616"
    by (auto simp: add_overflow_iff split: if_splits)
  then have fits: "\<not> size_max - rng_size r < tot"
    by (simp add: add_overflow_iff)
  have tot: "unat (tot + rng_size r) = unat tot + unat (rng_size r)"
    using small by (simp add: word_to_nat)
  show ?case
  proof (cases "opn < length ts \<and> extends_transfer (ts ! opn) r")
    case True
    then obtain us t where ts: "ts = us @ [t]" "opn = length us" "transfer_ok t"
      "tr_file_index t = f" "first_range_index t + length (range_sizes t) = i"
      using "2.prems"(2) coalesce_inv_last by blast
    have inv: "coalesce_inv f (Suc i) (tot + rng_size r)
        (us @ [extend_transfer t r]) (length us)"
      using "2.prems"(2) small ts coalesce_inv_extend by simp
    have ih: "coalesce_inv f (Suc i) (tot + rng_size r) (ts[opn := extend_transfer (ts ! opn) r]) opn"
      using inv ts by simp
    from "2.prems"(1) True fits
    have "coalesce_ranges f (Suc i) rs (tot + rng_size r)
        (ts[opn := extend_transfer (ts ! opn) r]) opn = Inr (tot', ts')"
      by simp
    from "2.IH"(1) [OF fits refl True this ih] show ?thesis
      using True ts tot transfer_ranges_extend [of t r] by simp
  next
    case False
    from "2.prems"(1) False fits
    have "coalesce_ranges f (Suc i) rs (tot + rng_size r)
        (ts @ [open_transfer f i r]) (length ts) = Inr (tot', ts')"
      by (simp add: Let_def)
    from "2.IH"(2) [OF fits refl False this coalesce_inv_open [OF "2.prems"(2) small]]
    show ?thesis
      using tot by (simp add: transfer_ranges_open)
  qed
qed

lemma coalesce_ranges_Inl:
  assumes "coalesce_ranges f i rs tot ts opn = Inl e"
  shows "e = CommonException InvalidParameterError \<and>
    18446744073709551616 \<le> unat tot + sum_list (map (\<lambda>r. unat (rng_size r)) rs)"
  using assms
proof (induction f i rs tot ts opn rule: coalesce_ranges.induct)
  case (2 f i r rs tot ts opn)
  show ?case
  proof (cases "size_max - rng_size r < tot")
    case True
    with "2.prems" show ?thesis by (simp add: add_overflow_iff)
  next
    case False
    then have tot: "unat (tot + rng_size r) = unat tot + unat (rng_size r)"
      by (simp add: add_overflow_iff word_to_nat)
    show ?thesis
      using "2.IH"(1) [OF False refl] "2.IH"(2) [OF False refl] "2.prems" False tot
      by (cases "opn < length ts \<and> extends_transfer (ts ! opn) r") (auto simp: Let_def)
  qed
qed simp

lemma coalesce_files_Inr:
  assumes "coalesce_files f files tot ts = Inr (tot', ts')"
    and "list_all transfer_ok ts" and "transfer_bytes ts = unat tot"
  shows "concat (map transfer_ranges ts') =
      concat (map transfer_ranges ts) @ request_ranges f files \<and>
    list_all transfer_ok ts' \<and> transfer_bytes ts' = unat tot' \<and>
    unat tot' = unat tot + request_bytes files"
  using assms
proof (induction f files tot ts rule: coalesce_files.induct)
  case (1 f tot ts)
  then show ?case by (simp add: request_bytes_def)
next
  case (2 f fl files tot ts)
  from "2.prems"(1) obtain total1 ts1 where
    r: "coalesce_ranges f 0 (fr_ranges fl) tot ts (length ts) = Inr (total1, ts1)"
    and rest: "coalesce_files (Suc f) files total1 ts1 = Inr (tot', ts')"
    by (auto split: sum.splits prod.splits)
  have "coalesce_inv f 0 tot ts (length ts)"
    using "2.prems"(2,3) by (simp add: coalesce_inv_def)
  from coalesce_ranges_Inr [OF r this]
  have step: "concat (map transfer_ranges ts1) =
      concat (map transfer_ranges ts) @ number f 0 (map range_segment (fr_ranges fl))"
    "list_all transfer_ok ts1" "transfer_bytes ts1 = unat total1"
    "unat total1 = unat tot + sum_list (map (\<lambda>r. unat (rng_size r)) (fr_ranges fl))"
    by auto
  from "2.IH" [OF r refl rest step(2,3)] step(1,4) show ?case
    by (simp add: request_bytes_def)
qed

lemma coalesce_files_Inl:
  assumes "coalesce_files f files tot ts = Inl e"
    and "list_all transfer_ok ts" and "transfer_bytes ts = unat tot"
  shows "e = CommonException InvalidParameterError \<and>
    18446744073709551616 \<le> unat tot + request_bytes files"
  using assms
proof (induction f files tot ts rule: coalesce_files.induct)
  case (2 f fl files tot ts)
  show ?case
  proof (cases "coalesce_ranges f 0 (fr_ranges fl) tot ts (length ts)")
    case (Inl e')
    with "2.prems"(1) coalesce_ranges_Inl [OF Inl] show ?thesis
      by (simp add: request_bytes_def)
  next
    case (Inr p)
    obtain total1 ts1 where p: "p = (total1, ts1)" by (cases p)
    have "coalesce_inv f 0 tot ts (length ts)"
      using "2.prems"(2,3) by (simp add: coalesce_inv_def)
    note step = coalesce_ranges_Inr [OF Inr [unfolded p] this]
    from "2.IH" [OF Inr p [symmetric]] step "2.prems"(1) Inr p show ?thesis
      by (auto simp: request_bytes_def)
  qed
qed simp

end
