(* ===== verification/Requests.thy ===== *)
theory Requests
  imports Assigner
begin

text \<open>
  The streamer's per-range objects: \<open>Request\<close> (\<open>streamer/impl/request\<close>) counts the tasks of one
  range and collects their errors, \<open>Task\<close> (\<open>streamer/impl/task\<close>) is the part of a range that one
  worker reads. Requests are shared between tasks of different workers, so they live in a heap
  and a task holds the address of its request; both of a request's fields that change are atomic.
\<close>

section \<open>Requests\<close>

record request =
  req_offset :: size_t
  req_file_index :: nat
  req_index :: nat
  req_bytesize :: size_t
  req_dst :: ptr
  req_tasks :: uint
  req_ret :: response_code

definition request_make ::
  "size_t \<Rightarrow> nat \<Rightarrow> nat \<Rightarrow> uint \<Rightarrow> size_t \<Rightarrow> ptr \<Rightarrow> request" where
  "request_make offset file_index index tasks bytesize dst =
     \<lparr>req_offset = offset, req_file_index = file_index, req_index = index,
      req_bytesize = bytesize, req_dst = dst, req_tasks = tasks, req_ret = Success\<rparr>"

text \<open>The two atomic actions of \<open>Request::finished\<close>, and the call as a whole.\<close>

definition request_store :: "response_code \<Rightarrow> request \<Rightarrow> request" where
  "request_store result r = (if result \<noteq> Success then r\<lparr>req_ret := result\<rparr> else r)"

definition request_fetch_sub :: "request \<Rightarrow> request \<times> bool" where
  "request_fetch_sub r = (let running = req_tasks r in (r\<lparr>req_tasks := running - 1\<rparr>, running = 1))"

definition request_finished :: "response_code \<Rightarrow> request \<Rightarrow> request \<times> bool" where
  "request_finished result r = request_fetch_sub (request_store result r)"

section \<open>Tasks\<close>

text \<open>\<open>Task::Info\<close>.\<close>

record task_info =
  ti_offset :: size_t
  ti_bytesize :: size_t
  ti_end :: size_t
  ti_relative_offset :: size_t

definition make_info :: "size_t \<Rightarrow> size_t \<Rightarrow> size_t \<Rightarrow> task_info" where
  "make_info offset bytesize relative_offset =
     \<lparr>ti_offset = offset, ti_bytesize = bytesize, ti_end = offset + bytesize,
      ti_relative_offset = relative_offset\<rparr>"

record task =
  task_request :: nat
  task_info :: task_info
  task_finished :: bool

type_synonym request_heap = "request list"

definition make_task :: "nat \<Rightarrow> task_info \<Rightarrow> task" where
  "make_task request info = \<lparr>task_request = request, task_info = info, task_finished = False\<rparr>"

text \<open>
  \<open>Task::finished_request\<close>: does nothing the second time, and otherwise says whether this was the
  last task of its request.
\<close>

definition finished_request ::
  "response_code \<Rightarrow> request_heap \<Rightarrow> task \<Rightarrow> request_heap \<times> task \<times> bool" where
  "finished_request ret heap t =
     (if task_finished t then (heap, t, False)
      else case request_finished ret (heap ! task_request t) of
        (r, completed) \<Rightarrow> (heap[task_request t := r], t\<lparr>task_finished := True\<rparr>, completed))"

definition task_destination :: "request_heap \<Rightarrow> task \<Rightarrow> ptr" where
  "task_destination heap t = req_dst (heap ! task_request t) + ti_relative_offset (task_info t)"

text \<open>The segment a task reads.\<close>

definition task_seg :: "request_heap \<Rightarrow> task \<Rightarrow> segment" where
  "task_seg heap t =
     (ti_offset (task_info t), ti_bytesize (task_info t), task_destination heap t)"

lemma request_finished_simps:
  "req_tasks (fst (request_finished c r)) = req_tasks r - 1"
  "req_ret (fst (request_finished c r)) = (if c \<noteq> Success then c else req_ret r)"
  "snd (request_finished c r) \<longleftrightarrow> req_tasks r = 1"
  "req_dst (fst (request_finished c r)) = req_dst r"
  "req_index (fst (request_finished c r)) = req_index r"
  "req_file_index (fst (request_finished c r)) = req_file_index r"
  "req_bytesize (fst (request_finished c r)) = req_bytesize r"
  "req_offset (fst (request_finished c r)) = req_offset r"
  by (simp_all add: request_finished_def request_fetch_sub_def request_store_def Let_def)

section \<open>Finishing from several workers at once\<close>

text \<open>
  Each worker that finishes one of a request's tasks first stores its error, if it has one, and
  then decrements the counter; the two actions of different workers interleave in any order. The
  state is the request and, per task, how far its worker is: about to finish with a code, the
  code stored, or done, with the answer \<open>finished\<close> returned.
\<close>

datatype finisher =
    Fin_Start (fin_code: response_code)
  | Fin_Stored (fin_code: response_code)
  | Fin_Done (fin_code: response_code) (fin_last: bool)

fun fin_is_done :: "finisher \<Rightarrow> bool" where
  "fin_is_done (Fin_Done c b) = True"
| "fin_is_done _ = False"

fun fin_is_last :: "finisher \<Rightarrow> bool" where
  "fin_is_last (Fin_Done c b) = b"
| "fin_is_last _ = False"

inductive finish_step :: "request \<times> finisher list \<Rightarrow> request \<times> finisher list \<Rightarrow> bool" where
  store: "i < length fs \<Longrightarrow> fs ! i = Fin_Start c \<Longrightarrow>
    finish_step (r, fs) (request_store c r, fs[i := Fin_Stored c])"
| fetch_sub: "i < length fs \<Longrightarrow> fs ! i = Fin_Stored c \<Longrightarrow> request_fetch_sub r = (r', lst) \<Longrightarrow>
    finish_step (r, fs) (r', fs[i := Fin_Done c lst])"

inductive finish_reachable :: "request \<Rightarrow> response_code list \<Rightarrow> request \<times> finisher list \<Rightarrow> bool"
  for r0 :: request and codes :: "response_code list" where
  start: "finish_reachable r0 codes (r0, map Fin_Start codes)"
| step: "finish_reachable r0 codes s \<Longrightarrow> finish_step s s' \<Longrightarrow> finish_reachable r0 codes s'"

definition quiet :: "finisher \<Rightarrow> bool" where
  "quiet f \<longleftrightarrow> (case f of Fin_Start c \<Rightarrow> True | _ \<Rightarrow> fin_code f = Success)"

definition finish_inv :: "response_code list \<Rightarrow> request \<times> finisher list \<Rightarrow> bool" where
  "finish_inv codes s \<longleftrightarrow> (case s of (r, fs) \<Rightarrow>
     map fin_code fs = codes \<and>
     unat (req_tasks r) = length (filter (\<lambda>f. \<not> fin_is_done f) fs) \<and>
     (req_ret r = Success \<longleftrightarrow> list_all quiet fs) \<and>
     (req_ret r \<noteq> Success \<longrightarrow> req_ret r \<in> set codes) \<and>
     length (filter fin_is_last fs) =
       (if list_all fin_is_done fs \<and> fs \<noteq> [] then 1 else 0))"

lemma length_filter_update:
  assumes "i < length xs"
  shows "length (filter P (xs[i := x])) + (if P (xs ! i) then 1 else 0) =
    length (filter P xs) + (if P x then 1 else 0)"
  using assms
proof (induction xs arbitrary: i)
  case (Cons y ys)
  then show ?case by (cases i) auto
qed simp

lemma filter_not_empty_iff: "length (filter (\<lambda>x. \<not> P x) xs) = 0 \<longleftrightarrow> list_all P xs"
  by (induction xs) auto


lemma list_all_update:
  assumes "i < length xs"
  shows "list_all P (xs[i := x]) \<longleftrightarrow> P x \<and> (\<forall>j<length xs. j \<noteq> i \<longrightarrow> P (xs ! j))"
  using assms by (auto simp: list_all_length nth_list_update)

lemma map_update_same:
  "f x = f (xs ! i) \<Longrightarrow> map f (xs[i := x]) = map f xs"
  by (metis list_update_id map_update)

lemma list_all_split:
  assumes "i < length xs"
  shows "list_all P xs \<longleftrightarrow> P (xs ! i) \<and> (\<forall>j<length xs. j \<noteq> i \<longrightarrow> P (xs ! j))"
  using assms by (auto simp: list_all_length)

lemma finish_inv_store:
  assumes inv: "finish_inv codes (r, fs)" and i: "i < length fs" "fs ! i = Fin_Start c"
  shows "finish_inv codes (request_store c r, fs[i := Fin_Stored c])"
proof -
  let ?fs = "fs[i := Fin_Stored c]"
  have codes: "map fin_code ?fs = codes"
    using inv i by (simp add: finish_inv_def map_update_same)
  have "?fs ! i = Fin_Stored c" and "?fs ! i \<in> set ?fs"
    using i by (simp, intro nth_mem) simp
  then have mem: "c \<in> set codes"
    using codes by force
  have "length (filter (\<lambda>f. \<not> fin_is_done f) ?fs) = length (filter (\<lambda>f. \<not> fin_is_done f) fs)"
    and "length (filter fin_is_last ?fs) = length (filter fin_is_last fs)"
    and "list_all fin_is_done ?fs \<longleftrightarrow> list_all fin_is_done fs"
    using i length_filter_update [of i fs "\<lambda>f. \<not> fin_is_done f" "Fin_Stored c"]
      length_filter_update [of i fs fin_is_last "Fin_Stored c"]
      list_all_split [of i fs fin_is_done]
    by (auto simp: list_all_update)
  moreover have "list_all quiet ?fs \<longleftrightarrow> c = Success \<and> list_all quiet fs"
    using i list_all_split [of i fs quiet] by (auto simp: list_all_update quiet_def)
  ultimately show ?thesis
    using inv codes mem by (auto simp: finish_inv_def request_store_def)
qed

lemma finish_inv_fetch_sub:
  assumes inv: "finish_inv codes (r, fs)" and i: "i < length fs" "fs ! i = Fin_Stored c"
    and sub: "request_fetch_sub r = (r', lst)"
  shows "finish_inv codes (r', fs[i := Fin_Done c lst])"
proof -
  let ?fs = "fs[i := Fin_Done c lst]"
  let ?open = "\<lambda>fs. length (filter (\<lambda>f. \<not> fin_is_done f) fs)"
  have codes: "map fin_code ?fs = codes"
    using inv i by (auto simp: finish_inv_def map_update_same)
  have "?open ?fs + 1 = ?open fs"
    using i length_filter_update [of i fs "\<lambda>f. \<not> fin_is_done f" "Fin_Done c lst"] by simp
  moreover have "unat (req_tasks r) = ?open fs"
    using inv by (simp add: finish_inv_def)
  ultimately have n: "unat (req_tasks r) = ?open ?fs + 1" by simp
  then have "1 \<le> req_tasks r" by (simp add: word_le_nat_alt)
  then have "unat (req_tasks r - 1) = ?open ?fs"
    using n by (simp add: unat_sub)
  moreover have r': "r' = r\<lparr>req_tasks := req_tasks r - 1\<rparr>" and lst: "lst \<longleftrightarrow> req_tasks r = 1"
    using sub by (auto simp: request_fetch_sub_def Let_def)
  moreover have "req_tasks r = 1 \<longleftrightarrow> ?open ?fs = 0"
    using n by (simp add: unat_word_eq_iff)
  then have all: "lst \<longleftrightarrow> list_all fin_is_done ?fs"
    using lst filter_not_empty_iff by metis
  moreover have "\<not> list_all fin_is_done fs"
    using i list_all_split [of i fs fin_is_done] by simp
  then have "length (filter fin_is_last fs) = 0"
    using inv by (simp add: finish_inv_def)
  then have "length (filter fin_is_last ?fs) = (if lst then 1 else 0)"
    using i length_filter_update [of i fs fin_is_last "Fin_Done c lst"] by simp
  moreover have "list_all quiet ?fs \<longleftrightarrow> list_all quiet fs"
    using i list_all_split [of i fs quiet] by (auto simp: list_all_update quiet_def)
  ultimately show ?thesis
    using inv codes i by (auto simp: finish_inv_def)
qed

lemma quiet_done: "fin_is_done f \<Longrightarrow> quiet f \<longleftrightarrow> fin_code f = Success"
  by (cases f) (auto simp: quiet_def)

lemma finish_inv_reachable:
  assumes "finish_reachable r0 codes s"
    and "unat (req_tasks r0) = length codes" and "req_ret r0 = Success"
  shows "finish_inv codes s"
  using assms
proof (induction rule: finish_reachable.induct)
  case start
  then show ?case
    by (auto simp: finish_inv_def comp_def quiet_def list_all_iff filter_empty_conv)
next
  case (step s s')
  then have inv: "finish_inv codes s" by simp
  from \<open>finish_step s s'\<close> show ?case
    using inv by cases (auto intro: finish_inv_store finish_inv_fetch_sub)
qed

text \<open>Property C20: whatever the interleaving of the workers that finish the tasks of a request, a
  request made for as many tasks is reported as completed by exactly one of them, and only once
  all have finished; its code is then \<open>Success\<close> exactly when no task failed, and otherwise it
  is the error of one of the tasks.\<close>

theorem finished_once:
  assumes "finish_reachable (request_make offset file_index index (of_nat (length codes)) bytesize dst)
      codes (r, fs)"
    and "0 < length codes" and "length codes < 2 ^ 32"
  shows "(length (filter fin_is_last fs) = (if list_all fin_is_done fs then 1 else 0)) \<and>
    (list_all fin_is_done fs \<longrightarrow>
      (req_ret r = Success \<longleftrightarrow> list_all (\<lambda>c. c = Success) codes) \<and>
      (req_ret r \<noteq> Success \<longrightarrow> req_ret r \<in> set codes))"
proof -
  have inv: "finish_inv codes (r, fs)"
    using assms by (intro finish_inv_reachable) (auto simp: request_make_def unat_of_nat)
  moreover from this have "fs \<noteq> []"
    using assms(2) by (auto simp: finish_inv_def)
  moreover have "list_all quiet fs \<longleftrightarrow> list_all (\<lambda>c. c = Success) codes"
    if "list_all fin_is_done fs"
    using inv that by (auto simp: finish_inv_def list_all_iff quiet_done)
  ultimately show ?thesis
    by (auto simp: finish_inv_def)
qed

theorem finished_once_witness:
  "\<exists>r fs. finish_reachable (request_make 0 0 0 2 8 0) [Success, FileAccessError] (r, fs) \<and>
     list_all fin_is_done fs \<and> length (filter fin_is_last fs) = 1 \<and> req_ret r = FileAccessError"
proof -
  let ?r = "request_make 0 0 0 2 8 0" and ?codes = "[Success, FileAccessError]"
  let ?r' = "?r\<lparr>req_ret := FileAccessError\<rparr>"
  have 0: "finish_reachable ?r ?codes (?r, [Fin_Start Success, Fin_Start FileAccessError])"
    using finish_reachable.start [of ?r ?codes] by simp
  have "finish_step (?r, [Fin_Start Success, Fin_Start FileAccessError])
      (?r', [Fin_Start Success, Fin_Stored FileAccessError])"
    using finish_step.store [of 1 "[Fin_Start Success, Fin_Start FileAccessError]" FileAccessError ?r]
    by (simp add: request_store_def)
  note 1 = finish_reachable.step [OF 0 this]
  have "finish_step (?r', [Fin_Start Success, Fin_Stored FileAccessError])
      (?r', [Fin_Stored Success, Fin_Stored FileAccessError])"
    using finish_step.store [of 0 "[Fin_Start Success, Fin_Stored FileAccessError]" Success ?r']
    by (simp add: request_store_def)
  note 2 = finish_reachable.step [OF 1 this]
  have "finish_step (?r', [Fin_Stored Success, Fin_Stored FileAccessError])
      (?r'\<lparr>req_tasks := 1\<rparr>, [Fin_Done Success False, Fin_Stored FileAccessError])"
    using finish_step.fetch_sub [of 0 "[Fin_Stored Success, Fin_Stored FileAccessError]" Success ?r' _ False]
    by (simp add: request_fetch_sub_def request_make_def)
  note 3 = finish_reachable.step [OF 2 this]
  have "finish_step (?r'\<lparr>req_tasks := 1\<rparr>, [Fin_Done Success False, Fin_Stored FileAccessError])
      (?r'\<lparr>req_tasks := 0\<rparr>, [Fin_Done Success False, Fin_Done FileAccessError True])"
    using finish_step.fetch_sub [of 1 "[Fin_Done Success False, Fin_Stored FileAccessError]"
        FileAccessError "?r'\<lparr>req_tasks := 1\<rparr>" _ True]
    by (simp add: request_fetch_sub_def request_make_def)
  note 4 = finish_reachable.step [OF 3 this]
  have codes: "of_nat (length ?codes) = (2 :: uint)" by simp
  from finished_once [of 0 0 0 ?codes 8 0, unfolded codes, OF 4] show ?thesis
    using 4 by (intro exI [of _ "?r'\<lparr>req_tasks := 0\<rparr>"]
        exI [of _ "[Fin_Done Success False, Fin_Done FileAccessError True]"]) simp
qed

end
