(* ===== verification/StdMap.thy ===== *)
theory StdMap
  imports Prelude "HOL-Library.List_Lexorder" "HOL-Library.Char_ord"
begin

text \<open>
  \<open>std::map\<close>: an association list in ascending order of its keys, which is the order the
  sources iterate in. The locale \<open>dictionary\<close> is the interface the components rely on; the
  sorted lists are its instance.
\<close>

section \<open>The interface\<close>

locale dictionary =
  fixes lookup :: "'m \<Rightarrow> 'k \<Rightarrow> 'v option"
    and put :: "'k \<Rightarrow> 'v \<Rightarrow> 'm \<Rightarrow> 'm"
    and erase :: "'k \<Rightarrow> 'm \<Rightarrow> 'm"
    and count :: "'m \<Rightarrow> nat"
    and ok :: "'m \<Rightarrow> bool"
  assumes lookup_put: "ok m \<Longrightarrow> lookup (put k v m) = (lookup m)(k \<mapsto> v)"
    and lookup_erase: "ok m \<Longrightarrow> lookup (erase k m) = (lookup m)(k := None)"
    and count_dom: "ok m \<Longrightarrow> finite (dom (lookup m)) \<and> count m = card (dom (lookup m))"
    and put_ok: "ok m \<Longrightarrow> ok (put k v m)"
    and erase_ok: "ok m \<Longrightarrow> ok (erase k m)"
begin

lemma count_put:
  "ok m \<Longrightarrow> count (put k v m) = (if lookup m k = None then Suc (count m) else count m)"
  using count_dom [of m] count_dom [OF put_ok, of m k v]
  by (auto simp: lookup_put card_insert_if domIff)

lemma count_erase:
  "ok m \<Longrightarrow> count (erase k m) = (if lookup m k = None then count m else count m - 1)"
  using count_dom [of m] count_dom [OF erase_ok, of m k]
  by (auto simp: lookup_erase card_Diff_singleton_if domIff)

lemma erase_put_lookup:
  "ok m \<Longrightarrow> lookup m k = None \<Longrightarrow> lookup (erase k (put k v m)) = lookup m"
  by (auto simp: lookup_put lookup_erase put_ok)

lemma count_zero: "ok m \<Longrightarrow> count m = 0 \<longleftrightarrow> lookup m = Map.empty"
  using count_dom [of m] by auto

end

section \<open>Sorted association lists\<close>

fun mput :: "'k::linorder \<Rightarrow> 'v \<Rightarrow> ('k \<times> 'v) list \<Rightarrow> ('k \<times> 'v) list" where
  "mput k v [] = [(k, v)]"
| "mput k v ((k', v') # m) =
     (if k < k' then (k, v) # (k', v') # m
      else if k = k' then (k, v) # m
      else (k', v') # mput k v m)"

text \<open>\<open>emplace\<close> and \<open>try_emplace\<close>: keep what is there; the flag says whether it was inserted.\<close>

definition memplace :: "'k::linorder \<Rightarrow> 'v \<Rightarrow> ('k \<times> 'v) list \<Rightarrow> ('k \<times> 'v) list \<times> bool" where
  "memplace k v m = (if map_of m k = None then (mput k v m, True) else (m, False))"

definition merase :: "'k \<Rightarrow> ('k \<times> 'v) list \<Rightarrow> ('k \<times> 'v) list" where
  "merase k m = filter (\<lambda>p. fst p \<noteq> k) m"

definition msorted :: "('k::linorder \<times> 'v) list \<Rightarrow> bool" where
  "msorted m \<longleftrightarrow> sorted_wrt (<) (map fst m)"

lemma map_of_mput [simp]: "map_of (mput k v m) = (map_of m)(k \<mapsto> v)"
  by (induction k v m rule: mput.induct) auto

lemma map_of_merase [simp]: "map_of (merase k m) = (map_of m)(k := None)"
  by (induction m) (auto simp: merase_def)

lemma keys_mput: "fst ` set (mput k v m) = insert k (fst ` set m)"
  by (induction k v m rule: mput.induct) auto

lemma set_merase: "set (merase k m) = {p \<in> set m. fst p \<noteq> k}"
  by (simp add: merase_def)

lemma msorted_simps [simp]:
  "msorted []"
  "msorted ((k, v) # m) \<longleftrightarrow> (\<forall>p\<in>set m. k < fst p) \<and> msorted m"
  by (auto simp: msorted_def)

lemma msorted_mput [simp]: "msorted m \<Longrightarrow> msorted (mput k v m)"
proof (induction k v m rule: mput.induct)
  case (2 k v k' v' m)
  have "\<forall>p\<in>set (mput k v m). k' < fst p" if "k' < k"
  proof
    fix p assume "p \<in> set (mput k v m)"
    then have "fst p \<in> insert k (fst ` set m)"
      using keys_mput [of k v m] by blast
    with that 2 show "k' < fst p" by auto
  qed
  with 2 show ?case by auto
qed simp

lemma msorted_merase [simp]: "msorted m \<Longrightarrow> msorted (merase k m)"
  by (simp add: merase_def msorted_def sorted_wrt_map sorted_wrt_filter)

lemma msorted_distinct: "msorted m \<Longrightarrow> distinct (map fst m)"
  unfolding msorted_def using strict_sorted_iff by blast

lemma msorted_length: "msorted m \<Longrightarrow> length m = card (dom (map_of m))"
  by (metis distinct_card dom_map_of_conv_image_fst length_map list.set_map msorted_distinct)

lemma mput_last: "(\<forall>p\<in>set m. fst p < k) \<Longrightarrow> mput k v m = m @ [(k, v)]"
  by (induction k v m rule: mput.induct) auto

interpretation std_map: dictionary map_of mput merase length "msorted"
  by unfold_locales (auto simp: msorted_length finite_dom_map_of)

end
