(* ===== verification/Credentials.thy ===== *)
theory Credentials
  imports StdMap ResponseCodes
begin

text \<open>
  The credentials dictionary (\<open>common/s3_credentials\<close>): parameters by name, built from parallel
  arrays or from the five known S3 credentials, and what of it reaches the storage plugin: every
  parameter but the endpoint, which is a field of its own in the client's configuration.
\<close>

type_synonym credentials = "(string \<times> string) list"

definition endpoint_key :: string where "endpoint_key = ''endpoint''"
definition access_key_id_key :: string where "access_key_id_key = ''access_key_id''"
definition secret_access_key_key :: string where "secret_access_key_key = ''secret_access_key''"
definition session_token_key :: string where "session_token_key = ''session_token''"
definition region_key :: string where "region_key = ''region''"

text \<open>
  The constructor from arrays. An array is \<open>None\<close> when the pointer is null and holds \<open>None\<close>
  where an entry is; both hold \<open>num_params\<close> entries otherwise. A null entry is skipped, a later
  value for a key replaces an earlier one.
\<close>

fun credentials_fold :: "string option list \<Rightarrow> string option list \<Rightarrow> credentials \<Rightarrow> credentials" where
  "credentials_fold (k # ks) (v # vs) c =
     credentials_fold ks vs
       (case (k, v) of (Some key, Some val) \<Rightarrow> mput key val c | _ \<Rightarrow> c)"
| "credentials_fold _ _ c = c"

definition credentials_from_arrays ::
  "string option list option \<Rightarrow> string option list option \<Rightarrow> nat \<Rightarrow> credentials" where
  "credentials_from_arrays keys values num_params =
     (case (keys, values) of
        (Some ks, Some vs) \<Rightarrow> credentials_fold (take num_params ks) (take num_params vs) []
      | _ \<Rightarrow> [])"

definition put_given :: "string \<Rightarrow> string option \<Rightarrow> credentials \<Rightarrow> credentials" where
  "put_given key v c = (case v of None \<Rightarrow> c | Some s \<Rightarrow> mput key s c)"

definition credentials_make ::
  "string option \<Rightarrow> string option \<Rightarrow> string option \<Rightarrow> string option \<Rightarrow> string option \<Rightarrow> credentials" where
  "credentials_make access_key_id secret_access_key session_token region endpoint =
     put_given endpoint_key endpoint
       (put_given region_key region
         (put_given session_token_key session_token
           (put_given secret_access_key_key secret_access_key
             (put_given access_key_id_key access_key_id []))))"

definition credentials_set :: "string \<Rightarrow> string \<Rightarrow> credentials \<Rightarrow> credentials" where
  "credentials_set key v c = mput key v c"

definition credentials_get :: "credentials \<Rightarrow> string \<Rightarrow> string option" where
  "credentials_get c key = map_of c key"

definition credentials_has :: "credentials \<Rightarrow> string \<Rightarrow> bool" where
  "credentials_has c key \<longleftrightarrow> map_of c key \<noteq> None"

definition credentials_endpoint :: "credentials \<Rightarrow> string option" where
  "credentials_endpoint c = credentials_get c endpoint_key"

definition to_object_client_config :: "credentials \<Rightarrow> (string \<times> string) list" where
  "to_object_client_config c = filter (\<lambda>(key, v). key \<noteq> endpoint_key) c"

definition credentials_eq :: "credentials \<Rightarrow> credentials \<Rightarrow> bool" where
  "credentials_eq c d \<longleftrightarrow> c = d"

section \<open>What the dictionary holds\<close>

lemma credentials_fold_sorted [simp]: "msorted c \<Longrightarrow> msorted (credentials_fold ks vs c)"
  by (induction ks vs c rule: credentials_fold.induct) (auto split: option.splits)

lemma credentials_fold_lookup:
  "length ks = length vs \<Longrightarrow> map_of (credentials_fold ks vs c) key =
     (case map_of (rev (concat (map (\<lambda>p. case p of (Some k, Some v) \<Rightarrow> [(k, v)] | _ \<Rightarrow> [])
        (zip ks vs)))) key of
      None \<Rightarrow> map_of c key | Some v \<Rightarrow> Some v)"
  by (induction ks vs c rule: credentials_fold.induct)
    (auto simp: map_add_def split: option.splits)

lemma put_given_sorted [simp]: "msorted c \<Longrightarrow> msorted (put_given key v c)"
  by (simp add: put_given_def split: option.splits)

lemma credentials_keys_distinct:
  "distinct [access_key_id_key, secret_access_key_key, session_token_key, region_key, endpoint_key]"
  by (simp add: endpoint_key_def access_key_id_key_def secret_access_key_key_def
      session_token_key_def region_key_def)

lemma put_given_lookup:
  "map_of (put_given key v c) k = (if k = key \<and> v \<noteq> None then v else map_of c k)"
  by (auto simp: put_given_def split: option.splits)

text \<open>Property C32: credentials given as named arguments read back as given, except for absent
  ones; the plugin gets exactly the given parameters other than the endpoint, which is delivered
  on its own; and two sets of credentials compare equal exactly when all five arguments agree.\<close>

theorem credentials_roundtrip:
  "credentials_get (credentials_make a s t r e) access_key_id_key = a \<and>
   credentials_get (credentials_make a s t r e) secret_access_key_key = s \<and>
   credentials_get (credentials_make a s t r e) session_token_key = t \<and>
   credentials_get (credentials_make a s t r e) region_key = r \<and>
   credentials_endpoint (credentials_make a s t r e) = e \<and>
   map_of (to_object_client_config (credentials_make a s t r e)) =
     (map_of (credentials_make a s t r e))(endpoint_key := None) \<and>
   (credentials_eq (credentials_make a s t r e) (credentials_make a' s' t' r' e') \<longleftrightarrow>
     (a, s, t, r, e) = (a', s', t', r', e'))"
proof -
  have get: "credentials_get (credentials_make a s t r e) access_key_id_key = a"
    "credentials_get (credentials_make a s t r e) secret_access_key_key = s"
    "credentials_get (credentials_make a s t r e) session_token_key = t"
    "credentials_get (credentials_make a s t r e) region_key = r"
    "credentials_endpoint (credentials_make a s t r e) = e" for a s t r e
    using credentials_keys_distinct
    by (auto simp: credentials_get_def credentials_make_def put_given_lookup credentials_endpoint_def)
  have "credentials_eq (credentials_make a s t r e) (credentials_make a' s' t' r' e') \<longleftrightarrow>
      (a, s, t, r, e) = (a', s', t', r', e')"
    unfolding credentials_eq_def using get [of a s t r e] get [of a' s' t' r' e']
    by (intro iffI) (simp_all del: map_of.simps)
  moreover have "to_object_client_config c = merase endpoint_key c" for c
    by (simp add: to_object_client_config_def merase_def case_prod_unfold)
  ultimately show ?thesis
    using get [of a s t r e] by simp
qed

end
