(* ===== verification/S3Wrapper.thy ===== *)
theory S3Wrapper
  imports Env StorageUri Credentials
begin

text \<open>
  The wrapper around the storage plugins (\<open>common/s3_wrapper\<close>): which shared library serves an
  address, the parameters of a client, and the one backend handle of the process. The plugins
  are loaded at run time, so whether a library loads, which symbols it has and what its entry
  points answer are parameters.
\<close>

section \<open>Plugins\<close>

datatype plugin_id = PluginGCS | PluginS3 | PluginAzure

definition plugin_so_name :: "plugin_id \<Rightarrow> string" where
  "plugin_so_name p =
     (case p of PluginGCS \<Rightarrow> ''libstreamergcs.so'' | PluginS3 \<Rightarrow> ''libstreamers3.so''
      | PluginAzure \<Rightarrow> ''libstreamerazure.so'')"

definition plugin_name :: "plugin_id \<Rightarrow> string" where
  "plugin_name p =
     (case p of PluginGCS \<Rightarrow> ''gcs'' | PluginS3 \<Rightarrow> ''s3'' | PluginAzure \<Rightarrow> ''azure'')"

definition get_libstreamers_plugin_type :: "storage_uri option \<Rightarrow> plugin_id" where
  "get_libstreamers_plugin_type u =
     (case u of
        None \<Rightarrow> PluginS3
      | Some uri \<Rightarrow> if is_gcs uri then PluginGCS else if is_azure uri then PluginAzure else PluginS3)"

definition open_object_storage_impl ::
  "(string \<Rightarrow> bool) \<Rightarrow> storage_uri option \<Rightarrow> exn + plugin_id" where
  "open_object_storage_impl loads u =
     (let p = get_libstreamers_plugin_type u in
      if loads (plugin_so_name p) then Inr p
      else Inl (CommonException
        (case p of PluginGCS \<Rightarrow> GCSNotSupported | PluginS3 \<Rightarrow> S3NotSupported
         | PluginAzure \<Rightarrow> AzureBlobNotSupported)))"

section \<open>Client parameters\<close>

record params =
  params_chunk_bytesize :: size_t
  params_uri :: "storage_uri option"
  params_credentials :: credentials
  params_endpoint :: string

text \<open>\<open>Params()\<close> has no address. It leaves the chunk size unset; nothing reads it then.\<close>

definition params_none :: params where
  "params_none = \<lparr>params_chunk_bytesize = 0, params_uri = None, params_credentials = [],
     params_endpoint = []\<rparr>"

definition params_valid :: "params \<Rightarrow> bool" where
  "params_valid p \<longleftrightarrow> params_uri p \<noteq> None"

text \<open>
  \<open>Params(uri, credentials, chunk_bytesize)\<close>: the endpoint of the credentials comes first, then
  \<open>AWS_ENDPOINT_URL\<close> unless its override flag is switched off.
\<close>

definition params_make ::
  "environment \<Rightarrow> storage_uri option \<Rightarrow> credentials \<Rightarrow> size_t \<Rightarrow> exn + params" where
  "params_make env uri cred chunk =
     (let p = \<lparr>params_chunk_bytesize = chunk, params_uri = uri, params_credentials = cred,
               params_endpoint = []\<rparr> in
      case credentials_endpoint cred of
        Some ep \<Rightarrow> Inr (p\<lparr>params_endpoint := ep\<rparr>)
      | None \<Rightarrow>
          let endpoint = try_getenv_string env ''AWS_ENDPOINT_URL'' in
          case getenv_bool_or env ''RUNAI_STREAMER_OVERRIDE_ENDPOINT_URL'' True of
            Inl e \<Rightarrow> Inl e
          | Inr flag \<Rightarrow>
              Inr (case endpoint of
                     Some ep \<Rightarrow> if flag then p\<lparr>params_endpoint := ep\<rparr> else p
                   | None \<Rightarrow> p))"

lemma params_make_error: "params_make env uri cred chunk = Inl e \<Longrightarrow> e = StdException"
  using getenv_bool_or_error [of env "''RUNAI_STREAMER_OVERRIDE_ENDPOINT_URL''" True e]
  by (auto simp: params_make_def Let_def split: option.splits sum.splits)

lemma params_make_chunk: "params_make env uri cred chunk = Inr p \<Longrightarrow> params_chunk_bytesize p = chunk"
  by (auto simp: params_make_def Let_def split: option.splits sum.splits)

record client_config =
  endpoint_url :: "string option"
  default_storage_chunk_size :: size_t
  initial_params :: "(string \<times> string) list"
  num_initial_params :: nat

definition to_config :: "params \<Rightarrow> client_config" where
  "to_config p =
     (let ps = to_object_client_config (params_credentials p) in
      \<lparr>endpoint_url = (if params_endpoint p = [] then None else Some (params_endpoint p)),
       default_storage_chunk_size = params_chunk_bytesize p,
       initial_params = ps, num_initial_params = length ps\<rparr>)"

section \<open>The backend handle\<close>

definition required_symbols :: "string list" where
  "required_symbols =
     [''obj_open_backend'', ''obj_close_backend'', ''obj_create_client'', ''obj_remove_client'',
      ''obj_remove_all_clients'', ''obj_cancel_all_reads'', ''obj_request_read'',
      ''obj_wait_for_completions'', ''obj_list_files'', ''obj_free_file_list'',
      ''obj_get_backend_shutdown_policy'', ''obj_get_backend_config'']"

definition resolve_api :: "(string \<Rightarrow> bool) \<Rightarrow> exn + unit" where
  "resolve_api has_symbol =
     (if list_all has_symbol required_symbols then Inr ()
      else Inl (CommonException ObjPluginLoadError))"

datatype shutdown_policy = OnProcessExit | OnStreamerShutdown

text \<open>What the process can load: the libraries, their symbols and their answers.\<close>

record plugin_world =
  pw_loads :: "string \<Rightarrow> bool"
  pw_has_symbol :: "plugin_id \<Rightarrow> string \<Rightarrow> bool"
  pw_open_backend :: "plugin_id \<Rightarrow> response_code"
  pw_policy :: "plugin_id \<Rightarrow> shutdown_policy"

definition backend_handle_make :: "plugin_world \<Rightarrow> params \<Rightarrow> exn + plugin_id" where
  "backend_handle_make w p =
     (case open_object_storage_impl (pw_loads w) (params_uri p) of
        Inl e \<Rightarrow> Inl e
      | Inr plugin \<Rightarrow>
          (case resolve_api (pw_has_symbol w plugin) of
             Inl e \<Rightarrow> Inl e
           | Inr _ \<Rightarrow>
               let ret = pw_open_backend w plugin in
               if ret \<noteq> Success then Inl (CommonException ret) else Inr plugin))"

text \<open>
  The static handle of \<open>manage_backend_handle\<close>: not yet initialised, held, or reset to null. An
  initialiser that throws leaves the static uninitialised, and the next call tries again.
\<close>

datatype backend_slot = Uninitialised | Held plugin_id | Null

datatype manage_op = HandleCreate | HandleDestroy

definition manage_backend_handle ::
  "plugin_world \<Rightarrow> params \<Rightarrow> manage_op \<Rightarrow> backend_slot \<Rightarrow> backend_slot \<times> (exn + plugin_id option)" where
  "manage_backend_handle w p op slot =
     (let create = (case backend_handle_make w p of
                      Inl e \<Rightarrow> (slot, Inl e)
                    | Inr plugin \<Rightarrow> (Held plugin, Inr (Some plugin)));
          finish = (\<lambda>s.
            case s of
              Held plugin \<Rightarrow>
                if op = HandleDestroy \<and> pw_policy w plugin = OnStreamerShutdown
                then (Null, Inr None) else (Held plugin, Inr (Some plugin))
            | other \<Rightarrow> (other, Inr None))
      in case slot of
           Uninitialised \<Rightarrow>
             (case create of (s, Inl e) \<Rightarrow> (s, Inl e) | (s, Inr _) \<Rightarrow> finish s)
         | Null \<Rightarrow>
             if op = HandleCreate then
               (case create of (s, Inl e) \<Rightarrow> (s, Inl e) | (s, Inr _) \<Rightarrow> finish s)
             else finish Null
         | Held plugin \<Rightarrow> finish (Held plugin))"

text \<open>\<open>S3ClientWrapper::shutdown\<close>: every exception is swallowed.\<close>

definition wrapper_shutdown :: "plugin_world \<Rightarrow> backend_slot \<Rightarrow> backend_slot" where
  "wrapper_shutdown w slot =
     (case manage_backend_handle w params_none HandleCreate slot of
        (s, Inl e) \<Rightarrow> s
      | (s, Inr _) \<Rightarrow> fst (manage_backend_handle w params_none HandleDestroy s))"

text \<open>\<open>S3ClientWrapper::stop\<close>: which plugin is told to cancel its reads, if any.\<close>

definition wrapper_stop :: "plugin_world \<Rightarrow> backend_slot \<Rightarrow> backend_slot \<times> plugin_id option" where
  "wrapper_stop w slot =
     (case manage_backend_handle w params_none HandleCreate slot of
        (s, Inl e) \<Rightarrow> (s, None) | (s, Inr h) \<Rightarrow> (s, h))"

section \<open>The calls of a client\<close>

text \<open>\<open>std::strtoull\<close> in base ten: zero without a digit, the largest value on overflow.\<close>

definition strtoull :: "string \<Rightarrow> size_t" where
  "strtoull s =
     (case scan_number s of (neg, k, ds) \<Rightarrow>
        if ds = [] then 0
        else if 2 ^ 64 \<le> digits_value ds then size_max
        else if neg then - of_nat (digits_value ds) else of_nat (digits_value ds))"

text \<open>The plugin's answer to \<open>get_backend_config\<close>: a code and the value it wrote.\<close>

definition max_inflight_bytes :: "response_code \<times> string \<Rightarrow> size_t" where
  "max_inflight_bytes answer =
     (case answer of (ret, buf) \<Rightarrow>
        if ret \<noteq> Success then size_max else strtoull (take 31 buf))"

text \<open>\<open>obj_wait_for_completions\<close> answers with a code, a number of events and the events.\<close>

definition async_read_response ::
  "response_code \<times> nat \<times> backend_response list \<Rightarrow> nat \<Rightarrow> exn + response_code \<times> backend_response list" where
  "async_read_response answer max_events =
     (if max_events = 0 then Inr (Success, [])
      else case answer of (ret, n, events) \<Rightarrow>
        if ret = Success then
          if n \<le> max_events then Inr (Success, take n events) else Inl StdException
        else Inr (ret, events))"

section \<open>Which plugin answers\<close>

lemma plugin_so_name_inj: "plugin_so_name p = plugin_so_name q \<longleftrightarrow> p = q"
  by (cases p; cases q) (simp_all add: plugin_so_name_def)

lemma manage_held:
  "manage_backend_handle w p HandleCreate (Held plugin) = (Held plugin, Inr (Some plugin))"
  by (simp add: manage_backend_handle_def)

lemma manage_create_Inr:
  assumes "manage_backend_handle w p HandleCreate slot = (slot', Inr h)"
  shows "\<exists>plugin. slot' = Held plugin \<and> h = Some plugin \<and>
    (slot = Held plugin \<or> plugin = get_libstreamers_plugin_type (params_uri p))"
  using assms
  by (auto simp: manage_backend_handle_def backend_handle_make_def open_object_storage_impl_def
      Let_def split: backend_slot.splits sum.splits if_splits)

text \<open>The creations of a sequence of clients, one after the other.\<close>

fun create_handles :: "plugin_world \<Rightarrow> params list \<Rightarrow> backend_slot \<Rightarrow> (exn + plugin_id option) list" where
  "create_handles w [] slot = []"
| "create_handles w (p # ps) slot =
     (case manage_backend_handle w p HandleCreate slot of
        (slot', r) \<Rightarrow> r # create_handles w ps slot')"

lemma create_handles_held:
  "r \<in> set (create_handles w ps (Held plugin)) \<Longrightarrow> r = Inr (Some plugin)"
  by (induction ps) (auto simp: manage_held)

text \<open>Property C30: the process has one backend handle. Once a client was created for an address of
  one plugin, every later client gets the library of that plugin, whatever its own address names,
  until the handle is destroyed.\<close>

theorem backend_handle_sticky:
  assumes "manage_backend_handle w p HandleCreate slot = (slot', Inr (Some plugin))"
    and "r \<in> set (create_handles w ps slot')"
  shows "r = Inr (Some plugin)"
  using manage_create_Inr [OF assms(1)] create_handles_held assms(2) by auto

definition sample_world :: plugin_world where
  "sample_world = \<lparr>pw_loads = (\<lambda>so. True), pw_has_symbol = (\<lambda>p s. True),
     pw_open_backend = (\<lambda>p. Success), pw_policy = (\<lambda>p. OnStreamerShutdown)\<rparr>"

definition sample_params :: "string \<Rightarrow> params" where
  "sample_params scheme = params_none\<lparr>params_uri :=
     Some \<lparr>uri_scheme = scheme, uri_uri = scheme @ ''://b/k'', uri_bucket = ''b'', uri_path = ''k''\<rparr>\<rparr>"

lemma sample_create:
  "manage_backend_handle sample_world (sample_params ''gs'') HandleCreate Uninitialised =
     (Held PluginGCS, Inr (Some PluginGCS))"
  by (simp add: manage_backend_handle_def backend_handle_make_def open_object_storage_impl_def
      get_libstreamers_plugin_type_def sample_world_def sample_params_def params_none_def
      is_gcs_def resolve_api_def list_all_iff)

theorem backend_handle_sticky_witness:
  "manage_backend_handle sample_world (sample_params ''gs'') HandleCreate Uninitialised =
     (Held PluginGCS, Inr (Some PluginGCS)) \<and>
   hd (create_handles sample_world [sample_params ''s3''] (Held PluginGCS)) = Inr (Some PluginGCS)"
proof
  have "hd (create_handles sample_world [sample_params ''s3''] (Held PluginGCS))
      \<in> set (create_handles sample_world [sample_params ''s3''] (Held PluginGCS))"
    by (simp add: manage_held)
  then show "hd (create_handles sample_world [sample_params ''s3''] (Held PluginGCS)) = Inr (Some PluginGCS)"
    by (rule backend_handle_sticky [OF sample_create])
qed (rule sample_create)

end
