(* ===== verification/Batch.thy ===== *)
theory Batch
  imports FileReader Requests S3Wrapper
begin

text \<open>
  \<open>Batch\<close> (\<open>streamer/impl/batch\<close>): the consecutive tasks one worker reads of one file. The
  operations act on the heap of requests and on the list of responses pushed so far, each with
  the number of bytes it is pushed with; the reader, the memory and the stop flag, which another
  thread may set at any time, are explicit.
\<close>

section \<open>The batch\<close>

record batch_range =
  bra_start :: size_t
  bra_size :: size_t
  bra_end :: size_t

definition batch_range_make :: "size_t \<Rightarrow> size_t \<Rightarrow> exn + batch_range" where
  "batch_range_make s e =
     (if e < s then Inl (CommonException InvalidParameterError)
      else Inr \<lparr>bra_start = s, bra_size = e - s, bra_end = e\<rparr>)"

definition calculate_start :: "task list \<Rightarrow> size_t" where
  "calculate_start ts = (if ts = [] then 0 else ti_offset (task_info (ts ! 0)))"

definition calculate_end :: "task list \<Rightarrow> size_t" where
  "calculate_end ts = (if ts = [] then 0 else ti_end (task_info (ts ! (length ts - 1))))"

record batch =
  batch_submission_id :: submission_id
  batch_workload_index :: nat
  batch_file_index :: nat
  batch_path :: string
  batch_params :: params
  batch_tasks :: "task list"
  batch_range :: batch_range
  batch_config :: config
  batch_unfinished :: nat

definition batch_make ::
  "submission_id \<Rightarrow> nat \<Rightarrow> nat \<Rightarrow> string \<Rightarrow> params \<Rightarrow> task list \<Rightarrow> config \<Rightarrow> exn + batch" where
  "batch_make submission_id workload file_index path ps tasks cfg =
     (case batch_range_make (calculate_start tasks) (calculate_end tasks) of
        Inl e \<Rightarrow> Inl e
      | Inr r \<Rightarrow> Inr \<lparr>batch_submission_id = submission_id, batch_workload_index = workload,
          batch_file_index = file_index, batch_path = path, batch_params = ps,
          batch_tasks = tasks, batch_range = r, batch_config = cfg, batch_unfinished = 0\<rparr>)"

definition total_bytes :: "batch \<Rightarrow> size_t" where
  "total_bytes b = bra_size (batch_range b)"

definition end_offset :: "batch \<Rightarrow> size_t" where
  "end_offset b = bra_end (batch_range b)"

definition is_object_storage :: "batch \<Rightarrow> bool" where
  "is_object_storage b \<longleftrightarrow> params_valid (batch_params b)"

section \<open>Finishing tasks\<close>

type_synonym pushes = "(response \<times> size_t) list"

text \<open>
  The step all paths share: finish one task, and push its request's response when it was the
  last task of the request.
\<close>

definition finish_task ::
  "submission_id \<Rightarrow> nat \<Rightarrow> response_code \<Rightarrow> request_heap \<times> pushes \<Rightarrow> task \<Rightarrow>
    (request_heap \<times> pushes) \<times> task" where
  "finish_task submission_id file_index ret w t =
     (case w of (heap, out) \<Rightarrow>
        case finished_request ret heap t of (heap', t', completed) \<Rightarrow>
          let r = heap' ! task_request t in
          ((heap',
            if completed
            then out @ [(\<lparr>resp_submission_id = submission_id, resp_file_index = file_index,
                          resp_index = req_index r, resp_ret = req_ret r\<rparr>, req_bytesize r)]
            else out), t'))"

text \<open>The loop of \<open>finished_until\<close>, from the first unfinished task on.\<close>

fun finish_upto ::
  "submission_id \<Rightarrow> nat \<Rightarrow> size_t \<Rightarrow> response_code \<Rightarrow> task list \<Rightarrow> request_heap \<times> pushes \<Rightarrow>
    task list \<times> nat \<times> (request_heap \<times> pushes)" where
  "finish_upto sid f file_offset ret [] w = ([], 0, w)"
| "finish_upto sid f file_offset ret (t # ts) w =
     (if file_offset < ti_end (task_info t) then (t # ts, 0, w)
      else case finish_task sid f ret w t of (w1, t') \<Rightarrow>
        (case finish_upto sid f file_offset ret ts w1 of (ts', n, w2) \<Rightarrow> (t' # ts', Suc n, w2)))"

definition finished_until ::
  "size_t \<Rightarrow> response_code \<Rightarrow> batch \<Rightarrow> request_heap \<times> pushes \<Rightarrow> batch \<times> (request_heap \<times> pushes)" where
  "finished_until file_offset ret b w =
     (case finish_upto (batch_submission_id b) (batch_file_index b) file_offset ret
             (drop (batch_unfinished b) (batch_tasks b)) w of
        (ts', n, w') \<Rightarrow>
          (b\<lparr>batch_tasks := take (batch_unfinished b) (batch_tasks b) @ ts',
             batch_unfinished := batch_unfinished b + n\<rparr>, w'))"

fun finish_each ::
  "submission_id \<Rightarrow> nat \<Rightarrow> response_code \<Rightarrow> task list \<Rightarrow> request_heap \<times> pushes \<Rightarrow>
    task list \<times> (request_heap \<times> pushes)" where
  "finish_each sid f ret [] w = ([], w)"
| "finish_each sid f ret (t # ts) w =
     (case finish_task sid f ret w t of (w1, t') \<Rightarrow>
        (case finish_each sid f ret ts w1 of (ts', w2) \<Rightarrow> (t' # ts', w2)))"

definition handle_error ::
  "response_code \<Rightarrow> batch \<Rightarrow> request_heap \<times> pushes \<Rightarrow> batch \<times> (request_heap \<times> pushes)" where
  "handle_error ret b w =
     (if ret \<noteq> Success then
        case finish_each (batch_submission_id b) (batch_file_index b) ret (batch_tasks b) w of
          (ts', w') \<Rightarrow> (b\<lparr>batch_tasks := ts'\<rparr>, w')
      else (b, w))"

text \<open>
  \<open>handle_task_response\<close> and \<open>handle_response\<close>, for the task at index \<open>i\<close> of the batch (\<open>None\<close> is a
  null task).
\<close>

definition handle_task_response ::
  "response_code \<Rightarrow> nat \<Rightarrow> batch \<Rightarrow> request_heap \<times> pushes \<Rightarrow> exn + batch \<times> (request_heap \<times> pushes)" where
  "handle_task_response ret i b w =
     (let t = batch_tasks b ! i in
      if req_file_index (fst w ! task_request t) \<noteq> batch_file_index b then Inl StdException
      else case finish_task (batch_submission_id b) (batch_file_index b) ret w t of
        (w', t') \<Rightarrow> Inr (b\<lparr>batch_tasks := (batch_tasks b)[i := t']\<rparr>, w'))"

definition handle_response ::
  "response_code \<Rightarrow> nat option \<Rightarrow> batch \<Rightarrow> request_heap \<times> pushes \<Rightarrow>
    exn + batch \<times> (request_heap \<times> pushes)" where
  "handle_response ret task b w =
     (if ret \<noteq> Success then Inl (CommonException ret)
      else case task of
        None \<Rightarrow> Inl StdException
      | Some i \<Rightarrow> handle_task_response ret i b w)"

section \<open>Reading\<close>

text \<open>
  What a running batch changes. Each evaluation of the stop flag is a load: the flag may read
  differently each time, so it is a function of the number of loads so far.
\<close>

record 'r exec =
  ex_batch :: batch
  ex_world :: "request_heap \<times> pushes"
  ex_mem :: memory
  ex_reader :: 'r
  ex_loads :: nat

definition load_stopped :: "(nat \<Rightarrow> bool) \<Rightarrow> 'r exec \<Rightarrow> bool \<times> 'r exec" where
  "load_stopped stopped x = (stopped (ex_loads x), x\<lparr>ex_loads := Suc (ex_loads x)\<rparr>)"

definition notify_until :: "size_t \<Rightarrow> 'r exec \<Rightarrow> 'r exec" where
  "notify_until file_offset x =
     (case finished_until file_offset Success (ex_batch x) (ex_world x) of
        (b, w) \<Rightarrow> x\<lparr>ex_batch := b, ex_world := w\<rparr>)"

type_synonym 'r read_fn = "size_t \<Rightarrow> ptr \<Rightarrow> 'r \<Rightarrow> memory \<Rightarrow> ((exn + unit) \<times> 'r \<times> memory) option"

text \<open>One read into the buffer and the notification of the tasks it completes.\<close>

definition read_piece ::
  "(size_t \<Rightarrow> ptr \<Rightarrow> 'r \<Rightarrow> memory \<Rightarrow> ((exn + unit) \<times> 'r \<times> memory) option) \<Rightarrow> size_t \<Rightarrow> ptr \<Rightarrow> size_t \<Rightarrow>
    'r exec \<Rightarrow> ((exn + unit) \<times> 'r exec) option" where
  "read_piece read n buffer new_offset x =
     (case read n buffer (ex_reader x) (ex_mem x) of
        None \<Rightarrow> None
      | Some (Inl e, s, mem) \<Rightarrow> Some (Inl e, x\<lparr>ex_reader := s, ex_mem := mem\<rparr>)
      | Some (Inr u, s, mem) \<Rightarrow>
          Some (Inr (), notify_until new_offset (x\<lparr>ex_reader := s, ex_mem := mem\<rparr>)))"

text \<open>The loop over the whole blocks, with \<open>n\<close> of them left.\<close>

fun read_chunks ::
  "(size_t \<Rightarrow> ptr \<Rightarrow> 'r \<Rightarrow> memory \<Rightarrow> ((exn + unit) \<times> 'r \<times> memory) option) \<Rightarrow> (nat \<Rightarrow> bool) \<Rightarrow> size_t \<Rightarrow>
    nat \<Rightarrow> size_t \<Rightarrow> ptr \<Rightarrow> 'r exec \<Rightarrow> ((exn + size_t \<times> ptr) \<times> 'r exec) option" where
  "read_chunks read stopped block 0 file_offset buffer x = Some (Inr (file_offset, buffer), x)"
| "read_chunks read stopped block (Suc n) file_offset buffer x =
     (case load_stopped stopped x of (st, x1) \<Rightarrow>
        if st then Some (Inr (file_offset, buffer), x1)
        else case read_piece read block buffer (file_offset + block) x1 of
          None \<Rightarrow> None
        | Some (Inl e, x2) \<Rightarrow> Some (Inl e, x2)
        | Some (Inr u, x2) \<Rightarrow>
            read_chunks read stopped block n (file_offset + block) (buffer + block) x2)"

text \<open>The rest of a block after the loop, the last notification and the test of the flag.\<close>

definition read_tail ::
  "(size_t \<Rightarrow> ptr \<Rightarrow> 'r \<Rightarrow> memory \<Rightarrow> ((exn + unit) \<times> 'r \<times> memory) option) \<Rightarrow> (nat \<Rightarrow> bool) \<Rightarrow> size_t \<Rightarrow>
    size_t \<Rightarrow> ptr \<Rightarrow> 'r exec \<Rightarrow> ((exn + unit) \<times> 'r exec) option" where
  "read_tail read stopped range_end file_offset buffer x =
     (if file_offset < range_end then
        case load_stopped stopped x of (st, x1) \<Rightarrow>
          if st then Some (Inr (), x1)
          else read_piece read (range_end - file_offset) buffer range_end x1
      else Some (Inr (), x))"

definition read_end :: "(nat \<Rightarrow> bool) \<Rightarrow> size_t \<Rightarrow> 'r exec \<Rightarrow> (exn + unit) \<times> 'r exec" where
  "read_end stopped range_end x =
     (case load_stopped stopped x of (st, x1) \<Rightarrow>
        let x2 = (if st then x1 else notify_until range_end x1) in
        case load_stopped stopped x2 of (st', x3) \<Rightarrow>
          (if st' then Inl (CommonException FinishedError) else Inr (), x3))"

definition batch_read ::
  "(size_t \<Rightarrow> 'r \<Rightarrow> exn + 'r) \<Rightarrow> (size_t \<Rightarrow> ptr \<Rightarrow> 'r \<Rightarrow> memory \<Rightarrow> ((exn + unit) \<times> 'r \<times> memory) option) \<Rightarrow>
    (nat \<Rightarrow> bool) \<Rightarrow> size_t \<Rightarrow> 'r exec \<Rightarrow> ((exn + unit) \<times> 'r exec) option" where
  "batch_read seek read stopped block x =
     (let b = ex_batch x; r = batch_range b in
      if batch_tasks b = [] then Some (Inr (), x)
      else
        let buffer = task_destination (fst (ex_world x)) (batch_tasks b ! 0) in
        if block = 0 then Some (Inl Trap, x)
        else case seek (bra_start r) (ex_reader x) of
          Inl e \<Rightarrow> Some (Inl e, x)
        | Inr s \<Rightarrow>
            (case read_chunks read stopped block (unat (bra_size r div block)) (bra_start r) buffer
                    (x\<lparr>ex_reader := s\<rparr>) of
               None \<Rightarrow> None
             | Some (Inl e, x1) \<Rightarrow> Some (Inl e, x1)
             | Some (Inr (file_offset, buf), x1) \<Rightarrow>
                 (case read_tail read stopped (bra_end r) file_offset buf x1 of
                    None \<Rightarrow> None
                  | Some (Inl e, x2) \<Rightarrow> Some (Inl e, x2)
                  | Some (Inr u, x2) \<Rightarrow> Some (read_end stopped (bra_end r) x2))))"

text \<open>
  \<open>execute\<close>: whatever exception ends the read becomes the code of the unfinished tasks. A trap is
  no exception, so nothing catches it.
\<close>

definition batch_execute ::
  "'os file_system \<Rightarrow> (nat \<Rightarrow> bool) \<Rightarrow> batch \<Rightarrow> request_heap \<times> pushes \<Rightarrow> memory \<Rightarrow>
    ((exn + unit) \<times> batch \<times> (request_heap \<times> pushes) \<times> memory) option" where
  "batch_execute fs stopped b w mem =
     (let block = fs_block_bytesize (batch_config b);
          failed = (\<lambda>e b w mem.
            if e = Trap then (Inl Trap, b, w, mem)
            else case handle_error (caught_code e) b w of (b', w') \<Rightarrow> (Inr (), b', w', mem))
      in if is_object_storage b then Some (failed StdException b w mem)
         else case file_open fs (batch_path b) of
           Inl e \<Rightarrow> Some (failed e b w mem)
         | Inr s \<Rightarrow>
             (case batch_read (file_seek fs) (file_read fs block) stopped block
                     \<lparr>ex_batch = b, ex_world = w, ex_mem = mem, ex_reader = s, ex_loads = 0\<rparr> of
                None \<Rightarrow> None
              | Some (Inl e, x) \<Rightarrow> Some (failed e (ex_batch x) (ex_world x) (ex_mem x))
              | Some (Inr u, x) \<Rightarrow>
                  (case handle_error Success (ex_batch x) (ex_world x) of
                     (b', w') \<Rightarrow> Some (Inr (), b', w', ex_mem x))))"

section \<open>Finishing tasks in sequence\<close>

text \<open>The worlds a sequence of finished tasks goes through, each task with its code.\<close>

fun finish_events ::
  "submission_id \<Rightarrow> nat \<Rightarrow> (task \<times> response_code) list \<Rightarrow> request_heap \<times> pushes \<Rightarrow>
    request_heap \<times> pushes" where
  "finish_events sid f [] w = w"
| "finish_events sid f ((t, c) # es) w = finish_events sid f es (fst (finish_task sid f c w t))"

definition set_finished :: "task \<Rightarrow> task" where
  "set_finished t = t\<lparr>task_finished := True\<rparr>"

lemma finish_events_append [simp]:
  "finish_events sid f (xs @ ys) w = finish_events sid f ys (finish_events sid f xs w)"
  by (induction sid f xs w rule: finish_events.induct) auto

lemma finish_task_done:
  "task_finished t \<Longrightarrow> finish_task sid f c w t = (w, t)"
  by (simp add: finish_task_def finished_request_def split: prod.splits)

lemma snd_finish_task: "\<not> task_finished t \<Longrightarrow> snd (finish_task sid f c w t) = set_finished t"
  by (simp add: finish_task_def finished_request_def set_finished_def Let_def split: prod.splits)

lemma finish_each_done:
  "\<forall>t\<in>set ts. task_finished t \<Longrightarrow> finish_each sid f c ts w = (ts, w)"
  by (induction ts arbitrary: w) (auto simp: finish_task_done)

lemma finish_each_fresh:
  "\<forall>t\<in>set ts. \<not> task_finished t \<Longrightarrow> finish_each sid f c ts w =
    (map set_finished ts, finish_events sid f (map (\<lambda>t. (t, c)) ts) w)"
proof (induction ts arbitrary: w)
  case (Cons t ts)
  then show ?case
    using snd_finish_task [of t sid f c w] by (auto split: prod.splits)
qed simp

lemma finish_each_append:
  "finish_each sid f c (xs @ ys) w =
    (case finish_each sid f c xs w of (xs', w1) \<Rightarrow>
      (case finish_each sid f c ys w1 of (ys', w2) \<Rightarrow> (xs' @ ys', w2)))"
  by (induction xs arbitrary: w) (auto split: prod.splits)

lemma finish_upto_fresh:
  assumes "\<forall>t\<in>set ts. \<not> task_finished t"
    and "n = length (takeWhile (\<lambda>t. ti_end (task_info t) \<le> off) ts)"
  shows "finish_upto sid f off c ts w =
    (map set_finished (take n ts) @ drop n ts, n,
     finish_events sid f (map (\<lambda>t. (t, c)) (take n ts)) w)"
  using assms
proof (induction ts arbitrary: w n)
  case (Cons t ts)
  then show ?case
    using snd_finish_task [of t sid f c w] by (auto simp: not_less split: prod.splits)
qed simp

text \<open>
  The state of a batch of which the first \<open>k\<close> tasks have succeeded, relative to the batch and the
  world it started with.
\<close>

definition batch_at :: "batch \<Rightarrow> nat \<Rightarrow> batch" where
  "batch_at b k = b\<lparr>batch_tasks := map set_finished (take k (batch_tasks b)) @ drop k (batch_tasks b),
     batch_unfinished := k\<rparr>"

definition events_of :: "batch \<Rightarrow> nat \<Rightarrow> response_code \<Rightarrow> (task \<times> response_code) list" where
  "events_of b k c = map (\<lambda>t. (t, Success)) (take k (batch_tasks b)) @
     map (\<lambda>t. (t, c)) (drop k (batch_tasks b))"

definition world_at :: "batch \<Rightarrow> request_heap \<times> pushes \<Rightarrow> nat \<Rightarrow> request_heap \<times> pushes" where
  "world_at b w k = finish_events (batch_submission_id b) (batch_file_index b)
     (map (\<lambda>t. (t, Success)) (take k (batch_tasks b))) w"

definition batch_fresh :: "batch \<Rightarrow> bool" where
  "batch_fresh b \<longleftrightarrow> batch_unfinished b = 0 \<and> (\<forall>t\<in>set (batch_tasks b). \<not> task_finished t)"

lemma batch_at_0: "batch_fresh b \<Longrightarrow> batch_at b 0 = b \<and> world_at b w 0 = w"
  by (simp add: batch_at_def batch_fresh_def world_at_def)

lemma batch_at_simps [simp]:
  "batch_submission_id (batch_at b k) = batch_submission_id b"
  "batch_file_index (batch_at b k) = batch_file_index b"
  "batch_range (batch_at b k) = batch_range b"
  "batch_config (batch_at b k) = batch_config b"
  "batch_unfinished (batch_at b k) = k"
  by (simp_all add: batch_at_def)

lemma finished_until_at:
  assumes "batch_fresh b" and "k \<le> length (batch_tasks b)"
    and n: "n = length (takeWhile (\<lambda>t. ti_end (task_info t) \<le> off) (drop k (batch_tasks b)))"
  shows "finished_until off Success (batch_at b k) (world_at b w k) =
    (batch_at b (k + n), world_at b w (k + n))"
proof -
  let ?ts = "batch_tasks b"
  have drop: "drop k (batch_tasks (batch_at b k)) = drop k ?ts"
    and take: "take k (batch_tasks (batch_at b k)) = map set_finished (take k ?ts)"
    using assms(2) by (simp_all add: batch_at_def min_def)
  have "\<forall>t\<in>set (drop k ?ts). \<not> task_finished t"
    using assms(1) by (auto simp: batch_fresh_def dest: in_set_dropD)
  note upto = finish_upto_fresh [OF this n]
  have split: "take (k + n) ?ts = take k ?ts @ take n (drop k ?ts)"
    by (simp add: take_add)
  show ?thesis
    by (simp add: finished_until_def drop take upto)
      (simp add: batch_at_def world_at_def split add.commute)
qed

lemma handle_error_at:
  assumes "batch_fresh b" and "k \<le> length (batch_tasks b)" and "c \<noteq> Success"
  shows "handle_error c (batch_at b k) (world_at b w k) =
    ((batch_at b k)\<lparr>batch_tasks := map set_finished (batch_tasks b)\<rparr>,
     finish_events (batch_submission_id b) (batch_file_index b) (events_of b k c) w)"
proof -
  let ?ts = "batch_tasks b"
  have tasks: "batch_tasks (batch_at b k) = map set_finished (take k ?ts) @ drop k ?ts"
    by (simp add: batch_at_def)
  have "\<forall>t\<in>set (map set_finished (take k ?ts)). task_finished t"
    by (auto simp: set_finished_def)
  moreover have "\<forall>t\<in>set (drop k ?ts). \<not> task_finished t"
    using assms(1) by (auto simp: batch_fresh_def dest: in_set_dropD)
  moreover have "map set_finished (take k ?ts) @ map set_finished (drop k ?ts) = map set_finished ?ts"
    by (simp flip: map_append)
  ultimately show ?thesis
    using assms(3)
    by (simp add: handle_error_def tasks finish_each_append finish_each_done finish_each_fresh
        events_of_def world_at_def)
qed

section \<open>What a batch must be\<close>

text \<open>
  The tasks of a batch lie one after the other, in the file and in memory, from the start of its
  range to its end, and no address or offset wraps around.
\<close>

definition tiles :: "request_heap \<Rightarrow> task list \<Rightarrow> size_t \<Rightarrow> ptr \<Rightarrow> bool" where
  "tiles heap ts start dst \<longleftrightarrow>
     map (task_seg heap) ts = lay start dst (map (\<lambda>t. ti_bytesize (task_info t)) ts) \<and>
     (\<forall>t\<in>set ts. ti_end (task_info t) = ti_offset (task_info t) + ti_bytesize (task_info t))"

definition task_sizes :: "task list \<Rightarrow> nat list" where
  "task_sizes ts = map (\<lambda>t. unat (ti_bytesize (task_info t))) ts"

definition batch_ok :: "request_heap \<Rightarrow> batch \<Rightarrow> bool" where
  "batch_ok heap b \<longleftrightarrow> (let ts = batch_tasks b; r = batch_range b in
     batch_fresh b \<and> ts \<noteq> [] \<and> tiles heap ts (bra_start r) (task_destination heap (ts ! 0)) \<and>
     unat (bra_size r) = sum_list (task_sizes ts) \<and>
     unat (bra_end r) = unat (bra_start r) + unat (bra_size r))"

text \<open>The task's part of the file is in memory.\<close>

definition task_read :: "byte list \<Rightarrow> request_heap \<Rightarrow> memory \<Rightarrow> task \<Rightarrow> bool" where
  "task_read content heap mem t \<longleftrightarrow>
     mem_bytes mem (task_destination heap t) (unat (ti_bytesize (task_info t))) =
       take (unat (ti_bytesize (task_info t))) (drop (unat (ti_offset (task_info t))) content)"

lemma word_sum_list: "(sum_list ws :: size_t) = of_nat (sum_list (map unat ws))"
  by (induction ws) auto

lemma tiles_nth:
  assumes "tiles heap ts start dst" and i: "i < length ts"
  shows "ti_offset (task_info (ts ! i)) = start + of_nat (sum_list (take i (task_sizes ts)))"
    and "task_destination heap (ts ! i) = dst + of_nat (sum_list (take i (task_sizes ts)))"
    and "ti_end (task_info (ts ! i)) = start + of_nat (sum_list (take (Suc i) (task_sizes ts)))"
proof -
  let ?ws = "map (\<lambda>t. ti_bytesize (task_info t)) ts"
  have sum: "sum_list (take j ?ws) = of_nat (sum_list (take j (task_sizes ts)))" for j
    by (subst word_sum_list) (simp add: task_sizes_def take_map comp_def)
  have "task_seg heap (ts ! i) = lay start dst ?ws ! i"
    using assms by (metis nth_map tiles_def)
  then have seg: "task_seg heap (ts ! i) =
      (start + sum_list (take i ?ws), ?ws ! i, dst + sum_list (take i ?ws))"
    using i by (simp add: lay_nth)
  show off: "ti_offset (task_info (ts ! i)) = start + of_nat (sum_list (take i (task_sizes ts)))"
    and "task_destination heap (ts ! i) = dst + of_nat (sum_list (take i (task_sizes ts)))"
    using seg by (simp_all add: task_seg_def sum)
  have "ti_end (task_info (ts ! i)) = ti_offset (task_info (ts ! i)) + ti_bytesize (task_info (ts ! i))"
    using assms nth_mem by (auto simp: tiles_def)
  then show "ti_end (task_info (ts ! i)) = start + of_nat (sum_list (take (Suc i) (task_sizes ts)))"
    using i by (simp add: off take_Suc_conv_app_nth task_sizes_def add.assoc)
qed

lemma sum_take_le: "sum_list (take i (xs :: nat list)) \<le> sum_list xs"
  by (metis append_take_drop_id le_add1 sum_list_append)

text \<open>
  How far a read is: \<open>p\<close> bytes are in memory, the first \<open>k\<close> tasks are done, and these lie within
  the bytes read.
\<close>

definition read_at ::
  "byte list \<Rightarrow> ('r \<Rightarrow> nat) \<Rightarrow> batch \<Rightarrow> request_heap \<times> pushes \<Rightarrow> memory \<Rightarrow> nat \<Rightarrow> nat \<Rightarrow> 'r exec \<Rightarrow> bool" where
  "read_at content pos b w mem k p x \<longleftrightarrow>
     (let start = unat (bra_start (batch_range b));
          dst = task_destination (fst w) (batch_tasks b ! 0) in
      k \<le> length (batch_tasks b) \<and> p \<le> unat (bra_size (batch_range b)) \<and>
      sum_list (take k (task_sizes (batch_tasks b))) \<le> p \<and>
      ex_batch x = batch_at b k \<and> ex_world x = world_at b w k \<and>
      mem_bytes (ex_mem x) dst p = take p (drop start content) \<and>
      (\<forall>a. a \<notin> buffer_addrs dst (unat (bra_size (batch_range b))) \<longrightarrow> ex_mem x a = mem a))"

lemma mem_bytes_slice:
  assumes "i + n \<le> p"
  shows "mem_bytes mem (dst + of_nat i) n = take n (drop i (mem_bytes mem dst p))"
proof -
  obtain q where p: "p = i + (n + q)"
    using assms le_Suc_ex by (metis add.assoc)
  show ?thesis
    unfolding p by (simp only: mem_bytes_split) simp
qed

lemma read_at_tasks:
  assumes ok: "batch_ok (fst w) b" and at: "read_at content pos b w mem k p x" and i: "i < k"
  shows "task_read content (fst w) (ex_mem x) (batch_tasks b ! i)"
proof -
  let ?ts = "batch_tasks b" and ?r = "batch_range b"
  let ?dst = "task_destination (fst w) (?ts ! 0)"
  let ?n = "unat (ti_bytesize (task_info (?ts ! i)))" and ?o = "sum_list (take i (task_sizes ?ts))"
  have len: "i < length ?ts"
    using at i by (auto simp: read_at_def Let_def)
  have "sum_list (take (Suc i) (task_sizes ?ts)) \<le> sum_list (take k (task_sizes ?ts))"
    using i by (metis Suc_leI min.absorb1 sum_take_le take_take)
  moreover have "sum_list (take (Suc i) (task_sizes ?ts)) = ?o + ?n"
    using len by (simp add: take_Suc_conv_app_nth task_sizes_def)
  ultimately have le: "?o + ?n \<le> p"
    using at by (auto simp: read_at_def Let_def)
  have tiles: "tiles (fst w) ?ts (bra_start ?r) ?dst"
    using ok by (simp add: batch_ok_def Let_def)
  have "?o \<le> unat (bra_size ?r)"
    using le at by (auto simp: read_at_def Let_def)
  then have "unat (bra_start ?r) + ?o < 18446744073709551616"
    using ok unat_lt64 [of "bra_end ?r"] by (auto simp: batch_ok_def Let_def)
  then have off: "unat (ti_offset (task_info (?ts ! i))) = unat (bra_start ?r) + ?o"
    unfolding tiles_nth(1) [OF tiles len] by (simp add: word_to_nat unat_of_nat)
  have bytes: "mem_bytes (ex_mem x) ?dst p = take p (drop (unat (bra_start ?r)) content)"
    using at by (simp add: read_at_def Let_def)
  have "mem_bytes (ex_mem x) (?dst + of_nat ?o) ?n = take ?n (drop ?o (mem_bytes (ex_mem x) ?dst p))"
    using le by (rule mem_bytes_slice)
  also have "\<dots> = take ?n (drop (unat (bra_start ?r) + ?o) content)"
    using le unfolding bytes by (simp add: drop_take min_def add.commute)
  finally show ?thesis
    unfolding task_read_def tiles_nth(2) [OF tiles len] off .
qed

section \<open>Reading a batch\<close>

lemma batch_end_word:
  assumes "batch_ok (fst w) b" and "i < length (batch_tasks b)"
  shows "unat (ti_end (task_info (batch_tasks b ! i))) =
    unat (bra_start (batch_range b)) + sum_list (take (Suc i) (task_sizes (batch_tasks b)))"
proof -
  let ?r = "batch_range b" and ?ts = "batch_tasks b"
  let ?o = "sum_list (take (Suc i) (task_sizes ?ts))"
  have tiles: "tiles (fst w) ?ts (bra_start ?r) (task_destination (fst w) (?ts ! 0))"
    using assms(1) by (simp add: batch_ok_def Let_def)
  have "?o \<le> unat (bra_size ?r)"
    using assms(1) sum_take_le [of "Suc i" "task_sizes ?ts"] by (simp add: batch_ok_def Let_def)
  then have "unat (bra_start ?r) + ?o < 18446744073709551616"
    using assms(1) unat_lt64 [of "bra_end ?r"] by (auto simp: batch_ok_def Let_def)
  then show ?thesis
    unfolding tiles_nth(3) [OF tiles assms(2)] by (simp add: word_to_nat unat_of_nat)
qed

lemma notify_read_at:
  assumes ok: "batch_ok (fst w) b" and at: "read_at content pos b w mem k p x"
    and off: "unat off = unat (bra_start (batch_range b)) + p"
  shows "\<exists>k'\<ge>k. read_at content pos b w mem k' p (notify_until off x) \<and>
    (p = unat (bra_size (batch_range b)) \<longrightarrow> k' = length (batch_tasks b))"
proof -
  let ?ts = "batch_tasks b" and ?P = "\<lambda>t. ti_end (task_info t) \<le> off"
  define n where "n = length (takeWhile ?P (drop k ?ts))"
  have k: "k \<le> length ?ts" and fresh: "batch_fresh b"
    using at ok by (auto simp: read_at_def batch_ok_def Let_def)
  have n: "k + n \<le> length ?ts"
    using k length_takeWhile_le [of ?P "drop k ?ts"] by (simp add: n_def)
  have "notify_until off x = x\<lparr>ex_batch := batch_at b (k + n), ex_world := world_at b w (k + n)\<rparr>"
    using at finished_until_at [OF fresh k n_def]
    by (simp add: notify_until_def read_at_def Let_def)
  moreover have "sum_list (take (k + n) (task_sizes ?ts)) \<le> p"
  proof (cases n)
    case 0
    then show ?thesis using at by (simp add: read_at_def Let_def)
  next
    case (Suc m)
    then have "m < length (takeWhile ?P (drop k ?ts))" by (simp add: n_def)
    then have "?P (drop k ?ts ! m)"
      by (metis nth_mem set_takeWhileD takeWhile_nth)
    moreover have i: "k + m < length ?ts" using n Suc by simp
    ultimately have "unat (ti_end (task_info (?ts ! (k + m)))) \<le> unat off"
      by (simp add: word_le_nat_alt)
    then show ?thesis
      using batch_end_word [OF ok i] off Suc by simp
  qed
  moreover have "k + n = length ?ts" if "p = unat (bra_size (batch_range b))"
  proof -
    have "?P (?ts ! i)" if "i < length ?ts" for i
      using batch_end_word [OF ok that] sum_take_le [of "Suc i" "task_sizes ?ts"] ok off
        \<open>p = unat (bra_size (batch_range b))\<close>
      by (simp add: word_le_nat_alt batch_ok_def Let_def)
    then have "\<forall>t\<in>set (drop k ?ts). ?P t"
      by (metis in_set_conv_nth in_set_dropD)
    then have "takeWhile ?P (drop k ?ts) = drop k ?ts"
      by (simp add: takeWhile_eq_all_conv)
    then have "n = length (drop k ?ts)" by (simp only: n_def)
    then show ?thesis using k by simp
  qed
  ultimately show ?thesis
    using at n by (intro exI [of _ "k + n"]) (auto simp: read_at_def Let_def)
qed

lemma notify_fields [simp]:
  "ex_reader (notify_until off x) = ex_reader x"
  "ex_loads (notify_until off x) = ex_loads x"
  "ex_mem (notify_until off x) = ex_mem x"
  by (simp_all add: notify_until_def split: prod.splits)

context reader
begin

definition piece_post ::
  "batch \<Rightarrow> request_heap \<times> pushes \<Rightarrow> memory \<Rightarrow> nat \<Rightarrow> nat \<Rightarrow> nat \<Rightarrow> exn + unit \<Rightarrow> 'r exec \<Rightarrow> bool" where
  "piece_post b w mem k p n r x \<longleftrightarrow> (case r of
     Inr u \<Rightarrow> read_at content pos b w mem k (p + n) x \<and>
       pos (ex_reader x) = unat (bra_start (batch_range b)) + (p + n)
   | Inl e \<Rightarrow> read_at content pos b w mem k p x \<and>
       (e = CommonException FileAccessError \<or> e = CommonException EofError \<and>
          length content < unat (bra_start (batch_range b)) + (p + n)))"

lemma read_piece_spec:
  assumes ok: "batch_ok (fst w) b" and at: "read_at content pos b w mem k p x"
    and rd: "pos (ex_reader x) = unat (bra_start (batch_range b)) + p"
    and fits: "p + unat n \<le> unat (bra_size (batch_range b))"
    and buffer: "buffer = task_destination (fst w) (batch_tasks b ! 0) + of_nat p"
    and off: "unat off = unat (bra_start (batch_range b)) + p + unat n"
  shows "\<exists>r x' k'. read_piece read n buffer off x = Some (r, x') \<and> ex_loads x' = ex_loads x \<and>
    piece_post b w mem k' p (unat n) r x'"
proof -
  let ?dst = "task_destination (fst w) (batch_tasks b ! 0)"
  let ?start = "unat (bra_start (batch_range b))" and ?size = "unat (bra_size (batch_range b))"
  obtain r s' mem' where call: "read n buffer (ex_reader x) (ex_mem x) = Some (r, s', mem')"
    using read_returns by blast
  have keep: "mem' a = ex_mem x a" if "a \<notin> buffer_addrs buffer (unat n)" for a
    using read_keeps [OF call that] .
  have small: "p + unat n < 18446744073709551616"
    using fits unat_lt64 [of "bra_size (batch_range b)"] by linarith
  have "buffer_addrs ?dst p \<inter> buffer_addrs buffer (unat n) = {}"
    using buffer_disjoint [OF small] buffer by blast
  then have prefix: "mem_bytes mem' ?dst p = mem_bytes (ex_mem x) ?dst p"
    by (intro mem_bytes_cong keep) blast
  have "buffer_addrs buffer (unat n) \<subseteq> buffer_addrs ?dst (p + unat n)"
  proof
    fix a assume "a \<in> buffer_addrs buffer (unat n)"
    then obtain i where "a = ?dst + of_nat p + of_nat i" "i < unat n"
      by (auto simp: buffer_addrs_def buffer)
    then have "a = ?dst + of_nat (p + i)" "p + i < p + unat n"
      by (simp_all add: add.assoc)
    then show "a \<in> buffer_addrs ?dst (p + unat n)"
      unfolding buffer_addrs_def by blast
  qed
  then have sub: "buffer_addrs buffer (unat n) \<subseteq> buffer_addrs ?dst ?size"
    using buffer_addrs_mono [OF fits] by blast
  have outside: "\<forall>a. a \<notin> buffer_addrs ?dst ?size \<longrightarrow> mem' a = ex_mem x a"
    using sub keep by blast
  let ?x = "x\<lparr>ex_reader := s', ex_mem := mem'\<rparr>"
  have at': "read_at content pos b w mem k p ?x"
    using at prefix outside by (simp add: read_at_def Let_def)
  show ?thesis
  proof (cases r)
    case (Inl e)
    then show ?thesis
      using call at' read_error [OF call [unfolded Inl]] rd by (auto simp: read_piece_def piece_post_def add.assoc)
  next
    case (Inr u)
    have got: "pos s' = ?start + p + unat n"
      "mem_bytes mem' buffer (unat n) = take (unat n) (drop (?start + p) content)"
      using read_delivers [OF call [unfolded Inr]] rd by simp_all
    have "mem_bytes mem' ?dst (p + unat n) = take (p + unat n) (drop ?start content)"
      using at got(2) prefix unfolding mem_bytes_split take_add
      by (simp add: read_at_def Let_def buffer add.commute)
    then have "read_at content pos b w mem k (p + unat n) ?x"
      using at' fits by (auto simp: read_at_def Let_def)
    from notify_read_at [OF ok this, of off] off obtain k' where "k \<le> k'"
      "read_at content pos b w mem k' (p + unat n) (notify_until off ?x)"
      "p + unat n = ?size \<longrightarrow> k' = length (batch_tasks b)"
      by (auto simp: add.assoc)
    then show ?thesis
      using call Inr got(1) by (auto simp: read_piece_def piece_post_def add.assoc)
  qed
qed

text \<open>The errors a read of the batch can end with.\<close>

definition read_error_of :: "batch \<Rightarrow> exn \<Rightarrow> bool" where
  "read_error_of b e \<longleftrightarrow> e = CommonException FileAccessError \<or> e = CommonException EofError \<and>
     length content < unat (bra_start (batch_range b)) + unat (bra_size (batch_range b))"

text \<open>The cursors of the loop agree with the bytes read.\<close>

definition cursors :: "batch \<Rightarrow> request_heap \<times> pushes \<Rightarrow> nat \<Rightarrow> size_t \<Rightarrow> ptr \<Rightarrow> 'r exec \<Rightarrow> bool" where
  "cursors b w p file_offset buffer x \<longleftrightarrow>
     pos (ex_reader x) = unat (bra_start (batch_range b)) + p \<and>
     unat file_offset = unat (bra_start (batch_range b)) + p \<and>
     buffer = task_destination (fst w) (batch_tasks b ! 0) + of_nat p"

lemma batch_fits:
  assumes "batch_ok heap b" and "p \<le> unat (bra_size (batch_range b))"
  shows "unat (bra_start (batch_range b)) + p < 18446744073709551616"
  using assms unat_lt64 [of "bra_end (batch_range b)"] by (auto simp: batch_ok_def Let_def)

lemma read_chunks_spec:
  assumes ok: "batch_ok (fst w) b" and "read_at content pos b w mem k p x"
    and "cursors b w p file_offset buffer x"
    and "p + m * unat block \<le> unat (bra_size (batch_range b))"
  shows "\<exists>r x' k' p'. read_chunks read stopped block m file_offset buffer x = Some (r, x') \<and>
    read_at content pos b w mem k' p' x' \<and>
    (case r of
       Inl e \<Rightarrow> read_error_of b e
     | Inr (fo, bf) \<Rightarrow> cursors b w p' fo bf x' \<and>
         (p' = p + m * unat block \<or> (\<exists>i<ex_loads x'. stopped i)))"
  using assms(2-)
proof (induction m arbitrary: k p x file_offset buffer)
  case 0
  then show ?case by auto
next
  case (Suc m)
  let ?start = "unat (bra_start (batch_range b))" and ?size = "unat (bra_size (batch_range b))"
  let ?x1 = "x\<lparr>ex_loads := Suc (ex_loads x)\<rparr>"
  have at1: "read_at content pos b w mem k p ?x1" and cur1: "cursors b w p file_offset buffer ?x1"
    using Suc.prems by (simp_all add: read_at_def cursors_def Let_def)
  show ?case
  proof (cases "stopped (ex_loads x)")
    case True
    then have stop: "read_chunks read stopped block (Suc m) file_offset buffer x =
        Some (Inr (file_offset, buffer), ?x1)"
      by (simp add: load_stopped_def)
    have "\<exists>i<ex_loads ?x1. stopped i" using True by auto
    then show ?thesis
      unfolding stop using at1 cur1 by auto
  next
    case False
    have fits: "p + unat block \<le> ?size" using Suc.prems(3) by simp
    have "unat file_offset + unat block < 18446744073709551616"
      using batch_fits [OF ok fits] Suc.prems(2) by (simp add: cursors_def)
    then have fo: "unat (file_offset + block) = ?start + p + unat block"
      using Suc.prems(2) by (simp add: word_to_nat cursors_def)
    from read_piece_spec [OF ok at1 _ fits _ fo, of buffer] cur1
    obtain r x2 k2 where piece: "read_piece read block buffer (file_offset + block) ?x1 = Some (r, x2)"
      and r: "piece_post b w mem k2 p (unat block) r x2"
      by (auto simp: cursors_def)
    show ?thesis
    proof (cases r)
      case (Inl e)
      then have "read_chunks read stopped block (Suc m) file_offset buffer x = Some (Inl e, x2)"
        using False piece by (simp add: load_stopped_def)
      moreover have "read_at content pos b w mem k2 p x2 \<and> read_error_of b e"
        using r Inl fits by (auto simp: read_error_of_def piece_post_def)
      ultimately show ?thesis by auto
    next
      case (Inr u)
      have step: "read_chunks read stopped block (Suc m) file_offset buffer x =
          read_chunks read stopped block m (file_offset + block) (buffer + block) x2"
        using False piece Inr by (simp add: load_stopped_def)
      have "cursors b w (p + unat block) (file_offset + block) (buffer + block) x2"
        using r Inr fo Suc.prems(2) by (simp add: cursors_def piece_post_def add.assoc)
      moreover have "p + unat block + m * unat block \<le> ?size"
        using Suc.prems(3) by simp
      moreover have "read_at content pos b w mem k2 (p + unat block) x2"
        using r Inr by (simp add: piece_post_def)
      ultimately have "\<exists>r x' k' p'. read_chunks read stopped block m (file_offset + block) (buffer + block) x2 =
          Some (r, x') \<and> read_at content pos b w mem k' p' x' \<and>
          (case r of
             Inl e \<Rightarrow> read_error_of b e
           | Inr (fo, bf) \<Rightarrow> cursors b w p' fo bf x' \<and>
               (p' = p + unat block + m * unat block \<or> (\<exists>i<ex_loads x'. stopped i)))"
        by (intro Suc.IH)
      moreover have sum: "p + unat block + m * unat block = p + Suc m * unat block" by simp
      ultimately show ?thesis
        unfolding step sum by blast
    qed
  qed
qed

lemma read_tail_spec:
  assumes ok: "batch_ok (fst w) b" and at: "read_at content pos b w mem k p x"
    and cur: "cursors b w p file_offset buffer x"
  shows "\<exists>r x' k' p'. read_tail read stopped (bra_end (batch_range b)) file_offset buffer x = Some (r, x') \<and>
    ex_loads x \<le> ex_loads x' \<and> read_at content pos b w mem k' p' x' \<and>
    (case r of
       Inl e \<Rightarrow> read_error_of b e
     | Inr u \<Rightarrow> p' = unat (bra_size (batch_range b)) \<or> (\<exists>i<ex_loads x'. stopped i))"
proof -
  let ?r = "batch_range b"
  let ?x1 = "x\<lparr>ex_loads := Suc (ex_loads x)\<rparr>"
  have at1: "read_at content pos b w mem k p ?x1" and le: "p \<le> unat (bra_size ?r)"
    using at by (simp_all add: read_at_def Let_def)
  have fin: "unat (bra_end ?r) = unat (bra_start ?r) + unat (bra_size ?r)"
    using ok by (simp add: batch_ok_def Let_def)
  consider (past) "\<not> file_offset < bra_end ?r"
    | (stop) "file_offset < bra_end ?r" "stopped (ex_loads x)"
    | (rest) "file_offset < bra_end ?r" "\<not> stopped (ex_loads x)" by blast
  then show ?thesis
  proof cases
    case past
    then have "p = unat (bra_size ?r)"
      using cur fin le by (simp add: cursors_def word_less_nat_alt)
    then show ?thesis using past at by (auto simp: read_tail_def)
  next
    case stop
    then have eq: "read_tail read stopped (bra_end ?r) file_offset buffer x = Some (Inr (), ?x1)"
      by (simp add: read_tail_def load_stopped_def)
    have "\<exists>i<ex_loads ?x1. stopped i" using stop by auto
    then show ?thesis unfolding eq using at1 by auto
  next
    case rest
    let ?n = "bra_end ?r - file_offset"
    have n: "unat ?n = unat (bra_size ?r) - p"
      using rest(1) cur fin by (simp add: unat_sub_le cursors_def)
    have "\<exists>r x' k'. read_piece read ?n buffer (bra_end ?r) ?x1 = Some (r, x') \<and>
        ex_loads x' = ex_loads ?x1 \<and> piece_post b w mem k' p (unat ?n) r x'"
      using ok at1 cur le n fin by (intro read_piece_spec) (auto simp: cursors_def)
    then obtain r x' k' where piece: "read_piece read ?n buffer (bra_end ?r) ?x1 = Some (r, x')"
      "ex_loads x' = ex_loads ?x1" and r: "piece_post b w mem k' p (unat ?n) r x'"
      by blast
    have "read_tail read stopped (bra_end ?r) file_offset buffer x = Some (r, x')"
      using rest piece(1) by (simp add: read_tail_def load_stopped_def)
    moreover have "p + unat ?n = unat (bra_size ?r)"
      using n le by simp
    ultimately show ?thesis
      using piece(2) r by (cases r) (auto simp: read_error_of_def piece_post_def)
  qed
qed

lemma read_end_spec:
  assumes ok: "batch_ok (fst w) b" and at: "read_at content pos b w mem k p x"
    and mono: "\<forall>i j. stopped i \<and> i \<le> j \<longrightarrow> stopped j"
    and p: "p = unat (bra_size (batch_range b)) \<or> (\<exists>i<ex_loads x. stopped i)"
  shows "\<exists>r x' k'. read_end stopped (bra_end (batch_range b)) x = (r, x') \<and>
    read_at content pos b w mem k' p x' \<and>
    (case r of
       Inl e \<Rightarrow> e = CommonException FinishedError \<and> (\<exists>i. stopped i)
     | Inr u \<Rightarrow> k' = length (batch_tasks b))"
proof -
  let ?r = "batch_range b"
  let ?x1 = "x\<lparr>ex_loads := Suc (ex_loads x)\<rparr>"
  have at1: "read_at content pos b w mem k p ?x1"
    using at by (simp add: read_at_def Let_def)
  show ?thesis
  proof (cases "stopped (ex_loads x)")
    case True
    moreover from this have "stopped (Suc (ex_loads x))"
      using mono le_SucI by blast
    ultimately show ?thesis
      using at by (auto simp: read_end_def load_stopped_def Let_def read_at_def)
  next
    case False
    then have size: "p = unat (bra_size ?r)"
      using p mono less_imp_le by blast
    have "unat (bra_end ?r) = unat (bra_start ?r) + p"
      using ok size by (simp add: batch_ok_def Let_def)
    from notify_read_at [OF ok at1 this] size obtain k'
      where k': "read_at content pos b w mem k' p (notify_until (bra_end ?r) ?x1)"
        "k' = length (batch_tasks b)" by auto
    have "read_at content pos b w mem k' p
        ((notify_until (bra_end ?r) ?x1)\<lparr>ex_loads := l\<rparr>)" for l
      using k'(1) by (simp add: read_at_def Let_def)
    then show ?thesis
      using False k'(2) by (auto simp: read_end_def load_stopped_def Let_def)
  qed
qed

lemma batch_read_spec:
  assumes ok: "batch_ok (fst w) b" and block: "0 < block"
    and mono: "\<forall>i j. stopped i \<and> i \<le> j \<longrightarrow> stopped j"
    and x: "ex_batch x = b" "ex_world x = w" "ex_mem x = mem"
  shows "\<exists>r x' k p. batch_read seek read stopped block x = Some (r, x') \<and>
    read_at content pos b w mem k p x' \<and>
    (case r of
       Inl e \<Rightarrow> e = CommonException EofError \<or> read_error_of b e \<or>
         e = CommonException FinishedError \<and> (\<exists>i. stopped i)
     | Inr u \<Rightarrow> k = length (batch_tasks b))"
proof -
  let ?r = "batch_range b" and ?dst = "task_destination (fst w) (batch_tasks b ! 0)"
  have tasks: "batch_tasks b \<noteq> []" and fresh: "batch_fresh b"
    using ok by (simp_all add: batch_ok_def Let_def)
  have nz: "block \<noteq> 0" using block by auto
  have at0: "read_at content pos b w mem 0 0 (x\<lparr>ex_reader := s\<rparr>)" for s
    using x batch_at_0 [OF fresh, of w] by (simp add: read_at_def mem_bytes_def Let_def)
  show ?thesis
  proof (cases "seek (bra_start ?r) (ex_reader x)")
    case (Inl e)
    have "read_at content pos b w mem 0 0 x"
      using at0 [of "ex_reader x"] by simp
    with Inl show ?thesis
      using seek_error [OF Inl] tasks nz x by (auto simp: batch_read_def Let_def)
  next
    case (Inr s)
    let ?x0 = "x\<lparr>ex_reader := s\<rparr>" and ?m = "unat (bra_size ?r div block)"
    have cur: "cursors b w 0 (bra_start ?r) ?dst ?x0"
      using seek_moves [OF Inr] by (simp add: cursors_def)
    have "0 + ?m * unat block \<le> unat (bra_size ?r)"
      by (simp add: unat_div)
    from read_chunks_spec [OF ok at0 cur this, of stopped] obtain r1 x1 k1 p1
      where chunks: "read_chunks read stopped block ?m (bra_start ?r) ?dst ?x0 = Some (r1, x1)"
        "read_at content pos b w mem k1 p1 x1"
        and r1: "case r1 of
           Inl e \<Rightarrow> read_error_of b e
         | Inr (fo, bf) \<Rightarrow> cursors b w p1 fo bf x1 \<and>
             (p1 = 0 + ?m * unat block \<or> (\<exists>i<ex_loads x1. stopped i))"
      by blast
    have run: "batch_read seek read stopped block x =
        (case Some (r1, x1) of
           None \<Rightarrow> None
         | Some (Inl e, x1) \<Rightarrow> Some (Inl e, x1)
         | Some (Inr (file_offset, buf), x1) \<Rightarrow>
             (case read_tail read stopped (bra_end ?r) file_offset buf x1 of
                None \<Rightarrow> None
              | Some (Inl e, x2) \<Rightarrow> Some (Inl e, x2)
              | Some (Inr u, x2) \<Rightarrow> Some (read_end stopped (bra_end ?r) x2)))"
      unfolding chunks(1) [symmetric] using tasks nz Inr x
      by (simp add: batch_read_def Let_def)
    show ?thesis
    proof (cases r1)
      case (Inl e)
      then show ?thesis using run chunks(2) r1 by auto
    next
      case (Inr q)
      obtain fo bf where q: "q = (fo, bf)" by (cases q)
      have "cursors b w p1 fo bf x1" using r1 Inr q by simp
      from read_tail_spec [OF ok chunks(2) this, of stopped] obtain r2 x2 k2 p2
        where tail: "read_tail read stopped (bra_end ?r) fo bf x1 = Some (r2, x2)"
          "read_at content pos b w mem k2 p2 x2"
          and r2: "case r2 of
             Inl e \<Rightarrow> read_error_of b e
           | Inr u \<Rightarrow> p2 = unat (bra_size ?r) \<or> (\<exists>i<ex_loads x2. stopped i)"
        by blast
      show ?thesis
      proof (cases r2)
        case (Inl e)
        then show ?thesis using run tail r2 \<open>r1 = Inr q\<close> q by auto
      next
        case (Inr u)
        then have "p2 = unat (bra_size ?r) \<or> (\<exists>i<ex_loads x2. stopped i)"
          using r2 by simp
        from read_end_spec [OF ok tail(2) mono this] obtain r3 x3 k3
          where "read_end stopped (bra_end ?r) x2 = (r3, x3)" "read_at content pos b w mem k3 p2 x3"
            "case r3 of Inl e \<Rightarrow> e = CommonException FinishedError \<and> (\<exists>i. stopped i)
             | Inr u \<Rightarrow> k3 = length (batch_tasks b)"
          by blast
        then show ?thesis
          using run tail Inr \<open>r1 = Inr q\<close> q by (auto split: sum.splits)
      qed
    qed
  qed
qed

end

section \<open>Executing a batch\<close>

text \<open>
  A run that ends with the first \<open>k\<close> tasks done and the others failed with \<open>c\<close>: the tasks are
  finished once each, in order, and nothing outside of the batch's buffer has changed.
\<close>

definition executed ::
  "byte list \<Rightarrow> batch \<Rightarrow> request_heap \<times> pushes \<Rightarrow> memory \<Rightarrow> nat \<Rightarrow> response_code \<Rightarrow>
    batch \<times> (request_heap \<times> pushes) \<times> memory \<Rightarrow> bool" where
  "executed content b w mem k c out \<longleftrightarrow> (case out of (b', w', mem') \<Rightarrow>
     k \<le> length (batch_tasks b) \<and>
     w' = finish_events (batch_submission_id b) (batch_file_index b) (events_of b k c) w \<and>
     batch_tasks b' = map set_finished (batch_tasks b) \<and>
     (\<forall>i<k. task_read content (fst w) mem' (batch_tasks b ! i)) \<and>
     (\<forall>a. a \<notin> buffer_addrs (task_destination (fst w) (batch_tasks b ! 0))
           (unat (bra_size (batch_range b))) \<longrightarrow> mem' a = mem a))"

lemma executed_handle_error:
  assumes "batch_ok (fst w) b" and "read_at content pos b w mem k p x" and "c \<noteq> Success"
  shows "case handle_error c (ex_batch x) (ex_world x) of
    (b', w') \<Rightarrow> executed content b w mem k c (b', w', ex_mem x)"
proof -
  have fresh: "batch_fresh b" and k: "k \<le> length (batch_tasks b)"
    using assms by (auto simp: batch_ok_def read_at_def Let_def)
  show ?thesis
    using handle_error_at [OF fresh k assms(3), of w] read_at_tasks [OF assms(1,2)] assms(2) k
    by (simp add: executed_def read_at_def Let_def)
qed

lemma executed_complete:
  assumes "batch_ok (fst w) b" and "read_at content pos b w mem k p x"
    and "k = length (batch_tasks b)"
  shows "executed content b w mem k c (ex_batch x, ex_world x, ex_mem x)"
  using read_at_tasks [OF assms(1,2)] assms(2,3)
  by (simp add: executed_def read_at_def Let_def batch_at_def world_at_def events_of_def)

lemma batch_execute_spec:
  assumes ok: "batch_ok (fst w) b" and cfg: "0 < fs_block_bytesize (batch_config b)"
    and fs: "\<not> is_object_storage b" "posix_file fs content pos patience"
    and mono: "\<forall>i j. stopped i \<and> i \<le> j \<longrightarrow> stopped j"
  shows "\<exists>out k c. batch_execute fs stopped b w mem = Some (Inr (), out) \<and>
    executed content b w mem k c out \<and>
    (k < length (batch_tasks b) \<longrightarrow> c \<in> {FileAccessError, EofError} \<or>
      c = FinishedError \<and> (\<exists>i. stopped i))"
proof -
  let ?block = "fs_block_bytesize (batch_config b)"
  have fresh: "batch_fresh b"
    using ok by (simp add: batch_ok_def Let_def)
  have at0: "read_at content pos b w mem 0 0
      \<lparr>ex_batch = b, ex_world = w, ex_mem = mem, ex_reader = s, ex_loads = 0\<rparr>" for s
    using batch_at_0 [OF fresh, of w] by (simp add: read_at_def mem_bytes_def Let_def)
  show ?thesis
  proof (cases "file_open fs (batch_path b)")
    case (Inl e)
    then have "e = CommonException FileAccessError"
      by (auto simp: file_open_def split: option.splits)
    then show ?thesis
      using executed_handle_error [OF ok at0, of FileAccessError] Inl fs(1)
      by (auto simp: batch_execute_def Let_def split: prod.splits)
  next
    case (Inr s)
    let ?x = "\<lparr>ex_batch = b, ex_world = w, ex_mem = mem, ex_reader = s, ex_loads = 0\<rparr>"
    note rd = file_is_reader [OF fs(2) cfg]
    obtain r x k p where run: "batch_read (file_seek fs) (file_read fs ?block) stopped ?block ?x = Some (r, x)"
      and at: "read_at content pos b w mem k p x"
      and r: "case r of
         Inl e \<Rightarrow> e = CommonException EofError \<or> reader.read_error_of content b e \<or>
           e = CommonException FinishedError \<and> (\<exists>i. stopped i)
       | Inr u \<Rightarrow> k = length (batch_tasks b)"
      using reader.batch_read_spec [OF rd ok cfg, of stopped ?x mem] mono by simp blast
    show ?thesis
    proof (cases r)
      case (Inl e)
      then obtain c where c: "e = CommonException c" "c \<noteq> Success"
        "c \<in> {FileAccessError, EofError} \<or> c = FinishedError \<and> (\<exists>i. stopped i)"
        using r by (auto simp: reader.read_error_of_def [OF rd])
      then show ?thesis
        using executed_handle_error [OF ok at c(2)] run Inl Inr fs(1)
        by (auto simp: batch_execute_def Let_def split: prod.splits)
    next
      case (Inr u)
      then have "k = length (batch_tasks b)" using r by simp
      from executed_complete [OF ok at this] this show ?thesis
        using run \<open>r = Inr u\<close> \<open>file_open fs (batch_path b) = Inr s\<close> fs(1)
        by (fastforce simp: batch_execute_def Let_def handle_error_def)
    qed
  qed
qed

text \<open>Property C8: executing a batch of a file always returns. It finishes each of its tasks exactly
  once and in order: the first ones with \<open>Success\<close>, and each of these has exactly its part of the
  file in memory; the others, after an error, with one code. Without an error all tasks succeed;
  an error is a failed access, an end of file, or the stop of the streamer. Nothing outside of the
  batch's part of the destination is written.\<close>

theorem batch_execute_correct:
  assumes ok: "batch_ok (fst w) b" and cfg: "0 < fs_block_bytesize (batch_config b)"
    and fs: "\<not> is_object_storage b" "posix_file fs content pos patience"
    and mono: "\<forall>i j. stopped i \<and> i \<le> j \<longrightarrow> stopped j"
  shows "\<exists>out k c. batch_execute fs stopped b w mem = Some (Inr (), out) \<and>
    executed content b w mem k c out \<and>
    (k < length (batch_tasks b) \<longrightarrow> c \<in> {FileAccessError, EofError} \<or>
      c = FinishedError \<and> (\<exists>i. stopped i))"
  by (rule batch_execute_spec [OF assms])

definition sample_heap :: request_heap where
  "sample_heap = [request_make 0 0 0 1 2 100, request_make 2 0 1 1 3 102]"

definition sample_batch :: batch where
  "sample_batch = \<lparr>batch_submission_id = 7, batch_workload_index = 0, batch_file_index = 0,
     batch_path = ''f'', batch_params = params_none,
     batch_tasks = [make_task 0 (make_info 0 2 0), make_task 1 (make_info 2 3 0)],
     batch_range = \<lparr>bra_start = 0, bra_size = 5, bra_end = 5\<rparr>,
     batch_config = \<lparr>concurrency = 1, s3_concurrency = 1, s3_block_bytesize = 4,
       fs_block_bytesize = 4\<rparr>, batch_unfinished = 0\<rparr>"

lemma sample_batch_ok: "batch_ok sample_heap sample_batch"
  by (simp add: batch_ok_def sample_batch_def sample_heap_def batch_fresh_def tiles_def task_seg_def
      task_destination_def make_task_def make_info_def request_make_def task_sizes_def)

theorem batch_execute_correct_witness:
  "\<exists>out k c. batch_execute (ram_file [1, 2, 3, 4, 5, 6]) (\<lambda>i. False) sample_batch (sample_heap, []) (\<lambda>a. 0) =
      Some (Inr (), out) \<and>
    executed [1, 2, 3, 4, 5, 6] sample_batch (sample_heap, []) (\<lambda>a. 0) k c out \<and>
    (k < 2 \<longrightarrow> c \<in> {FileAccessError, EofError})"
proof -
  have b: "batch_ok (fst (sample_heap, [])) sample_batch" "length (batch_tasks sample_batch) = 2"
    "0 < fs_block_bytesize (batch_config sample_batch)" "\<not> is_object_storage sample_batch"
    using sample_batch_ok
    by (simp_all add: sample_batch_def is_object_storage_def params_valid_def params_none_def)
  show ?thesis
    using batch_execute_correct [where stopped = "\<lambda>i. False" and mem = "\<lambda>a. 0",
        OF b(1,3,4) ram_posix [of "[1, 2, 3, 4, 5, 6]"]] b(2)
    by simp
qed

end
