(* ===== verification/Assignment.thy ===== *)
theory Assignment
  imports Assigner
begin

text \<open>
  Correctness of the assigner's second pass (\<open>Assigner::assign\<close>): the loops end, the slices of a
  transfer lie one after the other and cover it exactly, each worker gets at most one slice of a
  transfer, every worker index is below the number of workloads, and every worker gets exactly
  its share of the bytes; so the checks at the end of \<open>assign\<close> never fail.
\<close>

section \<open>What a division must satisfy\<close>

definition task_segment :: "file_read_task \<Rightarrow> segment" where
  "task_segment k = (offset_in_file k, slice_size k, slice_destination k)"

text \<open>The slices of a transfer lie one after the other from its start and hold \<open>c\<close> bytes.\<close>

definition sliced_to :: "contiguous_transfer \<Rightarrow> nat \<Rightarrow> bool" where
  "sliced_to t c \<longleftrightarrow>
     map task_segment (tr_tasks t) =
       lay (tr_offset t) (tr_destination t) (map slice_size (tr_tasks t)) \<and>
     sum_list (map (\<lambda>k. unat (slice_size k)) (tr_tasks t)) = c \<and>
     (\<forall>k\<in>set (tr_tasks t). original_file_index k = tr_file_index t)"

text \<open>The slices go to different workers, in ascending order, below \<open>n\<close>.\<close>

definition workers_below :: "nat \<Rightarrow> contiguous_transfer \<Rightarrow> bool" where
  "workers_below n t \<longleftrightarrow>
     sorted_wrt (<) (map workload_index (tr_tasks t)) \<and>
     (\<forall>k\<in>set (tr_tasks t). workload_index k < n)"

definition strip :: "contiguous_transfer \<Rightarrow> contiguous_transfer" where
  "strip t = t\<lparr>tr_tasks := []\<rparr>"

text \<open>The bytes of all slices of worker \<open>w\<close>.\<close>

definition worker_load :: "nat \<Rightarrow> contiguous_transfer list \<Rightarrow> size_t" where
  "worker_load w ts =
     sum_list (map (\<lambda>t. sum_list (map slice_size (filter (\<lambda>k. workload_index k = w) (tr_tasks t)))) ts)"

section \<open>The invariant of the loops\<close>

definition covered :: "assign_state \<Rightarrow> nat \<Rightarrow> nat" where
  "covered st k =
     (if k < as_index st then unat (tr_size (as_transfers st ! k))
      else if k = as_index st then unat (as_consumed st) else 0)"

definition assign_inv :: "contiguous_transfer list \<Rightarrow> assign_state \<Rightarrow> bool" where
  "assign_inv ts0 st \<longleftrightarrow>
     map strip (as_transfers st) = ts0 \<and>
     as_index st \<le> length (as_transfers st) \<and>
     (\<forall>k<length (as_transfers st). sliced_to (as_transfers st ! k) (covered st k)) \<and>
     (\<forall>k<as_index st. tr_tasks (as_transfers st ! k) \<noteq> []) \<and>
     (\<forall>k<length (as_transfers st). as_index st < k \<longrightarrow> tr_tasks (as_transfers st ! k) = []) \<and>
     (as_consumed st = 0 \<or>
       as_index st < length (as_transfers st) \<and>
       as_consumed st < tr_size (as_transfers st ! as_index st)) \<and>
     (\<forall>w<length (as_worker_bytes st). as_worker_bytes st ! w = worker_load w (as_transfers st))"

text \<open>The bytes that are still to be assigned.\<close>

definition remaining :: "assign_state \<Rightarrow> nat" where
  "remaining st = transfer_bytes (drop (as_index st) (as_transfers st)) - unat (as_consumed st)"

text \<open>The slices so far go to workers up to \<open>w\<close>, ascending within each transfer.\<close>

definition workers_upto :: "nat \<Rightarrow> assign_state \<Rightarrow> bool" where
  "workers_upto w st \<longleftrightarrow> (\<forall>t\<in>set (as_transfers st). workers_below (Suc w) t)"

definition at_boundary :: "assign_state \<Rightarrow> bool" where
  "at_boundary st \<longleftrightarrow>
     as_index st = length (as_transfers st) \<or> 0 < tr_size (as_transfers st ! as_index st)"

definition current_below :: "nat \<Rightarrow> assign_state \<Rightarrow> bool" where
  "current_below w st \<longleftrightarrow>
     (as_index st < length (as_transfers st) \<longrightarrow>
       workers_below w (as_transfers st ! as_index st))"

lemma sliced_to_snoc:
  assumes "sliced_to t (unat c)" and "unat c + unat n < 18446744073709551616"
    and "task_segment k = (tr_offset t + c, n, tr_destination t + c)"
    and "original_file_index k = tr_file_index t"
  shows "sliced_to (t\<lparr>tr_tasks := tr_tasks t @ [k]\<rparr>) (unat (c + n))"
proof -
  have nat_sum: "sum_list (map unat (map slice_size (tr_tasks t))) = unat c"
    using assms(1) by (simp add: sliced_to_def comp_def)
  then have "unat (sum_list (map slice_size (tr_tasks t))) = unat c"
    using unat_sum_list [of "map slice_size (tr_tasks t)"] by simp
  then have "sum_list (map slice_size (tr_tasks t)) = c"
    by (simp add: unat_word_eq_iff)
  moreover have "slice_size k = n"
    using assms(3) by (simp add: task_segment_def)
  ultimately show ?thesis
    using assms by (auto simp: sliced_to_def lay_append word_to_nat)
qed

lemma workers_below_snoc:
  "workers_below w t \<Longrightarrow> workload_index k = w \<Longrightarrow>
    workers_below (Suc w) (t\<lparr>tr_tasks := tr_tasks t @ [k]\<rparr>)"
  by (auto simp: workers_below_def sorted_wrt_append less_Suc_eq)

lemma worker_load_snoc:
  assumes "i < length ts"
  shows "worker_load w (ts[i := (ts ! i)\<lparr>tr_tasks := tr_tasks (ts ! i) @ [k]\<rparr>]) =
    worker_load w ts + (if workload_index k = w then slice_size k else 0)"
  using assms by (simp add: worker_load_def sum_list_list_update_group)

section \<open>One slice\<close>

lemma cut_slice_sizes:
  assumes inv: "assign_inv ts0 st" and i: "as_index st < length (as_transfers st)"
    and n: "n \<le> tr_size (as_transfers st ! as_index st) - as_consumed st"
  shows "unat (as_consumed st) + unat n \<le> unat (tr_size (as_transfers st ! as_index st))"
    and "unat (as_consumed st + n) = unat (as_consumed st) + unat n"
proof -
  let ?size = "tr_size (as_transfers st ! as_index st)"
  have "as_consumed st \<le> ?size"
    using inv i by (auto simp: assign_inv_def)
  then have "unat n \<le> unat ?size - unat (as_consumed st)" "unat (as_consumed st) \<le> unat ?size"
    using n by (simp_all add: word_le_nat_alt unat_sub_le)
  then show le: "unat (as_consumed st) + unat n \<le> unat ?size" by simp
  then have "unat (as_consumed st) + unat n < 18446744073709551616"
    using unat_lt64 [of ?size] by linarith
  then show "unat (as_consumed st + n) = unat (as_consumed st) + unat n"
    by (simp add: word_to_nat)
qed

lemma cut_slice_inv:
  assumes inv: "assign_inv ts0 st" and i: "as_index st < length (as_transfers st)"
    and n: "n \<le> tr_size (as_transfers st ! as_index st) - as_consumed st"
    and progress: "n = 0 \<Longrightarrow> tr_size (as_transfers st ! as_index st) = 0"
  shows "assign_inv ts0 (cut_slice w n st)"
proof -
  let ?ts = "as_transfers st" and ?i = "as_index st" and ?c = "as_consumed st"
  let ?t = "?ts ! ?i"
  let ?k = "\<lparr>workload_index = w, original_file_index = tr_file_index ?t,
             offset_in_file = tr_offset ?t + ?c, slice_size = n,
             slice_destination = tr_destination ?t + ?c\<rparr>"
  let ?t' = "?t\<lparr>tr_tasks := tr_tasks ?t @ [?k]\<rparr>"
  note sizes = cut_slice_sizes [OF inv i n]
  have parts: "map strip ?ts = ts0"
    "\<And>k. k < length ?ts \<Longrightarrow> sliced_to (?ts ! k) (covered st k)"
    "\<And>k. k < ?i \<Longrightarrow> tr_tasks (?ts ! k) \<noteq> []"
    "\<And>k. k < length ?ts \<Longrightarrow> ?i < k \<Longrightarrow> tr_tasks (?ts ! k) = []"
    "\<And>w. w < length (as_worker_bytes st) \<Longrightarrow> as_worker_bytes st ! w = worker_load w ?ts"
    using inv by (auto simp: assign_inv_def)
  have "sliced_to ?t' (unat (?c + n))"
    using parts(2) [OF i] sizes i unat_lt64 [of "tr_size ?t"]
    by (intro sliced_to_snoc) (auto simp: covered_def task_segment_def simp del: unat_lt64)
  then have here: "sliced_to ?t' (unat ?c + unat n)"
    using sizes(2) by simp
  have "map strip (?ts[?i := ?t']) = (map strip ?ts)[?i := strip ?t']"
    by (simp only: map_update)
  also have "strip ?t' = strip ?t"
    by (simp add: strip_def)
  also have "(map strip ?ts)[?i := strip ?t] = map strip (?ts[?i := ?t])"
    by (simp only: map_update)
  finally have strip': "map strip (?ts[?i := ?t']) = ts0"
    using parts(1) by simp
  have load: "(as_worker_bytes st)[w := as_worker_bytes st ! w + n] ! v = worker_load v (?ts[?i := ?t'])"
    if "v < length (as_worker_bytes st)" for v
    using that parts(5) worker_load_snoc [OF i, of v ?k] by (simp add: nth_list_update)
  define ts' where "ts' = ?ts[?i := ?t']"
  define bs' where "bs' = (as_worker_bytes st)[w := as_worker_bytes st ! w + n]"
  have nth: "ts' ! ?i = ?t'" "\<And>k. k \<noteq> ?i \<Longrightarrow> ts' ! k = ?ts ! k" "length ts' = length ?ts"
    using i by (auto simp: ts'_def)
  have before: "sliced_to (?ts ! k) (unat (tr_size (?ts ! k)))" if "k < ?i" for k
    using parts(2) [of k] that i by (simp add: covered_def)
  have after: "sliced_to (?ts ! k) 0" if "?i < k" "k < length ?ts" for k
    using parts(2) [of k] that by (simp add: covered_def)
  have bytes: "map strip ts' = ts0" "\<And>v. v < length bs' \<Longrightarrow> bs' ! v = worker_load v ts'"
    using strip' load by (simp_all add: ts'_def bs'_def)
  show ?thesis
  proof (cases "?c + n = tr_size ?t")
    case True
    then have eq: "cut_slice w n st = \<lparr>as_transfers = ts', as_worker_bytes = bs',
        as_index = Suc ?i, as_consumed = 0\<rparr>"
      by (simp add: cut_slice_def Let_def ts'_def bs'_def)
    have "unat ?c + unat n = unat (tr_size ?t)"
      using True sizes(2) by metis
    then have "sliced_to (ts' ! k) (covered (cut_slice w n st) k)" if "k < length ts'" for k
      using that here before after nth by (cases "k = ?i") (auto simp: eq covered_def less_Suc_eq)
    moreover have "tr_tasks (ts' ! k) \<noteq> []" if "k < Suc ?i" for k
      using that parts(3) nth by (cases "k = ?i") auto
    ultimately show ?thesis
      using bytes parts(4) nth i by (auto simp: assign_inv_def eq)
  next
    case False
    then have eq: "cut_slice w n st = \<lparr>as_transfers = ts', as_worker_bytes = bs',
        as_index = ?i, as_consumed = ?c + n\<rparr>"
      by (simp add: cut_slice_def Let_def ts'_def bs'_def)
    have "unat (?c + n) < unat (tr_size ?t)"
      using False sizes by (metis le_neq_implies_less unat_word_eq_iff)
    then have "?c + n < tr_size (ts' ! ?i)"
      by (simp add: word_less_nat_alt nth)
    moreover have "sliced_to (ts' ! k) (covered (cut_slice w n st) k)" if "k < length ts'" for k
      using that here before after nth sizes(2) by (cases "k = ?i") (auto simp: eq covered_def)
    ultimately show ?thesis
      using bytes parts(3,4) nth i by (auto simp: assign_inv_def eq)
  qed
qed

lemma cut_slice_remaining:
  assumes inv: "assign_inv ts0 st" and i: "as_index st < length (as_transfers st)"
    and n: "n \<le> tr_size (as_transfers st ! as_index st) - as_consumed st"
  shows "remaining (cut_slice w n st) = remaining st - unat n"
proof -
  note sizes = cut_slice_sizes [OF inv i n]
  have split: "transfer_bytes (drop (as_index st) (as_transfers st)) =
      unat (tr_size (as_transfers st ! as_index st)) +
      transfer_bytes (drop (Suc (as_index st)) (as_transfers st))"
    using i by (simp only: transfer_bytes_def sum_list_drop_nth)
  show ?thesis
  proof (cases "as_consumed st + n = tr_size (as_transfers st ! as_index st)")
    case True
    then have "unat (as_consumed st) + unat n = unat (tr_size (as_transfers st ! as_index st))"
      using sizes(2) by metis
    then show ?thesis
      using True split by (simp add: remaining_def cut_slice_def Let_def)
  next
    case False
    have "transfer_bytes (drop (as_index st) (as_transfers (cut_slice w n st))) =
        transfer_bytes (drop (as_index st) (as_transfers st))"
      using False i split
      by (simp add: cut_slice_def Let_def transfer_bytes_def sum_list_drop_nth)
    then show ?thesis
      using False sizes split by (simp add: remaining_def cut_slice_def Let_def)
  qed
qed

lemma cut_slice_workers:
  assumes i: "as_index st < length (as_transfers st)"
    and upto: "workers_upto w st" and cur: "current_below w st"
  shows "workers_upto w (cut_slice w n st)"
  using upto cur i workers_below_snoc [of w "as_transfers st ! as_index st"]
  by (auto simp: workers_upto_def current_below_def cut_slice_def Let_def dest!: subsetD [OF set_update_subset_insert])

lemma cut_slice_current:
  assumes inv: "assign_inv ts0 st" and i: "as_index st < length (as_transfers st)"
    and "as_consumed st + n = tr_size (as_transfers st ! as_index st)"
  shows "current_below w (cut_slice w n st)"
proof -
  have "tr_tasks (as_transfers st ! Suc (as_index st)) = []" if "Suc (as_index st) < length (as_transfers st)"
    using inv that by (auto simp: assign_inv_def)
  then show ?thesis
    using assms(3) by (simp add: current_below_def cut_slice_def Let_def workers_below_def)
qed

lemma cut_slice_simps [simp]:
  "length (as_transfers (cut_slice w n st)) = length (as_transfers st)"
  "as_worker_bytes (cut_slice w n st) = (as_worker_bytes st)[w := as_worker_bytes st ! w + n]"
  by (simp_all add: cut_slice_def Let_def)

section \<open>One worker\<close>

text \<open>
  The inner loop ends after it has given the worker exactly its target, provided that many bytes
  are left, and it ends at a transfer that still has bytes to give (or past the last one).
\<close>

lemma assign_worker_spec:
  assumes "assign_inv ts0 st" and "w < length (as_worker_bytes st)" and "assigned \<le> target"
    and "unat (target - assigned) \<le> remaining st"
    and "workers_upto w st"
    and "assigned < target \<or> as_index st < length (as_transfers st) \<and> tr_size (as_transfers st ! as_index st) = 0 \<Longrightarrow>
          current_below w st"
  shows "\<exists>st'. assign_worker w target st assigned = Some (st', target) \<and>
    assign_inv ts0 st' \<and> workers_upto w st' \<and> at_boundary st' \<and>
    remaining st' = remaining st - unat (target - assigned) \<and>
    as_worker_bytes st' = (as_worker_bytes st)[w := as_worker_bytes st ! w + (target - assigned)]"
  using assms
proof (induction "2 * (length (as_transfers st) - as_index st) + (if assigned < target then 1 else 0)"
    arbitrary: st assigned rule: less_induct)
  case less
  note inv = less.prems(1) and le = less.prems(3) and left = less.prems(4)
  show ?case
  proof (cases "as_index st < length (as_transfers st)")
    case False
    then have "remaining st = 0"
      by (simp add: remaining_def)
    then have "target = assigned"
      using le left by (simp add: unat_eq_0)
    moreover have "at_boundary st"
      using False inv by (simp add: at_boundary_def assign_inv_def)
    ultimately show ?thesis
      using False less.prems by (intro exI [of _ st]) (simp add: assign_worker.simps)
  next
    case i: True
    define t where "t = as_transfers st ! as_index st"
    show ?thesis
    proof (cases "0 < tr_size t \<and> target \<le> assigned")
      case True
      then have "target = assigned" using le by simp
      then show ?thesis
        using True i less.prems
        by (intro exI [of _ st]) (auto simp: assign_worker.simps at_boundary_def t_def)
    next
      case False
      define n where "n = min (tr_size t - as_consumed st) (target - assigned)"
      let ?st = "cut_slice w n st"
      have run: "assign_worker w target st assigned = assign_worker w target ?st (assigned + n)"
        using i False by (subst assign_worker.simps) (auto simp: Let_def n_def t_def)
      have small: "assigned < target \<or> tr_size t = 0"
        using False by (auto simp: word_gt_0 not_le)
      have cons: "as_consumed st < tr_size t \<or> as_consumed st = 0"
        using inv by (auto simp: assign_inv_def t_def)
      have n_le: "n \<le> tr_size t - as_consumed st" "n \<le> target - assigned"
        by (simp_all add: n_def)
      have progress: "tr_size t = 0" if "n = 0"
        using that small cons by (auto simp: n_def min_def right_minus_eq split: if_splits)
      have inv': "assign_inv ts0 ?st"
        using inv i n_le(1) progress by (intro cut_slice_inv) (auto simp: t_def)
      have rem': "remaining ?st = remaining st - unat n"
        using inv i n_le(1) by (intro cut_slice_remaining) (auto simp: t_def)
      have below: "current_below w st"
        using less.prems(6) small i by (auto simp: t_def)
      have upto': "workers_upto w ?st"
        using i less.prems(5) below by (rule cut_slice_workers)
      have nat_n: "unat n \<le> unat (target - assigned)"
        using n_le(2) by (simp add: word_le_nat_alt)
      have unat_da: "unat (target - assigned) = unat target - unat assigned"
        using le by (simp add: unat_sub_le)
      have unat_an: "unat (assigned + n) = unat assigned + unat n"
        using nat_n unat_da le unat_lt64 [of target]
        by (intro unat_add_small) (simp add: word_le_nat_alt del: unat_lt64)
      have le': "assigned + n \<le> target"
        using nat_n unat_da le by (simp add: word_le_nat_alt unat_an)
      have rest: "target - (assigned + n) = target - assigned - n" by simp
      have unat_rest: "unat (target - (assigned + n)) = unat (target - assigned) - unat n"
        using n_le(2) by (simp only: rest unat_sub_le)
      have step: ?thesis
        if m: "2 * (length (as_transfers ?st) - as_index ?st) + (if assigned + n < target then 1 else 0)
            < 2 * (length (as_transfers st) - as_index st) + (if assigned < target then 1 else (0::nat))"
          and cb: "assigned + n < target \<or> as_index ?st < length (as_transfers ?st) \<and>
            tr_size (as_transfers ?st ! as_index ?st) = 0 \<Longrightarrow> current_below w ?st"
      proof -
        have "unat (target - (assigned + n)) \<le> remaining ?st"
          using left rem' unat_rest by simp
        moreover have "w < length (as_worker_bytes ?st)"
          using less.prems(2) by simp
        ultimately obtain st' where st': "assign_worker w target ?st (assigned + n) = Some (st', target)"
          "assign_inv ts0 st'" "workers_upto w st'" "at_boundary st'"
          "remaining st' = remaining ?st - unat (target - (assigned + n))"
          "as_worker_bytes st' =
            (as_worker_bytes ?st)[w := as_worker_bytes ?st ! w + (target - (assigned + n))]"
          using less.hyps [OF m inv' _ le' _ upto' cb] by blast
        have "remaining st' = remaining st - unat (target - assigned)"
          using st'(5) rem' unat_rest nat_n by simp
        moreover have "as_worker_bytes st' =
            (as_worker_bytes st)[w := as_worker_bytes st ! w + (target - assigned)]"
          using st'(6) less.prems(2) by (simp add: algebra_simps)
        ultimately show ?thesis
          using st' run by auto
      qed
      show ?thesis
      proof (cases "as_consumed st + n = tr_size t")
        case True
        have idx: "as_index ?st = Suc (as_index st)"
          using True by (simp add: cut_slice_def Let_def t_def)
        have below': "current_below w ?st"
          using inv i True by (intro cut_slice_current) (auto simp: t_def)
        have "2 * (length (as_transfers ?st) - as_index ?st) + (if assigned + n < target then 1 else 0)
            < 2 * (length (as_transfers st) - as_index st) + (if assigned < target then 1 else (0::nat))"
          using i idx le le' by (auto simp: word_less_nat_alt unat_an)
        then show ?thesis
          using below' by (rule step)
      next
        case unfinished: False
        have n_eq: "n = target - assigned"
        proof (rule ccontr)
          assume "n \<noteq> target - assigned"
          then have "n = tr_size t - as_consumed st"
            by (auto simp: n_def min_def split: if_splits)
          with unfinished show False by simp
        qed
        have pos: "0 < tr_size t"
          using unfinished cons by (cases "tr_size t = 0") (auto simp: word_gt_0 n_def min_def)
        then have lt: "assigned < target"
          using small by auto
        have at: "as_index ?st = as_index st" "tr_size (as_transfers ?st ! as_index st) = tr_size t"
          using unfinished i by (simp_all add: cut_slice_def Let_def t_def)
        have "2 * (length (as_transfers ?st) - as_index ?st) + (if assigned + n < target then 1 else 0)
            < 2 * (length (as_transfers st) - as_index st) + (if assigned < target then 1 else (0::nat))"
          using i at lt by (simp add: n_eq)
        then show ?thesis
          by (rule step) (use at pos n_eq in auto)
      qed
    qed
  qed
qed

section \<open>All workers\<close>

lemma remaining_zero_at_end:
  assumes "assign_inv ts0 st" and "at_boundary st" and "remaining st = 0"
  shows "as_index st = length (as_transfers st)"
proof (rule ccontr)
  assume "as_index st \<noteq> length (as_transfers st)"
  then have i: "as_index st < length (as_transfers st)"
    and pos: "0 < tr_size (as_transfers st ! as_index st)"
    using assms(1,2) by (auto simp: assign_inv_def at_boundary_def)
  then have "unat (as_consumed st) < unat (tr_size (as_transfers st ! as_index st))"
    using assms(1) by (auto simp: assign_inv_def word_less_nat_alt)
  then have "0 < remaining st"
    using i by (simp add: remaining_def transfer_bytes_def sum_list_drop_nth)
  with assms(3) show False by simp
qed

lemma workers_upto_mono: "workers_upto w st \<Longrightarrow> workers_upto (Suc w) st"
  by (fastforce simp: workers_upto_def workers_below_def)

lemma workers_upto_current: "workers_upto w st \<Longrightarrow> current_below (Suc w) st"
  by (auto simp: workers_upto_def current_below_def)

text \<open>
  \<open>N\<close> workloads share what is left: the first one (when it is still to come) also takes the
  remainder.
\<close>

lemma assign_workers_spec:
  assumes "assign_inv ts0 st" and "w \<le> N" and "N \<le> w + n"
    and "unat base + unat remainder < 18446744073709551616"
    and "remaining st = (N - w) * unat base + (if w = 0 then unat remainder else 0)"
    and "as_worker_bytes st = map (worker_target base remainder) [0..<w] @ replicate n 0"
    and "w = N \<Longrightarrow> as_index st = length (as_transfers st)"
    and "\<forall>t\<in>set (as_transfers st). workers_below w t"
    and "0 < N"
  shows "\<exists>st'. assign_workers n w base remainder st = Some st' \<and> assign_inv ts0 st' \<and>
    as_index st' = length (as_transfers st') \<and>
    (\<forall>t\<in>set (as_transfers st'). workers_below N t) \<and>
    as_worker_bytes st' = map (worker_target base remainder) [0..<N] @ replicate (n + w - N) 0"
  using assms
proof (induction n arbitrary: st w)
  case 0
  then have "w = N" by simp
  with "0.prems" show ?case
    by (intro exI [of _ st]) auto
next
  case (Suc n)
  show ?case
  proof (cases "w = N")
    case True
    with Suc.prems show ?thesis
      by (intro exI [of _ st]) auto
  next
    case False
    then have w: "w < N" using Suc.prems(2) by simp
    let ?target = "worker_target base remainder w"
    have target: "unat ?target = unat base + (if w = 0 then unat remainder else 0)"
      using Suc.prems(4) by (simp add: worker_target_def word_to_nat)
    have left: "remaining st = unat ?target + (N - Suc w) * unat base"
      using Suc.prems(5) w target by (simp add: Suc_diff_Suc flip: mult_Suc)
    have upto: "workers_upto w st"
      using Suc.prems(8) by (fastforce simp: workers_upto_def workers_below_def)
    have cur: "current_below w st"
      using Suc.prems(8) by (simp add: current_below_def)
    have len: "w < length (as_worker_bytes st)"
      using Suc.prems(6) by simp
    obtain st1 where run: "assign_worker w ?target st 0 = Some (st1, ?target)"
      and inv1: "assign_inv ts0 st1" and upto1: "workers_upto w st1" and bound1: "at_boundary st1"
      and rem1: "remaining st1 = remaining st - unat ?target"
      and bytes1: "as_worker_bytes st1 = (as_worker_bytes st)[w := as_worker_bytes st ! w + ?target]"
      using assign_worker_spec [of ts0 st w 0 ?target] Suc.prems(1) len left upto cur by auto
    have rem1': "remaining st1 = (N - Suc w) * unat base + (if Suc w = 0 then unat remainder else 0)"
      using rem1 left by simp
    have bytes1': "as_worker_bytes st1 =
        map (worker_target base remainder) [0..<Suc w] @ replicate n 0"
      using bytes1 Suc.prems(6) by (simp add: list_update_append nth_append)
    have end1: "as_index st1 = length (as_transfers st1)" if "Suc w = N"
      using remaining_zero_at_end [OF inv1 bound1] rem1' that by simp
    have below1: "\<forall>t\<in>set (as_transfers st1). workers_below (Suc w) t"
      using upto1 by (simp add: workers_upto_def)
    have ih: "\<exists>st'. assign_workers n (Suc w) base remainder st1 = Some st' \<and> assign_inv ts0 st' \<and>
        as_index st' = length (as_transfers st') \<and>
        (\<forall>t\<in>set (as_transfers st'). workers_below N t) \<and>
        as_worker_bytes st' = map (worker_target base remainder) [0..<N] @ replicate (n + Suc w - N) 0"
      using Suc.IH [OF inv1 _ _ Suc.prems(4) rem1' bytes1' end1 below1 Suc.prems(9)] w Suc.prems(3)
      by simp
    show ?thesis
    proof (cases "as_index st < length (as_transfers st)")
      case True
      with ih run show ?thesis by simp
    next
      case False
      then have finished: "as_index st = length (as_transfers st)" "remaining st = 0"
        using Suc.prems(1) by (simp_all add: assign_inv_def remaining_def)
      then have "unat base = 0" "w = 0 \<longrightarrow> unat remainder = 0"
        using Suc.prems(5) w by auto
      then have "map (worker_target base remainder) [w..<N] = replicate (N - w) 0"
        by (intro replicate_eqI) (auto simp: worker_target_def unat_eq_0)
      moreover have "[0..<N] = [0..<w] @ [w..<N]"
        using w upt_add_eq_append [of 0 w "N - w"] by simp
      moreover have "replicate (N - w) (0::size_t) @ replicate (Suc n + w - N) 0 = replicate (Suc n) 0"
        using Suc.prems(3) w by (simp flip: replicate_add)
      ultimately have "as_worker_bytes st =
          map (worker_target base remainder) [0..<N] @ replicate (Suc n + w - N) 0"
        using Suc.prems(6) by simp
      then show ?thesis
        using False finished Suc.prems(1,8) w by (fastforce simp: workers_below_def)
    qed
  qed
qed

section \<open>The shares\<close>

text \<open>\<open>bytes_per_worker\<close> as arithmetic on natural numbers.\<close>

definition workload_count :: "nat \<Rightarrow> nat \<Rightarrow> nat \<Rightarrow> nat" where
  "workload_count block workers tot = max (min (tot div block) workers) 1"

lemma unat_num_workloads:
  "unat (num_workloads_of block workers tot) = workload_count (unat block) (unat workers) (unat tot)"
proof -
  have "unat (ucast workers :: size_t) = unat workers"
    by (simp add: unsigned_ucast_eq take_bit_nat_eq_self_iff less_le_trans [OF unat_lt32])
  then show ?thesis
    by (simp add: num_workloads_of_def workload_count_def unat_max unat_min unat_div)
qed

lemma bytes_per_worker_spec:
  assumes "0 < block" and "bytes_per_worker block workers tot = (num, base, remainder)"
  defines "N \<equiv> workload_count (unat block) (unat workers) (unat tot)"
  shows "unat num = N" and "0 < N" and "0 < unat workers \<Longrightarrow> N \<le> unat workers"
    and "unat base = unat tot div unat block div N * unat block"
    and "unat tot = N * unat base + unat remainder"
    and "unat base + unat remainder < 18446744073709551616"
    and "tot = num * base + remainder"
proof -
  have num: "num = num_workloads_of block workers tot"
    and base: "base = tot div block div num * block"
    and remainder: "remainder = tot - num * base"
    using assms(2) by (auto simp: bytes_per_worker_def Let_def)
  show N: "unat num = N"
    by (simp add: num N_def unat_num_workloads)
  show pos: "0 < N" and "0 < unat workers \<Longrightarrow> N \<le> unat workers"
    by (auto simp: N_def workload_count_def)
  have le: "unat tot div unat block div N * unat block * N \<le> unat tot"
  proof -
    have "unat tot div unat block div N * unat block * N =
        unat tot div unat block div N * N * unat block" by simp
    also have "\<dots> \<le> unat tot div unat block * unat block"
      by (intro mult_le_mono1 div_times_less_eq_dividend)
    also have "\<dots> \<le> unat tot"
      by (rule div_times_less_eq_dividend)
    finally show ?thesis .
  qed
  moreover have "unat tot div unat block div N * unat block \<le> unat tot div unat block div N * unat block * N"
    using pos by simp
  ultimately have small: "unat tot div unat block div N * unat block < 18446744073709551616"
    using unat_lt64 [of tot] by linarith
  show ubase: "unat base = unat tot div unat block div N * unat block"
    using small unat_mult_lem [of "tot div block div num" block]
    by (simp add: base unat_div N)
  have umul: "unat (num * base) = N * unat base"
    using le unat_lt64 [of tot] unat_mult_lem [of num base]
    by (simp add: N ubase mult.commute del: unat_lt64)
  then have "num * base \<le> tot"
    using le by (simp add: word_le_nat_alt ubase mult.commute)
  then have "unat remainder = unat tot - N * unat base"
    by (simp add: remainder unat_sub_le umul)
  then show eq: "unat tot = N * unat base + unat remainder"
    using le ubase by (simp add: mult.commute)
  have "unat base \<le> N * unat base" using pos by simp
  then have "unat base + unat remainder \<le> unat tot"
    using eq by linarith
  then show "unat base + unat remainder < 18446744073709551616"
    using unat_lt64 [of tot] by linarith
  show "tot = num * base + remainder"
    by (simp add: remainder)
qed

section \<open>The division as a whole\<close>

text \<open>A transfer divided between workers below \<open>N\<close>: what the rest of the streamer relies on.\<close>

definition divided :: "nat \<Rightarrow> contiguous_transfer \<Rightarrow> bool" where
  "divided N t \<longleftrightarrow> tr_tasks t \<noteq> [] \<and> sliced_to t (unat (tr_size t)) \<and> workers_below N t"

lemma sliced_to_sum:
  assumes "sliced_to t (unat c)"
  shows "sum_list (map slice_size (tr_tasks t)) = c"
  using assms unat_sum_list [of "map slice_size (tr_tasks t)"]
  by (simp add: sliced_to_def comp_def unat_word_eq_iff)

lemma sum_worker_targets:
  assumes "0 < N"
  shows "sum_list (map (worker_target base remainder) [0..<N]) = of_nat N * base + remainder"
proof -
  have "map (worker_target base remainder) [0..<N] = (base + remainder) # replicate (N - 1) base"
    using assms by (auto simp: worker_target_def upt_conv_Cons map_replicate_trivial intro!: replicate_eqI)
  moreover have "of_nat N * base = base + of_nat (N - 1) * base"
    using assms by (cases N) (auto simp: algebra_simps)
  ultimately show ?thesis
    by (simp add: sum_list_replicate_word)
qed

lemma assign_inv_init:
  assumes "list_all transfer_ok ts"
  shows "assign_inv ts \<lparr>as_transfers = ts, as_worker_bytes = replicate m 0, as_index = 0, as_consumed = 0\<rparr>"
proof -
  have no_tasks: "tr_tasks t = []" if "t \<in> set ts" for t
    using assms that by (auto simp: list_all_iff transfer_ok_def)
  then have "map strip ts = ts"
    by (intro map_idI) (simp add: strip_def)
  moreover have "worker_load w ts = 0" for w
    using no_tasks by (simp add: worker_load_def cong: map_cong)
  ultimately show ?thesis
    using no_tasks by (auto simp: assign_inv_def covered_def sliced_to_def)
qed

lemma assign_correct:
  assumes block: "0 < block" and workers: "0 < workers" and ts: "list_all transfer_ok ts"
    and bytes: "transfer_bytes ts = unat tot"
    and bpw: "bytes_per_worker block workers tot = (num, base, remainder)"
  shows "\<exists>ts'. assign block workers tot ts = Some (Inr (num, ts')) \<and> map strip ts' = ts \<and>
    list_all (divided (unat num)) ts' \<and>
    (\<forall>w<unat num. worker_load w ts' = worker_target base remainder w)"
proof -
  define N where "N = workload_count (unat block) (unat workers) (unat tot)"
  note share = bytes_per_worker_spec [OF block bpw, folded N_def]
  have N_le: "N \<le> unat workers"
    using share(3) workers by (simp add: unat_pos_iff)
  let ?st0 = "\<lparr>as_transfers = ts, as_worker_bytes = replicate (unat workers) 0, as_index = 0, as_consumed = 0\<rparr>"
  have "remaining ?st0 = (N - 0) * unat base + (if (0::nat) = 0 then unat remainder else 0)"
    using bytes share(5) by (simp add: remaining_def)
  moreover have "\<forall>t\<in>set (as_transfers ?st0). workers_below 0 t"
    using ts by (auto simp: list_all_iff transfer_ok_def workers_below_def)
  ultimately obtain st where run: "assign_workers (unat workers) 0 base remainder ?st0 = Some st"
    and inv: "assign_inv ts st" and idx: "as_index st = length (as_transfers st)"
    and below: "\<forall>t\<in>set (as_transfers st). workers_below N t"
    and load: "as_worker_bytes st =
      map (worker_target base remainder) [0..<N] @ replicate (unat workers + 0 - N) 0"
    using assign_workers_spec [OF assign_inv_init [OF ts, of "unat workers"], of 0 N "unat workers" base remainder]
      share(2,6) N_le by auto
  have sliced: "sliced_to t (unat (tr_size t)) \<and> tr_tasks t \<noteq> []" if "t \<in> set (as_transfers st)" for t
    using that inv idx by (auto simp: assign_inv_def covered_def in_set_conv_nth)
  have "sum_list (as_worker_bytes st) = tot"
    using sum_worker_targets [OF share(2), of base remainder] share(7) share(1) [symmetric]
    by (simp add: load sum_list_replicate_word)
  then have "assign_verified tot st"
    using sliced sliced_to_sum by (auto simp: assign_verified_def list_all_iff)
  then have "assign block workers tot ts = Some (Inr (num, as_transfers st))"
    using block run by (simp add: assign_def bpw)
  moreover have "list_all (divided (unat num)) (as_transfers st)"
    using sliced below share(1) by (auto simp: list_all_iff divided_def)
  moreover have "worker_load w (as_transfers st) = worker_target base remainder w" if "w < unat num" for w
  proof -
    have "as_worker_bytes st ! w = worker_target base remainder w"
      using that share(1) load by (simp add: nth_append)
    moreover have "as_worker_bytes st ! w = worker_load w (as_transfers st)"
      using inv that share(1) N_le load by (simp add: assign_inv_def)
    ultimately show ?thesis by simp
  qed
  moreover have "map strip (as_transfers st) = ts"
    using inv by (simp add: assign_inv_def)
  ultimately show ?thesis by blast
qed

lemma transfer_ranges_strip [simp]: "transfer_ranges (strip t) = transfer_ranges t"
  by (simp add: transfer_ranges_def strip_def)

lemma coalesce_Inr:
  assumes "coalesce request = Inr (tot, ts)"
  shows "concat (map transfer_ranges ts) = request_ranges 0 request"
    and "list_all transfer_ok ts" and "transfer_bytes ts = unat tot"
    and "unat tot = request_bytes request"
  using coalesce_files_Inr [of 0 request 0 "[]" tot ts] assms by (simp_all add: coalesce_def)

lemma coalesce_cases:
  "(\<exists>tot ts. coalesce request = Inr (tot, ts) \<and> request_bytes request < 18446744073709551616) \<or>
   coalesce request = Inl (CommonException InvalidParameterError) \<and>
     18446744073709551616 \<le> request_bytes request"
proof (cases "coalesce request")
  case (Inl e)
  then show ?thesis
    using coalesce_files_Inl [of 0 request 0 "[]" e] by (simp add: coalesce_def)
next
  case (Inr p)
  obtain tot ts where p: "p = (tot, ts)" by (cases p)
  with Inr coalesce_Inr(4) [of request tot ts] unat_lt64 [of tot] show ?thesis
    by (auto simp del: unat_lt64)
qed

definition assigner_block :: "file_ranges list \<Rightarrow> config \<Rightarrow> size_t" where
  "assigner_block request cfg =
     (if check_object_storage request then s3_block_bytesize cfg else fs_block_bytesize cfg)"

definition assigner_workers :: "file_ranges list \<Rightarrow> config \<Rightarrow> uint" where
  "assigner_workers request cfg =
     (if check_object_storage request then s3_concurrency cfg else concurrency cfg)"

lemma assigner_make_nonempty:
  assumes cfg: "config_ok cfg" and co: "coalesce request = Inr (tot, ts)" and ne: "ts \<noteq> []"
    and bpw: "bytes_per_worker (assigner_block request cfg) (assigner_workers request cfg) tot =
      (num, base, remainder)"
  shows "\<exists>ts'. assigner_make request cfg = Some (Inr \<lparr>asg_num_workers = assigner_workers request cfg,
      asg_num_workloads = num, asg_transfers = ts'\<rparr>) \<and> map strip ts' = ts \<and>
    list_all (divided (unat num)) ts' \<and>
    (\<forall>w<unat num. worker_load w ts' = worker_target base remainder w)"
proof -
  have "request \<noteq> []"
    using co ne by (auto simp: coalesce_def)
  moreover have "0 < assigner_block request cfg" "0 < assigner_workers request cfg"
    using cfg by (auto simp: assigner_block_def assigner_workers_def config_ok_def)
  from assign_correct [OF this coalesce_Inr(2,3) [OF co] bpw] obtain ts' where
    "assign (assigner_block request cfg) (assigner_workers request cfg) tot ts = Some (Inr (num, ts'))"
    "map strip ts' = ts" "list_all (divided (unat num)) ts'"
    "\<forall>w<unat num. worker_load w ts' = worker_target base remainder w"
    by blast
  ultimately show ?thesis
    using co ne by (simp add: assigner_make_def Let_def assigner_block_def assigner_workers_def)
qed

lemma assigner_make_spec:
  assumes cfg: "config_ok cfg" and small: "request_bytes request < 18446744073709551616"
  shows "\<exists>a. assigner_make request cfg = Some (Inr a) \<and>
    concat (map transfer_ranges (asg_transfers a)) = request_ranges 0 request \<and>
    list_all (divided (unat (asg_num_workloads a))) (asg_transfers a) \<and>
    list_all (\<lambda>t. transfer_ok (strip t)) (asg_transfers a) \<and>
    transfer_bytes (asg_transfers a) = request_bytes request"
proof -
  obtain tot ts where co: "coalesce request = Inr (tot, ts)"
    using coalesce_cases [of request] small by auto
  show ?thesis
  proof (cases "ts = []")
    case True
    then show ?thesis
      using co coalesce_Inr [OF co] by (simp add: assigner_make_def Let_def)
  next
    case False
    obtain num base remainder where
      "bytes_per_worker (assigner_block request cfg) (assigner_workers request cfg) tot = (num, base, remainder)"
      by (metis prod_cases3)
    from assigner_make_nonempty [OF cfg co False this] obtain ts' where
      mk: "assigner_make request cfg = Some (Inr \<lparr>asg_num_workers = assigner_workers request cfg,
        asg_num_workloads = num, asg_transfers = ts'\<rparr>)"
      and ts': "map strip ts' = ts" "list_all (divided (unat num)) ts'"
      by blast
    have "map transfer_ranges ts' = map transfer_ranges ts"
      unfolding ts'(1) [symmetric] by simp
    moreover have "transfer_bytes ts' = transfer_bytes ts"
      unfolding ts'(1) [symmetric] by (simp add: transfer_bytes_def strip_def comp_def)
    moreover have "list_all (\<lambda>t. transfer_ok (strip t)) ts'"
      using coalesce_Inr(2) [OF co] unfolding ts'(1) [symmetric] by (simp add: list_all_iff)
    ultimately show ?thesis
      using mk ts' coalesce_Inr [OF co] by simp
  qed
qed

lemma assigner_make_overflow:
  assumes "18446744073709551616 \<le> request_bytes request"
  shows "assigner_make request cfg = Some (Inl (CommonException InvalidParameterError))"
proof -
  have "request \<noteq> []"
    using assms by (auto simp: request_bytes_def)
  then show ?thesis
    using coalesce_cases [of request] assms by (auto simp: assigner_make_def Let_def)
qed

section \<open>Coalescing is maximal\<close>

text \<open>Two consecutive transfers that could not have been merged.\<close>

definition separate :: "contiguous_transfer \<Rightarrow> contiguous_transfer \<Rightarrow> bool" where
  "separate t u \<longleftrightarrow> tr_file_index t \<noteq> tr_file_index u \<or>
     \<not> (tr_offset t + tr_size t = tr_offset u \<and> tr_destination t + tr_size t = tr_destination u)"

lemma coalesce_ranges_separate:
  assumes "coalesce_ranges f i rs tot ts opn = Inr (tot', ts')"
    and "successively separate ts" and "\<forall>t\<in>set ts. tr_file_index t \<le> f"
    and "opn < length ts \<Longrightarrow> opn = length ts - 1"
    and "\<not> opn < length ts \<Longrightarrow> \<forall>t\<in>set ts. tr_file_index t < f"
  shows "successively separate ts' \<and> (\<forall>t\<in>set ts'. tr_file_index t \<le> f)"
  using assms
proof (induction f i rs tot ts opn rule: coalesce_ranges.induct)
  case (2 f i r rs tot ts opn)
  have fits: "\<not> size_max - rng_size r < tot"
    using "2.prems"(1) by (auto split: if_splits)
  show ?case
  proof (cases "opn < length ts \<and> extends_transfer (ts ! opn) r")
    case True
    then obtain us t where ts: "ts = us @ [t]" "opn = length us"
      using "2.prems"(4) by (cases ts rule: rev_cases) auto
    let ?ts = "us @ [extend_transfer t r]"
    have "successively separate ?ts"
      using "2.prems"(2) by (auto simp: ts successively_append_iff separate_def extend_transfer_def)
    moreover have "\<forall>t\<in>set ?ts. tr_file_index t \<le> f"
      using "2.prems"(3) by (simp add: ts extend_transfer_def)
    ultimately show ?thesis
      using "2.IH"(1) [OF fits refl True] "2.prems"(1) fits True ts by simp
  next
    case False
    let ?ts = "ts @ [open_transfer f i r]"
    have "separate (last ts) (open_transfer f i r)" if "ts \<noteq> []"
    proof (cases "opn < length ts")
      case True
      then have "ts ! opn = last ts"
        using "2.prems"(4) that by (simp add: last_conv_nth)
      then show ?thesis
        using False True by (auto simp: separate_def extends_transfer_def open_transfer_def)
    next
      case closed: False
      then show ?thesis
        using "2.prems"(5) that by (auto simp: separate_def open_transfer_def dest: last_in_set)
    qed
    then have "successively separate ?ts"
      using "2.prems"(2) by (auto simp: successively_append_iff)
    moreover have "\<forall>t\<in>set ?ts. tr_file_index t \<le> f"
      using "2.prems"(3) by (auto simp: open_transfer_def)
    ultimately show ?thesis
      using "2.IH"(2) [OF fits refl False] "2.prems"(1) fits False by (simp add: Let_def)
  qed
qed simp

lemma coalesce_files_separate:
  assumes "coalesce_files f files tot ts = Inr (tot', ts')"
    and "successively separate ts" and "\<forall>t\<in>set ts. tr_file_index t < f"
  shows "successively separate ts'"
  using assms
proof (induction f files tot ts rule: coalesce_files.induct)
  case (2 f fl files tot ts)
  from "2.prems"(1) obtain tot1 ts1 where
    r: "coalesce_ranges f 0 (fr_ranges fl) tot ts (length ts) = Inr (tot1, ts1)"
    and rest: "coalesce_files (Suc f) files tot1 ts1 = Inr (tot', ts')"
    by (auto split: sum.splits prod.splits)
  have "\<forall>t\<in>set ts. tr_file_index t \<le> f"
    using "2.prems"(3) by (auto simp: less_imp_le)
  then have "successively separate ts1 \<and> (\<forall>t\<in>set ts1. tr_file_index t \<le> f)"
    using coalesce_ranges_separate [OF r "2.prems"(2)] "2.prems"(3) by auto
  then show ?case
    using "2.IH" [OF r refl rest] by (auto simp: less_Suc_eq_le)
qed simp

section \<open>Properties\<close>

text \<open>Property C24: the ranges that the coalesced transfers stand for are exactly the ranges of the
  submission, in the caller's order and with their file and range indices, sizes, offsets and
  destinations unchanged; the returned total is the exact sum of the sizes.\<close>

theorem coalesce_lossless:
  assumes "coalesce request = Inr (tot, ts)"
  shows "concat (map transfer_ranges ts) = request_ranges 0 request \<and>
    unat tot = request_bytes request"
  using coalesce_Inr [OF assms] by simp

definition sample_request :: "file_ranges list" where
  "sample_request =
     [\<lparr>fr_path = ''/a'', fr_ranges =
         [\<lparr>rng_offset = 0, rng_size = 3, rng_dst = 100\<rparr>,
          \<lparr>rng_offset = 3, rng_size = 4, rng_dst = 103\<rparr>,
          \<lparr>rng_offset = 20, rng_size = 0, rng_dst = 50\<rparr>]\<rparr>,
      \<lparr>fr_path = ''/b'', fr_ranges = [\<lparr>rng_offset = 7, rng_size = 5, rng_dst = 200\<rparr>]\<rparr>]"

lemma coalesce_sample:
  "coalesce sample_request = Inr (12,
     [\<lparr>tr_file_index = 0, tr_offset = 0, tr_size = 7, tr_destination = 100, first_range_index = 0,
       range_sizes = [3, 4], tr_tasks = []\<rparr>,
      \<lparr>tr_file_index = 0, tr_offset = 20, tr_size = 0, tr_destination = 50, first_range_index = 2,
       range_sizes = [0], tr_tasks = []\<rparr>,
      \<lparr>tr_file_index = 1, tr_offset = 7, tr_size = 5, tr_destination = 200, first_range_index = 0,
       range_sizes = [5], tr_tasks = []\<rparr>])"
  by (simp add: coalesce_def sample_request_def extends_transfer_def extend_transfer_def
      open_transfer_def Let_def)

theorem coalesce_lossless_witness:
  "\<exists>tot ts. coalesce sample_request = Inr (tot, ts) \<and> length ts = 3 \<and>
     concat (map transfer_ranges ts) = request_ranges 0 sample_request \<and> unat tot = 12"
  using coalesce_lossless [OF coalesce_sample] coalesce_sample by simp

text \<open>Property C29: no two consecutive transfers of a file could have been merged: coalescing is
  maximal in the order the caller gave.\<close>

theorem coalesce_maximal:
  assumes "coalesce request = Inr (tot, ts)"
  shows "successively separate ts"
  using coalesce_files_separate [of 0 request 0 "[]" tot ts] assms by (simp add: coalesce_def)

theorem coalesce_maximal_witness:
  "\<exists>tot ts. coalesce sample_request = Inr (tot, ts) \<and> successively separate ts"
  using coalesce_maximal [OF coalesce_sample] coalesce_sample by blast

definition sample_config :: config where
  "sample_config = \<lparr>concurrency = 3, s3_concurrency = 2, s3_block_bytesize = 8, fs_block_bytesize = 4\<rparr>"

lemma sample_config_ok: "config_ok sample_config"
  by (simp add: sample_config_def config_ok_def)

text \<open>Property C17: with a valid configuration the assigner always finishes. It reports
  InvalidParameterError exactly when the sizes add up past what \<open>size_t\<close> holds; otherwise its
  checks pass, and every transfer is cut into slices that lie one after the other, cover it
  exactly and go to different workers, each below the number of workloads.\<close>

theorem assigner_make_correct:
  assumes "config_ok cfg"
  shows "if request_bytes request < 18446744073709551616 then
      \<exists>a. assigner_make request cfg = Some (Inr a) \<and>
        concat (map transfer_ranges (asg_transfers a)) = request_ranges 0 request \<and>
        list_all (divided (unat (asg_num_workloads a))) (asg_transfers a)
    else assigner_make request cfg = Some (Inl (CommonException InvalidParameterError))"
  using assigner_make_spec [OF assms, of request] assigner_make_overflow [of request cfg] by auto

theorem assigner_make_correct_witness:
  "\<exists>a. assigner_make sample_request sample_config = Some (Inr a) \<and>
     list_all (divided (unat (asg_num_workloads a))) (asg_transfers a)"
proof -
  have "request_bytes sample_request < 18446744073709551616"
    by (simp add: request_bytes_def sample_request_def)
  with assigner_make_correct [OF sample_config_ok, of sample_request] show ?thesis
    by auto
qed

text \<open>Property C25: the work is shared by whole blocks. Every workload but the first gets the same
  number of bytes, a multiple of the block size; the first also takes what is left over; there
  are never more workloads than workers, and when there are several each gets at least a block.\<close>

theorem assigner_shares:
  assumes "config_ok cfg" and "coalesce request = Inr (tot, ts)" and "ts \<noteq> []"
  shows "\<exists>a base. assigner_make request cfg = Some (Inr a) \<and>
    unat (asg_num_workloads a) \<le> unat (asg_num_workers a) \<and>
    unat (assigner_block request cfg) dvd unat base \<and>
    (1 < unat (asg_num_workloads a) \<longrightarrow> unat (assigner_block request cfg) \<le> unat base) \<and>
    (\<forall>w. 0 < w \<and> w < unat (asg_num_workloads a) \<longrightarrow> worker_load w (asg_transfers a) = base) \<and>
    unat (worker_load 0 (asg_transfers a)) + (unat (asg_num_workloads a) - 1) * unat base =
      request_bytes request"
proof -
  obtain num base remainder where bpw:
    "bytes_per_worker (assigner_block request cfg) (assigner_workers request cfg) tot = (num, base, remainder)"
    by (metis prod_cases3)
  have pos: "0 < assigner_block request cfg" "0 < assigner_workers request cfg"
    using assms(1) by (auto simp: assigner_block_def assigner_workers_def config_ok_def)
  note share = bytes_per_worker_spec [OF pos(1) bpw]
  obtain ts' where mk: "assigner_make request cfg = Some (Inr \<lparr>asg_num_workers = assigner_workers request cfg,
      asg_num_workloads = num, asg_transfers = ts'\<rparr>)"
    and load: "\<forall>w<unat num. worker_load w ts' = worker_target base remainder w"
    using assigner_make_nonempty [OF assms bpw] by blast
  have "unat (assigner_block request cfg) \<le> unat base" if "1 < unat num"
  proof -
    have "unat num \<le> unat tot div unat (assigner_block request cfg)"
      using that by (simp add: share(1) workload_count_def)
    then have "1 \<le> unat tot div unat (assigner_block request cfg) div unat num"
      using that by (simp add: div_greater_zero_iff Suc_leI)
    then show ?thesis
      by (simp add: share(4) flip: share(1))
  qed
  moreover have "unat (worker_load 0 ts') + (unat num - 1) * unat base = request_bytes request"
  proof -
    have "unat (worker_load 0 ts') = unat base + unat remainder"
      using load share(1,2,6) by (simp add: worker_target_def word_to_nat)
    moreover have "0 < unat num"
      using share(1,2) by simp
    then obtain m where "unat num = Suc m"
      by (cases "unat num") auto
    ultimately show ?thesis
      using share(5) [folded share(1)] coalesce_Inr(4) [OF assms(2)] by simp
  qed
  ultimately show ?thesis
    using mk load share(1,3,4) pos(2)
    by (intro exI [of _ base] exI) (auto simp: worker_target_def unat_pos_iff)
qed

theorem assigner_shares_witness:
  "\<exists>a. assigner_make sample_request sample_config = Some (Inr a) \<and>
     unat (asg_num_workloads a) \<le> unat (asg_num_workers a)"
  using assigner_shares [OF sample_config_ok coalesce_sample] by auto

end
