(* ===== verification/Batches.thy ===== *)
theory Batches
  imports Batch Assignment
begin

text \<open>
  \<open>Batches\<close> (\<open>streamer/impl/batches\<close>): turns a divided transfer into one request per range and one
  batch per slice. Every range is cut where the slices are cut, each piece becomes a task of the
  slice's batch, and the request counts its pieces.
\<close>

section \<open>The iterator over the slices\<close>

record batch_itr =
  itr_tasks :: "file_read_task list"
  itr_index :: nat
  itr_workload :: nat
  itr_left :: size_t

definition itr_make :: "file_read_task list \<Rightarrow> exn + batch_itr" where
  "itr_make tasks =
     (if tasks = [] then Inl StdException
      else Inr \<lparr>itr_tasks = tasks, itr_index = 0, itr_workload = workload_index (tasks ! 0),
                itr_left = slice_size (tasks ! 0)\<rparr>)"

definition read_task :: "batch_itr \<Rightarrow> nat \<Rightarrow> exn + file_read_task" where
  "read_task itr i =
     (if i < length (itr_tasks itr) then Inr (itr_tasks itr ! i) else Inl StdException)"

definition itr_take :: "size_t \<Rightarrow> batch_itr \<Rightarrow> batch_itr \<times> size_t" where
  "itr_take bytesize itr =
     (let to_read = min (itr_left itr) bytesize in
      (itr\<lparr>itr_left := itr_left itr - to_read\<rparr>, to_read))"

definition itr_consume :: "size_t \<Rightarrow> batch_itr \<Rightarrow> exn + batch_itr \<times> size_t" where
  "itr_consume bytesize itr =
     (if itr_left itr = 0 \<and> bytesize \<noteq> 0 then
        case read_task itr (Suc (itr_index itr)) of
          Inl e \<Rightarrow> Inl e
        | Inr k \<Rightarrow>
            Inr (itr_take bytesize
              (itr\<lparr>itr_index := Suc (itr_index itr), itr_workload := workload_index k,
                   itr_left := slice_size k\<rparr>))
      else Inr (itr_take bytesize itr))"

section \<open>The tasks of one range\<close>

lemma itr_take_progress:
  "itr_take bytes itr = (itr', m) \<Longrightarrow> 0 < bytes - m \<Longrightarrow> itr_left itr' = 0"
  by (auto simp: itr_take_def Let_def min_def split: if_splits)

text \<open>The \<open>do ... while\<close> loop of \<open>handle_request\<close>, which fills the map from slices to task infos.\<close>

function handle_loop ::
  "batch_itr \<Rightarrow> size_t \<Rightarrow> size_t \<Rightarrow> size_t \<Rightarrow> (nat \<times> task_info) list \<Rightarrow>
    exn + batch_itr \<times> (nat \<times> task_info) list" where
  "handle_loop itr bytes task_offset destination_offset infos =
     (case itr_consume bytes itr of
        Inl e \<Rightarrow> Inl e
      | Inr (itr', to_read) \<Rightarrow>
          let infos' = fst (memplace (itr_index itr')
                (make_info task_offset to_read destination_offset) infos);
              bytes' = bytes - to_read
          in if 0 < bytes' then
               handle_loop itr' bytes' (task_offset + to_read) (destination_offset + to_read) infos'
             else Inr (itr', infos'))"
  by pat_completeness auto

termination
proof (relation "measure (\<lambda>(itr, bytes, task_offset, rel, infos).
    2 * (length (itr_tasks itr) - itr_index itr) + (if itr_left itr = 0 then 0 else 1))")
  fix itr bytes task_offset destination_offset infos p itr' to_read infos' bytes'
  assume c: "itr_consume bytes itr = Inr p" "(itr', to_read) = p"
    and b: "bytes' = bytes - to_read" "0 < (bytes' :: size_t)"
  show "((itr', bytes', task_offset + to_read, destination_offset + to_read, infos'),
      itr, bytes, task_offset, destination_offset, infos) \<in> measure (\<lambda>(itr, bytes, task_offset, rel, infos).
        2 * (length (itr_tasks itr) - itr_index itr) + (if itr_left itr = 0 then 0 else 1))"
  proof (cases "itr_left itr = 0 \<and> bytes \<noteq> 0")
    case True
    then obtain k where k: "read_task itr (Suc (itr_index itr)) = Inr k"
      and t: "itr_take bytes (itr\<lparr>itr_index := Suc (itr_index itr), itr_workload := workload_index k,
                   itr_left := slice_size k\<rparr>) = (itr', to_read)"
      using c by (auto simp: itr_consume_def split: sum.splits)
    have "Suc (itr_index itr) < length (itr_tasks itr)"
      using k by (auto simp: read_task_def split: if_splits)
    moreover have "itr_left itr' = 0" "itr_index itr' = Suc (itr_index itr)" "itr_tasks itr' = itr_tasks itr"
      using itr_take_progress [OF t] t b by (auto simp: itr_take_def Let_def)
    ultimately show ?thesis by simp
  next
    case False
    then have t: "itr_take bytes itr = (itr', to_read)"
      using c by (auto simp: itr_consume_def)
    have "itr_left itr \<noteq> 0"
    proof
      assume "itr_left itr = 0"
      then have "bytes = 0" "to_read = 0"
        using False t by (auto simp: itr_take_def Let_def)
      then show False using b by simp
    qed
    moreover have "itr_left itr' = 0" "itr_index itr' = itr_index itr" "itr_tasks itr' = itr_tasks itr"
      using itr_take_progress [OF t] t b by (auto simp: itr_take_def Let_def)
    ultimately show ?thesis by simp
  qed
qed simp

declare handle_loop.simps [simp del]

text \<open>The loop that creates the tasks, with its \<open>ASSERT\<close> on the batch index.\<close>

fun add_tasks ::
  "nat \<Rightarrow> (nat \<times> task_info) list \<Rightarrow> task list list \<Rightarrow> exn + task list list" where
  "add_tasks r [] v = Inr v"
| "add_tasks r ((k, info) # infos) v =
     (if k < length v then add_tasks r infos (v[k := v ! k @ [make_task r info]])
      else Inl StdException)"

definition handle_request ::
  "nat \<Rightarrow> nat \<Rightarrow> size_t \<Rightarrow> size_t \<Rightarrow> ptr \<Rightarrow> batch_itr \<times> request_heap \<times> task list list \<Rightarrow>
    exn + batch_itr \<times> request_heap \<times> task list list" where
  "handle_request file_index range_index file_offset request_size dst st =
     (case st of (itr, heap, v) \<Rightarrow>
        case handle_loop itr request_size file_offset 0 [] of
          Inl e \<Rightarrow> Inl e
        | Inr (itr', infos) \<Rightarrow>
            (case add_tasks (length heap) infos v of
               Inl e \<Rightarrow> Inl e
             | Inr v' \<Rightarrow>
                 Inr (itr', heap @ [request_make file_offset file_index range_index
                       (of_nat (length infos)) request_size dst], v')))"

section \<open>The batches of a transfer\<close>

text \<open>The loop over the ranges: both cursors advance by the size of the range.\<close>

fun build_requests ::
  "nat \<Rightarrow> nat \<Rightarrow> size_t \<Rightarrow> ptr \<Rightarrow> size_t list \<Rightarrow> batch_itr \<times> request_heap \<times> task list list \<Rightarrow>
    exn + batch_itr \<times> request_heap \<times> task list list" where
  "build_requests file_index range_index file_offset dst [] st = Inr st"
| "build_requests file_index range_index file_offset dst (s # sizes) st =
     (case handle_request file_index range_index file_offset s dst st of
        Inl e \<Rightarrow> Inl e
      | Inr st' \<Rightarrow> build_requests file_index (Suc range_index) (file_offset + s) (dst + s) sizes st')"

text \<open>The loop over the slices: a slice without tasks gets no batch.\<close>

fun emplace_batches ::
  "submission_id \<Rightarrow> nat \<Rightarrow> string \<Rightarrow> params \<Rightarrow> config \<Rightarrow> file_read_task list \<Rightarrow> task list list \<Rightarrow>
    exn + batch list" where
  "emplace_batches sid file_index path ps cfg (k # ks) (ts # v) =
     (if ts = [] then emplace_batches sid file_index path ps cfg ks v
      else case batch_make sid (workload_index k) file_index path ps ts cfg of
        Inl e \<Rightarrow> Inl e
      | Inr b \<Rightarrow>
          (case emplace_batches sid file_index path ps cfg ks v of
             Inl e \<Rightarrow> Inl e | Inr bs \<Rightarrow> Inr (b # bs)))"
| "emplace_batches sid file_index path ps cfg _ _ = Inr []"

text \<open>
  The constructor with \<open>build_tasks\<close>: the heap with the new requests, the batches and the total of
  their bytes.
\<close>

definition batches_make ::
  "submission_id \<Rightarrow> nat \<Rightarrow> file_read_task list \<Rightarrow> config \<Rightarrow> string \<Rightarrow> params \<Rightarrow> size_t list \<Rightarrow> nat \<Rightarrow>
    request_heap \<Rightarrow> exn + request_heap \<times> batch list \<times> size_t" where
  "batches_make sid file_index tasks cfg path ps sizes first_range heap =
     (case itr_make tasks of
        Inl e \<Rightarrow> Inl e
      | Inr itr \<Rightarrow>
          (case read_task itr 0 of
             Inl e \<Rightarrow> Inl e
           | Inr k \<Rightarrow>
               (case build_requests file_index first_range (offset_in_file k) (slice_destination k)
                       sizes (itr, heap, replicate (length tasks) []) of
                  Inl e \<Rightarrow> Inl e
                | Inr (itr', heap', v) \<Rightarrow>
                    (case emplace_batches sid file_index path ps cfg tasks v of
                       Inl e \<Rightarrow> Inl e
                     | Inr bs \<Rightarrow> Inr (heap', bs, sum_list (map total_bytes bs))))))"

section \<open>Where the iterator is\<close>

text \<open>
  The sizes of the slices, the bytes of a slice that are consumed, and the position in the
  transfer, all as numbers.
\<close>

definition slices :: "batch_itr \<Rightarrow> nat list" where
  "slices itr = map (\<lambda>k. unat (slice_size k)) (itr_tasks itr)"

definition itr_ok :: "batch_itr \<Rightarrow> bool" where
  "itr_ok itr \<longleftrightarrow> itr_index itr < length (itr_tasks itr) \<and>
     unat (itr_left itr) \<le> slices itr ! itr_index itr"

definition filled :: "batch_itr \<Rightarrow> nat \<Rightarrow> nat" where
  "filled itr i =
     (if i < itr_index itr then slices itr ! i
      else if i = itr_index itr then slices itr ! i - unat (itr_left itr) else 0)"

definition itr_pos :: "batch_itr \<Rightarrow> nat" where
  "itr_pos itr = sum_list (take (itr_index itr) (slices itr)) + filled itr (itr_index itr)"

lemma itr_pos_le: "itr_ok itr \<Longrightarrow> itr_pos itr \<le> sum_list (take (Suc (itr_index itr)) (slices itr))"
  by (simp add: itr_ok_def itr_pos_def filled_def slices_def take_Suc_conv_app_nth)

text \<open>A step of the iterator: \<open>m\<close> bytes at the current position of the slice it ends up in.\<close>

definition itr_stepped :: "batch_itr \<Rightarrow> size_t \<Rightarrow> size_t \<Rightarrow> batch_itr \<Rightarrow> bool" where
  "itr_stepped itr bytes m itr' \<longleftrightarrow>
     itr_ok itr' \<and> itr_tasks itr' = itr_tasks itr \<and> m \<le> bytes \<and>
     filled itr' = (filled itr)(itr_index itr' := filled itr (itr_index itr') + unat m) \<and>
     itr_pos itr = sum_list (take (itr_index itr') (slices itr)) + filled itr (itr_index itr') \<and>
     itr_pos itr' = itr_pos itr + unat m \<and>
     itr_index itr' = (if itr_left itr = 0 \<and> bytes \<noteq> 0 then Suc (itr_index itr) else itr_index itr) \<and>
     (0 < bytes - m \<longrightarrow> itr_left itr' = 0)"

lemma itr_take_stepped:
  assumes ok: "itr_ok itr" and t: "itr_take bytes itr = (itr', m)" and "itr_left itr \<noteq> 0 \<or> bytes = 0"
  shows "itr_stepped itr bytes m itr'"
proof -
  have m: "m = min (itr_left itr) bytes" and itr': "itr' = itr\<lparr>itr_left := itr_left itr - m\<rparr>"
    using t by (auto simp: itr_take_def Let_def)
  have le: "m \<le> itr_left itr" by (simp add: m)
  then have left: "unat (itr_left itr') = unat (itr_left itr) - unat m" "unat m \<le> unat (itr_left itr)"
    by (simp_all add: itr' unat_sub_le word_le_nat_alt)
  have same: "itr_index itr' = itr_index itr" "itr_tasks itr' = itr_tasks itr" "slices itr' = slices itr"
    by (simp_all add: itr' slices_def)
  have fill: "filled itr' = (filled itr)(itr_index itr := filled itr (itr_index itr) + unat m)"
    using ok left by (auto simp: filled_def same itr_ok_def fun_eq_iff)
  moreover have "itr_ok itr'"
    using ok left by (auto simp: itr_ok_def same)
  ultimately show ?thesis
    using assms(3) itr_take_progress [OF t] m
    by (auto simp: itr_stepped_def same itr_pos_def)
qed

lemma itr_advance_ok:
  assumes ok: "itr_ok itr" and left: "itr_left itr = 0" and i: "Suc (itr_index itr) < length (itr_tasks itr)"
    and itr1: "itr1 = itr\<lparr>itr_index := Suc (itr_index itr), itr_workload := w,
       itr_left := slice_size (itr_tasks itr ! Suc (itr_index itr))\<rparr>"
  shows "itr_ok itr1 \<and> filled itr1 = filled itr \<and> itr_pos itr1 = itr_pos itr"
proof -
  have sl: "slices itr1 = slices itr" by (simp add: itr1 slices_def)
  have idx: "itr_index itr1 = Suc (itr_index itr)" by (simp add: itr1)
  have nth: "slices itr ! Suc (itr_index itr) = unat (itr_left itr1)"
    using i by (simp add: itr1 slices_def)
  have f: "filled itr1 = filled itr"
    using left by (auto simp: filled_def sl idx nth fun_eq_iff)
  have "filled itr (itr_index itr) = slices itr ! itr_index itr" "filled itr (Suc (itr_index itr)) = 0"
    using left by (simp_all add: filled_def)
  moreover have "sum_list (take (Suc (itr_index itr)) (slices itr)) =
      sum_list (take (itr_index itr) (slices itr)) + slices itr ! itr_index itr"
    using i by (simp add: slices_def take_Suc_conv_app_nth)
  ultimately have "itr_pos itr1 = itr_pos itr"
    by (simp add: itr_pos_def sl idx f)
  moreover have "itr_ok itr1"
    using i nth by (simp add: itr_ok_def sl idx) (simp add: itr1)
  ultimately show ?thesis using f by blast
qed

lemma itr_consume_spec:
  assumes ok: "itr_ok itr" and room: "itr_pos itr + unat bytes \<le> sum_list (slices itr)"
  shows "\<exists>itr' m. itr_consume bytes itr = Inr (itr', m) \<and> itr_stepped itr bytes m itr'"
proof (cases "itr_left itr = 0 \<and> bytes \<noteq> 0")
  case False
  obtain itr' m where t: "itr_take bytes itr = (itr', m)" by fastforce
  then have "itr_consume bytes itr = Inr (itr', m)"
    using False by (auto simp: itr_consume_def)
  moreover have "itr_stepped itr bytes m itr'"
    using False itr_take_stepped [OF ok t] by blast
  ultimately show ?thesis by blast
next
  case True
  have i: "Suc (itr_index itr) < length (itr_tasks itr)"
  proof (rule ccontr)
    assume "\<not> ?thesis"
    then have "Suc (itr_index itr) = length (slices itr)"
      using ok by (simp add: itr_ok_def slices_def)
    moreover have "filled itr (itr_index itr) = slices itr ! itr_index itr"
      using True by (simp add: filled_def)
    ultimately have "itr_pos itr = sum_list (slices itr)"
      by (metis itr_pos_def lessI order_refl sum_list_append sum_list_simps(2) take_Suc_conv_app_nth
          take_all add.right_neutral sum_list.Nil sum_list.Cons)
    then show False using room True by (simp add: unat_eq_0)
  qed
  let ?k = "itr_tasks itr ! Suc (itr_index itr)"
  define itr1 where "itr1 = itr\<lparr>itr_index := Suc (itr_index itr), itr_workload := workload_index ?k,
       itr_left := slice_size ?k\<rparr>"
  have adv: "itr_ok itr1" "filled itr1 = filled itr" "itr_pos itr1 = itr_pos itr"
    using itr_advance_ok [OF ok _ i itr1_def] True by auto
  obtain itr' m where t: "itr_take bytes itr1 = (itr', m)" by fastforce
  have run: "itr_consume bytes itr = Inr (itr', m)"
    using True i t by (simp add: itr_consume_def read_task_def itr1_def)
  have "itr' = itr1\<lparr>itr_left := itr_left itr1 - m\<rparr>" and m: "m = min (itr_left itr1) bytes"
    using t by (auto simp: itr_take_def Let_def)
  show ?thesis
  proof (cases "itr_left itr1 = 0")
    case False
    then have "itr_stepped itr1 bytes m itr'"
      by (intro itr_take_stepped adv t) simp
    moreover have "itr_index itr1 = Suc (itr_index itr)" "itr_tasks itr1 = itr_tasks itr" "slices itr1 = slices itr"
      by (simp_all add: itr1_def slices_def)
    ultimately have "itr_stepped itr bytes m itr'"
      using True False by (simp add: itr_stepped_def adv)
    with run show ?thesis by blast
  next
    case zero: True
    then have "itr' = itr1" "m = 0"
      using t by (auto simp: itr_take_def Let_def)
    moreover have "itr_index itr1 = Suc (itr_index itr)" "itr_tasks itr1 = itr_tasks itr" "slices itr1 = slices itr"
      by (simp_all add: itr1_def slices_def)
    ultimately have "itr_stepped itr bytes m itr'"
      using True zero adv by (auto simp: itr_stepped_def fun_eq_iff itr_pos_def)
    with run show ?thesis by blast
  qed
qed

section \<open>The tasks of the slices\<close>

text \<open>
  Segments of tasks when \<open>dest\<close> gives the destination of a request. \<open>slice_ok\<close>: the tasks of a slice
  lie one after the other from the slice's start and hold \<open>f\<close> bytes.
\<close>

definition seg_of :: "(nat \<Rightarrow> ptr) \<Rightarrow> task \<Rightarrow> segment" where
  "seg_of dest t = (ti_offset (task_info t), ti_bytesize (task_info t),
     dest (task_request t) + ti_relative_offset (task_info t))"

definition slice_ok :: "(nat \<Rightarrow> ptr) \<Rightarrow> size_t \<Rightarrow> ptr \<Rightarrow> nat \<Rightarrow> task list \<Rightarrow> bool" where
  "slice_ok dest off dst f ts \<longleftrightarrow>
     map (seg_of dest) ts = lay off dst (map (\<lambda>t. ti_bytesize (task_info t)) ts) \<and>
     sum_list (task_sizes ts) = f \<and>
     (\<forall>t\<in>set ts. ti_end (task_info t) = ti_offset (task_info t) + ti_bytesize (task_info t) \<and>
        \<not> task_finished t)"

lemma slice_ok_snoc:
  assumes "slice_ok dest off dst f ts" and "seg_of dest t = (off + of_nat f, m, dst + of_nat f)"
    and "ti_end (task_info t) = ti_offset (task_info t) + ti_bytesize (task_info t)"
    and "\<not> task_finished t"
  shows "slice_ok dest off dst (f + unat m) (ts @ [t])"
proof -
  have "sum_list (map (\<lambda>t. ti_bytesize (task_info t)) ts) = of_nat f"
    using assms(1) by (subst word_sum_list) (simp add: slice_ok_def task_sizes_def comp_def)
  moreover have "ti_bytesize (task_info t) = m"
    using assms(2) by (simp add: seg_of_def)
  ultimately show ?thesis
    using assms by (auto simp: slice_ok_def lay_append task_sizes_def)
qed

definition state_ok ::
  "(nat \<Rightarrow> ptr) \<Rightarrow> size_t \<Rightarrow> ptr \<Rightarrow> batch_itr \<Rightarrow> task list list \<Rightarrow> bool" where
  "state_ok dest base dst itr v \<longleftrightarrow> itr_ok itr \<and> length v = length (itr_tasks itr) \<and>
     (\<forall>i<length v. slice_ok dest (base + of_nat (sum_list (take i (slices itr))))
        (dst + of_nat (sum_list (take i (slices itr)))) (filled itr i) (v ! i))"

lemma state_ok_step:
  assumes st: "state_ok dest base dst itr v" and step: "itr_stepped itr bytes m itr'"
    and t: "seg_of dest t = (base + of_nat (itr_pos itr), m, dst + of_nat (itr_pos itr))"
      "ti_end (task_info t) = ti_offset (task_info t) + ti_bytesize (task_info t)"
      "\<not> task_finished t"
  shows "itr_index itr' < length v \<and>
    state_ok dest base dst itr' (v[itr_index itr' := v ! itr_index itr' @ [t]])"
proof -
  let ?i = "itr_index itr'"
  have same: "itr_tasks itr' = itr_tasks itr" "slices itr' = slices itr" and ok: "itr_ok itr'"
    and pos: "itr_pos itr = sum_list (take ?i (slices itr)) + filled itr ?i"
    and fill: "filled itr' = (filled itr)(?i := filled itr ?i + unat m)"
    using step by (simp_all add: itr_stepped_def slices_def)
  have len: "?i < length v"
    using ok st same by (simp add: itr_ok_def state_ok_def)
  have "slice_ok dest (base + of_nat (sum_list (take ?i (slices itr))))
      (dst + of_nat (sum_list (take ?i (slices itr)))) (filled itr ?i + unat m) (v ! ?i @ [t])"
    using st len t by (intro slice_ok_snoc) (auto simp: state_ok_def pos add.assoc)
  then show ?thesis
    using st len ok by (auto simp: state_ok_def same fill nth_list_update)
qed

section \<open>One range\<close>

lemma add_tasks_snoc:
  "add_tasks r (infos @ [(k, info)]) v =
    (case add_tasks r infos v of
       Inl e \<Rightarrow> Inl e
     | Inr v' \<Rightarrow> if k < length v' then Inr (v'[k := v' ! k @ [make_task r info]]) else Inl StdException)"
  by (induction r infos v rule: add_tasks.induct) auto

lemma add_tasks_length: "add_tasks r infos v = Inr v' \<Longrightarrow> length v' = length v"
  by (induction r infos v rule: add_tasks.induct) (auto split: if_splits)

text \<open>The pieces of a range: they lie one after the other from its start, in different slices.\<close>

definition pieces_ok :: "size_t \<Rightarrow> nat \<Rightarrow> (nat \<times> task_info) list \<Rightarrow> bool" where
  "pieces_ok off f infos \<longleftrightarrow>
     map (\<lambda>p. (ti_offset (snd p), ti_bytesize (snd p), ti_relative_offset (snd p))) infos =
       lay off 0 (map (\<lambda>p. ti_bytesize (snd p)) infos) \<and>
     sum_list (map (\<lambda>p. unat (ti_bytesize (snd p))) infos) = f \<and>
     sorted_wrt (<) (map fst infos)"

lemma pieces_ok_snoc:
  assumes "pieces_ok off f infos" and "\<forall>p\<in>set infos. fst p < k"
  shows "pieces_ok off (f + unat m) (infos @ [(k, make_info (off + of_nat f) m (of_nat f))])"
proof -
  have "sum_list (map (\<lambda>p. ti_bytesize (snd p)) infos) = of_nat f"
    using assms(1) by (subst word_sum_list) (simp add: pieces_ok_def comp_def)
  then show ?thesis
    using assms by (auto simp: pieces_ok_def lay_append make_info_def sorted_wrt_append)
qed

definition loop_inv ::
  "(nat \<Rightarrow> ptr) \<Rightarrow> size_t \<Rightarrow> ptr \<Rightarrow> nat \<Rightarrow> task list list \<Rightarrow> nat \<Rightarrow> nat \<Rightarrow>
    batch_itr \<Rightarrow> nat \<Rightarrow> (nat \<times> task_info) list \<Rightarrow> bool" where
  "loop_inv dest base dst r v0 P n itr done_bytes infos \<longleftrightarrow>
     (\<exists>v. add_tasks r infos v0 = Inr v \<and> state_ok dest base dst itr v) \<and>
     itr_pos itr = P + done_bytes \<and> done_bytes \<le> n \<and> P + n \<le> sum_list (slices itr) \<and>
     pieces_ok (base + of_nat P) done_bytes infos \<and> (\<forall>p\<in>set infos. fst p \<le> itr_index itr)"

lemma handle_loop_spec:
  assumes "loop_inv dest base dst r v0 P n itr (n - unat bytes) infos"
    and "unat bytes \<le> n" and "dest r = dst + of_nat P"
    and "infos \<noteq> [] \<longrightarrow> itr_left itr = 0 \<and> bytes \<noteq> 0"
    and "off = base + of_nat (itr_pos itr)" and "rel = of_nat (n - unat bytes)"
  shows "\<exists>itr' infos'. handle_loop itr bytes off rel infos = Inr (itr', infos') \<and>
    itr_tasks itr' = itr_tasks itr \<and> infos' \<noteq> [] \<and>
    loop_inv dest base dst r v0 P n itr' n infos'"
  using assms
proof (induction itr bytes off rel infos rule: handle_loop.induct)
  case (1 itr bytes off rel infos)
  let ?d = "n - unat bytes"
  obtain v where v: "add_tasks r infos v0 = Inr v" and st: "state_ok dest base dst itr v"
    and pos: "itr_pos itr = P + ?d" and fits: "P + n \<le> sum_list (slices itr)"
    and pieces: "pieces_ok (base + of_nat P) ?d infos" and keys: "\<forall>p\<in>set infos. fst p \<le> itr_index itr"
    using "1.prems"(1) by (auto simp: loop_inv_def)
  have ok: "itr_ok itr" using st by (simp add: state_ok_def)
  have "itr_pos itr + unat bytes \<le> sum_list (slices itr)"
    using pos fits "1.prems"(2) by simp
  from itr_consume_spec [OF ok this] obtain itr' m
    where run: "itr_consume bytes itr = Inr (itr', m)" and step: "itr_stepped itr bytes m itr'"
    by blast
  let ?k = "itr_index itr'" and ?info = "make_info off m rel"
  have same: "itr_tasks itr' = itr_tasks itr" and pos': "itr_pos itr' = itr_pos itr + unat m"
    and m: "m \<le> bytes" and left: "0 < bytes - m \<longrightarrow> itr_left itr' = 0"
    using step by (auto simp: itr_stepped_def)
  then have slices: "slices itr' = slices itr" by (simp add: slices_def)
  have less: "\<forall>p\<in>set infos. fst p < ?k"
    using keys "1.prems"(4) step by (cases "infos = []") (auto simp: itr_stepped_def)
  then have "map_of infos ?k = None"
    by (metis imageE less_irrefl map_of_eq_None_iff prod.collapse fst_conv)
  then have infos': "fst (memplace ?k ?info infos) = infos @ [(?k, ?info)]"
    using mput_last [OF less] by (simp add: memplace_def)
  have sub: "unat (bytes - m) = unat bytes - unat m" and m_le: "unat m \<le> unat bytes"
    using m by (simp_all add: unat_sub_le word_le_nat_alt)
  have d': "n - unat (bytes - m) = ?d + unat m"
    using sub m_le "1.prems"(2) by simp
  have "seg_of dest (make_task r ?info) = (base + of_nat (itr_pos itr), m, dst + of_nat (itr_pos itr))"
    using "1.prems"(3,5,6) pos by (simp add: seg_of_def make_task_def make_info_def add.assoc)
  from state_ok_step [OF st step this] have st':
    "?k < length v" "state_ok dest base dst itr' (v[?k := v ! ?k @ [make_task r ?info]])"
    by (simp_all add: make_task_def make_info_def)
  then have tasks': "add_tasks r (infos @ [(?k, ?info)]) v0 = Inr (v[?k := v ! ?k @ [make_task r ?info]])"
    using v by (simp add: add_tasks_snoc)
  have info: "?info = make_info (base + of_nat P + of_nat ?d) m (of_nat ?d)"
    using "1.prems"(5,6) pos by (simp add: add.assoc)
  have pieces': "pieces_ok (base + of_nat P) (?d + unat m) (infos @ [(?k, ?info)])"
    unfolding info by (rule pieces_ok_snoc [OF pieces less])
  have inv': "loop_inv dest base dst r v0 P n itr' (?d + unat m) (infos @ [(?k, ?info)])"
    using st' tasks' pos pos' m_le fits pieces' less "1.prems"(2) unfolding loop_inv_def slices
    by auto
  show ?case
  proof (cases "0 < bytes - m")
    case False
    then have "unat m = unat bytes"
      using sub m_le by (metis diff_is_0_eq le_antisym unat_0 word_gt_0)
    then have "?d + unat m = n" using "1.prems"(2) by simp
    then show ?thesis
      using False run infos' inv' same by (simp add: handle_loop.simps [of itr])
  next
    case True
    have ne: "bytes \<noteq> m" using True by auto
    have "unat (bytes - m) \<le> n" using sub "1.prems"(2) by simp
    moreover have "off + m = base + of_nat (itr_pos itr')"
      using "1.prems"(5) pos' by (simp add: add.assoc)
    moreover have "rel + m = of_nat (n - unat (bytes - m))"
      unfolding d' using "1.prems"(6) by simp
    ultimately have "\<exists>itr2 infos2. handle_loop itr' (bytes - m) (off + m) (rel + m) (infos @ [(?k, ?info)]) =
        Inr (itr2, infos2) \<and> itr_tasks itr2 = itr_tasks itr' \<and> infos2 \<noteq> [] \<and>
        loop_inv dest base dst r v0 P n itr2 n infos2"
      using "1.IH" [OF run refl infos' [symmetric] refl True] inv' left True "1.prems"(3) ne
      unfolding d' infos' by auto
    then show ?thesis
      using True run infos' same by (simp add: handle_loop.simps [of itr])
  qed
qed

section \<open>The tasks of a request\<close>

definition tasks_of :: "nat \<Rightarrow> task list list \<Rightarrow> task list" where
  "tasks_of r v = filter (\<lambda>t. task_request t = r) (concat v)"

lemma tasks_of_other:
  assumes "k < length v" and "task_request t \<noteq> r"
  shows "tasks_of r (v[k := v ! k @ [t]]) = tasks_of r v"
proof -
  have "concat v = concat (take k v) @ v ! k @ concat (drop (Suc k) v)"
    using assms(1) by (metis concat.simps(2) concat_append id_take_nth_drop)
  then show ?thesis
    using assms by (simp add: tasks_of_def upd_conv_take_nth_drop)
qed

lemma tasks_of_snoc:
  assumes k: "k < length v" and "task_request t = r"
    and "\<forall>j. k < j \<and> j < length v \<longrightarrow> filter (\<lambda>t. task_request t = r) (v ! j) = []"
  shows "tasks_of r (v[k := v ! k @ [t]]) = tasks_of r v @ [t]"
proof -
  have "concat v = concat (take k v) @ v ! k @ concat (drop (Suc k) v)"
    using k by (metis concat.simps(2) concat_append id_take_nth_drop)
  moreover have "filter (\<lambda>t. task_request t = r) (concat (drop (Suc k) v)) = []"
  proof -
    have "\<forall>x\<in>set (drop (Suc k) v). filter (\<lambda>t. task_request t = r) x = []"
      using assms(3) by (auto simp: in_set_conv_nth)
    then show ?thesis by (simp add: filter_concat)
  qed
  ultimately show ?thesis
    using assms by (simp add: tasks_of_def upd_conv_take_nth_drop)
qed

lemma add_tasks_other:
  "add_tasks r infos v = Inr v' \<Longrightarrow> r' \<noteq> r \<Longrightarrow> tasks_of r' v' = tasks_of r' v"
proof (induction r infos v rule: add_tasks.induct)
  case (2 r k info infos v)
  then have "tasks_of r' v' = tasks_of r' (v[k := v ! k @ [make_task r info]])"
    by (auto split: if_splits)
  then show ?case
    using 2 by (simp add: tasks_of_other make_task_def split: if_splits)
qed simp

lemma add_tasks_own:
  assumes "add_tasks r infos v = Inr v'" and "sorted_wrt (<) (map fst infos)"
    and "\<forall>p\<in>set infos. \<forall>j. fst p \<le> j \<and> j < length v \<longrightarrow> filter (\<lambda>t. task_request t = r) (v ! j) = []"
  shows "tasks_of r v' = tasks_of r v @ map (\<lambda>p. make_task r (snd p)) infos"
  using assms
proof (induction r infos v rule: add_tasks.induct)
  case (2 r k info infos v)
  let ?v = "v[k := v ! k @ [make_task r info]]"
  have k: "k < length v" using "2.prems"(1) by (auto split: if_splits)
  have "tasks_of r v' = tasks_of r ?v @ map (\<lambda>p. make_task r (snd p)) infos"
    using "2.prems" k by (intro "2.IH") (auto simp: nth_list_update)
  also have "tasks_of r ?v = tasks_of r v @ [make_task r info]"
    using k "2.prems"(3) by (intro tasks_of_snoc) (auto simp: make_task_def)
  finally show ?case by simp
qed simp

lemma add_tasks_set:
  "add_tasks r infos v = Inr v' \<Longrightarrow> t \<in> set (concat v') \<Longrightarrow> t \<in> set (concat v) \<or> task_request t = r"
proof (induction r infos v rule: add_tasks.induct)
  case (2 r k info infos v)
  then have k: "k < length v" and rest: "t \<in> set (concat (v[k := v ! k @ [make_task r info]])) \<or> task_request t = r"
    by (auto split: if_splits)
  have "set (concat (v[k := x])) \<subseteq> set (concat v) \<union> set x" for x
    using set_update_subset_insert [of v k x] by auto
  moreover have "set (v ! k) \<subseteq> set (concat v)"
    using nth_mem [OF k] by auto
  ultimately have "t \<in> set (concat v) \<or> task_request t = r"
    if "t \<in> set (concat (v[k := v ! k @ [make_task r info]]))"
    using that by (fastforce simp: make_task_def)
  then show ?case using rest by blast
qed simp

text \<open>A request counts its tasks, and these lie one after the other over its range.\<close>

definition dest_of :: "request_heap \<Rightarrow> nat \<Rightarrow> ptr" where
  "dest_of heap r = req_dst (heap ! r)"

definition request_ok :: "request_heap \<Rightarrow> task list list \<Rightarrow> nat \<Rightarrow> bool" where
  "request_ok heap v r \<longleftrightarrow> (let q = heap ! r; ts = tasks_of r v in
     ts \<noteq> [] \<and> unat (req_tasks q) = length ts \<and> req_ret q = Success \<and>
     map (seg_of (dest_of heap)) ts =
       lay (req_offset q) (req_dst q) (map (\<lambda>t. ti_bytesize (task_info t)) ts) \<and>
     sum_list (task_sizes ts) = unat (req_bytesize q))"

lemma seg_of_cong: "dest (task_request t) = dest' (task_request t) \<Longrightarrow> seg_of dest t = seg_of dest' t"
  by (simp add: seg_of_def)

lemma state_ok_cong:
  assumes "state_ok dest base dst itr v"
    and "\<forall>t\<in>set (concat v). dest (task_request t) = dest' (task_request t)"
  shows "state_ok dest' base dst itr v"
proof -
  have "map (seg_of dest') (v ! i) = map (seg_of dest) (v ! i)" if "i < length v" for i
  proof -
    have "set (v ! i) \<subseteq> set (concat v)" using nth_mem [OF that] by auto
    then show ?thesis
      using assms(2) by (intro map_cong refl seg_of_cong) auto
  qed
  then show ?thesis
    using assms(1) by (simp del: map_eq_conv add: state_ok_def slice_ok_def)
qed

lemma request_ok_extend:
  assumes "request_ok heap v r" and r: "r < length heap" and "tasks_of r v' = tasks_of r v"
  shows "request_ok (heap @ [q]) v' r"
proof -
  have "map (seg_of (dest_of (heap @ [q]))) (tasks_of r v) = map (seg_of (dest_of heap)) (tasks_of r v)"
    using r by (intro map_cong refl seg_of_cong) (auto simp: tasks_of_def dest_of_def nth_append)
  then show ?thesis
    using assms by (simp del: map_eq_conv add: request_ok_def Let_def nth_append)
qed

lemma pieces_request_ok:
  assumes pieces: "pieces_ok off (unat n) infos" and ne: "infos \<noteq> []"
    and len: "length infos < 4294967296" and own: "tasks_of (length heap) v = map (\<lambda>p. make_task (length heap) (snd p)) infos"
  shows "request_ok (heap @ [request_make off f i (of_nat (length infos)) n D]) v (length heap)"
proof -
  let ?q = "request_make off f i (of_nat (length infos)) n D"
  have lay_shift: "map (\<lambda>(a, s, r). (a, s, D + r)) (lay a' b ss) = lay a' (D + b) ss" for a' b ss
    by (induction ss arbitrary: a' b) (auto simp: add.assoc)
  have "map (seg_of (dest_of (heap @ [?q]))) (map (\<lambda>p. make_task (length heap) (snd p)) infos) =
      map (\<lambda>(a, s, r). (a, s, D + r))
        (map (\<lambda>p. (ti_offset (snd p), ti_bytesize (snd p), ti_relative_offset (snd p))) infos)"
    by (simp add: seg_of_def make_task_def dest_of_def nth_append request_make_def comp_def)
  also have "\<dots> = lay off D (map (\<lambda>p. ti_bytesize (snd p)) infos)"
    using pieces lay_shift [of off 0] by (simp add: pieces_ok_def)
  finally show ?thesis
    using pieces ne len
    by (simp add: request_ok_def own Let_def nth_append request_make_def make_task_def comp_def
        task_sizes_def pieces_ok_def unat_of_nat)
qed

section \<open>All ranges of a transfer\<close>

text \<open>The state of the loop over the ranges: requests from \<open>n0\<close> on are new, \<open>P\<close> bytes are placed.\<close>

definition build_inv ::
  "nat \<Rightarrow> file_read_task list \<Rightarrow> size_t \<Rightarrow> ptr \<Rightarrow> batch_itr \<times> request_heap \<times> task list list \<Rightarrow> nat \<Rightarrow> bool" where
  "build_inv n0 ks base dst st P \<longleftrightarrow> (case st of (itr, heap, v) \<Rightarrow>
     itr_tasks itr = ks \<and> state_ok (dest_of heap) base dst itr v \<and> itr_pos itr = P \<and>
     n0 \<le> length heap \<and>
     (\<forall>t\<in>set (concat v). n0 \<le> task_request t \<and> task_request t < length heap) \<and>
     (\<forall>r. n0 \<le> r \<and> r < length heap \<longrightarrow> request_ok heap v r))"

lemma sorted_keys_length:
  assumes "sorted_wrt (<) (map fst infos)" and "\<forall>p\<in>set infos. fst p < (n :: nat)"
  shows "length infos \<le> n"
proof -
  have "distinct (map fst infos)"
    using assms(1) strict_sorted_iff by blast
  then have "length infos = card (fst ` set infos)"
    by (metis distinct_card length_map list.set_map)
  also have "\<dots> \<le> card {..<n}"
    using assms(2) by (intro card_mono) auto
  finally show ?thesis by simp
qed

lemma handle_request_spec:
  assumes inv: "build_inv n0 ks base dst (itr, heap, v) P"
    and room: "P + unat n \<le> sum_list (map (\<lambda>k. unat (slice_size k)) ks)"
    and few: "length ks < 4294967296"
    and off: "off = base + of_nat P" and D: "D = dst + of_nat P"
  shows "\<exists>itr' v' cnt. handle_request f i off n D (itr, heap, v) =
      Inr (itr', heap @ [request_make off f i cnt n D], v') \<and>
    build_inv n0 ks base dst (itr', heap @ [request_make off f i cnt n D], v') (P + unat n)"
proof -
  let ?r = "length heap"
  let ?dest = "(dest_of heap)(?r := D)"
  have st: "state_ok (dest_of heap) base dst itr v" and pos: "itr_pos itr = P" and ks: "itr_tasks itr = ks"
    and old: "\<forall>t\<in>set (concat v). n0 \<le> task_request t \<and> task_request t < ?r"
    and reqs: "\<And>r. n0 \<le> r \<Longrightarrow> r < ?r \<Longrightarrow> request_ok heap v r" and n0: "n0 \<le> ?r"
    using inv by (auto simp: build_inv_def)
  have st1: "state_ok ?dest base dst itr v"
    by (rule state_ok_cong [OF st]) (metis old fun_upd_other less_irrefl)
  have "loop_inv ?dest base dst ?r v P (unat n) itr (unat n - unat n) []"
    using st1 pos room ks by (auto simp: loop_inv_def pieces_ok_def slices_def)
  from handle_loop_spec [OF this, of off 0] obtain itr' infos
    where loop: "handle_loop itr n off 0 [] = Inr (itr', infos)" and same: "itr_tasks itr' = itr_tasks itr"
      and ne: "infos \<noteq> []" and fin: "loop_inv ?dest base dst ?r v P (unat n) itr' (unat n) infos"
    using off D pos by auto
  from fin obtain v' where v': "add_tasks ?r infos v = Inr v'" and st': "state_ok ?dest base dst itr' v'"
    and pos': "itr_pos itr' = P + unat n" and pieces: "pieces_ok (base + of_nat P) (unat n) infos"
    and keys: "\<forall>p\<in>set infos. fst p \<le> itr_index itr'"
    by (auto simp: loop_inv_def)
  let ?cnt = "of_nat (length infos)"
  let ?q = "request_make off f i ?cnt n D"
  have fresh: "\<forall>j<length v. filter (\<lambda>t. task_request t = ?r) (v ! j) = []"
    using old by (fastforce simp: filter_empty_conv)
  have "tasks_of ?r v = []"
    using old by (fastforce simp: tasks_of_def filter_empty_conv)
  then have own: "tasks_of ?r v' = map (\<lambda>p. make_task ?r (snd p)) infos"
    using add_tasks_own [OF v'] fresh pieces by (auto simp: pieces_ok_def)
  have "itr_index itr' < length ks"
    using st' same ks by (simp add: state_ok_def itr_ok_def)
  then have "length infos \<le> length ks"
    using pieces keys by (intro sorted_keys_length) (auto simp: pieces_ok_def)
  then have len: "length infos < 4294967296" using few by simp
  have new: "request_ok (heap @ [?q]) v' ?r"
    using pieces_request_ok [OF pieces ne len own] off by simp
  have mem: "n0 \<le> task_request t \<and> task_request t \<le> ?r" if "t \<in> set (concat v')" for t
    using add_tasks_set [OF v' that] old n0 by (metis less_imp_le order_refl)
  have "dest_of (heap @ [?q]) r = ?dest r" if "r \<le> ?r" for r
    using that by (auto simp: dest_of_def nth_append request_make_def)
  then have "state_ok (dest_of (heap @ [?q])) base dst itr' v'"
    using mem by (intro state_ok_cong [OF st']) auto
  moreover have "request_ok (heap @ [?q]) v' r" if "n0 \<le> r" "r < Suc ?r" for r
  proof (cases "r = ?r")
    case True
    then show ?thesis using new by simp
  next
    case False
    then have "r < ?r" using that by simp
    then show ?thesis
      using reqs [OF that(1)] add_tasks_other [OF v'] by (intro request_ok_extend) auto
  qed
  ultimately have "build_inv n0 ks base dst (itr', heap @ [?q], v') (P + unat n)"
    using same ks pos' n0 mem by (auto simp: build_inv_def less_Suc_eq_le)
  then show ?thesis
    using loop v' by (auto simp: handle_request_def)
qed

definition request_range :: "request \<Rightarrow> nat \<times> nat \<times> segment" where
  "request_range q = (req_file_index q, req_index q, (req_offset q, req_bytesize q, req_dst q))"

lemma request_range_make:
  "request_range (request_make off f i cnt n D) = (f, i, (off, n, D))"
  by (simp add: request_range_def request_make_def)

lemma build_requests_spec:
  assumes "build_inv n0 ks base dst (itr, heap, v) P"
    and "P + sum_list (map unat sizes) \<le> sum_list (map (\<lambda>k. unat (slice_size k)) ks)"
    and few: "length ks < 4294967296"
    and "off = base + of_nat P" and "D = dst + of_nat P"
  shows "\<exists>itr' new v'. build_requests f i off D sizes (itr, heap, v) = Inr (itr', heap @ new, v') \<and>
    build_inv n0 ks base dst (itr', heap @ new, v') (P + sum_list (map unat sizes)) \<and>
    map request_range new = number f i (lay off D sizes)"
  using assms(1,2,4,5)
proof (induction sizes arbitrary: itr heap v P i off D)
  case (Cons n sizes)
  obtain itr1 v1 cnt where one: "handle_request f i off n D (itr, heap, v) =
      Inr (itr1, heap @ [request_make off f i cnt n D], v1)"
    "build_inv n0 ks base dst (itr1, heap @ [request_make off f i cnt n D], v1) (P + unat n)"
    using handle_request_spec [OF Cons.prems(1) _ few, of n off D f i] Cons.prems by auto
  have "off + n = base + of_nat (P + unat n)" "D + n = dst + of_nat (P + unat n)"
    using Cons.prems(3,4) by (simp_all add: add.assoc)
  from Cons.IH [OF one(2) _ this, of "Suc i"] Cons.prems(2) obtain itr2 new v2 where
    "build_requests f (Suc i) (off + n) (D + n) sizes (itr1, heap @ [request_make off f i cnt n D], v1) =
      Inr (itr2, (heap @ [request_make off f i cnt n D]) @ new, v2)"
    "build_inv n0 ks base dst (itr2, (heap @ [request_make off f i cnt n D]) @ new, v2)
      (P + unat n + sum_list (map unat sizes))"
    "map request_range new = number f (Suc i) (lay (off + n) (D + n) sizes)"
    by auto
  then show ?case
    using one(1)
    by (intro exI [of _ itr2] exI [of _ "request_make off f i cnt n D # new"] exI [of _ v2])
      (simp add: request_range_make add.assoc)
qed auto

section \<open>The batches\<close>

lemma filled_complete:
  assumes ok: "itr_ok itr" and pos: "itr_pos itr = sum_list (slices itr)" and i: "i < length (itr_tasks itr)"
  shows "filled itr i = slices itr ! i"
proof -
  let ?k = "itr_index itr" and ?xs = "slices itr"
  have k: "?k < length ?xs" using ok by (simp add: itr_ok_def slices_def)
  have "sum_list ?xs = sum_list (take ?k ?xs) + ?xs ! ?k + sum_list (drop (Suc ?k) ?xs)"
    using id_take_nth_drop [OF k] by (metis add.assoc sum_list.Cons sum_list_append)
  moreover have "filled itr ?k \<le> ?xs ! ?k" by (simp add: filled_def)
  ultimately have at: "filled itr ?k = ?xs ! ?k" and rest: "sum_list (drop (Suc ?k) ?xs) = 0"
    using pos by (simp_all add: itr_pos_def)
  consider "i < ?k" | "i = ?k" | "?k < i" by linarith
  then show ?thesis
  proof cases
    case 3
    then have "?xs ! i \<in> set (drop (Suc ?k) ?xs)"
      using i by (auto simp: in_set_conv_nth slices_def intro!: exI [of _ "i - Suc ?k"])
    then have "?xs ! i = 0" using rest by simp
    then show ?thesis using 3 by (simp add: filled_def)
  qed (simp_all add: filled_def at [unfolded filled_def, simplified])
qed

lemma task_seg_dest: "task_seg heap = seg_of (dest_of heap)"
  by (auto simp: task_seg_def seg_of_def task_destination_def dest_of_def)

text \<open>A batch with what it is made of.\<close>

definition batch_for ::
  "submission_id \<Rightarrow> nat \<Rightarrow> string \<Rightarrow> params \<Rightarrow> config \<Rightarrow> nat \<Rightarrow> task list \<Rightarrow> batch \<Rightarrow> bool" where
  "batch_for sid f path ps cfg w ts b \<longleftrightarrow>
     batch_submission_id b = sid \<and> batch_file_index b = f \<and> batch_path b = path \<and>
     batch_params b = ps \<and> batch_config b = cfg \<and> batch_workload_index b = w \<and> batch_tasks b = ts"

lemma slice_batch:
  assumes sl: "slice_ok (dest_of heap) off dst n ts" and ne: "ts \<noteq> []"
    and fits: "unat off + n < 18446744073709551616"
  shows "\<exists>b. batch_make sid w f path ps ts cfg = Inr b \<and> batch_ok heap b \<and>
    batch_for sid f path ps cfg w ts b \<and> unat (total_bytes b) = n"
proof -
  have tiles: "tiles heap ts off dst" and n: "sum_list (task_sizes ts) = n"
    and fresh: "\<forall>t\<in>set ts. \<not> task_finished t"
    using sl by (auto simp: slice_ok_def tiles_def task_seg_dest)
  have first: "ti_offset (task_info (ts ! 0)) = off" "task_destination heap (ts ! 0) = dst"
    using tiles_nth(1,2) [OF tiles, of 0] ne by simp_all
  have "length ts - 1 < length ts" and "Suc (length ts - 1) = length (task_sizes ts)"
    using ne by (simp_all add: task_sizes_def)
  then have last: "ti_end (task_info (ts ! (length ts - 1))) = off + of_nat n"
    using tiles_nth(3) [OF tiles, of "length ts - 1"] n by (metis order_refl take_all)
  have un: "unat (off + of_nat n) = unat off + n"
    using fits by (simp add: word_to_nat unat_of_nat)
  have le: "\<not> off + of_nat n < off"
    using un by (simp add: word_less_nat_alt)
  have size: "unat (off + of_nat n - off) = n"
    using fits by (simp add: unat_of_nat)
  define b where "b = \<lparr>batch_submission_id = sid, batch_workload_index = w, batch_file_index = f,
      batch_path = path, batch_params = ps, batch_tasks = ts,
      batch_range = \<lparr>bra_start = off, bra_size = off + of_nat n - off, bra_end = off + of_nat n\<rparr>,
      batch_config = cfg, batch_unfinished = 0\<rparr>"
  have "batch_make sid w f path ps ts cfg = Inr b"
    using le ne first last
    by (simp add: batch_make_def batch_range_make_def calculate_start_def calculate_end_def b_def)
  moreover have "batch_ok heap b"
    using tiles n fresh first un size ne by (simp add: batch_ok_def b_def batch_fresh_def)
  moreover have "batch_for sid f path ps cfg w ts b" "unat (total_bytes b) = n"
    using size by (simp_all add: batch_for_def b_def total_bytes_def)
  ultimately show ?thesis by blast
qed

lemma emplace_batches_spec:
  assumes "length v = length ks"
    and "\<forall>i<length ks. \<exists>off dst. slice_ok (dest_of heap) off dst (ns ! i) (v ! i) \<and>
      unat off + ns ! i < 18446744073709551616"
    and "length ns = length ks"
  shows "\<exists>bs. emplace_batches sid f path ps cfg ks v = Inr bs \<and>
    concat (map batch_tasks bs) = concat v \<and> (\<forall>b\<in>set bs. batch_ok heap b) \<and>
    (\<forall>b\<in>set bs. \<exists>k\<in>set ks. batch_for sid f path ps cfg (workload_index k) (batch_tasks b) b) \<and>
    sum_list (map (\<lambda>b. unat (total_bytes b)) bs) = sum_list ns"
  using assms
proof (induction ks arbitrary: v ns)
  case (Cons k ks)
  obtain ts v' where v: "v = ts # v'" using Cons.prems(1) by (cases v) auto
  obtain n ns' where ns: "ns = n # ns'" using Cons.prems(3) by (cases ns) auto
  obtain off dst where sl: "slice_ok (dest_of heap) off dst n ts" "unat off + n < 18446744073709551616"
    using Cons.prems(2) [rule_format, of 0] by (auto simp: v ns)
  have "\<forall>i<length ks. \<exists>off dst. slice_ok (dest_of heap) off dst (ns' ! i) (v' ! i) \<and>
      unat off + ns' ! i < 18446744073709551616"
    using Cons.prems(2) [rule_format, of "Suc _"] by (auto simp: v ns)
  with Cons.IH [of v' ns'] Cons.prems obtain bs where
    bs: "emplace_batches sid f path ps cfg ks v' = Inr bs" "concat (map batch_tasks bs) = concat v'"
      "\<forall>b\<in>set bs. batch_ok heap b"
      "\<forall>b\<in>set bs. \<exists>k\<in>set ks. batch_for sid f path ps cfg (workload_index k) (batch_tasks b) b"
      "sum_list (map (\<lambda>b. unat (total_bytes b)) bs) = sum_list ns'"
    by (auto simp: v ns)
  show ?case
  proof (cases "ts = []")
    case True
    then have "n = 0" using sl(1) by (simp add: slice_ok_def task_sizes_def)
    then show ?thesis using True bs by (auto simp: v ns)
  next
    case False
    obtain b where b: "batch_make sid (workload_index k) f path ps ts cfg = Inr b" "batch_ok heap b"
      "batch_for sid f path ps cfg (workload_index k) ts b" "unat (total_bytes b) = n"
      using slice_batch [OF sl(1) False sl(2)] by blast
    moreover have "batch_tasks b = ts" using b(3) by (simp add: batch_for_def)
    ultimately show ?thesis
      using False bs by (intro exI [of _ "b # bs"]) (auto simp: v ns)
  qed
qed simp

text \<open>
  What the batches of a transfer are: each well formed and for a worker of one of the slices, the
  new requests standing for the transfer's ranges, each with as many tasks as it counts, and the
  tasks of each lying one after the other over its range.
\<close>

definition batches_ok :: "contiguous_transfer \<Rightarrow> request_heap \<Rightarrow> request_heap \<Rightarrow> batch list \<Rightarrow> bool" where
  "batches_ok t heap new bs \<longleftrightarrow> (let heap' = heap @ new in
     map request_range new = transfer_ranges t \<and>
     (\<forall>b\<in>set bs. batch_ok heap' b \<and> batch_file_index b = tr_file_index t \<and>
        batch_workload_index b \<in> workload_index ` set (tr_tasks t)) \<and>
     (\<forall>b\<in>set bs. \<forall>k\<in>set (batch_tasks b). length heap \<le> task_request k \<and> task_request k < length heap') \<and>
     (\<forall>r. length heap \<le> r \<and> r < length heap' \<longrightarrow> request_ok heap' (map batch_tasks bs) r) \<and>
     sum_list (map (\<lambda>b. unat (total_bytes b)) bs) = unat (tr_size t))"

lemma batches_make_spec:
  assumes div: "divided N t" and N: "N < 4294967296"
    and sizes: "sum_list (map unat (range_sizes t)) = unat (tr_size t)"
    and fits: "unat (tr_offset t) + unat (tr_size t) < 18446744073709551616"
  shows "\<exists>new bs. batches_make sid (tr_file_index t) (tr_tasks t) cfg path ps (range_sizes t)
      (first_range_index t) heap = Inr (heap @ new, bs, tr_size t) \<and> batches_ok t heap new bs \<and>
    (\<forall>b\<in>set bs. batch_submission_id b = sid \<and> batch_path b = path \<and> batch_params b = ps \<and>
       batch_config b = cfg)"
proof -
  let ?ks = "tr_tasks t" and ?base = "tr_offset t" and ?dst = "tr_destination t"
  let ?ns = "map (\<lambda>k. unat (slice_size k)) ?ks"
  have ne: "?ks \<noteq> []" and segs: "map task_segment ?ks = lay ?base ?dst (map slice_size ?ks)"
    and total: "sum_list ?ns = unat (tr_size t)"
    using div by (auto simp: divided_def sliced_to_def)
  have "task_segment (?ks ! 0) = lay ?base ?dst (map slice_size ?ks) ! 0"
    using ne segs by (metis length_greater_0_conv nth_map)
  then have start: "offset_in_file (?ks ! 0) = ?base" "slice_destination (?ks ! 0) = ?dst"
    using ne by (simp_all add: lay_nth task_segment_def)
  have "distinct (map workload_index ?ks)" "set (map workload_index ?ks) \<subseteq> {..<N}"
    using div strict_sorted_iff by (auto simp: divided_def workers_below_def)
  then have "length ?ks \<le> N"
    by (metis card_lessThan card_mono distinct_card finite_lessThan length_map)
  then have few: "length ?ks < 4294967296" using N by simp
  define itr where "itr = \<lparr>itr_tasks = ?ks, itr_index = 0, itr_workload = workload_index (?ks ! 0),
      itr_left = slice_size (?ks ! 0)\<rparr>"
  have itr: "itr_make ?ks = Inr itr" "read_task itr 0 = Inr (?ks ! 0)"
    using ne by (simp_all add: itr_make_def itr_def read_task_def)
  have "build_inv (length heap) ?ks ?base ?dst (itr, heap, replicate (length ?ks) []) 0"
    using ne by (auto simp: build_inv_def state_ok_def itr_ok_def itr_def slices_def slice_ok_def
        filled_def itr_pos_def task_sizes_def)
  from build_requests_spec [OF this _ few, of "range_sizes t" ?base ?dst "tr_file_index t" "first_range_index t"]
  obtain itr' new v where
    build: "build_requests (tr_file_index t) (first_range_index t) ?base ?dst (range_sizes t)
        (itr, heap, replicate (length ?ks) []) = Inr (itr', heap @ new, v)"
    and inv: "build_inv (length heap) ?ks ?base ?dst (itr', heap @ new, v) (unat (tr_size t))"
    and ranges: "map request_range new = transfer_ranges t"
    using sizes total by (auto simp: transfer_ranges_def)
  have ks: "itr_tasks itr' = ?ks" and st: "state_ok (dest_of (heap @ new)) ?base ?dst itr' v"
    and pos: "itr_pos itr' = unat (tr_size t)"
    and mem: "\<forall>k\<in>set (concat v). length heap \<le> task_request k \<and> task_request k < length (heap @ new)"
    and reqs: "\<forall>r. length heap \<le> r \<and> r < length (heap @ new) \<longrightarrow> request_ok (heap @ new) v r"
    using inv unfolding build_inv_def by blast+
  have sl: "slices itr' = ?ns" by (simp add: slices_def ks)
  have "\<exists>off dst. slice_ok (dest_of (heap @ new)) off dst (?ns ! i) (v ! i) \<and>
      unat off + ?ns ! i < 18446744073709551616" if i: "i < length ?ks" for i
  proof -
    let ?S = "sum_list (take i ?ns)"
    have f: "filled itr' i = ?ns ! i"
      using st pos total i filled_complete [of itr' i] by (simp add: state_ok_def sl ks)
    have "i < length v" using st i by (simp add: state_ok_def ks)
    then have ok: "slice_ok (dest_of (heap @ new)) (?base + of_nat ?S) (?dst + of_nat ?S) (?ns ! i) (v ! i)"
      using st unfolding state_ok_def sl f [symmetric] by blast
    have "?S + ?ns ! i = sum_list (take (Suc i) ?ns)"
      using i by (simp add: take_Suc_conv_app_nth)
    also have "\<dots> \<le> unat (tr_size t)"
      using total by (metis sum_take_le)
    finally have "?S + ?ns ! i \<le> unat (tr_size t)" .
    moreover from this have "unat (?base + of_nat ?S) = unat ?base + ?S"
      using fits by (simp add: word_to_nat unat_of_nat)
    ultimately show ?thesis using ok fits by fastforce
  qed
  then have each: "\<forall>i<length ?ks. \<exists>off dst. slice_ok (dest_of (heap @ new)) off dst (?ns ! i) (v ! i) \<and>
      unat off + ?ns ! i < 18446744073709551616" by blast
  have "length v = length ?ks" using st by (simp add: state_ok_def ks)
  from emplace_batches_spec [OF this each] obtain bs where
    bs: "emplace_batches sid (tr_file_index t) path ps cfg ?ks v = Inr bs"
    "concat (map batch_tasks bs) = concat v" "\<forall>b\<in>set bs. batch_ok (heap @ new) b"
    "\<forall>b\<in>set bs. \<exists>k\<in>set ?ks. batch_for sid (tr_file_index t) path ps cfg (workload_index k) (batch_tasks b) b"
    "sum_list (map (\<lambda>b. unat (total_bytes b)) bs) = sum_list ?ns"
    using length_map by blast
  have "unat (sum_list (map total_bytes bs)) = unat (tr_size t)"
    using bs(5) total unat_sum_list [of "map total_bytes bs"] by (simp add: comp_def)
  then have tot: "sum_list (map total_bytes bs) = tr_size t"
    by (simp add: unat_word_eq_iff)
  have "batches_make sid (tr_file_index t) ?ks cfg path ps (range_sizes t) (first_range_index t) heap =
      Inr (heap @ new, bs, tr_size t)"
    using itr start build bs(1) tot by (simp add: batches_make_def)
  moreover have "batches_ok t heap new bs"
  proof -
    have "\<forall>k\<in>set (batch_tasks b). length heap \<le> task_request k \<and> task_request k < length (heap @ new)"
      if "b \<in> set bs" for b
    proof -
      have "set (batch_tasks b) \<subseteq> set (concat (map batch_tasks bs))" using that by auto
      then show ?thesis using mem bs(2) by auto
    qed
    moreover have "request_ok (heap @ new) (map batch_tasks bs) r"
      if "length heap \<le> r" "r < length (heap @ new)" for r
      using reqs that bs(2) by (simp add: request_ok_def tasks_of_def)
    ultimately show ?thesis
      using bs(3,4,5) ranges total by (fastforce simp: batches_ok_def batch_for_def Let_def)
  qed
  moreover have "\<forall>b\<in>set bs. batch_submission_id b = sid \<and> batch_path b = path \<and> batch_params b = ps \<and>
       batch_config b = cfg"
    using bs(4) by (auto simp: batch_for_def)
  ultimately show ?thesis by blast
qed

section \<open>Tasks read, range read\<close>

lemma lay_read:
  assumes "map (seg_of (dest_of heap)) ts = lay off dst (map (\<lambda>t. ti_bytesize (task_info t)) ts)"
    and "\<forall>t\<in>set ts. task_read content heap mem t"
    and "unat off + sum_list (task_sizes ts) < 18446744073709551616"
  shows "mem_bytes mem dst (sum_list (task_sizes ts)) =
    take (sum_list (task_sizes ts)) (drop (unat off) content)"
  using assms
proof (induction ts arbitrary: off dst)
  case Nil
  then show ?case by (simp add: task_sizes_def mem_bytes_def)
next
  case (Cons t ts)
  let ?s = "ti_bytesize (task_info t)" and ?n = "sum_list (task_sizes ts)"
  have seg: "ti_offset (task_info t) = off" "task_destination heap t = dst"
    using Cons.prems(1) by (simp_all add: seg_of_def dest_of_def task_destination_def)
  have head: "mem_bytes mem dst (unat ?s) = take (unat ?s) (drop (unat off) content)"
    using Cons.prems(2) by (simp add: task_read_def seg)
  have off: "unat (off + ?s) = unat off + unat ?s"
    using Cons.prems(3) by (simp add: task_sizes_def word_to_nat)
  have "mem_bytes mem (dst + ?s) ?n = take ?n (drop (unat (off + ?s)) content)"
    using Cons.prems off by (intro Cons.IH) (simp_all add: task_sizes_def)
  then have "mem_bytes mem (dst + of_nat (unat ?s)) ?n = take ?n (drop (unat ?s + unat off) content)"
    by (simp add: off add.commute)
  then have "mem_bytes mem dst (unat ?s + ?n) = take (unat ?s + ?n) (drop (unat off) content)"
    by (simp only: mem_bytes_split take_add head drop_drop)
  then show ?case by (simp add: task_sizes_def)
qed

text \<open>The bytes of a range are in memory.\<close>

definition range_read :: "byte list \<Rightarrow> memory \<Rightarrow> segment \<Rightarrow> bool" where
  "range_read content mem s \<longleftrightarrow> (case s of (off, n, dst) \<Rightarrow>
     mem_bytes mem dst (unat n) = take (unat n) (drop (unat off) content))"

lemma request_ok_read:
  assumes "request_ok heap v r" and "\<forall>t\<in>set (tasks_of r v). task_read content heap mem t"
    and "unat (req_offset (heap ! r)) + unat (req_bytesize (heap ! r)) < 18446744073709551616"
  shows "range_read content mem (req_offset (heap ! r), req_bytesize (heap ! r), req_dst (heap ! r))"
  using lay_read [of heap "tasks_of r v" "req_offset (heap ! r)" "req_dst (heap ! r)" content mem] assms
  by (simp add: request_ok_def range_read_def Let_def)

text \<open>Property C9: building the batches of a divided transfer never fails, as long as its offsets
  fit in \<open>size_t\<close>. The new requests are exactly the transfer's ranges, with their indices in the
  file; every batch is a gap-free run of tasks for a worker of the transfer; and each request
  counts its tasks, which tile its range, so that the range is in memory once all of them were
  read.\<close>

theorem batches_make_correct:
  assumes "divided N t" and "N < 4294967296"
    and "sum_list (map unat (range_sizes t)) = unat (tr_size t)"
    and "unat (tr_offset t) + unat (tr_size t) < 18446744073709551616"
  shows "\<exists>new bs. batches_make sid (tr_file_index t) (tr_tasks t) cfg path ps (range_sizes t)
      (first_range_index t) heap = Inr (heap @ new, bs, tr_size t) \<and> batches_ok t heap new bs"
  using batches_make_spec [OF assms] by blast

definition sample_transfer :: contiguous_transfer where
  "sample_transfer = \<lparr>tr_file_index = 0, tr_offset = 10, tr_size = 7, tr_destination = 100,
     first_range_index = 2, range_sizes = [3, 0, 4],
     tr_tasks = [\<lparr>workload_index = 0, original_file_index = 0, offset_in_file = 10, slice_size = 5,
                  slice_destination = 100\<rparr>,
                 \<lparr>workload_index = 1, original_file_index = 0, offset_in_file = 15, slice_size = 2,
                  slice_destination = 105\<rparr>]\<rparr>"

theorem batches_make_correct_witness:
  "\<exists>new bs. batches_make 1 0 (tr_tasks sample_transfer) sample_config ''f'' params_none [3, 0, 4] 2 [] =
      Inr (new, bs, 7) \<and> batches_ok sample_transfer [] new bs"
proof -
  have d: "divided 2 sample_transfer"
    by (simp add: divided_def sliced_to_def workers_below_def sample_transfer_def task_segment_def)
  have n: "(2 :: nat) < 4294967296" by simp
  have s: "sum_list (map unat (range_sizes sample_transfer)) = unat (tr_size sample_transfer)"
    "unat (tr_offset sample_transfer) + unat (tr_size sample_transfer) < 18446744073709551616"
    by (simp_all add: sample_transfer_def)
  from batches_make_correct [OF d n s, of 1 sample_config "''f''" params_none "[]"]
  show ?thesis
    by (simp add: sample_transfer_def)
qed

end
