(* ===== verification/Delivery.thy ===== *)
theory Delivery
  imports Batches "HOL-Library.Multiset"
begin

text \<open>
  From finished tasks to responses: whichever way the workers interleave, once every task of a
  submission is finished exactly one response per range has been pushed, and it reports success
  exactly when all the tasks of the range succeeded.
\<close>

section \<open>Runs\<close>

text \<open>An event finishes a task of a file with a code; a run is the events in the order they happen.\<close>

type_synonym event = "nat \<times> task \<times> response_code"

fun deliver :: "submission_id \<Rightarrow> event list \<Rightarrow> request_heap \<times> pushes \<Rightarrow> request_heap \<times> pushes" where
  "deliver sid [] w = w"
| "deliver sid ((f, t, c) # es) w = deliver sid es (fst (finish_task sid f c w t))"

lemma deliver_append: "deliver sid (xs @ ys) w = deliver sid ys (deliver sid xs w)"
  by (induction sid xs w rule: deliver.induct) auto

lemma finish_events_deliver:
  "finish_events sid f es w = deliver sid (map (\<lambda>(t, c). (f, t, c)) es) w"
  by (induction sid f es w rule: finish_events.induct) auto

definition codes_of :: "nat \<Rightarrow> event list \<Rightarrow> response_code list" where
  "codes_of r es = map (\<lambda>(f, t, c). c) (filter (\<lambda>(f, t, c). task_request t = r) es)"

lemma codes_of_simps [simp]:
  "codes_of r [] = []"
  "codes_of r ((f, t, c) # es) = (if task_request t = r then c # codes_of r es else codes_of r es)"
  "codes_of r (xs @ ys) = codes_of r xs @ codes_of r ys"
  by (simp_all add: codes_of_def)

text \<open>The outcome of codes in a request.\<close>

definition outcome_ok :: "response_code list \<Rightarrow> response_code \<Rightarrow> bool" where
  "outcome_ok cs ret \<longleftrightarrow> (ret = Success \<longleftrightarrow> list_all (\<lambda>c. c = Success) cs) \<and>
     (ret \<noteq> Success \<longrightarrow> ret \<in> set cs)"

lemma outcome_ok_snoc:
  "outcome_ok cs ret \<Longrightarrow> outcome_ok (cs @ [c]) (if c \<noteq> Success then c else ret)"
  by (auto simp: outcome_ok_def)

definition same_request :: "request \<Rightarrow> request \<Rightarrow> bool" where
  "same_request q q' \<longleftrightarrow> req_offset q = req_offset q' \<and> req_file_index q = req_file_index q' \<and>
     req_index q = req_index q' \<and> req_bytesize q = req_bytesize q' \<and> req_dst q = req_dst q'"

text \<open>The response of a request, with the number of bytes it is pushed with.\<close>

definition response_for :: "submission_id \<Rightarrow> request \<Rightarrow> response \<times> size_t" where
  "response_for sid q = (\<lparr>resp_submission_id = sid, resp_file_index = req_file_index q,
     resp_index = req_index q, resp_ret = req_ret q\<rparr>, req_bytesize q)"

section \<open>The invariant of a run\<close>

text \<open>
  Requests \<open>n0\<close> to \<open>n1 - 1\<close> are those of the submission. \<open>past\<close> has happened, \<open>rest\<close> has not, and
  the requests in \<open>rs\<close> are complete, in the order of their responses.
\<close>

definition run_inv ::
  "submission_id \<Rightarrow> nat \<Rightarrow> nat \<Rightarrow> request_heap \<Rightarrow> pushes \<Rightarrow> event list \<Rightarrow> event list \<Rightarrow> nat list \<Rightarrow>
    request_heap \<times> pushes \<Rightarrow> bool" where
  "run_inv sid n0 n1 heap0 out0 past rest rs w \<longleftrightarrow> (case w of (heap, out) \<Rightarrow>
     length heap = length heap0 \<and>
     (\<forall>r. n0 \<le> r \<and> r < n1 \<longrightarrow> same_request (heap ! r) (heap0 ! r) \<and>
        unat (req_tasks (heap ! r)) = length (codes_of r rest) \<and>
        outcome_ok (codes_of r past) (req_ret (heap ! r))) \<and>
     out = out0 @ map (\<lambda>r. response_for sid (heap ! r)) rs \<and>
     distinct rs \<and> set rs = {r. n0 \<le> r \<and> r < n1 \<and> codes_of r rest = []})"

definition event_ok :: "nat \<Rightarrow> nat \<Rightarrow> request_heap \<Rightarrow> event \<Rightarrow> bool" where
  "event_ok n0 n1 heap e \<longleftrightarrow> (case e of (f, t, c) \<Rightarrow>
     n0 \<le> task_request t \<and> task_request t < n1 \<and> \<not> task_finished t \<and>
     f = req_file_index (heap ! task_request t))"

lemma run_inv_step:
  assumes inv: "run_inv sid n0 n1 heap0 out0 past ((f, t, c) # rest) rs w"
    and n1: "n1 \<le> length heap0" and e: "event_ok n0 n1 heap0 (f, t, c)"
  shows "\<exists>rs'. run_inv sid n0 n1 heap0 out0 (past @ [(f, t, c)]) rest rs' (fst (finish_task sid f c w t))"
proof -
  obtain heap out where w: "w = (heap, out)" by (cases w)
  let ?r = "task_request t"
  have r: "n0 \<le> ?r" "?r < n1" "?r < length heap" "\<not> task_finished t"
    and f: "f = req_file_index (heap0 ! ?r)"
    using e n1 inv by (auto simp: event_ok_def run_inv_def w)
  let ?q = "heap ! ?r" and ?q' = "fst (request_finished c (heap ! ?r))"
  let ?heap = "heap[?r := ?q']"
  have old: "same_request ?q (heap0 ! ?r)" "unat (req_tasks ?q) = Suc (length (codes_of ?r rest))"
    "outcome_ok (codes_of ?r past) (req_ret ?q)"
    using inv r by (auto simp: run_inv_def w)
  have tasks: "unat (req_tasks ?q') = length (codes_of ?r rest)"
  proof -
    have "1 \<le> req_tasks ?q" using old(2) by (simp add: word_le_nat_alt)
    then show ?thesis using old(2) by (simp add: request_finished_simps unat_sub)
  qed
  have lst: "snd (request_finished c ?q) \<longleftrightarrow> codes_of ?r rest = []"
    using old(2) by (simp add: request_finished_simps unat_word_eq_iff)
  have same: "same_request ?q' (heap0 ! ?r)"
    using old(1) by (simp add: same_request_def request_finished_simps)
  have ret: "outcome_ok (codes_of ?r past @ [c]) (req_ret ?q')"
    using outcome_ok_snoc [OF old(3)] by (simp add: request_finished_simps)
  have resp: "(\<lparr>resp_submission_id = sid, resp_file_index = f, resp_index = req_index ?q',
      resp_ret = req_ret ?q'\<rparr>, req_bytesize ?q') = response_for sid ?q'"
    using same f by (simp add: response_for_def same_request_def)
  let ?rs = "if codes_of ?r rest = [] then rs @ [?r] else rs"
  have step: "fst (finish_task sid f c w t) =
      (?heap, if codes_of ?r rest = [] then out @ [response_for sid ?q'] else out)"
  proof (cases "request_finished c ?q")
    case (Pair q' l)
    then show ?thesis
      using r lst resp by (simp add: finish_task_def finished_request_def w Let_def)
  qed
  have notin: "?r \<notin> set rs"
    using inv by (auto simp: run_inv_def w)
  have rs: "map (\<lambda>r. response_for sid (?heap ! r)) rs = map (\<lambda>r. response_for sid (heap ! r)) rs"
    using notin by (intro map_cong refl) (metis nth_list_update_neq)
  have set_rs: "set ?rs = {r. n0 \<le> r \<and> r < n1 \<and> codes_of r rest = []}"
    using inv r by (auto simp: run_inv_def w split: if_splits)
  have others: "same_request (?heap ! r) (heap0 ! r) \<and> unat (req_tasks (?heap ! r)) = length (codes_of r rest) \<and>
      outcome_ok (codes_of r (past @ [(f, t, c)])) (req_ret (?heap ! r))"
    if "n0 \<le> r \<and> r < n1" for r
    using inv that r same tasks ret by (cases "r = ?r") (auto simp: run_inv_def w)
  have "run_inv sid n0 n1 heap0 out0 (past @ [(f, t, c)]) rest ?rs (fst (finish_task sid f c w t))"
    unfolding step using inv others rs set_rs notin r(3)
    by (auto simp: run_inv_def w)
  then show ?thesis by blast
qed

lemma run_inv_deliver:
  assumes "run_inv sid n0 n1 heap0 out0 past es rs w" and "n1 \<le> length heap0"
    and "\<forall>e\<in>set es. event_ok n0 n1 heap0 e"
  shows "\<exists>rs'. run_inv sid n0 n1 heap0 out0 (past @ es) [] rs' (deliver sid es w)"
  using assms
proof (induction es arbitrary: past rs w)
  case (Cons e es)
  obtain f t c where e: "e = (f, t, c)" by (cases e)
  obtain rs1 where "run_inv sid n0 n1 heap0 out0 (past @ [e]) es rs1 (fst (finish_task sid f c w t))"
    using run_inv_step Cons.prems e by fastforce
  with Cons.IH [OF this] Cons.prems show ?case by (auto simp: e)
qed auto

section \<open>Exactly one response per range\<close>

text \<open>
  A run of a submission: every task of the batches occurs once, in any order and with any code,
  under the file of its request.
\<close>

definition run_of :: "nat \<Rightarrow> nat \<Rightarrow> request_heap \<Rightarrow> task list list \<Rightarrow> event list \<Rightarrow> bool" where
  "run_of n0 n1 heap v es \<longleftrightarrow> mset (map (\<lambda>(f, t, c). t) es) = mset (concat v) \<and>
     (\<forall>e\<in>set es. event_ok n0 n1 heap e)"

lemma run_of_counts:
  assumes "run_of n0 n1 heap v es"
  shows "length (codes_of r es) = length (tasks_of r v)"
proof -
  let ?P = "\<lambda>t. task_request t = r"
  have "size (filter_mset ?P (mset (map (\<lambda>(f, t, c). t) es))) = size (filter_mset ?P (mset (concat v)))"
    using assms by (simp only: run_of_def)
  then have "length (filter ?P (map (\<lambda>(f, t, c). t) es)) = length (tasks_of r v)"
    by (simp only: mset_filter [symmetric] size_mset tasks_of_def)
  moreover have "length (codes_of r es) = length (filter ?P (map (\<lambda>(f, t, c). t) es))"
    by (induction es) auto
  ultimately show ?thesis by simp
qed

lemma deliver_spec:
  assumes reqs: "\<forall>r. n0 \<le> r \<and> r < n1 \<longrightarrow> request_ok heap v r" and n1: "n1 \<le> length heap"
    and run: "run_of n0 n1 heap v es"
  shows "\<exists>heap' rs. deliver sid es (heap, out) =
      (heap', out @ map (\<lambda>r. response_for sid (heap' ! r)) rs) \<and>
    distinct rs \<and> set rs = {n0..<n1} \<and>
    (\<forall>r. n0 \<le> r \<and> r < n1 \<longrightarrow> same_request (heap' ! r) (heap ! r) \<and>
       outcome_ok (codes_of r es) (req_ret (heap' ! r)))"
proof -
  have "run_inv sid n0 n1 heap out [] es [] (heap, out)"
  proof -
    have "unat (req_tasks (heap ! r)) = length (codes_of r es)" "req_ret (heap ! r) = Success"
      "codes_of r es \<noteq> []" if "n0 \<le> r" "r < n1" for r
      using reqs that run_of_counts [OF run, of r] by (auto simp: request_ok_def Let_def)
    then show ?thesis
      by (auto simp: run_inv_def same_request_def outcome_ok_def)
  qed
  from run_inv_deliver [OF this n1] run obtain rs where
    inv: "run_inv sid n0 n1 heap out es [] rs (deliver sid es (heap, out))"
    by (auto simp: run_of_def)
  obtain heap' out' where w: "deliver sid es (heap, out) = (heap', out')" by fastforce
  have out': "out' = out @ map (\<lambda>r. response_for sid (heap' ! r)) rs" "distinct rs"
    and "set rs = {r. n0 \<le> r \<and> r < n1 \<and> codes_of r ([] :: event list) = []}"
    and each: "\<forall>r. n0 \<le> r \<and> r < n1 \<longrightarrow> same_request (heap' ! r) (heap ! r) \<and>
       outcome_ok (codes_of r es) (req_ret (heap' ! r))"
    using inv unfolding run_inv_def w prod.case append_Nil by blast+
  then have "set rs = {n0..<n1}" by auto
  then show ?thesis
    unfolding w out'(1) using out'(2) each by blast
qed

end
