(* ===== verification/SharedQueue.thy ===== *)
theory SharedQueue
  imports ResponseCodes Prelude
begin

text \<open>
  \<open>SharedQueue\<close> (\<open>common/shared_queue\<close>): the responders. Producers push, one consumer pops; a
  semaphore counts the responses. The operations are modelled as the atomic sections the code has
  (what happens under the mutex, the post and the wait on the semaphore), and a step relation
  interleaves them. The response type is a parameter with its constructor from a code, \<open>mk\<close>, and
  its code, \<open>ret\<close>. Throughput in floating point (\<open>bytes_per_second\<close>) is not modelled.
\<close>

section \<open>The queue\<close>

datatype queue_mode = FinishOnDrain | Persistent

record 'r shared_queue =
  q_mode :: queue_mode
  q_running :: uint
  q_responses :: "'r list"
  q_ready :: nat
  q_stopped :: bool
  q_total_bytesize :: size_t
  q_successful :: bool
  q_unexpected_push_error :: bool

definition sq_make :: "uint \<Rightarrow> queue_mode \<Rightarrow> 'r shared_queue" where
  "sq_make running mode =
     \<lparr>q_mode = mode, q_running = running, q_responses = [], q_ready = 0, q_stopped = False,
      q_total_bytesize = 0, q_successful = True, q_unexpected_push_error = False\<rparr>"

definition sq_increment :: "uint \<Rightarrow> 'r shared_queue \<Rightarrow> 'r shared_queue" where
  "sq_increment running q = q\<lparr>q_running := q_running q + running\<rparr>"

definition sq_finished :: "'r shared_queue \<Rightarrow> bool" where
  "sq_finished q \<longleftrightarrow> q_running q = 0 \<and> q_responses q = []"

definition sq_valid :: "'r shared_queue \<Rightarrow> response_code" where
  "sq_valid q = (if q_unexpected_push_error q then UnknownError else Success)"

text \<open>The semaphore.\<close>

definition sq_post :: "'r shared_queue \<Rightarrow> 'r shared_queue" where
  "sq_post q = q\<lparr>q_ready := Suc (q_ready q)\<rparr>"

text \<open>\<open>push\<close> under the mutex, and whether the semaphore is to be posted after it is released.\<close>

definition push_locked :: "('r \<Rightarrow> response_code) \<Rightarrow> 'r \<Rightarrow> 'r shared_queue \<Rightarrow> 'r shared_queue \<times> bool" where
  "push_locked ret r q =
     (if q_stopped q then (q, False)
      else
        let q1 = q\<lparr>q_successful := q_successful q \<and> ret r = Success\<rparr> in
        if 0 < q_running q1 then
          (q1\<lparr>q_responses := q_responses q1 @ [r], q_running := q_running q1 - 1\<rparr>, True)
        else (q1\<lparr>q_unexpected_push_error := True\<rparr>, False))"

definition sq_push :: "('r \<Rightarrow> response_code) \<Rightarrow> 'r \<Rightarrow> 'r shared_queue \<Rightarrow> 'r shared_queue" where
  "sq_push ret r q = (case push_locked ret r q of (q', posted) \<Rightarrow> if posted then sq_post q' else q')"

definition sq_push_bytes ::
  "('r \<Rightarrow> response_code) \<Rightarrow> 'r \<Rightarrow> size_t \<Rightarrow> 'r shared_queue \<Rightarrow> 'r shared_queue" where
  "sq_push_bytes ret r bytesize q =
     sq_push ret r (q\<lparr>q_total_bytesize := q_total_bytesize q + bytesize\<rparr>)"

definition stop_locked :: "'r shared_queue \<Rightarrow> 'r shared_queue \<times> bool" where
  "stop_locked q = (q\<lparr>q_stopped := True\<rparr>, \<not> q_stopped q)"

definition sq_stop :: "'r shared_queue \<Rightarrow> 'r shared_queue" where
  "sq_stop q = (case stop_locked q of (q', posted) \<Rightarrow> if posted then sq_post q' else q')"

text \<open>
  \<open>pop\<close>: the checks at entry, and what happens under the mutex once the semaphore was acquired.
\<close>

definition pop_entry :: "'r shared_queue \<Rightarrow> response_code option" where
  "pop_entry q =
     (if q_stopped q then Some FinishedError
      else if q_mode q = FinishOnDrain \<and> sq_finished q then Some FinishedError
      else None)"

definition pop_locked ::
  "(response_code \<Rightarrow> 'r) \<Rightarrow> 'r shared_queue \<Rightarrow> exn + 'r \<times> 'r shared_queue" where
  "pop_locked mk q =
     (if q_stopped q then Inr (mk FinishedError, q)
      else case q_responses q of
        [] \<Rightarrow> Inl StdException
      | r # rs \<Rightarrow> Inr (r, q\<lparr>q_responses := rs\<rparr>))"

text \<open>
  A whole \<open>pop\<close> while no other thread runs. \<open>None\<close> is a pop that blocks forever; with a timeout it
  returns \<open>TimedOut\<close> instead.
\<close>

definition sq_pop ::
  "(response_code \<Rightarrow> 'r) \<Rightarrow> uint \<Rightarrow> 'r shared_queue \<Rightarrow> (exn + 'r \<times> 'r shared_queue) option" where
  "sq_pop mk timeout_ms q =
     (case pop_entry q of
        Some c \<Rightarrow> Some (Inr (mk c, q))
      | None \<Rightarrow>
          if q_ready q = 0 then
            (if timeout_ms = 0 then None else Some (Inr (mk TimedOut, q)))
          else Some (pop_locked mk (q\<lparr>q_ready := q_ready q - 1\<rparr>)))"

section \<open>The interface of a responder\<close>

text \<open>
  What the clients of a responder rely on: as long as it expects responses, what is pushed comes
  out in order. \<open>room\<close> is how many responses it still expects.
\<close>

locale responder =
  fixes push :: "'r \<Rightarrow> 'q \<Rightarrow> 'q"
    and pop :: "'q \<Rightarrow> ('r \<times> 'q) option"
    and items :: "'q \<Rightarrow> 'r list"
    and room :: "'q \<Rightarrow> nat"
    and ok :: "'q \<Rightarrow> bool"
  assumes push_items: "ok q \<Longrightarrow> 0 < room q \<Longrightarrow> items (push r q) = items q @ [r]"
    and push_room: "ok q \<Longrightarrow> 0 < room q \<Longrightarrow> Suc (room (push r q)) = room q"
    and push_ok: "ok q \<Longrightarrow> ok (push r q)"
    and pop_head: "ok q \<Longrightarrow> items q = r # rs \<Longrightarrow>
      \<exists>q'. pop q = Some (r, q') \<and> items q' = rs \<and> room q' = room q \<and> ok q'"
begin

lemma push_all:
  "ok q \<Longrightarrow> length rs \<le> room q \<Longrightarrow>
    items (fold push rs q) = items q @ rs \<and> room (fold push rs q) = room q - length rs \<and>
    ok (fold push rs q)"
proof (induction rs arbitrary: q)
  case (Cons r rs)
  then have "0 < room q" by simp
  with Cons.prems have "ok (push r q)" "items (push r q) = items q @ [r]" "Suc (room (push r q)) = room q"
    by (simp_all add: push_ok push_items push_room)
  with Cons.IH [of "push r q"] Cons.prems show ?case by auto
qed simp

fun pop_all :: "nat \<Rightarrow> 'q \<Rightarrow> 'r list option" where
  "pop_all 0 q = Some []"
| "pop_all (Suc n) q =
     (case pop q of None \<Rightarrow> None
      | Some (r, q') \<Rightarrow> map_option (\<lambda>rs. r # rs) (pop_all n q'))"

lemma pop_all_items:
  "ok q \<Longrightarrow> pop_all (length (items q)) q = Some (items q)"
proof (induction "items q" arbitrary: q)
  case (Cons r rs)
  obtain q' where "pop q = Some (r, q')" "items q' = rs" "ok q'"
    using pop_head [OF Cons.prems Cons.hyps(2) [symmetric]] by blast
  with Cons.hyps(1) [of q'] show ?case
    by (simp flip: Cons.hyps(2))
qed simp

lemma pushed_come_out:
  "ok q \<Longrightarrow> items q = [] \<Longrightarrow> length rs \<le> room q \<Longrightarrow>
    pop_all (length rs) (fold push rs q) = Some rs"
  using push_all [of q rs] pop_all_items [of "fold push rs q"] by simp

end

definition sq_ok :: "'r shared_queue \<Rightarrow> bool" where
  "sq_ok q \<longleftrightarrow> \<not> q_stopped q \<and> q_ready q = length (q_responses q)"

text \<open>A pop that returns a response.\<close>

definition sq_pop_response ::
  "(response_code \<Rightarrow> 'r) \<Rightarrow> uint \<Rightarrow> 'r shared_queue \<Rightarrow> ('r \<times> 'r shared_queue) option" where
  "sq_pop_response mk timeout_ms q =
     (case sq_pop mk timeout_ms q of Some (Inr p) \<Rightarrow> Some p | _ \<Rightarrow> None)"

lemma sq_push_ok:
  assumes "sq_ok q"
  shows "sq_ok (sq_push ret r q)"
    and "0 < q_running q \<Longrightarrow> q_responses (sq_push ret r q) = q_responses q @ [r] \<and>
      q_running (sq_push ret r q) = q_running q - 1"
  using assms by (auto simp: sq_ok_def sq_push_def push_locked_def sq_post_def Let_def)

lemma sq_pop_ok:
  assumes "sq_ok q" and "q_responses q = r # rs"
  shows "\<exists>q'. sq_pop mk timeout_ms q = Some (Inr (r, q')) \<and> q_responses q' = rs \<and>
    q_running q' = q_running q \<and> sq_ok q'"
  using assms by (simp add: sq_ok_def sq_pop_def pop_entry_def sq_finished_def pop_locked_def)

interpretation sq: responder "sq_push ret" "sq_pop_response mk timeout_ms" q_responses
    "\<lambda>q. unat (q_running q)" sq_ok
  for ret :: "'r \<Rightarrow> response_code" and mk :: "response_code \<Rightarrow> 'r" and timeout_ms
proof
  fix q :: "'r shared_queue" and r rs
  assume ok: "sq_ok q"
  show "sq_ok (sq_push ret r q)"
    using sq_push_ok [OF ok] by blast
  show "\<exists>q'. sq_pop_response mk timeout_ms q = Some (r, q') \<and> q_responses q' = rs \<and>
      unat (q_running q') = unat (q_running q) \<and> sq_ok q'" if "q_responses q = r # rs"
    using sq_pop_ok [OF ok that, of mk timeout_ms] by (auto simp: sq_pop_response_def)
  assume room: "0 < unat (q_running q)"
  then have pos: "0 < q_running q" by (simp add: unat_pos_iff)
  show "q_responses (sq_push ret r q) = q_responses q @ [r]"
    using sq_push_ok(2) [OF ok pos] by blast
  have "1 \<le> q_running q" using room by (simp add: word_le_nat_alt)
  then show "Suc (unat (q_running (sq_push ret r q))) = unat (q_running q)"
    using sq_push_ok(2) [OF ok pos, of ret r] room by (simp add: unat_sub)
qed

section \<open>Producers, a consumer and a stop, interleaved\<close>

text \<open>
  The consumer is outside of \<open>pop\<close>, waits on the semaphore (with or without a timeout), has
  acquired it, or has failed an \<open>ASSERT\<close>. \<open>sys_pending\<close> counts the threads between releasing the
  mutex and posting. The history keeps what was accepted and what was delivered.
\<close>

datatype consumer = Outside | Waiting uint | Woken | Failed

record 'r queue_system =
  sys_queue :: "'r shared_queue"
  sys_consumer :: consumer
  sys_pending :: nat
  sys_accepted :: "'r list"
  sys_delivered :: "'r list"
  sys_sentinels :: "response_code list"

inductive queue_step ::
  "('r \<Rightarrow> response_code) \<Rightarrow> (response_code \<Rightarrow> 'r) \<Rightarrow> 'r queue_system \<Rightarrow> 'r queue_system \<Rightarrow> bool"
  for ret mk where
  push: "push_locked ret r (sys_queue s) = (q, posted) \<Longrightarrow>
    queue_step ret mk s (s\<lparr>sys_queue := q,
      sys_pending := (if posted then Suc (sys_pending s) else sys_pending s),
      sys_accepted := (if posted then sys_accepted s @ [r] else sys_accepted s)\<rparr>)"
| stop: "stop_locked (sys_queue s) = (q, posted) \<Longrightarrow>
    queue_step ret mk s (s\<lparr>sys_queue := q,
      sys_pending := (if posted then Suc (sys_pending s) else sys_pending s)\<rparr>)"
| post: "sys_pending s = Suc n \<Longrightarrow>
    queue_step ret mk s (s\<lparr>sys_queue := sq_post (sys_queue s), sys_pending := n\<rparr>)"
| increment: "queue_step ret mk s (s\<lparr>sys_queue := sq_increment n (sys_queue s)\<rparr>)"
| enter: "sys_consumer s = Outside \<Longrightarrow> pop_entry (sys_queue s) = None \<Longrightarrow>
    queue_step ret mk s (s\<lparr>sys_consumer := Waiting timeout_ms\<rparr>)"
| refuse: "sys_consumer s = Outside \<Longrightarrow> pop_entry (sys_queue s) = Some c \<Longrightarrow>
    queue_step ret mk s (s\<lparr>sys_sentinels := sys_sentinels s @ [c]\<rparr>)"
| acquire: "sys_consumer s = Waiting timeout_ms \<Longrightarrow> q_ready (sys_queue s) = Suc n \<Longrightarrow>
    queue_step ret mk s
      (s\<lparr>sys_queue := (sys_queue s)\<lparr>q_ready := n\<rparr>, sys_consumer := Woken\<rparr>)"
| expire: "sys_consumer s = Waiting timeout_ms \<Longrightarrow> timeout_ms \<noteq> 0 \<Longrightarrow>
    queue_step ret mk s
      (s\<lparr>sys_consumer := Outside, sys_sentinels := sys_sentinels s @ [TimedOut]\<rparr>)"
| take: "sys_consumer s = Woken \<Longrightarrow> pop_locked mk (sys_queue s) = Inr (r, q) \<Longrightarrow>
    queue_step ret mk s
      (if q_stopped (sys_queue s)
       then s\<lparr>sys_consumer := Outside, sys_sentinels := sys_sentinels s @ [FinishedError]\<rparr>
       else s\<lparr>sys_queue := q, sys_consumer := Outside, sys_delivered := sys_delivered s @ [r]\<rparr>)"
| fail: "sys_consumer s = Woken \<Longrightarrow> pop_locked mk (sys_queue s) = Inl e \<Longrightarrow>
    queue_step ret mk s (s\<lparr>sys_consumer := Failed\<rparr>)"

definition queue_start :: "uint \<Rightarrow> queue_mode \<Rightarrow> 'r queue_system" where
  "queue_start running mode =
     \<lparr>sys_queue = sq_make running mode, sys_consumer = Outside, sys_pending = 0,
      sys_accepted = [], sys_delivered = [], sys_sentinels = []\<rparr>"

inductive queue_reachable ::
  "('r \<Rightarrow> response_code) \<Rightarrow> (response_code \<Rightarrow> 'r) \<Rightarrow> uint \<Rightarrow> queue_mode \<Rightarrow> 'r queue_system \<Rightarrow> bool"
  for ret mk running mode where
  start: "queue_reachable ret mk running mode (queue_start running mode)"
| step: "queue_reachable ret mk running mode s \<Longrightarrow> queue_step ret mk s s' \<Longrightarrow>
    queue_reachable ret mk running mode s'"

text \<open>
  Every response in the queue has a post, made or on its way, or the consumer holds it; after a
  stop a waiting consumer still has a post to wake it.
\<close>

definition queue_inv :: "'r queue_system \<Rightarrow> bool" where
  "queue_inv s \<longleftrightarrow> (let q = sys_queue s; tokens = q_ready q + sys_pending s in
     sys_consumer s \<noteq> Failed \<and>
     (\<not> q_stopped q \<longrightarrow> tokens + (if sys_consumer s = Woken then 1 else 0) = length (q_responses q)) \<and>
     (q_stopped q \<and> (\<exists>t. sys_consumer s = Waiting t) \<longrightarrow> 0 < tokens) \<and>
     sys_accepted s = sys_delivered s @ q_responses q)"

lemma queue_inv_step:
  assumes "queue_step ret mk s s'" and "queue_inv s"
  shows "queue_inv s'"
  using assms
proof cases
  case (push r q posted)
  then show ?thesis
    using assms(2) by (auto simp: queue_inv_def push_locked_def Let_def split: if_splits)
next
  case (stop q posted)
  then show ?thesis
    using assms(2) by (auto simp: queue_inv_def stop_locked_def Let_def)
next
  case (post n)
  then show ?thesis
    using assms(2) by (auto simp: queue_inv_def sq_post_def Let_def)
next
  case (take r q)
  then show ?thesis
    using assms(2) by (auto simp: queue_inv_def pop_locked_def Let_def split: list.splits if_splits)
next
  case (fail e)
  then show ?thesis
    using assms(2) by (auto simp: queue_inv_def pop_locked_def Let_def split: list.splits if_splits)
next
  case (enter t)
  then show ?thesis
    using assms(2) by (auto simp: queue_inv_def pop_entry_def Let_def split: if_splits)
qed (auto simp: queue_inv_def sq_increment_def Let_def)

lemma queue_inv_reachable: "queue_reachable ret mk running mode s \<Longrightarrow> queue_inv s"
proof (induction rule: queue_reachable.induct)
  case start
  then show ?case by (simp add: queue_start_def queue_inv_def sq_make_def)
next
  case (step s s')
  then show ?case using queue_inv_step by blast
qed

text \<open>Property C18: however pushes, stops, increments, timeouts and the one consumer interleave, the
  consumer never finds the queue empty after a notification, the responses are delivered in the
  order in which they were accepted, without loss or duplicate, and a consumer that waits while a
  response is queued or after a stop always has a post that wakes it, made or about to be made.\<close>

theorem shared_queue_safe:
  assumes "queue_reachable ret mk running mode s"
  shows "sys_consumer s \<noteq> Failed \<and>
    sys_accepted s = sys_delivered s @ q_responses (sys_queue s) \<and>
    ((\<exists>t. sys_consumer s = Waiting t) \<and> (q_responses (sys_queue s) \<noteq> [] \<or> q_stopped (sys_queue s)) \<longrightarrow>
      0 < q_ready (sys_queue s) + sys_pending s)"
  using queue_inv_reachable [OF assms] by (auto simp: queue_inv_def Let_def)

theorem shared_queue_safe_witness:
  "\<exists>s. queue_reachable resp_ret sentinel_response 1 FinishOnDrain s \<and>
     sys_consumer s = Waiting 0 \<and> q_responses (sys_queue s) = [sentinel_response Success] \<and>
     sys_pending s = 1 \<and> 0 < q_ready (sys_queue s) + sys_pending s"
proof -
  let ?s0 = "queue_start 1 FinishOnDrain :: response queue_system"
  let ?s1 = "?s0\<lparr>sys_consumer := Waiting 0\<rparr>"
  have "queue_step resp_ret sentinel_response ?s0 ?s1"
    by (rule queue_step.enter) (simp_all add: queue_start_def sq_make_def pop_entry_def sq_finished_def)
  from queue_reachable.step [OF queue_reachable.start this]
  have 1: "queue_reachable resp_ret sentinel_response 1 FinishOnDrain ?s1" .
  obtain q where q: "push_locked resp_ret (sentinel_response Success) (sys_queue ?s1) = (q, True)"
    "q_responses q = [sentinel_response Success]"
    by (auto simp: queue_start_def sq_make_def push_locked_def Let_def)
  from queue_reachable.step [OF 1 queue_step.push [OF q(1)]]
  have 2: "queue_reachable resp_ret sentinel_response 1 FinishOnDrain
      (?s1\<lparr>sys_queue := q, sys_pending := 1, sys_accepted := [sentinel_response Success]\<rparr>)"
    by (simp add: queue_start_def)
  from shared_queue_safe [OF 2] 2 q(2) show ?thesis
    by (intro exI [of _ "?s1\<lparr>sys_queue := q, sys_pending := 1, sys_accepted := [sentinel_response Success]\<rparr>"])
      simp
qed

text \<open>Popping responses one after the other: what came out and the queue that is left.\<close>

fun sq_pops ::
  "(response_code \<Rightarrow> 'r) \<Rightarrow> uint \<Rightarrow> nat \<Rightarrow> 'r shared_queue \<Rightarrow> ('r list \<times> 'r shared_queue) option" where
  "sq_pops mk timeout_ms 0 q = Some ([], q)"
| "sq_pops mk timeout_ms (Suc n) q =
     (case sq_pop_response mk timeout_ms q of None \<Rightarrow> None
      | Some (r, q') \<Rightarrow> map_option (\<lambda>(rs, q''). (r # rs, q'')) (sq_pops mk timeout_ms n q'))"

lemma sq_push_keeps [simp]:
  "q_mode (sq_push ret r q) = q_mode q" "q_stopped (sq_push ret r q) = q_stopped q"
  by (simp_all add: sq_push_def push_locked_def sq_post_def Let_def)

lemma sq_pushes_keep:
  "q_mode (fold (sq_push ret) rs q) = q_mode q"
  "q_unexpected_push_error q = False \<Longrightarrow> length rs \<le> unat (q_running q) \<Longrightarrow> \<not> q_stopped q \<Longrightarrow>
    q_unexpected_push_error (fold (sq_push ret) rs q) = False"
proof (induction rs arbitrary: q)
  case (Cons r rs)
  case 2
  then have pos: "1 \<le> q_running q" by (simp add: word_le_nat_alt)
  then have "q_running (sq_push ret r q) = q_running q - 1"
    using 2 by (auto simp: sq_push_def push_locked_def sq_post_def Let_def word_gt_0)
  moreover have "q_unexpected_push_error (sq_push ret r q) = False"
    using 2 pos by (auto simp: sq_push_def push_locked_def sq_post_def Let_def word_gt_0)
  ultimately show ?case
    using Cons.IH(2) [of "sq_push ret r q"] 2 pos by (simp add: unat_sub)
qed simp_all

lemma sq_pop_response_keeps:
  assumes "sq_pop_response mk timeout_ms q = Some (r, q')"
  shows "q_mode q' = q_mode q \<and> q_unexpected_push_error q' = q_unexpected_push_error q"
  using assms
  by (auto simp: sq_pop_response_def sq_pop_def pop_locked_def
      split: option.splits sum.splits list.splits if_splits)

lemma sq_pops_all:
  assumes "sq_ok q"
  shows "\<exists>q'. sq_pops mk timeout_ms (length (q_responses q)) q = Some (q_responses q, q') \<and>
    q_responses q' = [] \<and> sq_ok q' \<and> q_running q' = q_running q \<and> q_mode q' = q_mode q \<and>
    q_unexpected_push_error q' = q_unexpected_push_error q"
  using assms
proof (induction "q_responses q" arbitrary: q)
  case (Cons r rs)
  obtain q1 where pop: "sq_pop mk timeout_ms q = Some (Inr (r, q1))" and q1: "q_responses q1 = rs"
    "q_running q1 = q_running q" "sq_ok q1"
    using sq_pop_ok [OF Cons.prems Cons.hyps(2) [symmetric]] by blast
  then have one: "sq_pop_response mk timeout_ms q = Some (r, q1)"
    by (simp add: sq_pop_response_def)
  with Cons.hyps(1) [of q1] sq_pop_response_keeps [OF one] q1 show ?case
    by (auto simp flip: Cons.hyps(2))
qed auto

text \<open>Property C28: a responder that expects \<open>n\<close> responses hands out the \<open>n\<close> pushed ones in order. It is
  then drained, and neither stopped nor invalid: when it finishes on drain the next \<open>pop\<close> reports
  \<open>FinishedError\<close>, when it is persistent a \<open>pop\<close> without a timeout waits (does not return) and one
  with a timeout runs out. A push beyond the \<open>n\<close> expected ones, before or after they are handed
  out, is refused and makes the responder invalid.\<close>

theorem responder_drains:
  assumes "length rs < 2 ^ 32"
  shows "\<exists>q'. sq_pops mk timeout_ms (length rs) (fold (sq_push ret) rs (sq_make (of_nat (length rs)) mode)) =
        Some (rs, q') \<and>
      sq_finished q' \<and> sq_valid q' = Success \<and>
      sq_pop mk timeout_ms' q' =
        (if mode = FinishOnDrain then Some (Inr (mk FinishedError, q'))
         else if timeout_ms' = 0 then None else Some (Inr (mk TimedOut, q'))) \<and>
      q_responses (sq_push ret r q') = [] \<and> sq_valid (sq_push ret r q') = UnknownError \<and>
      q_responses (fold (sq_push ret) (rs @ [r]) (sq_make (of_nat (length rs)) mode)) = rs \<and>
      sq_valid (fold (sq_push ret) (rs @ [r]) (sq_make (of_nat (length rs)) mode)) = UnknownError"
proof -
  let ?start = "sq_make (of_nat (length rs)) mode :: 'a shared_queue"
  let ?q = "fold (sq_push ret) rs ?start"
  have q0: "sq_ok ?start" "length rs \<le> unat (q_running ?start)" "q_unexpected_push_error ?start = False"
    "\<not> q_stopped ?start" "unat (q_running ?start) = length rs" "q_responses ?start = []" "q_mode ?start = mode"
    using assms by (simp_all add: sq_ok_def sq_make_def unat_of_nat)
  then have q: "q_responses ?q = rs" "unat (q_running ?q) = 0" "sq_ok ?q"
    "q_unexpected_push_error ?q = False" "q_mode ?q = mode"
    using sq.push_all [OF q0(1,2), of ret] sq_pushes_keep(2) [OF q0(3,2,4), of ret]
    by (simp_all add: sq_pushes_keep(1))
  obtain q' where q': "sq_pops mk timeout_ms (length rs) ?q = Some (rs, q')" "q_responses q' = []"
    "sq_ok q'" "q_running q' = 0" "q_mode q' = mode" "q_unexpected_push_error q' = False"
    using sq_pops_all [OF q(3), of mk timeout_ms] q by (auto simp: unat_eq_zero)
  have "sq_pop mk timeout_ms' q' =
      (if mode = FinishOnDrain then Some (Inr (mk FinishedError, q'))
       else if timeout_ms' = 0 then None else Some (Inr (mk TimedOut, q')))"
    using q' by (simp add: sq_ok_def sq_pop_def pop_entry_def sq_finished_def)
  moreover have "q_responses (sq_push ret r q') = [] \<and> sq_valid (sq_push ret r q') = UnknownError"
    using q' by (simp add: sq_ok_def sq_push_def push_locked_def sq_valid_def Let_def)
  moreover have "q_responses (sq_push ret r ?q) = rs \<and> sq_valid (sq_push ret r ?q) = UnknownError"
    using q by (simp add: sq_ok_def sq_push_def push_locked_def sq_valid_def Let_def unat_eq_zero)
  ultimately show ?thesis
    using q' by (intro exI [of _ q']) (simp add: sq_finished_def sq_valid_def)
qed

definition sample_responses :: "response list" where
  "sample_responses = [sentinel_response Success, sentinel_response EofError]"

lemma sample_responses_length: "length sample_responses = 2"
  by (simp add: sample_responses_def)

theorem responder_drains_witness:
  "\<exists>q'. sq_pops sentinel_response 0 2
     (fold (sq_push resp_ret) sample_responses (sq_make 2 FinishOnDrain)) = Some (sample_responses, q') \<and>
     sq_pop sentinel_response 0 q' = Some (Inr (sentinel_response FinishedError, q')) \<and>
     sq_valid (sq_push resp_ret (sentinel_response Success) q') = UnknownError"
proof -
  have "length sample_responses < 2 ^ 32" by (simp add: sample_responses_length)
  from responder_drains [OF this, of sentinel_response 0 resp_ret FinishOnDrain 0
      "sentinel_response Success"]
  show ?thesis
    unfolding sample_responses_length by (auto simp del: sq_pops.simps)
qed

end
