(* ===== verification/Workloads.thy ===== *)
theory Workloads
  imports Delivery SharedQueue
begin

text \<open>
  Workloads and the pools they are dispatched to (\<open>streamer/impl/workload\<close>,
  \<open>streamer/impl/pools\<close>): a workload is the batches of one worker, all of one kind of backend; there
  is a pool per kind, made on first use, and the object-storage pool is locked to one plugin.
\<close>

section \<open>Workloads\<close>

record workload =
  wl_batches :: "batch list"
  wl_is_object_storage :: bool

definition workload_make :: workload where
  "workload_make = \<lparr>wl_batches = [], wl_is_object_storage = False\<rparr>"

definition workload_size :: "workload \<Rightarrow> nat" where
  "workload_size w = length (wl_batches w)"

definition verify_batch :: "batch \<Rightarrow> workload \<Rightarrow> response_code" where
  "verify_batch b w =
     (if is_object_storage b \<noteq> wl_is_object_storage w then InvalidParameterError else Success)"

definition add_batch :: "batch \<Rightarrow> workload \<Rightarrow> response_code \<times> workload" where
  "add_batch b w =
     (if workload_size w = 0 then
        (Success, w\<lparr>wl_is_object_storage := is_object_storage b, wl_batches := wl_batches w @ [b]\<rparr>)
      else
        let res = verify_batch b w in
        if res \<noteq> Success then (res, w) else (Success, w\<lparr>wl_batches := wl_batches w @ [b]\<rparr>))"

text \<open>\<open>fail\<close>: every batch fails its unfinished tasks.\<close>

fun fail_batches ::
  "response_code \<Rightarrow> batch list \<Rightarrow> request_heap \<times> pushes \<Rightarrow> batch list \<times> (request_heap \<times> pushes)" where
  "fail_batches c [] w = ([], w)"
| "fail_batches c (b # bs) w =
     (case handle_error c b w of (b', w1) \<Rightarrow>
        (case fail_batches c bs w1 of (bs', w2) \<Rightarrow> (b' # bs', w2)))"

definition workload_fail ::
  "response_code \<Rightarrow> workload \<Rightarrow> request_heap \<times> pushes \<Rightarrow> workload \<times> (request_heap \<times> pushes)" where
  "workload_fail c wl w =
     (case fail_batches c (wl_batches wl) w of (bs, w') \<Rightarrow> (wl\<lparr>wl_batches := bs\<rparr>, w'))"

text \<open>
  \<open>execute\<close>, for files: the batches one after the other. The system calls and the stop flag may
  behave differently for each path and batch.
\<close>

fun execute_batches ::
  "(string \<Rightarrow> 'os file_system) \<Rightarrow> (nat \<Rightarrow> nat \<Rightarrow> bool) \<Rightarrow> nat \<Rightarrow> batch list \<Rightarrow> request_heap \<times> pushes \<Rightarrow> memory \<Rightarrow>
    ((exn + unit) \<times> batch list \<times> (request_heap \<times> pushes) \<times> memory) option" where
  "execute_batches fs stopped i [] w mem = Some (Inr (), [], w, mem)"
| "execute_batches fs stopped i (b # bs) w mem =
     (case batch_execute (fs (batch_path b)) (stopped i) b w mem of
        None \<Rightarrow> None
      | Some (Inl e, b', w', mem') \<Rightarrow> Some (Inl e, b' # bs, w', mem')
      | Some (Inr u, b', w', mem') \<Rightarrow>
          (case execute_batches fs stopped (Suc i) bs w' mem' of
             None \<Rightarrow> None
           | Some (r, bs', w2, mem2) \<Rightarrow> Some (r, b' # bs', w2, mem2)))"

definition workload_execute ::
  "(string \<Rightarrow> 'os file_system) \<Rightarrow> (nat \<Rightarrow> nat \<Rightarrow> bool) \<Rightarrow> workload \<Rightarrow> request_heap \<times> pushes \<Rightarrow> memory \<Rightarrow>
    ((exn + unit) \<times> workload \<times> (request_heap \<times> pushes) \<times> memory) option" where
  "workload_execute fs stopped wl w mem =
     (if workload_size wl = 0 then Some (Inr (), wl, w, mem)
      else if wl_is_object_storage wl then Some (Inl StdException, wl, w, mem)
      else case execute_batches fs stopped 0 (wl_batches wl) w mem of
        None \<Rightarrow> None
      | Some (r, bs, w', mem') \<Rightarrow> Some (r, wl\<lparr>wl_batches := bs\<rparr>, w', mem'))"

section \<open>Properties of workloads\<close>

text \<open>A workload is homogeneous: all of its batches are of its kind.\<close>

definition workload_ok :: "workload \<Rightarrow> bool" where
  "workload_ok w \<longleftrightarrow> (\<forall>b\<in>set (wl_batches w). is_object_storage b = wl_is_object_storage w)"

lemma workload_make_ok: "workload_ok workload_make"
  by (simp add: workload_ok_def workload_make_def)

lemma add_batch_ok: "workload_ok w \<Longrightarrow> workload_ok (snd (add_batch b w))"
  by (auto simp: workload_ok_def add_batch_def verify_batch_def workload_size_def Let_def)

lemma add_batch_same_kind:
  assumes "workload_ok w" and "\<forall>b'\<in>set (wl_batches w). is_object_storage b' = is_object_storage b"
  shows "fst (add_batch b w) = Success \<and> wl_batches (snd (add_batch b w)) = wl_batches w @ [b]"
proof (cases "wl_batches w")
  case Nil
  then show ?thesis by (simp add: add_batch_def workload_size_def)
next
  case (Cons b' bs)
  then show ?thesis
    using assms by (auto simp: add_batch_def workload_size_def verify_batch_def workload_ok_def Let_def)
qed

text \<open>The events of a list of batches, of each the first tasks with success.\<close>

definition batch_events :: "batch \<Rightarrow> nat \<Rightarrow> response_code \<Rightarrow> event list" where
  "batch_events b k c = map (\<lambda>(t, c). (batch_file_index b, t, c)) (events_of b k c)"

lemma map_task_events: "map (\<lambda>(f, t, c). t) (batch_events b k c) = batch_tasks b"
proof -
  have "map (\<lambda>(f, t, c). t) (batch_events b k c) = take k (batch_tasks b) @ drop k (batch_tasks b)"
    unfolding batch_events_def events_of_def by (simp add: comp_def)
  then show ?thesis by simp
qed

lemma fail_batches_spec:
  assumes "\<forall>b\<in>set bs. batch_fresh b \<and> batch_submission_id b = sid" and "c \<noteq> Success"
  shows "snd (fail_batches c bs w) = deliver sid (concat (map (\<lambda>b. batch_events b 0 c) bs)) w"
  using assms(1)
proof (induction bs arbitrary: w)
  case (Cons b bs)
  have "handle_error c b w = ((batch_at b 0)\<lparr>batch_tasks := map set_finished (batch_tasks b)\<rparr>,
      finish_events sid (batch_file_index b) (events_of b 0 c) w)"
    using handle_error_at [of b 0 c w] batch_at_0 [of b w] Cons.prems assms(2) by auto
  moreover obtain bs' w2 where rest:
    "fail_batches c bs (finish_events sid (batch_file_index b) (events_of b 0 c) w) = (bs', w2)"
    by (cases "fail_batches c bs (finish_events sid (batch_file_index b) (events_of b 0 c) w)")
  ultimately have "snd (fail_batches c (b # bs) w) = w2" by simp
  also have "w2 = deliver sid (concat (map (\<lambda>b. batch_events b 0 c) bs))
      (finish_events sid (batch_file_index b) (events_of b 0 c) w)"
    using Cons.IH [of "finish_events sid (batch_file_index b) (events_of b 0 c) w"] Cons.prems rest by simp
  finally show ?case
    by (simp add: deliver_append finish_events_deliver batch_events_def)
qed simp

end
