(* ===== verification/ThreadPool.thy ===== *)
theory ThreadPool
  imports Requests
begin

text \<open>
  The worker threads (\<open>utils/threadpool\<close>): a queue of messages guarded by a mutex and counted by a
  semaphore, and a fixed set of threads that take messages from it, with a stateless handler or
  each with a worker of its own, until the pool is stopped.
\<close>

section \<open>The queue of messages\<close>

record 'm deque =
  dq_messages :: "'m list"
  dq_sem :: nat
  dq_stopped :: bool

definition deque_make :: "'m deque" where
  "deque_make = \<lparr>dq_messages = [], dq_sem = 0, dq_stopped = False\<rparr>"

definition dq_post :: "'m deque \<Rightarrow> 'm deque" where
  "dq_post q = q\<lparr>dq_sem := Suc (dq_sem q)\<rparr>"

text \<open>\<open>push\<close> under the mutex, and as a whole.\<close>

definition dq_push_locked :: "'m \<Rightarrow> 'm deque \<Rightarrow> exn + 'm deque" where
  "dq_push_locked m q =
     (if dq_stopped q then Inl StdException else Inr (q\<lparr>dq_messages := dq_messages q @ [m]\<rparr>))"

definition dq_push :: "'m \<Rightarrow> 'm deque \<Rightarrow> exn + 'm deque" where
  "dq_push m q = (case dq_push_locked m q of Inl e \<Rightarrow> Inl e | Inr q' \<Rightarrow> Inr (dq_post q'))"

text \<open>
  What follows the acquisition of the semaphore: a message, nothing because of a stop, or the
  front of an empty deque, which is undefined.
\<close>

datatype 'm taken = Taken 'm | Nothing | Undefined

definition dq_front :: "'m deque \<Rightarrow> 'm taken \<times> 'm deque" where
  "dq_front q =
     (case dq_messages q of
        [] \<Rightarrow> (Undefined, q)
      | m # ms \<Rightarrow> (Taken m, q\<lparr>dq_messages := ms\<rparr>))"

definition dq_pop_locked :: "'m deque \<Rightarrow> 'm taken \<times> 'm deque" where
  "dq_pop_locked q = (if dq_stopped q then (Nothing, q) else dq_front q)"

definition dq_try_pop_locked :: "'m deque \<Rightarrow> 'm taken \<times> 'm deque" where
  "dq_try_pop_locked q = (if dq_stopped q then (Nothing, dq_post q) else dq_front q)"

text \<open>
  Whole calls while no other thread runs; \<open>None\<close> is a \<open>pop\<close> that blocks.
\<close>

definition dq_pop :: "'m deque \<Rightarrow> ('m taken \<times> 'm deque) option" where
  "dq_pop q =
     (if dq_sem q = 0 then None else Some (dq_pop_locked (q\<lparr>dq_sem := dq_sem q - 1\<rparr>)))"

definition dq_try_pop :: "'m deque \<Rightarrow> 'm taken \<times> 'm deque" where
  "dq_try_pop q =
     (if dq_sem q = 0 then (Nothing, q) else dq_try_pop_locked (q\<lparr>dq_sem := dq_sem q - 1\<rparr>))"

definition dq_stop_locked :: "'m deque \<Rightarrow> 'm deque" where
  "dq_stop_locked q = q\<lparr>dq_stopped := True\<rparr>"

definition dq_stop :: "nat \<Rightarrow> 'm deque \<Rightarrow> 'm deque" where
  "dq_stop n q = (dq_post ^^ n) (dq_stop_locked q)"

definition dq_size :: "'m deque \<Rightarrow> nat" where
  "dq_size q = length (dq_messages q)"

section \<open>Starting the threads\<close>

text \<open>
  The constructor: the threads (in per-worker mode the \<open>i\<close>-th worker and its thread) are made one
  after the other, and making the \<open>i\<close>-th may throw. When the first throws nothing was started and the
  exception leaves the constructor. When a later one throws, the members are destroyed, and the
  destructor of a started thread joins it; but that thread waits in \<open>pop\<close> on a queue that nobody
  pushes to or stops (the destructor of the pool, which would stop it, does not run): the
  constructor never returns, which is \<open>None\<close>.
\<close>

definition pool_start :: "(nat \<Rightarrow> bool) \<Rightarrow> nat \<Rightarrow> (exn + unit) option" where
  "pool_start spawn n =
     (if list_all spawn [0..<n] then Some (Inr ())
      else if spawn 0 then None
      else Some (Inl StdException))"

text \<open>Either every thread can be made, or not even the first.\<close>

definition starts_cleanly :: "(nat \<Rightarrow> bool) \<Rightarrow> nat \<Rightarrow> bool" where
  "starts_cleanly spawn n \<longleftrightarrow> (spawn 0 \<longrightarrow> list_all spawn [0..<n])"

lemma pool_start_returns: "pool_start spawn n \<noteq> None \<longleftrightarrow> starts_cleanly spawn n"
  by (cases n) (auto simp: pool_start_def starts_cleanly_def upt_conv_Cons simp del: upt_Suc)

lemma pool_start_cases:
  "pool_start spawn n = Some r \<Longrightarrow> r = Inr () \<or> r = Inl StdException"
  by (auto simp: pool_start_def split: if_splits)

section \<open>The threads\<close>

text \<open>
  Where a thread is: at the head of its loop; with a token of the semaphore inside \<open>try_pop\<close>; with
  nothing from \<open>try_pop\<close>; waiting in \<open>pop\<close>; with a token inside \<open>pop\<close>; running a message; at its
  end; or past undefined behaviour.
\<close>

datatype 'm thread =
    Looping | Trying | GotNothing | Parked | Woken | Running 'm | Exited | Broken

record 'm pool =
  pool_deque :: "'m deque"
  pool_owed :: nat
  pool_threads :: "'m thread list"
  pool_pushed :: "'m list"
  pool_taken :: "'m list"

definition pool_make :: "nat \<Rightarrow> 'm pool" where
  "pool_make num = \<lparr>pool_deque = deque_make, pool_owed = 0, pool_threads = replicate num Looping,
     pool_pushed = [], pool_taken = []\<rparr>"

definition set_thread :: "nat \<Rightarrow> 'm thread \<Rightarrow> 'm pool \<Rightarrow> 'm pool" where
  "set_thread i t p = p\<lparr>pool_threads := (pool_threads p)[i := t]\<rparr>"

text \<open>A thread that has taken (or not) a message: it runs it, goes on as \<open>none\<close>, or is broken.\<close>

definition after_take :: "nat \<Rightarrow> 'm thread \<Rightarrow> 'm taken \<Rightarrow> 'm pool \<Rightarrow> 'm pool" where
  "after_take i none r p =
     (case r of
        Taken m \<Rightarrow> set_thread i (Running m) (p\<lparr>pool_taken := pool_taken p @ [m]\<rparr>)
      | Nothing \<Rightarrow> set_thread i none p
      | Undefined \<Rightarrow> set_thread i Broken p)"

text \<open>
  The steps of the pool. \<open>pool_owed\<close> counts the posts of the semaphore between the release of the
  mutex and the call of \<open>post\<close>. \<open>per_worker\<close> tells \<open>worker_routine\<close> from \<open>routine\<close>: only there a
  thread tries before it parks, and goes back to its loop to drain while its worker is not idle.
\<close>

inductive pool_step :: "bool \<Rightarrow> 'm pool \<Rightarrow> 'm pool \<Rightarrow> bool" for per_worker where
  push: "dq_push_locked m (pool_deque p) = Inr q \<Longrightarrow>
    pool_step per_worker p (p\<lparr>pool_deque := q, pool_owed := Suc (pool_owed p),
      pool_pushed := pool_pushed p @ [m]\<rparr>)"
| stop: "\<not> dq_stopped (pool_deque p) \<Longrightarrow>
    pool_step per_worker p (p\<lparr>pool_deque := dq_stop_locked (pool_deque p),
      pool_owed := pool_owed p + length (pool_threads p)\<rparr>)"
| post: "pool_owed p = Suc n \<Longrightarrow>
    pool_step per_worker p (p\<lparr>pool_deque := dq_post (pool_deque p), pool_owed := n\<rparr>)"
| try_none: "per_worker \<Longrightarrow> i < length (pool_threads p) \<Longrightarrow> pool_threads p ! i = Looping \<Longrightarrow>
    dq_sem (pool_deque p) = 0 \<Longrightarrow> pool_step per_worker p (set_thread i GotNothing p)"
| try_token: "per_worker \<Longrightarrow> i < length (pool_threads p) \<Longrightarrow> pool_threads p ! i = Looping \<Longrightarrow>
    dq_sem (pool_deque p) = Suc n \<Longrightarrow>
    pool_step per_worker p
      (set_thread i Trying (p\<lparr>pool_deque := (pool_deque p)\<lparr>dq_sem := n\<rparr>\<rparr>))"
| try_take: "i < length (pool_threads p) \<Longrightarrow> pool_threads p ! i = Trying \<Longrightarrow>
    dq_try_pop_locked (pool_deque p) = (r, q) \<Longrightarrow>
    pool_step per_worker p (after_take i GotNothing r (p\<lparr>pool_deque := q\<rparr>))"
| drain: "i < length (pool_threads p) \<Longrightarrow> pool_threads p ! i = GotNothing \<Longrightarrow>
    pool_step per_worker p (set_thread i Looping p)"
| park: "i < length (pool_threads p) \<Longrightarrow>
    pool_threads p ! i = (if per_worker then GotNothing else Looping) \<Longrightarrow>
    pool_step per_worker p (set_thread i Parked p)"
| wake: "i < length (pool_threads p) \<Longrightarrow> pool_threads p ! i = Parked \<Longrightarrow>
    dq_sem (pool_deque p) = Suc n \<Longrightarrow>
    pool_step per_worker p
      (set_thread i Woken (p\<lparr>pool_deque := (pool_deque p)\<lparr>dq_sem := n\<rparr>\<rparr>))"
| take: "i < length (pool_threads p) \<Longrightarrow> pool_threads p ! i = Woken \<Longrightarrow>
    dq_pop_locked (pool_deque p) = (r, q) \<Longrightarrow>
    pool_step per_worker p (after_take i Exited r (p\<lparr>pool_deque := q\<rparr>))"
| finish: "i < length (pool_threads p) \<Longrightarrow> pool_threads p ! i = Running m \<Longrightarrow>
    pool_step per_worker p (set_thread i Looping p)"

inductive pool_reachable :: "bool \<Rightarrow> nat \<Rightarrow> 'm pool \<Rightarrow> bool" for per_worker num where
  start: "pool_reachable per_worker num (pool_make num)"
| step: "pool_reachable per_worker num p \<Longrightarrow> pool_step per_worker p p' \<Longrightarrow>
    pool_reachable per_worker num p'"

section \<open>The invariant\<close>

text \<open>
  Every message has a token: posted, owed or held by a thread. After a stop every thread that is
  not at its end still has a token that will get it there.
\<close>

definition holds_token :: "'m thread \<Rightarrow> bool" where
  "holds_token t \<longleftrightarrow> t = Trying \<or> t = Woken"

definition count_threads :: "('m thread \<Rightarrow> bool) \<Rightarrow> 'm pool \<Rightarrow> nat" where
  "count_threads P p = length (filter P (pool_threads p))"

definition pool_tokens :: "'m pool \<Rightarrow> nat" where
  "pool_tokens p = dq_sem (pool_deque p) + pool_owed p + count_threads holds_token p"

definition pool_inv :: "'m pool \<Rightarrow> bool" where
  "pool_inv p \<longleftrightarrow>
     pool_pushed p = pool_taken p @ dq_messages (pool_deque p) \<and>
     Broken \<notin> set (pool_threads p) \<and>
     (if dq_stopped (pool_deque p)
      then length (pool_threads p) \<le> pool_tokens p + count_threads (\<lambda>t. t = Exited) p
      else pool_tokens p = length (dq_messages (pool_deque p)) \<and> Exited \<notin> set (pool_threads p))"

lemma count_set_thread:
  assumes "i < length (pool_threads p)"
  shows "count_threads P (set_thread i t p) + (if P (pool_threads p ! i) then 1 else 0) =
    count_threads P p + (if P t then 1 else 0)"
  using length_filter_update [OF assms, of P t] by (simp add: count_threads_def set_thread_def)

lemma set_thread_fields [simp]:
  "pool_deque (set_thread i t p) = pool_deque p"
  "pool_owed (set_thread i t p) = pool_owed p"
  "pool_pushed (set_thread i t p) = pool_pushed p"
  "pool_taken (set_thread i t p) = pool_taken p"
  "length (pool_threads (set_thread i t p)) = length (pool_threads p)"
  by (simp_all add: set_thread_def)

lemma count_other_fields [simp]:
  "count_threads P (p\<lparr>pool_deque := q\<rparr>) = count_threads P p"
  "count_threads P (p\<lparr>pool_owed := n\<rparr>) = count_threads P p"
  "count_threads P (p\<lparr>pool_pushed := ms\<rparr>) = count_threads P p"
  "count_threads P (p\<lparr>pool_taken := ms\<rparr>) = count_threads P p"
  by (simp_all add: count_threads_def)

lemma threads_set_thread:
  "t \<noteq> x \<Longrightarrow> x \<notin> set (pool_threads p) \<Longrightarrow> x \<notin> set (pool_threads (set_thread i t p))"
  using set_update_subset_insert [of "pool_threads p" i t] by (auto simp: set_thread_def)

lemma pool_inv_move:
  assumes inv: "pool_inv p" and i: "i < length (pool_threads p)"
    and t: "t \<noteq> Broken" "t \<noteq> Exited" "pool_threads p ! i \<noteq> Exited"
    and q: "dq_stopped q = dq_stopped (pool_deque p)"
    and tokens: "dq_sem q + (if holds_token t then 1 else 0) + (if dq_stopped q then 0 else n) =
      dq_sem (pool_deque p) + (if holds_token (pool_threads p ! i) then 1 else 0)"
    and msgs: "dq_messages (pool_deque p) = ms @ dq_messages q" "length ms = n" "dq_stopped q \<Longrightarrow> n = 0"
  shows "pool_inv (set_thread i t (p\<lparr>pool_deque := q, pool_taken := pool_taken p @ ms\<rparr>))"
proof -
  let ?p = "p\<lparr>pool_deque := q, pool_taken := pool_taken p @ ms\<rparr>"
  have i': "i < length (pool_threads ?p)" using i by simp
  note counts = count_set_thread [OF i', of holds_token t] count_set_thread [OF i', of "\<lambda>t. t = Exited" t]
  have "Broken \<notin> set (pool_threads (set_thread i t ?p))"
    using inv t by (intro threads_set_thread) (auto simp: pool_inv_def)
  moreover have "Exited \<notin> set (pool_threads (set_thread i t ?p))" if "\<not> dq_stopped q"
    using inv t q that by (intro threads_set_thread) (auto simp: pool_inv_def)
  ultimately show ?thesis
    using inv counts t q tokens msgs
    by (cases "dq_stopped q") (simp_all add: pool_inv_def pool_tokens_def split: if_splits)
qed

lemma pool_inv_exit:
  assumes inv: "pool_inv p" and i: "i < length (pool_threads p)" "pool_threads p ! i = Woken"
    and q: "dq_stopped (pool_deque p)"
  shows "pool_inv (set_thread i Exited p)"
proof -
  have "Broken \<notin> set (pool_threads (set_thread i Exited p))"
    using inv by (intro threads_set_thread) (auto simp: pool_inv_def)
  then show ?thesis
    using inv q count_set_thread [OF i(1), of holds_token Exited]
      count_set_thread [OF i(1), of "\<lambda>t. t = Exited" Exited] i(2)
    by (simp add: pool_inv_def pool_tokens_def holds_token_def)
qed

lemma pool_token_message:
  assumes "pool_inv p" and "i < length (pool_threads p)" and "holds_token (pool_threads p ! i)"
    and "\<not> dq_stopped (pool_deque p)"
  shows "dq_messages (pool_deque p) \<noteq> []"
proof -
  have "0 < count_threads holds_token p"
    unfolding count_threads_def using assms(2,3)
    by (metis filter_empty_conv length_greater_0_conv nth_mem)
  then show ?thesis
    using assms(1,4) by (auto simp: pool_inv_def pool_tokens_def)
qed

lemma pool_inv_step:
  assumes "pool_step per_worker p p'" and inv: "pool_inv p"
  shows "pool_inv p'"
  using assms(1)
proof cases
  case (push m q)
  then show ?thesis
    using inv by (auto simp: dq_push_locked_def pool_inv_def pool_tokens_def count_threads_def split: if_splits)
next
  case stop
  then show ?thesis
    using inv by (auto simp: dq_stop_locked_def pool_inv_def pool_tokens_def count_threads_def)
next
  case (post n)
  then show ?thesis
    using inv by (auto simp: dq_post_def pool_inv_def pool_tokens_def count_threads_def)
next
  case (try_take i r q)
  show ?thesis
  proof (cases "dq_stopped (pool_deque p)")
    case True
    then show ?thesis
      using try_take pool_inv_move [OF inv try_take(2), of GotNothing q 0 "[]"]
      by (auto simp: dq_try_pop_locked_def dq_post_def after_take_def holds_token_def)
  next
    case False
    then obtain m ms where "dq_messages (pool_deque p) = m # ms"
      using pool_token_message [OF inv try_take(2)] try_take by (cases "dq_messages (pool_deque p)") (auto simp: holds_token_def)
    then show ?thesis
      using try_take False pool_inv_move [OF inv try_take(2), of "Running m" q 1 "[m]"]
      by (auto simp: dq_try_pop_locked_def dq_front_def after_take_def holds_token_def)
  qed
next
  case (take i r q)
  show ?thesis
  proof (cases "dq_stopped (pool_deque p)")
    case True
    then show ?thesis
      using take pool_inv_exit [OF inv take(2,3) True]
      by (auto simp: dq_pop_locked_def after_take_def)
  next
    case False
    then obtain m ms where "dq_messages (pool_deque p) = m # ms"
      using pool_token_message [OF inv take(2)] take by (cases "dq_messages (pool_deque p)") (auto simp: holds_token_def)
    then show ?thesis
      using take False pool_inv_move [OF inv take(2), of "Running m" q 1 "[m]"]
      by (auto simp: dq_pop_locked_def dq_front_def after_take_def holds_token_def)
  qed
next
  case (try_none i)
  then show ?thesis
    using pool_inv_move [OF inv try_none(3), of GotNothing "pool_deque p" 0 "[]"]
    by (auto simp: holds_token_def)
next
  case (try_token i n)
  then show ?thesis
    using pool_inv_move [OF inv try_token(3), of Trying "(pool_deque p)\<lparr>dq_sem := n\<rparr>" 0 "[]"]
    by (auto simp: holds_token_def)
next
  case (drain i)
  then show ?thesis
    using pool_inv_move [OF inv drain(2), of Looping "pool_deque p" 0 "[]"]
    by (auto simp: holds_token_def)
next
  case (park i)
  then show ?thesis
    using pool_inv_move [OF inv park(2), of Parked "pool_deque p" 0 "[]"]
    by (auto simp: holds_token_def split: if_splits)
next
  case (wake i n)
  then show ?thesis
    using pool_inv_move [OF inv wake(2), of Woken "(pool_deque p)\<lparr>dq_sem := n\<rparr>" 0 "[]"]
    by (auto simp: holds_token_def)
next
  case (finish i m)
  then show ?thesis
    using pool_inv_move [OF inv finish(2), of Looping "pool_deque p" 0 "[]"]
    by (auto simp: holds_token_def)
qed

lemma pool_inv_reachable: "pool_reachable per_worker num p \<Longrightarrow> pool_inv p"
proof (induction rule: pool_reachable.induct)
  case start
  then show ?case
    by (simp add: pool_make_def pool_inv_def deque_make_def pool_tokens_def count_threads_def
        holds_token_def)
next
  case (step p p')
  then show ?case using pool_inv_step by blast
qed

lemma length_not_token:
  "length (filter (\<lambda>t. \<not> holds_token t) ts) =
     length (filter (\<lambda>t. t = Exited) ts) + length (filter (\<lambda>t. \<not> holds_token t \<and> t \<noteq> Exited) ts)"
  by (induction ts) (auto simp: holds_token_def)

lemma pool_parked_token:
  assumes inv: "pool_inv p" and i: "i < length (pool_threads p)" "pool_threads p ! i = Parked"
    and stopped: "dq_stopped (pool_deque p)"
  shows "0 < dq_sem (pool_deque p) + pool_owed p"
proof -
  let ?ts = "pool_threads p"
  have "length ?ts = length (filter holds_token ?ts) + length (filter (\<lambda>t. \<not> holds_token t) ?ts)"
    by (simp add: sum_length_filter_compl)
  moreover have "length (filter (\<lambda>t. \<not> holds_token t) ?ts) =
      length (filter (\<lambda>t. t = Exited) ?ts) + length (filter (\<lambda>t. \<not> holds_token t \<and> t \<noteq> Exited) ?ts)"
    by (rule length_not_token)
  moreover have "Parked \<in> set ?ts"
    using i by (metis nth_mem)
  then have "filter (\<lambda>t. \<not> holds_token t \<and> t \<noteq> Exited) ?ts \<noteq> []"
    by (force simp: filter_empty_conv holds_token_def)
  then have "0 < length (filter (\<lambda>t. \<not> holds_token t \<and> t \<noteq> Exited) ?ts)"
    by (rule length_greater_0_conv [THEN iffD2])
  moreover have "length ?ts \<le> dq_sem (pool_deque p) + pool_owed p + length (filter holds_token ?ts) +
      length (filter (\<lambda>t. t = Exited) ?ts)"
    using inv stopped by (simp add: pool_inv_def pool_tokens_def count_threads_def)
  ultimately show ?thesis by linarith
qed

text \<open>Property C12: however pushes, posts, the stop and the threads of a pool interleave, no thread
  ever takes from an empty queue, the messages are taken in the order of their pushes and each
  once, an unstopped pool has a token for every queued message, and after a stop a thread that
  waits for a message always has a token that wakes it, so that all threads end.\<close>

theorem thread_pool_safe:
  assumes "pool_reachable per_worker num p"
  shows "Broken \<notin> set (pool_threads p) \<and>
    pool_pushed p = pool_taken p @ dq_messages (pool_deque p) \<and>
    (\<not> dq_stopped (pool_deque p) \<longrightarrow> length (dq_messages (pool_deque p)) = pool_tokens p) \<and>
    (dq_stopped (pool_deque p) \<and> Parked \<in> set (pool_threads p) \<longrightarrow>
      0 < dq_sem (pool_deque p) + pool_owed p)"
  using pool_inv_reachable [OF assms] pool_parked_token [of p]
  by (auto simp: pool_inv_def in_set_conv_nth)

definition one_message :: "nat pool" where
  "one_message = \<lparr>pool_deque = \<lparr>dq_messages = [7], dq_sem = 0, dq_stopped = False\<rparr>,
     pool_owed = 1, pool_threads = [Looping], pool_pushed = [7], pool_taken = []\<rparr>"

lemma one_message_reachable: "pool_reachable True 1 one_message"
proof -
  have "dq_push_locked 7 (pool_deque (pool_make 1)) =
      Inr \<lparr>dq_messages = [7 :: nat], dq_sem = 0, dq_stopped = False\<rparr>"
    by (simp add: pool_make_def deque_make_def dq_push_locked_def)
  from pool_reachable.step [OF pool_reachable.start pool_step.push [OF this]] show ?thesis
    by (simp add: pool_make_def one_message_def)
qed

theorem thread_pool_safe_witness: "pool_tokens one_message = 1"
  using thread_pool_safe [OF one_message_reachable] by (simp add: one_message_def)

end
