(* ===== verification/Pools.thy ===== *)
theory Pools
  imports Workloads ThreadPool
begin

text \<open>
  The streamer's pools of workers (\<open>streamer/impl/pools\<close>): one for each kind of backend, made on
  first use, the object-storage pool locked to the plugin of the first submission that needs it.
\<close>

section \<open>A pool and its start\<close>

datatype backend_kind = FileSystem | ObjectStorage

datatype backend_plugin = PoolS3 | PoolGCS | PoolAzure

definition plugin_value :: "backend_plugin \<Rightarrow> int" where
  "plugin_value p = (case p of PoolS3 \<Rightarrow> 0 | PoolGCS \<Rightarrow> 1 | PoolAzure \<Rightarrow> 2)"

record thread_pool =
  tp_size :: nat
  tp_deque :: "workload deque"

text \<open>Making a pool; \<open>None\<close> is a start that never returns.\<close>

definition thread_pool_make :: "(nat \<Rightarrow> bool) \<Rightarrow> nat \<Rightarrow> (exn + thread_pool) option" where
  "thread_pool_make spawn n =
     (case pool_start spawn n of
        None \<Rightarrow> None
      | Some (Inl e) \<Rightarrow> Some (Inl e)
      | Some (Inr u) \<Rightarrow> Some (Inr \<lparr>tp_size = n, tp_deque = deque_make\<rparr>))"

text \<open>A push copies nothing, but the node of the queue may not be allocated (\<open>oom\<close>).\<close>

definition thread_pool_push :: "bool \<Rightarrow> workload \<Rightarrow> thread_pool \<Rightarrow> exn + thread_pool" where
  "thread_pool_push oom w tp =
     (if oom then Inl StdException
      else case dq_push w (tp_deque tp) of
        Inl e \<Rightarrow> Inl e
      | Inr q \<Rightarrow> Inr (tp\<lparr>tp_deque := q\<rparr>))"

record backend_pools =
  bp_filesystem_size :: uint
  bp_object_storage_size :: uint
  bp_filesystem_pool :: "thread_pool option"
  bp_object_storage_pool :: "thread_pool option"
  bp_plugin :: "backend_plugin option"
  bp_ready_plugin :: int

definition backend_pools_make :: "uint \<Rightarrow> uint \<Rightarrow> backend_pools" where
  "backend_pools_make filesystem_size object_storage_size =
     \<lparr>bp_filesystem_size = filesystem_size, bp_object_storage_size = object_storage_size,
      bp_filesystem_pool = None, bp_object_storage_pool = None, bp_plugin = None,
      bp_ready_plugin = -1\<rparr>"

text \<open>
  \<open>push\<close>. The once-flag of the file-system pool is set exactly when the pool is there: making it
  may throw, and the flag then stays unset. \<open>None\<close> is a push that never returns, from inside the
  \<open>call_once\<close> in which the pool fails to start.
\<close>

definition pools_push ::
  "(nat \<Rightarrow> bool) \<Rightarrow> bool \<Rightarrow> backend_kind \<Rightarrow> workload \<Rightarrow> backend_pools \<Rightarrow>
    ((exn + unit) \<times> backend_pools) option" where
  "pools_push spawn oom kind w bp =
     (case kind of
        ObjectStorage \<Rightarrow>
          (case bp_object_storage_pool bp of
             None \<Rightarrow> Some (Inl StdException, bp)
           | Some tp \<Rightarrow>
               (case thread_pool_push oom w tp of
                  Inl e \<Rightarrow> Some (Inl e, bp)
                | Inr tp' \<Rightarrow> Some (Inr (), bp\<lparr>bp_object_storage_pool := Some tp'\<rparr>)))
      | FileSystem \<Rightarrow>
          (case (case bp_filesystem_pool bp of
                   Some tp \<Rightarrow> Some (Inr tp)
                 | None \<Rightarrow> thread_pool_make spawn (unat (bp_filesystem_size bp))) of
             None \<Rightarrow> None
           | Some (Inl e) \<Rightarrow> Some (Inl e, bp)
           | Some (Inr tp) \<Rightarrow>
               (case thread_pool_push oom w tp of
                  Inl e \<Rightarrow> Some (Inl e, bp\<lparr>bp_filesystem_pool := Some tp\<rparr>)
                | Inr tp' \<Rightarrow> Some (Inr (), bp\<lparr>bp_filesystem_pool := Some tp'\<rparr>))))"

text \<open>
  \<open>lock_object_plugin\<close>: the load of \<open>_ready_plugin\<close> without the mutex, and the rest under it.
  \<open>None\<close> is a call that never returns, and holds the mutex.
\<close>

definition lock_fast :: "backend_plugin \<Rightarrow> backend_pools \<Rightarrow> response_code option" where
  "lock_fast p bp =
     (let ready = bp_ready_plugin bp in
      if ready \<noteq> -1 then Some (if ready \<noteq> plugin_value p then UnsupportedBackendMix else Success)
      else None)"

definition lock_slow ::
  "(nat \<Rightarrow> bool) \<Rightarrow> backend_plugin \<Rightarrow> backend_pools \<Rightarrow>
    ((exn + response_code) \<times> backend_pools) option" where
  "lock_slow spawn p bp =
     (case bp_plugin bp of
        None \<Rightarrow>
          (case thread_pool_make spawn (unat (bp_object_storage_size bp)) of
             None \<Rightarrow> None
           | Some (Inl e) \<Rightarrow> Some (Inl e, bp)
           | Some (Inr tp) \<Rightarrow>
               Some (Inr Success, bp\<lparr>bp_object_storage_pool := Some tp, bp_plugin := Some p,
                  bp_ready_plugin := plugin_value p\<rparr>))
      | Some locked \<Rightarrow> Some (Inr (if locked \<noteq> p then UnsupportedBackendMix else Success), bp))"

definition pools_lock_object_plugin ::
  "(nat \<Rightarrow> bool) \<Rightarrow> backend_plugin \<Rightarrow> backend_pools \<Rightarrow>
    ((exn + response_code) \<times> backend_pools) option" where
  "pools_lock_object_plugin spawn p bp =
     (case lock_fast p bp of Some c \<Rightarrow> Some (Inr c, bp) | None \<Rightarrow> lock_slow spawn p bp)"

definition pools_created :: "backend_pools \<Rightarrow> nat" where
  "pools_created bp =
     (if bp_filesystem_pool bp \<noteq> None then 1 else 0) + (if bp_object_storage_pool bp \<noteq> None then 1 else 0)"

section \<open>The lock\<close>

text \<open>The lock is either not there at all, or complete: plugin, gate and pool.\<close>

definition lock_ok :: "backend_pools \<Rightarrow> bool" where
  "lock_ok bp \<longleftrightarrow>
     (case bp_plugin bp of
        None \<Rightarrow> bp_ready_plugin bp = -1 \<and> bp_object_storage_pool bp = None
      | Some p \<Rightarrow> bp_ready_plugin bp = plugin_value p \<and> bp_object_storage_pool bp \<noteq> None)"

lemma plugin_value_inj [simp]: "plugin_value p = plugin_value q \<longleftrightarrow> p = q"
  by (cases p; cases q) (simp_all add: plugin_value_def)

lemma plugin_value_ready [simp]: "plugin_value p \<noteq> -1"
  by (cases p) (simp_all add: plugin_value_def)

lemma pools_make_ok: "lock_ok (backend_pools_make m n)"
  by (simp add: lock_ok_def backend_pools_make_def)

lemma thread_pool_make_Some:
  "thread_pool_make spawn n = Some r \<Longrightarrow>
    r = Inl StdException \<or> r = Inr \<lparr>tp_size = n, tp_deque = deque_make\<rparr>"
  by (auto simp: thread_pool_make_def split: option.splits sum.splits dest: pool_start_cases)

lemma thread_pool_make_None: "thread_pool_make spawn n = None \<longleftrightarrow> \<not> starts_cleanly spawn n"
  using pool_start_returns [of spawn n] by (auto simp: thread_pool_make_def split: option.splits sum.splits)

lemma pools_push_keeps:
  "pools_push spawn oom kind w bp = Some (r, bp') \<Longrightarrow>
    bp_plugin bp' = bp_plugin bp \<and> bp_object_storage_size bp' = bp_object_storage_size bp \<and>
    bp_filesystem_size bp' = bp_filesystem_size bp \<and> (lock_ok bp \<longrightarrow> lock_ok bp')"
  by (auto simp: lock_ok_def pools_push_def
      split: backend_kind.splits option.splits sum.splits)

lemma pools_push_returns:
  "pools_push spawn oom kind w bp = None \<longleftrightarrow>
    kind = FileSystem \<and> bp_filesystem_pool bp = None \<and> \<not> starts_cleanly spawn (unat (bp_filesystem_size bp))"
  by (auto simp: pools_push_def split: backend_kind.splits option.splits sum.splits
      simp flip: thread_pool_make_None)

lemma lock_fast_spec:
  assumes "lock_ok bp"
  shows "lock_fast p bp = (case bp_plugin bp of
    None \<Rightarrow> None | Some q \<Rightarrow> Some (if q \<noteq> p then UnsupportedBackendMix else Success))"
  using assms by (auto simp: lock_ok_def lock_fast_def split: option.splits)

lemma lock_slow_ok:
  assumes "lock_slow spawn p bp = Some (r, bp')" and "lock_ok bp"
  shows "lock_ok bp'" and "bp_plugin bp \<noteq> None \<Longrightarrow> bp' = bp"
    and "r = Inr Success \<Longrightarrow> bp_plugin bp' = Some p"
    and "r = Inr UnsupportedBackendMix \<Longrightarrow> \<exists>q. bp_plugin bp' = Some q \<and> q \<noteq> p"
    and "bp_plugin bp = None \<Longrightarrow> \<forall>c. r \<noteq> Inr c \<Longrightarrow> bp' = bp"
    and "r = Inl StdException \<or> r = Inr Success \<or> r = Inr UnsupportedBackendMix"
    and "bp_object_storage_size bp' = bp_object_storage_size bp"
    and "r = Inl e \<Longrightarrow> bp' = bp \<and> bp_plugin bp = None"
  using assms
  by (auto simp: lock_slow_def lock_ok_def split: option.splits sum.splits if_splits
      dest!: thread_pool_make_Some)

lemma lock_slow_returns:
  "lock_slow spawn p bp = None \<longleftrightarrow>
    bp_plugin bp = None \<and> \<not> starts_cleanly spawn (unat (bp_object_storage_size bp))"
  by (auto simp: lock_slow_def split: option.splits sum.splits simp flip: thread_pool_make_None)

section \<open>Submitters that race for the lock\<close>

text \<open>
  A submitter whose pool start never returns is \<open>LockHung\<close>, inside the critical section of the
  mutex; every other submitter holds the mutex only within a step. A dispatch that does not
  return is no step: what it leaves undone changes neither the lock nor its pool.
\<close>

datatype submitter =
    LockStart backend_plugin
  | LockSlow backend_plugin
  | LockHung backend_plugin
  | LockDone backend_plugin "exn + response_code"

definition mutex_free :: "submitter list \<Rightarrow> bool" where
  "mutex_free ss \<longleftrightarrow> (\<forall>p. LockHung p \<notin> set ss)"

inductive lock_step ::
  "backend_pools \<times> submitter list \<Rightarrow> backend_pools \<times> submitter list \<Rightarrow> bool" where
  fast: "i < length ss \<Longrightarrow> ss ! i = LockStart p \<Longrightarrow> lock_fast p bp = Some c \<Longrightarrow>
    lock_step (bp, ss) (bp, ss[i := LockDone p (Inr c)])"
| miss: "i < length ss \<Longrightarrow> ss ! i = LockStart p \<Longrightarrow> lock_fast p bp = None \<Longrightarrow>
    lock_step (bp, ss) (bp, ss[i := LockSlow p])"
| slow: "i < length ss \<Longrightarrow> ss ! i = LockSlow p \<Longrightarrow> mutex_free ss \<Longrightarrow>
    lock_slow spawn p bp = Some (r, bp') \<Longrightarrow>
    lock_step (bp, ss) (bp', ss[i := LockDone p r])"
| hang: "i < length ss \<Longrightarrow> ss ! i = LockSlow p \<Longrightarrow> mutex_free ss \<Longrightarrow> lock_slow spawn p bp = None \<Longrightarrow>
    lock_step (bp, ss) (bp, ss[i := LockHung p])"
| dispatch: "pools_push spawn oom kind w bp = Some (r, bp') \<Longrightarrow> lock_step (bp, ss) (bp', ss)"

inductive_cases lock_stepE: "lock_step (bp, ss) (bp', ss')"

inductive lock_reachable ::
  "backend_pools \<Rightarrow> backend_plugin list \<Rightarrow> backend_pools \<times> submitter list \<Rightarrow> bool" for bp0 ps where
  start: "lock_reachable bp0 ps (bp0, map LockStart ps)"
| step: "lock_reachable bp0 ps s \<Longrightarrow> lock_step s s' \<Longrightarrow> lock_reachable bp0 ps s'"

definition submitter_ok :: "backend_plugin option \<Rightarrow> submitter \<Rightarrow> bool" where
  "submitter_ok locked s \<longleftrightarrow>
     (case s of
        LockDone p (Inr c) \<Rightarrow>
          (c = Success \<and> locked = Some p) \<or>
          (c = UnsupportedBackendMix \<and> (\<exists>q. locked = Some q \<and> q \<noteq> p))
      | _ \<Rightarrow> True)"

definition lock_inv :: "uint \<Rightarrow> backend_pools \<times> submitter list \<Rightarrow> bool" where
  "lock_inv n s \<longleftrightarrow> lock_ok (fst s) \<and> (\<forall>t\<in>set (snd s). submitter_ok (bp_plugin (fst s)) t) \<and>
     bp_object_storage_size (fst s) = n \<and> (bp_plugin (fst s) \<noteq> None \<longrightarrow> mutex_free (snd s))"

lemma mutex_free_update: "mutex_free ss \<Longrightarrow> \<forall>p. t \<noteq> LockHung p \<Longrightarrow> mutex_free (ss[i := t])"
  using set_update_subset_insert [of ss i t] by (auto simp: mutex_free_def)

lemma lock_inv_update:
  assumes "\<forall>t\<in>set ss. submitter_ok l t" and "submitter_ok l' t'" and "l' = l \<or> l = None"
  shows "\<forall>t\<in>set (ss[i := t']). submitter_ok l' t"
proof
  fix t assume "t \<in> set (ss[i := t'])"
  then have "t = t' \<or> t \<in> set ss" by (meson insertE set_update_subset_insert subsetD)
  then show "submitter_ok l' t"
    using assms by (auto simp: submitter_ok_def split: submitter.splits sum.splits)
qed

lemma lock_inv_step:
  assumes "lock_step s s'" and "lock_inv n s"
  shows "lock_inv n s'"
  using assms(1)
proof cases
  case (fast i ss p bp c)
  then have "submitter_ok (bp_plugin bp) (LockDone p (Inr c))"
    using assms(2) lock_fast_spec [of bp p]
    by (auto simp: lock_inv_def submitter_ok_def split: option.splits if_splits)
  then show ?thesis
    using fast assms(2) lock_inv_update [of ss "bp_plugin bp"]
    by (auto simp: lock_inv_def intro: mutex_free_update)
next
  case (miss i ss p bp)
  then show ?thesis
    using assms(2) lock_inv_update [of ss "bp_plugin bp" "bp_plugin bp" "LockSlow p"]
    by (auto simp: lock_inv_def submitter_ok_def intro: mutex_free_update)
next
  case (slow i ss p spawn bp r bp')
  have ok: "lock_ok bp" using slow assms(2) by (simp add: lock_inv_def)
  note facts = lock_slow_ok [OF slow(6) ok]
  have "submitter_ok (bp_plugin bp') (LockDone p r)"
    using facts(3,4,6) by (auto simp: submitter_ok_def)
  moreover have "bp_plugin bp' = bp_plugin bp \<or> bp_plugin bp = None"
    using facts(2) by auto
  ultimately show ?thesis
    using slow assms(2) facts(1,2,7) lock_inv_update [of ss "bp_plugin bp" "bp_plugin bp'" "LockDone p r"]
    by (auto simp: lock_inv_def intro: mutex_free_update)
next
  case (hang i ss p spawn bp)
  then show ?thesis
    using assms(2) lock_slow_returns [of spawn p bp]
      lock_inv_update [of ss "bp_plugin bp" "bp_plugin bp" "LockHung p"]
    by (auto simp: lock_inv_def submitter_ok_def)
next
  case (dispatch spawn oom kind w bp r bp' ss)
  then show ?thesis
    using assms(2) pools_push_keeps [OF dispatch(3)] by (auto simp: lock_inv_def)
qed

lemma lock_inv_reachable:
  assumes "lock_reachable bp0 ps s" and "lock_ok bp0"
  shows "lock_inv (bp_object_storage_size bp0) s"
  using assms(1)
proof induction
  case start
  then show ?case
    using assms(2) by (auto simp: lock_inv_def submitter_ok_def mutex_free_def)
next
  case (step s s')
  then show ?case using lock_inv_step by blast
qed

text \<open>While a submitter hangs there is no lock, and nobody gets past the mutex any more.\<close>

lemma hung_stuck:
  assumes "lock_inv n (bp, ss)" and hung: "LockHung q \<in> set ss" and "lock_step (bp, ss) (bp', ss')"
  shows "LockHung q \<in> set ss' \<and> (\<forall>p r. LockDone p r \<in> set ss' \<longrightarrow> LockDone p r \<in> set ss)"
proof -
  have none: "bp_plugin bp = None" and ok: "lock_ok bp"
    using assms(1) hung by (auto simp: lock_inv_def mutex_free_def)
  have upd: "LockHung q \<in> set (ss[i := t])" if "i < length ss" "ss ! i \<noteq> LockHung q" for i t
    using that hung by (metis in_set_conv_nth length_list_update nth_list_update_neq)
  have fast: "lock_fast p bp = None" for p
    using lock_fast_spec [OF ok] none by simp
  have sub: "LockDone p r \<in> set ss" if "LockDone p r \<in> set (ss[i := LockSlow p'])" for p r i p'
    using that set_update_subset_insert [of ss i "LockSlow p'"] by auto
  have held: "\<not> mutex_free ss" using hung by (auto simp: mutex_free_def)
  from assms(3) show ?thesis
    by (elim lock_stepE) (use hung in \<open>auto simp: fast held intro: upd dest: sub\<close>)
qed

text \<open>Property C13: whichever way submitters race for the lock of the object-storage pool, those told
  \<open>Success\<close> all asked for the one locked plugin and find its pool made, and those told
  \<open>UnsupportedBackendMix\<close> asked for another one; a lock always comes with its pool. A submitter under
  the mutex gets an exception only when not even the first thread of the pool can be started, and
  then leaves everything as it was, so that the next one tries again; and it does not return at all
  exactly when a later thread cannot be started. It then hangs for ever with the mutex: no
  submitter has been told \<open>Success\<close> or \<open>UnsupportedBackendMix\<close>, and none gets any answer from then
  on.\<close>

theorem plugin_locked_once:
  assumes "lock_reachable (backend_pools_make m n) ps (bp, ss)"
  shows "(\<forall>p. LockDone p (Inr Success) \<in> set ss \<longrightarrow>
      bp_plugin bp = Some p \<and> bp_object_storage_pool bp \<noteq> None) \<and>
    (\<forall>p. LockDone p (Inr UnsupportedBackendMix) \<in> set ss \<longrightarrow> (\<exists>q. bp_plugin bp = Some q \<and> q \<noteq> p)) \<and>
    (\<forall>p c. LockDone p (Inr c) \<in> set ss \<longrightarrow> c = Success \<or> c = UnsupportedBackendMix) \<and>
    (bp_plugin bp = None \<longleftrightarrow> bp_object_storage_pool bp = None) \<and>
    (\<forall>spawn p e bp'. lock_slow spawn p bp = Some (Inl e, bp') \<longrightarrow>
      bp_plugin bp = None \<and> bp' = bp \<and> \<not> spawn 0) \<and>
    (\<forall>spawn p. lock_slow spawn p bp = None \<longleftrightarrow>
      bp_plugin bp = None \<and> spawn 0 \<and> (\<exists>i<unat n. \<not> spawn i)) \<and>
    (\<forall>q. LockHung q \<in> set ss \<longrightarrow> bp_plugin bp = None \<and> (\<forall>p c. LockDone p (Inr c) \<notin> set ss) \<and>
      (\<forall>bp' ss'. lock_step (bp, ss) (bp', ss') \<longrightarrow>
        LockHung q \<in> set ss' \<and> (\<forall>p r. LockDone p r \<in> set ss' \<longrightarrow> LockDone p r \<in> set ss)))"
proof -
  have inv: "lock_inv n (bp, ss)"
    using lock_inv_reachable [OF assms(1) pools_make_ok] by (simp add: backend_pools_make_def)
  then have ok: "lock_ok bp" and size: "bp_object_storage_size bp = n"
    by (simp_all add: lock_inv_def)
  have told: "submitter_ok (bp_plugin bp) (LockDone p r)" if "LockDone p r \<in> set ss" for p r
    using inv that by (auto simp: lock_inv_def)
  then have success: "bp_plugin bp = Some p" if "LockDone p (Inr Success) \<in> set ss" for p
    using that by (force simp: submitter_ok_def)
  have mix: "\<exists>q. bp_plugin bp = Some q \<and> q \<noteq> p" if "LockDone p (Inr UnsupportedBackendMix) \<in> set ss" for p
    using told [OF that] by (simp add: submitter_ok_def)
  have code: "(c = Success \<or> c = UnsupportedBackendMix) \<and> bp_plugin bp \<noteq> None"
    if "LockDone p (Inr c) \<in> set ss" for p c
    using told [OF that] by (auto simp: submitter_ok_def)
  have hung: "bp_plugin bp = None" if "LockHung q \<in> set ss" for q
    using inv that by (auto simp: lock_inv_def mutex_free_def)
  have error: "bp_plugin bp = None \<and> bp' = bp \<and> \<not> spawn 0"
    if "lock_slow spawn p bp = Some (Inl e, bp')" for spawn p e bp'
    using lock_slow_ok(8) [OF that ok] that
    by (auto simp: lock_slow_def thread_pool_make_def pool_start_def split: option.splits if_splits)
  have hang: "lock_slow spawn p bp = None \<longleftrightarrow> bp_plugin bp = None \<and> spawn 0 \<and> (\<exists>i<unat n. \<not> spawn i)"
    for spawn p
    by (auto simp: lock_slow_returns size starts_cleanly_def list_all_iff)
  have pool: "bp_plugin bp = None \<longleftrightarrow> bp_object_storage_pool bp = None"
    using ok by (auto simp: lock_ok_def split: option.splits)
  have "\<forall>p. LockDone p (Inr Success) \<in> set ss \<longrightarrow> bp_plugin bp = Some p \<and> bp_object_storage_pool bp \<noteq> None"
    using success pool by fastforce
  moreover have "\<forall>q. LockHung q \<in> set ss \<longrightarrow> bp_plugin bp = None \<and> (\<forall>p c. LockDone p (Inr c) \<notin> set ss) \<and>
      (\<forall>bp' ss'. lock_step (bp, ss) (bp', ss') \<longrightarrow>
        LockHung q \<in> set ss' \<and> (\<forall>p r. LockDone p r \<in> set ss' \<longrightarrow> LockDone p r \<in> set ss))"
    using hung code hung_stuck [OF inv] by blast
  ultimately show ?thesis
    using mix code pool error hang by blast
qed

text \<open>
  Two submitters: the first one's plugin is locked, the other's refused; and, when only the first of
  the threads can be started, the first hangs and the other waits.
\<close>

definition sample_pool_locked :: backend_pools where
  "sample_pool_locked = (backend_pools_make 1 2)\<lparr>bp_object_storage_pool :=
     Some \<lparr>tp_size = 2, tp_deque = deque_make\<rparr>, bp_plugin := Some PoolS3, bp_ready_plugin := 0\<rparr>"

lemma lock_example:
  "lock_reachable (backend_pools_make 1 2) [PoolS3, PoolGCS] (backend_pools_make 1 2, [LockSlow PoolS3, LockSlow PoolGCS])"
  "lock_reachable (backend_pools_make 1 2) [PoolS3, PoolGCS]
     (sample_pool_locked, [LockDone PoolS3 (Inr Success), LockDone PoolGCS (Inr UnsupportedBackendMix)])"
  "lock_reachable (backend_pools_make 1 2) [PoolS3, PoolGCS]
     (backend_pools_make 1 2, [LockHung PoolS3, LockSlow PoolGCS])"
proof -
  let ?bp = "backend_pools_make 1 2"
  note reach = lock_reachable.step [of ?bp "[PoolS3, PoolGCS]"]
  have miss: "lock_fast p ?bp = None" for p
    by (simp add: lock_fast_def backend_pools_make_def)
  have "lock_reachable ?bp [PoolS3, PoolGCS] (?bp, [LockStart PoolS3, LockStart PoolGCS])"
    using lock_reachable.start [of ?bp "[PoolS3, PoolGCS]"] by simp
  from reach [OF this lock_step.miss [of 0 _ PoolS3]] miss
  have "lock_reachable ?bp [PoolS3, PoolGCS] (?bp, [LockSlow PoolS3, LockStart PoolGCS])" by simp
  from reach [OF this lock_step.miss [of 1 _ PoolGCS]] miss
  show slow: "lock_reachable ?bp [PoolS3, PoolGCS] (?bp, [LockSlow PoolS3, LockSlow PoolGCS])" by simp
  have "lock_slow (\<lambda>i. True) PoolS3 ?bp = Some (Inr Success, sample_pool_locked)"
    by (simp add: lock_slow_def backend_pools_make_def thread_pool_make_def pool_start_def
        plugin_value_def sample_pool_locked_def list_all_iff)
  from reach [OF slow lock_step.slow [of 0 _ PoolS3, OF _ _ _ this]]
  have "lock_reachable ?bp [PoolS3, PoolGCS]
      (sample_pool_locked, [LockDone PoolS3 (Inr Success), LockSlow PoolGCS])"
    by (simp add: mutex_free_def)
  moreover have "lock_slow (\<lambda>i. True) PoolGCS sample_pool_locked =
      Some (Inr UnsupportedBackendMix, sample_pool_locked)"
    by (simp add: lock_slow_def sample_pool_locked_def)
  ultimately show "lock_reachable ?bp [PoolS3, PoolGCS]
      (sample_pool_locked, [LockDone PoolS3 (Inr Success), LockDone PoolGCS (Inr UnsupportedBackendMix)])"
    using reach [OF _ lock_step.slow [of 1 _ PoolGCS]] by (force simp: mutex_free_def)
  have "lock_slow (\<lambda>i. i = 0) PoolS3 ?bp = None"
    by (auto simp: lock_slow_returns backend_pools_make_def starts_cleanly_def list_all_iff)
  from reach [OF slow lock_step.hang [of 0 _ PoolS3, OF _ _ _ this]]
  show "lock_reachable ?bp [PoolS3, PoolGCS] (?bp, [LockHung PoolS3, LockSlow PoolGCS])"
    by (simp add: mutex_free_def)
qed

theorem plugin_locked_once_witness:
  "bp_plugin sample_pool_locked = Some PoolS3 \<and> bp_object_storage_pool sample_pool_locked \<noteq> None \<and>
   (\<exists>q. bp_plugin sample_pool_locked = Some q \<and> q \<noteq> PoolGCS) \<and>
   \<not> lock_step (backend_pools_make 1 2, [LockHung PoolS3, LockSlow PoolGCS])
       (sample_pool_locked, [LockHung PoolS3, LockDone PoolGCS (Inr Success)])"
proof -
  have "\<forall>bp' ss'. lock_step (backend_pools_make 1 2, [LockHung PoolS3, LockSlow PoolGCS]) (bp', ss') \<longrightarrow>
      (\<forall>p r. LockDone p r \<in> set ss' \<longrightarrow> LockDone p r \<in> set [LockHung PoolS3, LockSlow PoolGCS])"
    using plugin_locked_once [OF lock_example(3)] by simp
  from this [rule_format, of sample_pool_locked "[LockHung PoolS3, LockDone PoolGCS (Inr Success)]"
      PoolGCS "Inr Success"]
  show ?thesis
    using plugin_locked_once [OF lock_example(2)] by auto
qed

end
