(* ===== verification/FdLimit.thy ===== *)
theory FdLimit
  imports ResponseCodes Prelude
begin

text \<open>
  The limit on open files (\<open>utils/fdlimit\<close>): read, raised for the life of an object, restored at its
  end. The process's limits are a state, soft and hard; \<open>None\<close> when they cannot be read. Whether the
  system accepts new limits is a parameter.
\<close>

type_synonym rlimit = "size_t \<times> size_t"

definition get_cur_file_descriptors :: "rlimit option \<Rightarrow> size_t" where
  "get_cur_file_descriptors l = (case l of Some (cur, mx) \<Rightarrow> cur | None \<Rightarrow> 0)"

definition get_max_file_descriptors :: "rlimit option \<Rightarrow> size_t" where
  "get_max_file_descriptors l = (case l of Some (cur, mx) \<Rightarrow> mx | None \<Rightarrow> 0)"

definition set_rlimit :: "(rlimit \<Rightarrow> bool) \<Rightarrow> rlimit \<Rightarrow> rlimit option \<Rightarrow> bool \<times> rlimit option" where
  "set_rlimit accepts new l = (if accepts new then (True, Some new) else (False, l))"

record fd_limit_setter =
  fl_previous :: rlimit
  fl_valid :: bool

definition fd_limit_make ::
  "(rlimit \<Rightarrow> bool) \<Rightarrow> size_t \<Rightarrow> rlimit option \<Rightarrow> (exn + fd_limit_setter) \<times> rlimit option" where
  "fd_limit_make accepts new_limit l =
     (case l of
        None \<Rightarrow> (Inl StdException, l)
      | Some (cur, mx) \<Rightarrow>
          let lim = (if mx < new_limit then mx else new_limit) in
          (case set_rlimit accepts (lim, mx) l of
             (ok, l') \<Rightarrow>
               (if ok then Inr \<lparr>fl_previous = (cur, mx), fl_valid = True\<rparr> else Inl StdException, l')))"

definition fd_limit_destroy :: "(rlimit \<Rightarrow> bool) \<Rightarrow> fd_limit_setter \<Rightarrow> rlimit option \<Rightarrow> rlimit option" where
  "fd_limit_destroy accepts f l =
     (if fl_valid f then snd (set_rlimit accepts (fl_previous f) l) else l)"

text \<open>The move constructor: the new object, and what is left of the old one.\<close>

definition fd_limit_move :: "fd_limit_setter \<Rightarrow> fd_limit_setter \<times> fd_limit_setter" where
  "fd_limit_move f = (f, f\<lparr>fl_valid := False\<rparr>)"

text \<open>
  Move assignment between two objects of a store, from \<open>j\<close> onto \<open>i\<close>. What the target held before is
  overwritten: its own previous limit is not put back first. Assignment to itself does nothing.
\<close>

definition fd_limit_assign ::
  "nat \<Rightarrow> nat \<Rightarrow> (nat \<Rightarrow> fd_limit_setter) \<Rightarrow> nat \<Rightarrow> fd_limit_setter" where
  "fd_limit_assign i j s =
     (if i = j then s else s(i := s j, j := (s j)\<lparr>fl_valid := False\<rparr>))"

text \<open>Property C39: raising the limit never touches the hard limit and never exceeds it, and the end
  of the setter, also after it was moved from one object to another and whichever of the two ends
  first, puts the previous limits back exactly once. A move assignment carries the limits over
  in the same way, whatever the target held; but the limits of a target that was still in force are
  lost: with one setter made while another is in force, assigning the second onto the first leaves
  the first one's limit in place after both have ended.\<close>

theorem fd_limit_restored:
  assumes accepts: "\<forall>l. accepts l" and made: "fd_limit_make accepts n (Some (cur, mx)) = (Inr f, l)"
  shows "l = Some (min n mx, mx) \<and>
    (\<forall>a b. fd_limit_move f = (a, b) \<longrightarrow>
       fd_limit_destroy accepts b l = l \<and>
       fd_limit_destroy accepts a l = Some (cur, mx) \<and>
       fd_limit_destroy accepts b (fd_limit_destroy accepts a l) = Some (cur, mx)) \<and>
    (\<forall>s i j. s j = f \<and> i \<noteq> j \<longrightarrow>
       fd_limit_destroy accepts (fd_limit_assign i j s j) l = l \<and>
       fd_limit_destroy accepts (fd_limit_assign i j s i) l = Some (cur, mx)) \<and>
    (\<forall>s i. fd_limit_assign i i s = s) \<and>
    (\<forall>s i j g n' l' k k'. fd_limit_make accepts n' l = (Inr g, l') \<and> i \<noteq> j \<and> s i = f \<and> s j = g \<and>
       {k, k'} = {i, j} \<longrightarrow>
       fd_limit_destroy accepts (fd_limit_assign i j s k')
         (fd_limit_destroy accepts (fd_limit_assign i j s k) l') = Some (min n mx, mx))"
proof -
  have l: "l = Some (min n mx, mx)" and f: "f = \<lparr>fl_previous = (cur, mx), fl_valid = True\<rparr>"
    using assms by (auto simp: fd_limit_make_def set_rlimit_def Let_def min_def split: if_splits)
  have lost: "fd_limit_destroy accepts (fd_limit_assign i j s k')
      (fd_limit_destroy accepts (fd_limit_assign i j s k) l') = Some (min n mx, mx)"
    if "fd_limit_make accepts n' l = (Inr g, l')" "i \<noteq> j" "s i = f" "s j = g" "{k, k'} = {i, j}"
    for s :: "nat \<Rightarrow> fd_limit_setter" and i j k k' g n' l'
  proof -
    have "s j = \<lparr>fl_previous = (min n mx, mx), fl_valid = True\<rparr>"
      using that(1,4) l accepts
      by (auto simp: fd_limit_make_def set_rlimit_def Let_def split: if_splits)
    then show ?thesis
      using that(2,5) l accepts
      by (auto simp: fd_limit_destroy_def fd_limit_assign_def set_rlimit_def doubleton_eq_iff)
  qed
  have assigned: "fd_limit_destroy accepts (fd_limit_assign i j s j) l = l"
    "fd_limit_destroy accepts (fd_limit_assign i j s i) l = Some (cur, mx)"
    if "s j = f" "i \<noteq> j" for s :: "nat \<Rightarrow> fd_limit_setter" and i j
    using that f accepts by (simp_all add: set_rlimit_def fd_limit_destroy_def fd_limit_assign_def)
  have self: "fd_limit_assign i i s = s" for i s
    by (simp add: fd_limit_assign_def)
  have moved: "fd_limit_destroy accepts b l = l"
      "fd_limit_destroy accepts a l = Some (cur, mx)"
      "fd_limit_destroy accepts b (fd_limit_destroy accepts a l) = Some (cur, mx)"
    if "fd_limit_move f = (a, b)" for a b
    using that f accepts by (auto simp: set_rlimit_def fd_limit_move_def fd_limit_destroy_def)
  show ?thesis
    by (intro conjI allI impI; (elim conjE)?; rule l moved assigned self lost; assumption?)
qed

theorem fd_limit_restored_witness:
  "fd_limit_destroy (\<lambda>l. True) \<lparr>fl_previous = (1024, 4096), fl_valid = True\<rparr> (Some (2048, 4096)) =
     Some (1024, 4096)"
proof -
  have "fd_limit_make (\<lambda>l. True) 2048 (Some (1024, 4096)) =
      (Inr \<lparr>fl_previous = (1024, 4096), fl_valid = True\<rparr>, Some (2048, 4096))"
    by (simp add: fd_limit_make_def set_rlimit_def)
  from fd_limit_restored [OF _ this] show ?thesis
    by (simp add: fd_limit_move_def)
qed

end
