(* ===== verification/Submissions.thy ===== *)
theory Submissions
  imports StdMap ResponseCodes "HOL-Library.Signed_Division"
begin

text \<open>
  \<open>SubmissionsMgr\<close> (\<open>streamer/impl/submissions\<close>): ids of submissions and how many responses each
  still has to come. Time points are numbers of nanoseconds, read from the injected clock.
\<close>

record submission =
  sub_remaining :: uint
  sub_total_bytes :: size_t
  sub_submit_time :: int

record submissions_mgr =
  mgr_next_id :: submission_id
  mgr_submissions :: "(submission_id \<times> submission) list"

definition mgr_make :: submissions_mgr where
  "mgr_make = \<lparr>mgr_next_id = 1, mgr_submissions = []\<rparr>"

section \<open>Operations\<close>

text \<open>
  The loop of \<open>generate\<close>; \<open>None\<close> is a loop that does not end, because every sid but zero is live.
\<close>

partial_function (option) generate_loop ::
  "(submission_id \<Rightarrow> bool) \<Rightarrow> submission_id \<Rightarrow> (submission_id \<times> submission_id) option" where
  "generate_loop live next_id =
     (let (sid, next1) = (if next_id = 0 then (next_id + 1, next_id + 2) else (next_id, next_id + 1)) in
      if live sid then generate_loop live next1 else Some (sid, next1))"

declare generate_loop.simps [code]

definition mgr_live :: "submissions_mgr \<Rightarrow> submission_id \<Rightarrow> bool" where
  "mgr_live m sid \<longleftrightarrow> map_of (mgr_submissions m) sid \<noteq> None"

definition mgr_generate :: "submissions_mgr \<Rightarrow> (submission_id \<times> submissions_mgr) option" where
  "mgr_generate m =
     (case generate_loop (mgr_live m) (mgr_next_id m) of
        None \<Rightarrow> None
      | Some (sid, next1) \<Rightarrow> Some (sid, m\<lparr>mgr_next_id := next1\<rparr>))"

definition mgr_add ::
  "submission_id \<Rightarrow> uint \<Rightarrow> size_t \<Rightarrow> int \<Rightarrow> submissions_mgr \<Rightarrow> (exn + unit) \<times> submissions_mgr" where
  "mgr_add sid expected bytes now m =
     (case memplace sid \<lparr>sub_remaining = expected, sub_total_bytes = bytes, sub_submit_time = now\<rparr>
             (mgr_submissions m) of
        (subs, inserted) \<Rightarrow>
          (if inserted then Inr () else Inl StdException, m\<lparr>mgr_submissions := subs\<rparr>))"

datatype consume_result =
    Pending
  | Completed (res_total_bytes: size_t) (res_elapsed_ms: int) (res_throughput: size_t)

definition elapsed_ms :: "int \<Rightarrow> int \<Rightarrow> int" where
  "elapsed_ms start now = (now - start) sdiv 1000000"

text \<open>Bytes per second, in 64-bit arithmetic as the code computes them.\<close>

definition throughput_bps :: "size_t \<Rightarrow> int \<Rightarrow> size_t" where
  "throughput_bps bytes ms = (if 0 < ms then bytes * 1000 div word_of_int ms else 0)"

definition mgr_consume ::
  "submission_id \<Rightarrow> int \<Rightarrow> submissions_mgr \<Rightarrow> exn + consume_result \<times> submissions_mgr" where
  "mgr_consume sid now m =
     (case map_of (mgr_submissions m) sid of
        None \<Rightarrow> Inl StdException
      | Some sub \<Rightarrow>
          let remaining = sub_remaining sub - 1 in
          if remaining = 0 then
            let ms = elapsed_ms (sub_submit_time sub) now in
            Inr (Completed (sub_total_bytes sub) ms (throughput_bps (sub_total_bytes sub) ms),
                 m\<lparr>mgr_submissions := merase sid (mgr_submissions m)\<rparr>)
          else
            Inr (Pending, m\<lparr>mgr_submissions :=
              mput sid (sub\<lparr>sub_remaining := remaining\<rparr>) (mgr_submissions m)\<rparr>))"

definition mgr_size :: "submissions_mgr \<Rightarrow> nat" where
  "mgr_size m = length (mgr_submissions m)"

section \<open>Ids\<close>

lemma generate_loop_finds:
  assumes "next_id + of_nat k \<noteq> 0" and "\<not> live (next_id + of_nat k)"
  shows "\<exists>j\<le>k. generate_loop live next_id = Some (next_id + of_nat j, next_id + of_nat j + 1) \<and>
    next_id + of_nat j \<noteq> 0 \<and> \<not> live (next_id + of_nat j) \<and>
    (\<forall>i<j. next_id + of_nat i = 0 \<or> live (next_id + of_nat i))"
  using assms
proof (induction k arbitrary: next_id rule: less_induct)
  case (less k)
  note loop = generate_loop.simps [of live next_id] generate_loop.simps [of live 0]
  show ?case
  proof (cases "next_id = 0")
    case False
    show ?thesis
    proof (cases "live next_id")
      case False
      then show ?thesis
        using \<open>next_id \<noteq> 0\<close> by (intro exI [of _ 0]) (simp add: loop)
    next
      case True
      then obtain k' where k: "k = Suc k'"
        using less.prems by (cases k) auto
      have eq: "next_id + 1 + of_nat i = next_id + of_nat (Suc i)" for i by simp
      from less.IH [of k' "next_id + 1"] less.prems k obtain j where j: "j \<le> k'"
        "generate_loop live (next_id + 1) = Some (next_id + 1 + of_nat j, next_id + 1 + of_nat j + 1)"
        "next_id + 1 + of_nat j \<noteq> 0" "\<not> live (next_id + 1 + of_nat j)"
        "\<forall>i<j. next_id + 1 + of_nat i = 0 \<or> live (next_id + 1 + of_nat i)"
        unfolding eq by auto
      have "\<forall>i<Suc j. next_id + of_nat i = 0 \<or> live (next_id + of_nat i)"
        using j(5) True unfolding eq by (auto simp: less_Suc_eq_0_disj simp del: of_nat_Suc)
      then show ?thesis
        using j(1-4) True \<open>next_id \<noteq> 0\<close> k unfolding eq
        by (intro exI [of _ "Suc j"]) (simp add: loop del: of_nat_Suc)
    qed
  next
    case zero: True
    then obtain k' where k: "k = Suc k'"
      using less.prems by (cases k) auto
    show ?thesis
    proof (cases "live 1")
      case False
      then show ?thesis
        using zero k by (intro exI [of _ 1]) (simp add: loop)
    next
      case True
      then obtain k'' where k': "k' = Suc k''"
        using less.prems zero k by (cases k') auto
      have eq: "(2 :: 64 word) + of_nat i = of_nat (Suc (Suc i))" for i by simp
      from less.IH [of k'' "next_id + 2"] less.prems k k' zero obtain j where j: "j \<le> k''"
        "generate_loop live 2 = Some (2 + of_nat j, 2 + of_nat j + 1)"
        "(2 :: 64 word) + of_nat j \<noteq> 0" "\<not> live (2 + of_nat j)"
        "\<forall>i<j. (2 :: 64 word) + of_nat i = 0 \<or> live (2 + of_nat i)"
        unfolding eq by auto
      have "\<forall>i<Suc (Suc j). (of_nat i :: 64 word) = 0 \<or> live (of_nat i)"
        using j(5) True unfolding eq by (auto simp: less_Suc_eq_0_disj simp del: of_nat_Suc) auto
      then show ?thesis
        using j(1-4) True zero k k' unfolding eq
        by (intro exI [of _ "Suc (Suc j)"]) (simp add: loop del: of_nat_Suc)
    qed
  qed
qed

text \<open>Property C26: as long as some sid other than zero is free, \<open>generate\<close> returns one, the first free
  one from the counter on, and moves the counter just past it: it never returns zero or the sid of
  a live submission, also after the counter has wrapped around.\<close>

theorem generate_fresh:
  assumes "x \<noteq> 0" and "\<not> mgr_live m x"
  shows "\<exists>sid j. mgr_generate m = Some (sid, m\<lparr>mgr_next_id := sid + 1\<rparr>) \<and> sid \<noteq> 0 \<and> \<not> mgr_live m sid \<and>
    sid = mgr_next_id m + of_nat j \<and>
    (\<forall>i<j. mgr_next_id m + of_nat i = 0 \<or> mgr_live m (mgr_next_id m + of_nat i))"
proof -
  have "mgr_next_id m + of_nat (unat (x - mgr_next_id m)) = x" by simp
  with generate_loop_finds [of "mgr_next_id m" "unat (x - mgr_next_id m)" "mgr_live m"] assms
  show ?thesis by (auto simp: mgr_generate_def)
qed

theorem generate_fresh_witness:
  "\<exists>sid m'. mgr_generate \<lparr>mgr_next_id = - 1, mgr_submissions =
      [(- 1, \<lparr>sub_remaining = 1, sub_total_bytes = 0, sub_submit_time = 0\<rparr>)]\<rparr> = Some (sid, m') \<and>
    sid \<noteq> 0 \<and> sid \<noteq> - 1"
  using generate_fresh [of 5 "\<lparr>mgr_next_id = - 1, mgr_submissions =
      [(- 1, \<lparr>sub_remaining = 1, sub_total_bytes = 0, sub_submit_time = 0\<rparr>)]\<rparr>"]
  by (auto simp: mgr_live_def)

section \<open>The life of submissions\<close>

text \<open>Consuming responses one after the other, each with its submission and the time.\<close>

fun consume_all ::
  "(submission_id \<times> int) list \<Rightarrow> submissions_mgr \<Rightarrow> exn + consume_result list \<times> submissions_mgr" where
  "consume_all [] m = Inr ([], m)"
| "consume_all ((sid, now) # rs) m =
     (case mgr_consume sid now m of
        Inl e \<Rightarrow> Inl e
      | Inr (r, m') \<Rightarrow>
          (case consume_all rs m' of Inl e \<Rightarrow> Inl e | Inr (outs, m2) \<Rightarrow> Inr (r # outs, m2)))"

text \<open>The responses to come are exactly those the registry expects.\<close>

definition expects :: "submissions_mgr \<Rightarrow> submission_id list \<Rightarrow> bool" where
  "expects m ids \<longleftrightarrow> msorted (mgr_submissions m) \<and>
     (\<forall>sid. count_list ids sid =
        (case map_of (mgr_submissions m) sid of None \<Rightarrow> 0 | Some sub \<Rightarrow> unat (sub_remaining sub))) \<and>
     (\<forall>sid sub. map_of (mgr_submissions m) sid = Some sub \<longrightarrow> 0 < sub_remaining sub)"

lemma mgr_consume_expects:
  assumes ex: "expects m (sid # ids)"
  shows "\<exists>r m'. mgr_consume sid now m = Inr (r, m') \<and> expects m' ids \<and> (r = Pending \<longleftrightarrow> sid \<in> set ids)"
proof -
  obtain sub where sub: "map_of (mgr_submissions m) sid = Some sub"
    using ex unfolding expects_def by (auto split: option.splits dest!: spec [of _ sid])
  have "\<forall>i. count_list (sid # ids) i =
      (case map_of (mgr_submissions m) i of None \<Rightarrow> 0 | Some sub \<Rightarrow> unat (sub_remaining sub))"
    using ex unfolding expects_def by blast
  from spec [OF this, of sid] have "count_list (sid # ids) sid = unat (sub_remaining sub)"
    using sub by simp
  then have n: "unat (sub_remaining sub) = Suc (count_list ids sid)" by simp
  then have "1 \<le> sub_remaining sub" by (simp add: word_le_nat_alt)
  then have n': "unat (sub_remaining sub - 1) = count_list ids sid"
    using n by (simp add: unat_sub)
  then have last: "sub_remaining sub - 1 = 0 \<longleftrightarrow> sid \<notin> set ids"
    by (metis count_list_0_iff unat_eq_zero)
  show ?thesis
  proof (cases "sid \<in> set ids")
    case True
    let ?m = "m\<lparr>mgr_submissions := mput sid (sub\<lparr>sub_remaining := sub_remaining sub - 1\<rparr>) (mgr_submissions m)\<rparr>"
    have "expects ?m ids"
      using ex sub n' last True unfolding expects_def
      by (auto split: option.splits if_splits simp: word_gt_0)
    then show ?thesis
      using True sub last by (auto simp: mgr_consume_def Let_def)
  next
    case False
    let ?m = "m\<lparr>mgr_submissions := merase sid (mgr_submissions m)\<rparr>"
    have "expects ?m ids"
      using ex sub False unfolding expects_def
      by (auto split: option.splits if_splits simp: count_list_0_iff)
    then show ?thesis
      using False sub last by (auto simp: mgr_consume_def Let_def)
  qed
qed

lemma expects_Nil: "expects m [] \<Longrightarrow> mgr_submissions m = []"
  unfolding expects_def
  by (metis (no_types, lifting) count_list.simps(1) map_of_eq_empty_iff not_None_eq option.simps(5)
      unat_eq_zero word_gt_0 ext)

lemma consume_all_expects:
  assumes "expects m (map fst rs)"
  shows "\<exists>outs m'. consume_all rs m = Inr (outs, m') \<and> mgr_submissions m' = [] \<and>
    length outs = length rs \<and>
    (\<forall>i<length rs. outs ! i = Pending \<longleftrightarrow> fst (rs ! i) \<in> set (map fst (drop (Suc i) rs)))"
  using assms
proof (induction rs arbitrary: m)
  case Nil
  then show ?case using expects_Nil by auto
next
  case (Cons p rs)
  obtain sid now where p: "p = (sid, now)" by (cases p)
  obtain r m1 where one: "mgr_consume sid now m = Inr (r, m1)" "expects m1 (map fst rs)"
    "r = Pending \<longleftrightarrow> sid \<in> set (map fst rs)"
    using mgr_consume_expects [of m sid "map fst rs" now] Cons.prems p by auto
  obtain outs m' where rest: "consume_all rs m1 = Inr (outs, m')" "mgr_submissions m' = []"
    "length outs = length rs"
    "\<forall>i<length rs. outs ! i = Pending \<longleftrightarrow> fst (rs ! i) \<in> set (map fst (drop (Suc i) rs))"
    using Cons.IH [OF one(2)] by blast
  have "\<forall>i<length (p # rs). (r # outs) ! i = Pending \<longleftrightarrow>
      fst ((p # rs) ! i) \<in> set (map fst (drop (Suc i) (p # rs)))"
  proof (intro allI impI)
    fix i assume "i < length (p # rs)"
    then show "(r # outs) ! i = Pending \<longleftrightarrow> fst ((p # rs) ! i) \<in> set (map fst (drop (Suc i) (p # rs)))"
      using one(3) rest(4) p by (cases i) auto
  qed
  then show ?case
    using one(1) rest p by auto
qed

text \<open>Property C19: when the responses that are consumed, of all submissions in any interleaving, are as
  many as the registry expects, no consumption fails, a response completes its submission
  exactly when it is the submission's last, and in the end the registry is empty.\<close>

theorem submissions_complete:
  assumes "expects m (map fst rs)"
  shows "\<exists>outs m'. consume_all rs m = Inr (outs, m') \<and> mgr_size m' = 0 \<and> length outs = length rs \<and>
    (\<forall>i<length rs. outs ! i = Pending \<longleftrightarrow> fst (rs ! i) \<in> set (map fst (drop (Suc i) rs)))"
  using consume_all_expects [OF assms] by (auto simp: mgr_size_def)

definition sample_mgr :: submissions_mgr where
  "sample_mgr = \<lparr>mgr_next_id = 3, mgr_submissions =
     [(1, \<lparr>sub_remaining = 2, sub_total_bytes = 10, sub_submit_time = 0\<rparr>),
      (2, \<lparr>sub_remaining = 1, sub_total_bytes = 20, sub_submit_time = 0\<rparr>)]\<rparr>"

theorem submissions_complete_witness:
  "\<exists>outs m'. consume_all [(1, 5), (2, 6), (1, 7)] sample_mgr = Inr (outs, m') \<and> mgr_size m' = 0 \<and>
     length outs = 3"
proof -
  have "expects sample_mgr (map fst [(1, 5), (2, 6), (1, 7 :: int)])"
    by (auto simp: expects_def sample_mgr_def split: if_splits)
  from submissions_complete [OF this] show ?thesis by auto
qed

text \<open>How many responses of a submission are still to come, and what its last response reports.\<close>

definition remaining :: "submissions_mgr \<Rightarrow> submission_id \<Rightarrow> nat" where
  "remaining m sid =
     (case map_of (mgr_submissions m) sid of None \<Rightarrow> 0 | Some sub \<Rightarrow> unat (sub_remaining sub))"

definition last_report :: "size_t \<Rightarrow> int \<Rightarrow> int \<Rightarrow> consume_result" where
  "last_report bytes start now =
     Completed bytes (elapsed_ms start now) (throughput_bps bytes (elapsed_ms start now))"

lemma remaining_mgr_add:
  "\<not> mgr_live m sid \<Longrightarrow>
    remaining (snd (mgr_add sid n bytes now m)) x = (if x = sid then unat n else remaining m x)"
  by (simp add: remaining_def mgr_add_def memplace_def mgr_live_def)

lemma mgr_consume_remaining:
  assumes sub: "map_of (mgr_submissions m) sid = Some sub" and n: "0 < unat (sub_remaining sub)"
  shows "\<exists>m'. mgr_consume sid now m =
      Inr (if unat (sub_remaining sub) = 1 then last_report (sub_total_bytes sub) (sub_submit_time sub) now
           else Pending, m') \<and>
    map_of (mgr_submissions m') = (map_of (mgr_submissions m))
      (sid := if unat (sub_remaining sub) = 1 then None
              else Some (sub\<lparr>sub_remaining := sub_remaining sub - 1\<rparr>)) \<and>
    (\<forall>x. remaining m' x = remaining m x - (if x = sid then 1 else 0))"
proof -
  have "1 \<le> sub_remaining sub" using n by (simp add: word_le_nat_alt)
  then have "unat (sub_remaining sub - 1) = unat (sub_remaining sub) - 1" by (simp add: unat_sub)
  moreover from this have "sub_remaining sub - 1 = 0 \<longleftrightarrow> unat (sub_remaining sub) = 1"
    using n by (metis Suc_diff_1 One_nat_def diff_self_eq_0 unat_eq_zero)
  ultimately show ?thesis
    using sub by (simp add: mgr_consume_def Let_def last_report_def remaining_def)
qed

text \<open>
  Each response of a list that does not outrun the registry is consumed, and reports exactly when
  it is the last of its submission, with the bytes and the time the submission was added with.
\<close>

lemma consume_all_reports:
  assumes "\<forall>x. count_list (map fst rs) x \<le> remaining m x"
  shows "\<exists>outs m'. consume_all rs m = Inr (outs, m') \<and> length outs = length rs \<and>
    (\<forall>sid sub. map_of (mgr_submissions m) sid = Some sub \<longrightarrow>
      (\<forall>i<length rs. fst (rs ! i) = sid \<longrightarrow>
        outs ! i = (if count_list (map fst (take (Suc i) rs)) sid < unat (sub_remaining sub) then Pending
                    else last_report (sub_total_bytes sub) (sub_submit_time sub) (snd (rs ! i))))) \<and>
    (\<forall>sid. mgr_live m' sid \<longleftrightarrow> mgr_live m sid \<and>
      (sid \<in> set (map fst rs) \<longrightarrow> count_list (map fst rs) sid < remaining m sid))"
  using assms
proof (induction rs arbitrary: m)
  case Nil
  then show ?case by (simp add: mgr_live_def)
next
  case (Cons p rs)
  obtain x now where p: "p = (x, now)" by (cases p)
  have le: "count_list (map fst (p # rs)) y \<le> remaining m y" for y
    using Cons.prems by blast
  obtain sub where sub: "map_of (mgr_submissions m) x = Some sub" and n: "0 < unat (sub_remaining sub)"
    using le [of x] p by (auto simp: remaining_def split: option.splits)
  obtain m1 where m1: "mgr_consume x now m =
      Inr (if unat (sub_remaining sub) = 1 then last_report (sub_total_bytes sub) (sub_submit_time sub) now
           else Pending, m1)"
    "map_of (mgr_submissions m1) = (map_of (mgr_submissions m))
      (x := if unat (sub_remaining sub) = 1 then None
            else Some (sub\<lparr>sub_remaining := sub_remaining sub - 1\<rparr>))"
    "\<forall>y. remaining m1 y = remaining m y - (if y = x then 1 else 0)"
    using mgr_consume_remaining [OF sub n, of now] by blast
  have "\<forall>y. count_list (map fst rs) y \<le> remaining m1 y"
  proof
    fix y show "count_list (map fst rs) y \<le> remaining m1 y"
      using le [of y] m1(3) p by (auto split: if_splits)
  qed
  then obtain outs m' where rest: "consume_all rs m1 = Inr (outs, m')" "length outs = length rs"
    "\<And>sid sub. map_of (mgr_submissions m1) sid = Some sub \<Longrightarrow>
      \<forall>i<length rs. fst (rs ! i) = sid \<longrightarrow>
        outs ! i = (if count_list (map fst (take (Suc i) rs)) sid < unat (sub_remaining sub) then Pending
                    else last_report (sub_total_bytes sub) (sub_submit_time sub) (snd (rs ! i)))"
    "\<And>sid. mgr_live m' sid \<longleftrightarrow> mgr_live m1 sid \<and>
      (sid \<in> set (map fst rs) \<longrightarrow> count_list (map fst rs) sid < remaining m1 sid)"
    using Cons.IH [of m1] by blast
  have last: "x \<notin> set (map fst rs)" if "unat (sub_remaining sub) = 1"
    using le [of x] sub p that by (simp add: remaining_def count_list_0_iff)
  have less: "unat (sub_remaining sub - 1) = unat (sub_remaining sub) - 1"
    using n by (simp add: unat_sub word_le_nat_alt)
  let ?outs = "(if unat (sub_remaining sub) = 1 then last_report (sub_total_bytes sub) (sub_submit_time sub) now
    else Pending) # outs"
  have "?outs ! i = (if count_list (map fst (take (Suc i) (p # rs))) sid < unat (sub_remaining s) then Pending
      else last_report (sub_total_bytes s) (sub_submit_time s) (snd ((p # rs) ! i)))"
    if s: "map_of (mgr_submissions m) sid = Some s" "i < length (p # rs)" "fst ((p # rs) ! i) = sid"
    for sid s i
  proof (cases i)
    case 0
    then show ?thesis using s sub n p by auto
  next
    case (Suc j)
    then have j: "j < length rs" "fst (rs ! j) = sid" using s by simp_all
    then have mem: "sid \<in> set (map fst rs)" by (metis length_map nth_map nth_mem)
    show ?thesis
    proof (cases "sid = x")
      case True
      with mem last have "unat (sub_remaining sub) \<noteq> 1" by blast
      with True m1(2) rest(3) [of x "sub\<lparr>sub_remaining := sub_remaining sub - 1\<rparr>"] j
      show ?thesis using s(1) sub Suc less n p by auto
    next
      case False
      then have "map_of (mgr_submissions m1) sid = Some s" using m1(2) s(1) by simp
      from rest(3) [OF this] j False show ?thesis using Suc p by simp
    qed
  qed
  moreover have "mgr_live m' sid \<longleftrightarrow> mgr_live m sid \<and>
      (sid \<in> set (map fst (p # rs)) \<longrightarrow> count_list (map fst (p # rs)) sid < remaining m sid)" for sid
  proof (cases "sid = x")
    case True
    then show ?thesis
      using rest(4) [of sid] m1(2,3) sub n last p
      by (cases "x \<in> set (map fst rs)"; cases "unat (sub_remaining sub) = 1")
        (auto simp: mgr_live_def remaining_def count_list_0_iff less)
  next
    case False
    then show ?thesis
      using rest(4) [of sid] m1(2,3) p by (auto simp: mgr_live_def)
  qed
  ultimately show ?case
    using p m1(1) rest(1,2) by (intro exI [of _ ?outs] exI [of _ m']) auto
qed

text \<open>Property C27: a submission is registered once; a second registration of a live id and a response
  for an unknown id fail. Once it is registered with any number of expected responses, then
  whichever responses follow, interleaved with those of other submissions, as long as none has more
  than the registry expects: every one is consumed; those of the submission before its last report
  nothing and leave its bytes and its time alone, so that the last reports the bytes it was
  registered with and the time since then; and it stays live exactly until then. For bytes and
  a time in range that report has the milliseconds and the exact number of bytes per second.\<close>

theorem submission_lifecycle:
  assumes fresh: "\<not> mgr_live m sid"
    and counts: "\<forall>x. count_list (map fst rs) x \<le> (if x = sid then unat n else remaining m x)"
  shows "fst (mgr_add sid n bytes now m) = Inr () \<and>
    fst (mgr_add sid n' bytes' now' (snd (mgr_add sid n bytes now m))) = Inl StdException \<and>
    mgr_consume sid now m = Inl StdException \<and>
    (\<exists>outs m'. consume_all rs (snd (mgr_add sid n bytes now m)) = Inr (outs, m') \<and>
      length outs = length rs \<and>
      (\<forall>i<length rs. fst (rs ! i) = sid \<longrightarrow>
        outs ! i = (if count_list (map fst (take (Suc i) rs)) sid < unat n then Pending
                    else last_report bytes now (snd (rs ! i)))) \<and>
      (0 < n \<longrightarrow> (mgr_live m' sid \<longleftrightarrow> count_list (map fst rs) sid < unat n))) \<and>
    (\<forall>ms. 0 < ms \<and> ms < 2 ^ 63 \<and> unat bytes * 1000 < 2 ^ 64 \<longrightarrow>
      (\<exists>bps. last_report bytes now (now + ms * 1000000) = Completed bytes ms bps \<and>
        unat bps = unat bytes * 1000 div nat ms))"
proof -
  let ?m = "snd (mgr_add sid n bytes now m)"
  have none: "map_of (mgr_submissions m) sid = None"
    using fresh by (simp add: mgr_live_def)
  have sub: "map_of (mgr_submissions ?m) sid =
      Some \<lparr>sub_remaining = n, sub_total_bytes = bytes, sub_submit_time = now\<rparr>"
    using none by (simp add: mgr_add_def memplace_def)
  have "\<forall>x. count_list (map fst rs) x \<le> remaining ?m x"
    using counts by (simp add: remaining_mgr_add [OF fresh])
  from consume_all_reports [OF this] obtain outs m' where all: "consume_all rs ?m = Inr (outs, m')"
    "length outs = length rs"
    "\<forall>i<length rs. fst (rs ! i) = sid \<longrightarrow>
        outs ! i = (if count_list (map fst (take (Suc i) rs)) sid < unat n then Pending
                    else last_report bytes now (snd (rs ! i)))"
    "mgr_live m' sid \<longleftrightarrow> mgr_live ?m sid \<and>
      (sid \<in> set (map fst rs) \<longrightarrow> count_list (map fst rs) sid < remaining ?m sid)"
    using sub by auto
  have live: "mgr_live m' sid \<longleftrightarrow> count_list (map fst rs) sid < unat n" if "0 < n"
    using all(4) sub that
    by (cases "sid \<in> set (map fst rs)")
      (auto simp: mgr_live_def remaining_def count_list_0_iff unat_pos_iff)
  have report: "\<exists>bps. last_report bytes now (now + ms * 1000000) = Completed bytes ms bps \<and>
      unat bps = unat bytes * 1000 div nat ms"
    if "0 < ms \<and> ms < 2 ^ 63 \<and> unat bytes * 1000 < 2 ^ 64" for ms
  proof -
    have e: "elapsed_ms now (now + ms * 1000000) = ms"
      using that by (simp add: elapsed_ms_def signed_divide_int_def sgn_mult)
    have "unat (bytes * 1000) = unat bytes * 1000"
      using that by (simp add: unat_word_ariths)
    moreover have "unat (word_of_int ms :: 64 word) = nat ms"
      using conjunct1 [OF that] conjunct1 [OF conjunct2 [OF that]]
      by (simp add: unat_eq_nat_uint uint_word_of_int)
    moreover have "0 < ms" using that by blast
    ultimately have "unat (throughput_bps bytes ms) = unat bytes * 1000 div nat ms"
      by (simp add: throughput_bps_def unat_div)
    with e show ?thesis by (simp only: last_report_def simp_thms consume_result.inject ex_simps)
  qed
  have "fst (mgr_add sid n bytes now m) = Inr ()"
    "fst (mgr_add sid n' bytes' now' ?m) = Inl StdException" "mgr_consume sid now m = Inl StdException"
    using none by (simp_all add: mgr_add_def memplace_def mgr_consume_def)
  moreover have "\<exists>outs m'. consume_all rs ?m = Inr (outs, m') \<and> length outs = length rs \<and>
      (\<forall>i<length rs. fst (rs ! i) = sid \<longrightarrow>
        outs ! i = (if count_list (map fst (take (Suc i) rs)) sid < unat n then Pending
                    else last_report bytes now (snd (rs ! i)))) \<and>
      (0 < n \<longrightarrow> (mgr_live m' sid \<longleftrightarrow> count_list (map fst rs) sid < unat n))"
    by (rule exI [of _ outs], rule exI [of _ m'], intro conjI impI, rule all(1), rule all(2),
        rule all(3), erule live)
  moreover have "\<forall>ms. 0 < ms \<and> ms < 2 ^ 63 \<and> unat bytes * 1000 < 2 ^ 64 \<longrightarrow>
      (\<exists>bps. last_report bytes now (now + ms * 1000000) = Completed bytes ms bps \<and>
        unat bps = unat bytes * 1000 div nat ms)"
    by (intro allI impI, erule report)
  ultimately show ?thesis by (intro conjI)
qed

definition sample_consumed :: "(submission_id \<times> int) list" where
  "sample_consumed = [(4, 7), (1, 8), (4, 2000000)]"

theorem submission_lifecycle_witness:
  "\<exists>outs m'. consume_all sample_consumed (snd (mgr_add 4 2 1024 0 sample_mgr)) = Inr (outs, m') \<and>
     outs ! 0 = Pending \<and> outs ! 2 = last_report 1024 0 2000000 \<and> \<not> mgr_live m' 4"
proof -
  have "\<not> mgr_live sample_mgr 4"
    by (simp add: mgr_live_def sample_mgr_def)
  moreover have "\<forall>x. count_list (map fst sample_consumed) x \<le>
      (if x = 4 then unat (2 :: uint) else remaining sample_mgr x)"
    by (auto simp: remaining_def sample_mgr_def sample_consumed_def)
  ultimately obtain outs m' where all: "consume_all sample_consumed (snd (mgr_add 4 2 1024 0 sample_mgr)) =
      Inr (outs, m')"
    and outs: "\<forall>i<length sample_consumed. fst (sample_consumed ! i) = 4 \<longrightarrow>
      outs ! i = (if count_list (map fst (take (Suc i) sample_consumed)) 4 < unat (2 :: uint)
        then Pending else last_report 1024 0 (snd (sample_consumed ! i)))"
    and live: "0 < (2 :: uint) \<longrightarrow>
      (mgr_live m' 4 \<longleftrightarrow> count_list (map fst sample_consumed) 4 < unat (2 :: uint))"
    using submission_lifecycle [of sample_mgr 4 sample_consumed 2 1024 0 1 0 0] by metis
  have "outs ! 0 = Pending" "outs ! 2 = last_report 1024 0 2000000" "\<not> mgr_live m' 4"
    using spec [OF outs, of 0] spec [OF outs, of 2] live
    by (simp_all add: sample_consumed_def numeral_3_eq_3)
  with all show ?thesis by blast
qed

end
