(* ===== verification/Streamer.thy ===== *)
theory Streamer
  imports Pools FdLimit Submissions
begin

text \<open>
  The streamer (\<open>streamer/impl/streamer\<close>): it verifies a submission, divides it, builds the workloads,
  registers it, dispatches the workloads to the pools and hands out the responses, each with whether
  it was its submission's last.
\<close>

section \<open>State\<close>

text \<open>
  What the streamer does not decide: the environment variables, the clock, whether the \<open>i\<close>-th thread
  of either pool can be made, whether the \<open>i\<close>-th dispatch runs out of memory, and whether the system accepts
  new limits on open files.
\<close>

record os_world =
  os_env :: environment
  os_now :: int
  os_spawn_filesystem :: "nat \<Rightarrow> bool"
  os_spawn_object :: "nat \<Rightarrow> bool"
  os_push_oom :: "nat \<Rightarrow> bool"
  os_accepts :: "rlimit \<Rightarrow> bool"

text \<open>
  The streamer. \<open>st_stream_init\<close> and \<open>st_cleanup_init\<close> are the two once-flags, set exactly when the
  objects they guard (\<open>S3Stop\<close> and \<open>S3Cleanup\<close>) are there; \<open>st_heap\<close> holds the requests that the
  batches share; \<open>st_rlimit\<close> are the limits of the process.
\<close>

record streamer =
  st_config :: config
  st_credentials :: "credentials option"
  st_cleanup_init :: bool
  st_pools :: backend_pools
  st_stream_init :: bool
  st_fd_limit :: "fd_limit_setter option"
  st_responder :: "response shared_queue"
  st_submissions :: submissions_mgr
  st_heap :: request_heap
  st_rlimit :: "rlimit option"

definition streamer_make :: "config \<Rightarrow> rlimit option \<Rightarrow> streamer" where
  "streamer_make cfg l =
     \<lparr>st_config = cfg, st_credentials = None, st_cleanup_init = False,
      st_pools = backend_pools_make (concurrency cfg) (s3_concurrency cfg),
      st_stream_init = False, st_fd_limit = None, st_responder = sq_make 0 Persistent,
      st_submissions = mgr_make, st_heap = [], st_rlimit = l\<rparr>"

section \<open>Credentials\<close>

definition credentials_state_set ::
  "credentials \<Rightarrow> credentials option \<Rightarrow> response_code \<times> credentials option" where
  "credentials_state_set c state =
     (case state of
        None \<Rightarrow> (Success, Some c)
      | Some old \<Rightarrow> (if \<not> credentials_eq old c then CredentialsAlreadySet else Success, state))"

definition set_credentials :: "credentials \<Rightarrow> streamer \<Rightarrow> response_code \<times> streamer" where
  "set_credentials c s =
     (case credentials_state_set c (st_credentials s) of
        (r, cs) \<Rightarrow> (r, s\<lparr>st_credentials := cs\<rparr>))"

definition get_credentials :: "streamer \<Rightarrow> credentials" where
  "get_credentials s = (case st_credentials s of None \<Rightarrow> [] | Some c \<Rightarrow> c)"

section \<open>Verification of a submission\<close>

fun verify_requests :: "file_ranges list \<Rightarrow> exn + unit" where
  "verify_requests [] = Inr ()"
| "verify_requests (file # files) =
     (if list_ex (\<lambda>r. 0 < rng_size r \<and> rng_dst r = nullptr) (fr_ranges file)
      then Inl (CommonException InvalidParameterError)
      else verify_requests files)"

definition try_parse_uri :: "string \<Rightarrow> storage_uri option" where
  "try_parse_uri path = (case make_storage_uri path of Inl e \<Rightarrow> None | Inr u \<Rightarrow> Some u)"

definition plugin_of_uri :: "storage_uri \<Rightarrow> backend_plugin" where
  "plugin_of_uri u = (if is_gcs u then PoolGCS else if is_azure u then PoolAzure else PoolS3)"

text \<open>The classification of the paths: the plugin of the submission and whether a file is local.\<close>

fun classify ::
  "file_ranges list \<Rightarrow> backend_plugin option \<Rightarrow> bool \<Rightarrow>
    response_code + backend_plugin option \<times> bool" where
  "classify [] plugin has_filesystem = Inr (plugin, has_filesystem)"
| "classify (file # files) plugin has_filesystem =
     (if fr_ranges file = [] then classify files plugin has_filesystem
      else case try_parse_uri (fr_path file) of
        None \<Rightarrow> classify files plugin True
      | Some uri \<Rightarrow>
          let p = plugin_of_uri uri in
          if plugin \<noteq> None \<and> plugin \<noteq> Some p then Inl UnsupportedBackendMix
          else classify files (Some p) has_filesystem)"

text \<open>\<open>None\<close> is a call that never returns, because the pool fails to start.\<close>

definition lock_object_plugin ::
  "os_world \<Rightarrow> file_ranges list \<Rightarrow> streamer \<Rightarrow> ((exn + response_code) \<times> streamer) option" where
  "lock_object_plugin os request s =
     (case classify request None False of
        Inl c \<Rightarrow> Some (Inr c, s)
      | Inr (None, fs) \<Rightarrow> Some (Inr Success, s)
      | Inr (Some p, fs) \<Rightarrow>
          if fs then Some (Inr UnsupportedBackendMix, s)
          else map_option (\<lambda>(r, bp). (r, s\<lparr>st_pools := bp\<rparr>))
                 (pools_lock_object_plugin (os_spawn_object os) p (st_pools s)))"

text \<open>The two totals, in \<open>size_t\<close>.\<close>

definition total_ranges :: "file_ranges list \<Rightarrow> size_t" where
  "total_ranges request = sum_list (map (\<lambda>file. of_nat (length (fr_ranges file))) request)"

definition total_request_bytes :: "file_ranges list \<Rightarrow> size_t" where
  "total_request_bytes request =
     sum_list (map (\<lambda>file. sum_list (map rng_size (fr_ranges file))) request)"

section \<open>Storage parameters\<close>

text \<open>
  The once-only set-up of streaming from object storage. The wanted limit is computed in 32-bit
  arithmetic and compared as a 64-bit number.
\<close>

definition stream_init :: "os_world \<Rightarrow> streamer \<Rightarrow> (exn + unit) \<times> streamer" where
  "stream_init os s =
     (let l = st_rlimit s;
          desired = ucast (s3_concurrency (st_config s) * 64) :: size_t
      in if get_cur_file_descriptors l < desired then
           if get_max_file_descriptors l < desired then (Inl (CommonException InsufficientFdLimit), s)
           else (case fd_limit_make (os_accepts os) desired l of
                   (Inl e, l') \<Rightarrow> (Inl e, s\<lparr>st_rlimit := l'\<rparr>)
                 | (Inr f, l') \<Rightarrow>
                     (Inr (), s\<lparr>st_fd_limit := Some f, st_rlimit := l', st_stream_init := True\<rparr>))
         else (Inr (), s\<lparr>st_stream_init := True\<rparr>))"

definition handle_s3 :: "os_world \<Rightarrow> string \<Rightarrow> streamer \<Rightarrow> (exn + params) \<times> streamer" where
  "handle_s3 os path s =
     (let uri = try_parse_uri path;
          (r, s1) = (if uri \<noteq> None \<and> \<not> st_stream_init s then stream_init os s else (Inr (), s))
      in case r of
           Inl e \<Rightarrow> (Inl e, s1)
         | Inr u \<Rightarrow>
             let s2 = (if uri \<noteq> None then s1\<lparr>st_cleanup_init := True\<rparr> else s1) in
             (params_make (os_env os) uri [] (s3_block_bytesize (st_config s)), s2))"

section \<open>Building the workloads\<close>

text \<open>
  The batches of one transfer, each into the workload of its worker. (The index is within the
  workloads: this is proved, the code does not check it.)
\<close>

fun add_batches :: "batch list \<Rightarrow> workload list \<Rightarrow> response_code \<times> workload list" where
  "add_batches [] ws = (Success, ws)"
| "add_batches (b # bs) ws =
     (if batch_tasks b = [] then add_batches bs ws
      else case add_batch b (ws ! batch_workload_index b) of
        (c, w) \<Rightarrow>
          if c \<noteq> Success then (c, ws[batch_workload_index b := w])
          else add_batches bs (ws[batch_workload_index b := w]))"

text \<open>The loop over the transfers; the parameters of the last file are kept.\<close>

fun build_workloads ::
  "os_world \<Rightarrow> submission_id \<Rightarrow> file_ranges list \<Rightarrow> contiguous_transfer list \<Rightarrow> (nat \<times> params) option \<Rightarrow>
    workload list \<Rightarrow> streamer \<Rightarrow> (exn + response_code \<times> workload list) \<times> streamer" where
  "build_workloads os sid request [] cached ws s = (Inr (Success, ws), s)"
| "build_workloads os sid request (t # ts) cached ws s =
     (let path = fr_path (request ! tr_file_index t);
          (r, s1) =
            (case cached of
               Some (f, ps) \<Rightarrow> if f = tr_file_index t then (Inr ps, s) else handle_s3 os path s
             | None \<Rightarrow> handle_s3 os path s)
      in case r of
           Inl e \<Rightarrow> (Inl e, s1)
         | Inr ps \<Rightarrow>
             (case batches_make sid (tr_file_index t) (tr_tasks t) (st_config s1) path ps
                     (range_sizes t) (first_range_index t) (st_heap s1) of
                Inl e \<Rightarrow> (Inl e, s1)
              | Inr (heap, bs, tot) \<Rightarrow>
                  let s2 = s1\<lparr>st_heap := heap\<rparr> in
                  (case add_batches bs ws of
                     (c, ws') \<Rightarrow>
                       if c \<noteq> Success then (Inr (c, ws'), s2)
                       else build_workloads os sid request ts (Some (tr_file_index t, ps)) ws' s2)))"

section \<open>Commit and dispatch\<close>

text \<open>
  The dispatch loop: the workloads are moved into the pools until a push throws; the index of that
  one is where the draining starts. \<open>None\<close> is a push that never returns.
\<close>

definition workload_kind :: "workload \<Rightarrow> backend_kind" where
  "workload_kind w = (if wl_is_object_storage w then ObjectStorage else FileSystem)"

fun dispatch ::
  "os_world \<Rightarrow> nat \<Rightarrow> workload list \<Rightarrow> backend_pools \<Rightarrow>
    (nat option \<times> backend_pools) option" where
  "dispatch os next [] bp = Some (None, bp)"
| "dispatch os next (w # ws) bp =
     (if 0 < workload_size w then
        (case pools_push (os_spawn_filesystem os) (os_push_oom os next) (workload_kind w) w bp of
           None \<Rightarrow> None
         | Some (Inl e, bp') \<Rightarrow> Some (Some next, bp')
         | Some (Inr u, bp') \<Rightarrow> dispatch os (Suc next) ws bp')
      else dispatch os (Suc next) ws bp)"

fun drain_workloads :: "workload list \<Rightarrow> request_heap \<times> pushes \<Rightarrow> request_heap \<times> pushes" where
  "drain_workloads [] hp = hp"
| "drain_workloads (w # ws) hp =
     drain_workloads ws
       (if 0 < workload_size w then snd (workload_fail UnknownError w hp) else hp)"

definition push_responses :: "pushes \<Rightarrow> response shared_queue \<Rightarrow> response shared_queue" where
  "push_responses ps q = fold (\<lambda>(r, n) q. sq_push_bytes resp_ret r n q) ps q"

definition drain_undispatched :: "workload list \<Rightarrow> nat \<Rightarrow> streamer \<Rightarrow> streamer" where
  "drain_undispatched ws from s =
     (case drain_workloads (drop from ws) (st_heap s, []) of
        (heap, ps) \<Rightarrow>
          s\<lparr>st_heap := heap, st_responder := push_responses ps (st_responder s)\<rparr>)"

text \<open>
  \<open>async_request\<close>: the outcome, the submission id that is reported (zero for none), and the state.
  \<open>None\<close> is a call that does not return.
\<close>

definition commit_and_dispatch ::
  "os_world \<Rightarrow> submission_id \<Rightarrow> file_ranges list \<Rightarrow> workload list \<Rightarrow> streamer \<Rightarrow>
    ((exn + response_code) \<times> streamer) option" where
  "commit_and_dispatch os sid request ws s =
     (let expected = ucast (total_ranges request) :: uint in
      case mgr_add sid expected (total_request_bytes request) (os_now os) (st_submissions s) of
        (Inl e, m) \<Rightarrow> Some (Inl e, s\<lparr>st_submissions := m\<rparr>)
      | (Inr u, m) \<Rightarrow>
          let s1 = s\<lparr>st_submissions := m, st_responder := sq_increment expected (st_responder s)\<rparr> in
          (case dispatch os 0 ws (st_pools s1) of
             None \<Rightarrow> None
           | Some (None, bp) \<Rightarrow> Some (Inr Success, s1\<lparr>st_pools := bp\<rparr>)
           | Some (Some next, bp) \<Rightarrow>
               Some (Inr UnknownError, drain_undispatched ws next (s1\<lparr>st_pools := bp\<rparr>))))"

definition async_submit ::
  "os_world \<Rightarrow> submission_id \<Rightarrow> file_ranges list \<Rightarrow> streamer \<Rightarrow> ((exn + response_code) \<times> streamer) option" where
  "async_submit os sid request s =
     (case assigner_make request (st_config s) of
        None \<Rightarrow> None
      | Some (Inl e) \<Rightarrow> Some (Inl e, s)
      | Some (Inr a) \<Rightarrow>
          (case build_workloads os sid request (asg_transfers a) None
                  (replicate (unat (asg_num_workloads a)) workload_make) s of
             (Inl e, s1) \<Rightarrow> Some (Inl e, s1)
           | (Inr (c, ws), s1) \<Rightarrow>
               if c \<noteq> Success then Some (Inr c, s1) else commit_and_dispatch os sid request ws s1))"

definition async_request ::
  "os_world \<Rightarrow> file_ranges list \<Rightarrow> streamer \<Rightarrow>
    ((exn + response_code) \<times> submission_id \<times> streamer) option" where
  "async_request os request s =
     (case verify_requests request of
        Inl e \<Rightarrow> Some (Inl e, 0, s)
      | Inr u \<Rightarrow>
          (case lock_object_plugin os request s of
             None \<Rightarrow> None
           | Some (Inl e, s1) \<Rightarrow> Some (Inl e, 0, s1)
           | Some (Inr c, s1) \<Rightarrow>
               if c \<noteq> Success then Some (Inr c, 0, s1)
               else if 0xFFFFFFFF < total_ranges request then Some (Inr InvalidParameterError, 0, s1)
               else (case mgr_generate (st_submissions s1) of
                       None \<Rightarrow> None
                     | Some (sid, m) \<Rightarrow>
                         let s2 = s1\<lparr>st_submissions := m\<rparr> in
                         if total_ranges request = 0 then Some (Inr Success, sid, s2)
                         else map_option (\<lambda>(r, s3). (r, sid, s3)) (async_submit os sid request s2))))"

section \<open>Responses\<close>

definition consume_submission_response ::
  "os_world \<Rightarrow> submission_id \<Rightarrow> streamer \<Rightarrow> exn + bool \<times> streamer" where
  "consume_submission_response os sid s =
     (case mgr_consume sid (os_now os) (st_submissions s) of
        Inl e \<Rightarrow> Inl e
      | Inr (r, m) \<Rightarrow> Inr (r \<noteq> Pending, s\<lparr>st_submissions := m\<rparr>))"

definition get_response ::
  "os_world \<Rightarrow> uint \<Rightarrow> streamer \<Rightarrow> ((exn + response \<times> bool) \<times> streamer) option" where
  "get_response os timeout_ms s =
     (case sq_pop sentinel_response timeout_ms (st_responder s) of
        None \<Rightarrow> None
      | Some (Inl e) \<Rightarrow> Some (Inl e, s)
      | Some (Inr (r, q)) \<Rightarrow>
          let s1 = s\<lparr>st_responder := q\<rparr> in
          if resp_ret r \<noteq> FinishedError \<and> resp_ret r \<noteq> TimedOut then
            (case consume_submission_response os (resp_submission_id r) s1 of
               Inl e \<Rightarrow> Some (Inl e, s1)
             | Inr (completed, s2) \<Rightarrow> Some (Inr (r, completed), s2))
          else Some (Inr (r, False), s1))"

text \<open>The convenience calls: one file, consecutive ranges.\<close>

fun consecutive_ranges :: "size_t \<Rightarrow> ptr \<Rightarrow> size_t list \<Rightarrow> read_range list" where
  "consecutive_ranges offset dst [] = []"
| "consecutive_ranges offset dst (n # ns) =
     \<lparr>rng_offset = offset, rng_size = n, rng_dst = dst\<rparr> # consecutive_ranges (offset + n) (dst + n) ns"

definition async_read ::
  "os_world \<Rightarrow> string \<Rightarrow> size_t \<Rightarrow> ptr \<Rightarrow> size_t list \<Rightarrow> streamer \<Rightarrow>
    ((exn + response_code) \<times> streamer) option" where
  "async_read os path file_offset dst sizes s =
     (case async_request os [\<lparr>fr_path = path, fr_ranges = consecutive_ranges file_offset dst sizes\<rparr>] s of
        None \<Rightarrow> None
      | Some (Inl (CommonException c), sid, s') \<Rightarrow> Some (Inr c, s')
      | Some (r, sid, s') \<Rightarrow> Some (r, s'))"

text \<open>
  \<open>sync_read\<close> waits for the one response. \<open>workers\<close> is what the pools do while it waits.
\<close>

definition sync_read ::
  "os_world \<Rightarrow> (streamer \<Rightarrow> streamer) \<Rightarrow> string \<Rightarrow> size_t \<Rightarrow> size_t \<Rightarrow> ptr \<Rightarrow> streamer \<Rightarrow>
    ((exn + response_code) \<times> streamer) option" where
  "sync_read os workers path file_offset bytesize dst s =
     (case async_read os path file_offset dst [bytesize] s of
        None \<Rightarrow> None
      | Some (Inl e, s1) \<Rightarrow> Some (Inl e, s1)
      | Some (Inr c, s1) \<Rightarrow>
          if c \<noteq> Success then Some (Inr c, s1)
          else (case get_response os 0 (workers s1) of
                  None \<Rightarrow> None
                | Some (Inl e, s2) \<Rightarrow> Some (Inl e, s2)
                | Some (Inr (r, completed), s2) \<Rightarrow> Some (Inr (resp_ret r), s2)))"

section \<open>Listing\<close>

text \<open>
  The filter of \<open>list_files\<close>. \<open>fnmatch\<close> is the function of the C library, \<open>True\<close> for a match.
\<close>

definition keep :: "(string \<Rightarrow> string \<Rightarrow> bool) \<Rightarrow> string list \<Rightarrow> string list \<Rightarrow> string \<Rightarrow> bool" where
  "keep fnmatch allow ignore path \<longleftrightarrow>
     (allow \<noteq> [] \<longrightarrow> list_ex (\<lambda>p. fnmatch p path) allow) \<and> \<not> list_ex (\<lambda>p. fnmatch p path) ignore"

text \<open>
  \<open>list_files\<close>: the answer of the plugin for the parameters, or the entries below a directory (path,
  whether it is a regular file, size); \<open>None\<close> when there is no such directory.
\<close>

definition list_files ::
  "os_world \<Rightarrow> (string \<Rightarrow> string \<Rightarrow> bool) \<Rightarrow> (params \<Rightarrow> string \<Rightarrow> bool \<Rightarrow> exn + (string \<times> size_t) list) \<Rightarrow>
    (string \<Rightarrow> bool \<Rightarrow> (string \<times> bool \<times> size_t) list option) \<Rightarrow> string \<Rightarrow> bool \<Rightarrow> string list \<Rightarrow> string list \<Rightarrow>
    streamer \<Rightarrow> (exn + (string \<times> size_t) list) \<times> streamer" where
  "list_files os fnmatch plugin_list directory prefix is_recursive allow ignore s =
     (case try_parse_uri prefix of
        Some uri \<Rightarrow>
          let s1 = s\<lparr>st_cleanup_init := True\<rparr> in
          (case params_make (os_env os) (Some uri) (get_credentials s) (s3_block_bytesize (st_config s)) of
             Inl e \<Rightarrow> (Inl e, s1)
           | Inr ps \<Rightarrow>
               (case plugin_list ps prefix is_recursive of
                  Inl e \<Rightarrow> (Inl e, s1)
                | Inr entries \<Rightarrow> (Inr (filter (\<lambda>(path, n). keep fnmatch allow ignore path) entries), s1)))
      | None \<Rightarrow>
          (case directory prefix is_recursive of
             None \<Rightarrow> (Inl (CommonException FileAccessError), s)
           | Some entries \<Rightarrow>
               (Inr (map (\<lambda>(path, regular, n). (path, n))
                  (filter (\<lambda>(path, regular, n). regular \<and> keep fnmatch allow ignore path) entries)), s)))"

end
