(* ===== verification/Submitting.thy ===== *)
theory Submitting
  imports Streamer
begin

text \<open>
  What submitting does: the workloads built for a submission hold a batch structure that stands for
  exactly its ranges, and nothing is committed before they are complete.
\<close>

section \<open>The streamer's files\<close>

lemma request_ranges_file:
  "(f, i, g) \<in> set (request_ranges f0 files) \<Longrightarrow>
    f0 \<le> f \<and> f < f0 + length files \<and> fr_ranges (files ! (f - f0)) \<noteq> []"
proof (induction files arbitrary: f0)
  case (Cons fl files)
  then consider "(f, i, g) \<in> set (number f0 0 (map range_segment (fr_ranges fl)))"
    | "(f, i, g) \<in> set (request_ranges (Suc f0) files)"
    by auto
  then show ?case
  proof cases
    case 1
    have "p \<in> set (number f0 n xs) \<Longrightarrow> fst p = f0 \<and> xs \<noteq> []" for p n and xs :: "segment list"
      by (induction xs arbitrary: n) auto
    from this [OF 1] show ?thesis by auto
  next
    case 2
    note ih = Cons.IH [OF this]
    then have "f - f0 = Suc (f - Suc f0)" by linarith
    with ih show ?thesis by simp
  qed
qed simp

lemma transfer_file:
  assumes "concat (map transfer_ranges ts) = request_ranges 0 request" and "t \<in> set ts"
    and "range_sizes t \<noteq> []"
  shows "tr_file_index t < length request \<and> fr_ranges (request ! tr_file_index t) \<noteq> []"
proof -
  obtain n ns where sizes: "range_sizes t = n # ns" using assms(3) by (cases "range_sizes t") auto
  have "(tr_file_index t, first_range_index t, (tr_offset t, n, tr_destination t)) \<in> set (transfer_ranges t)"
    by (simp add: transfer_ranges_def sizes)
  then have "(tr_file_index t, first_range_index t, (tr_offset t, n, tr_destination t)) \<in>
      set (request_ranges 0 request)"
    using assms(2) by (auto simp flip: assms(1))
  from request_ranges_file [OF this] show ?thesis by simp
qed

text \<open>A submission that passes the lock is all local or all of one plugin.\<close>

definition file_kind :: "file_ranges \<Rightarrow> bool" where
  "file_kind file \<longleftrightarrow> try_parse_uri (fr_path file) \<noteq> None"

lemma classify_kinds:
  assumes "classify files plugin fs = Inr (plugin', fs')"
  shows "(plugin' = None \<longrightarrow> plugin = None) \<and> (fs \<longrightarrow> fs') \<and>
    (\<forall>file\<in>set files. fr_ranges file \<noteq> [] \<longrightarrow>
      (if file_kind file then plugin' \<noteq> None else fs'))"
  using assms
proof (induction files plugin fs rule: classify.induct)
  case (2 fl files plugin fs)
  show ?case
  proof (cases "fr_ranges fl = []")
    case True
    then show ?thesis using 2 by simp
  next
    case False
    show ?thesis
    proof (cases "try_parse_uri (fr_path fl)")
      case None
      then show ?thesis using 2(2) [OF False None] 2(4) False by (auto simp: file_kind_def)
    next
      case (Some uri)
      then have "classify files (Some (plugin_of_uri uri)) fs = Inr (plugin', fs')"
        using 2(4) False by (auto simp: Let_def split: if_splits)
      then show ?thesis
        using 2(3) [OF False Some refl] 2(4) False Some
        by (auto simp: Let_def file_kind_def split: if_splits)
    qed
  qed
qed simp

lemma classify_Inl: "classify files plugin fs = Inl c \<Longrightarrow> c = UnsupportedBackendMix"
  by (induction files plugin fs rule: classify.induct)
    (auto simp: Let_def split: if_splits option.splits)

definition same_kind :: "file_ranges list \<Rightarrow> bool \<Rightarrow> bool" where
  "same_kind request k \<longleftrightarrow> (\<forall>file\<in>set request. fr_ranges file \<noteq> [] \<longrightarrow> file_kind file = k)"

text \<open>What the steps before the commit may change.\<close>

definition uncommitted :: "streamer \<Rightarrow> streamer \<Rightarrow> bool" where
  "uncommitted s s' \<longleftrightarrow> st_config s' = st_config s \<and> st_pools s' = st_pools s \<and>
     st_responder s' = st_responder s \<and> st_submissions s' = st_submissions s \<and>
     st_credentials s' = st_credentials s"

lemma uncommitted_refl [simp]: "uncommitted s s"
  by (simp add: uncommitted_def)

lemma uncommitted_trans: "uncommitted s s1 \<Longrightarrow> uncommitted s1 s2 \<Longrightarrow> uncommitted s s2"
  by (simp add: uncommitted_def)

text \<open>
  Whatever pool is still to be made, either all its threads can be made or not even the first; then
  no call is caught in the start of a pool.
\<close>

definition pools_start_cleanly :: "os_world \<Rightarrow> backend_pools \<Rightarrow> bool" where
  "pools_start_cleanly os bp \<longleftrightarrow>
     (bp_filesystem_pool bp = None \<longrightarrow>
       starts_cleanly (os_spawn_filesystem os) (unat (bp_filesystem_size bp))) \<and>
     (bp_object_storage_pool bp = None \<longrightarrow>
       starts_cleanly (os_spawn_object os) (unat (bp_object_storage_size bp)))"

lemma lock_object_plugin_returns:
  assumes "lock_object_plugin os request s = None" and "lock_ok (st_pools s)"
  shows "\<not> pools_start_cleanly os (st_pools s)"
proof -
  have "pools_lock_object_plugin spawn p bp = None \<Longrightarrow> lock_ok bp \<Longrightarrow>
      bp_object_storage_pool bp = None \<and> \<not> starts_cleanly spawn (unat (bp_object_storage_size bp))"
    for spawn p bp
    using lock_fast_spec [of bp p]
    by (auto simp: pools_lock_object_plugin_def lock_slow_returns lock_ok_def split: option.splits)
  then show ?thesis
    using assms by (auto simp: lock_object_plugin_def pools_start_cleanly_def
        split: sum.splits option.splits prod.splits if_splits)
qed

lemma lock_object_plugin_spec:
  assumes "lock_object_plugin os request s = Some (r, s1)" and "lock_ok (st_pools s)"
  shows "lock_ok (st_pools s1)"
    and "st_config s1 = st_config s" "st_responder s1 = st_responder s"
    "st_submissions s1 = st_submissions s" "st_heap s1 = st_heap s"
    and "r = Inr Success \<Longrightarrow> \<exists>k. same_kind request k \<and> (k \<longrightarrow> bp_object_storage_pool (st_pools s1) \<noteq> None)"
    and "bp_filesystem_pool (st_pools s1) = bp_filesystem_pool (st_pools s)"
    and "bp_filesystem_size (st_pools s1) = bp_filesystem_size (st_pools s)"
proof -
  have lock: "pools_lock_object_plugin spawn p bp = Some (r', bp') \<Longrightarrow> lock_ok bp \<Longrightarrow>
      lock_ok bp' \<and> (r' = Inr Success \<longrightarrow> bp_object_storage_pool bp' \<noteq> None)" for spawn p bp r' bp'
    using lock_slow_ok(1,3) [of spawn p bp r' bp'] lock_fast_spec [of bp p]
    by (auto simp: pools_lock_object_plugin_def lock_ok_def split: option.splits if_splits)
  have "pools_lock_object_plugin spawn p bp = Some (r', bp') \<Longrightarrow>
      bp_filesystem_pool bp' = bp_filesystem_pool bp \<and> bp_filesystem_size bp' = bp_filesystem_size bp"
    for spawn p bp r' bp'
    by (auto simp: pools_lock_object_plugin_def lock_slow_def split: option.splits sum.splits if_splits)
  then show "bp_filesystem_pool (st_pools s1) = bp_filesystem_pool (st_pools s)"
    "bp_filesystem_size (st_pools s1) = bp_filesystem_size (st_pools s)"
    using assms(1)
    by (auto simp: lock_object_plugin_def split: sum.splits option.splits prod.splits if_splits)
  show "lock_ok (st_pools s1)" "st_config s1 = st_config s" "st_responder s1 = st_responder s"
    "st_submissions s1 = st_submissions s" "st_heap s1 = st_heap s"
    using assms lock
    by (auto simp: lock_object_plugin_def split: sum.splits option.splits prod.splits if_splits)
  assume r: "r = Inr Success"
  then obtain plugin fs where c: "classify request None False = Inr (plugin, fs)"
    using assms(1) classify_Inl [of request None False] by (cases "classify request None False")
      (auto simp: lock_object_plugin_def)
  note kinds = classify_kinds [OF c]
  show "\<exists>k. same_kind request k \<and> (k \<longrightarrow> bp_object_storage_pool (st_pools s1) \<noteq> None)"
  proof (cases plugin)
    case None
    then have "same_kind request False"
      using kinds by (auto simp: same_kind_def split: if_splits)
    then show ?thesis by blast
  next
    case (Some p)
    then have "\<not> fs" and p: "pools_lock_object_plugin (os_spawn_object os) p (st_pools s) = Some (r, st_pools s1)"
      using assms(1) c r by (auto simp: lock_object_plugin_def split: if_splits prod.splits)
    then have "same_kind request True"
      using kinds by (auto simp: same_kind_def split: if_splits)
    then show ?thesis using lock [OF p assms(2)] r by blast
  qed
qed

lemma handle_s3_spec:
  assumes "handle_s3 os path s = (r, s1)"
  shows "uncommitted s s1" and "st_heap s1 = st_heap s"
    and "r = Inr ps \<Longrightarrow> params_uri ps = try_parse_uri path" and "r = Inl e \<Longrightarrow> thrown e"
proof -
  have throws: "stream_init os s = (Inl e, s2) \<Longrightarrow> thrown e" for s2
    by (auto simp: stream_init_def fd_limit_make_def set_rlimit_def Let_def split: if_splits prod.splits sum.splits option.splits)
  show "r = Inl e \<Longrightarrow> thrown e"
    using assms throws params_make_error
    by (fastforce simp: handle_s3_def Let_def split: sum.splits if_splits prod.splits)
  have init: "stream_init os s = (x, s2) \<Longrightarrow> uncommitted s s2 \<and> st_heap s2 = st_heap s" for x s2
    by (auto simp: stream_init_def uncommitted_def Let_def split: if_splits prod.splits sum.splits)
  have params: "params_make env u c n = Inr ps \<Longrightarrow> params_uri ps = u" for env u c n
    by (auto simp: params_make_def Let_def split: option.splits sum.splits if_splits)
  obtain x s2 where x: "(if try_parse_uri path \<noteq> None \<and> \<not> st_stream_init s then stream_init os s else (Inr (), s)) = (x, s2)"
    by fastforce
  then have "uncommitted s s2 \<and> st_heap s2 = st_heap s"
    using init by (auto split: if_splits)
  then show "uncommitted s s1" "st_heap s1 = st_heap s"
    using assms x by (auto simp: handle_s3_def uncommitted_def Let_def split: sum.splits if_splits)
  show "params_uri ps = try_parse_uri path" if "r = Inr ps"
    using assms that x params by (auto simp: handle_s3_def Let_def split: sum.splits if_splits)
qed

section \<open>The workloads\<close>

definition of_kind :: "bool \<Rightarrow> workload \<Rightarrow> bool" where
  "of_kind k w \<longleftrightarrow> (\<forall>b\<in>set (wl_batches w). is_object_storage b = k) \<and>
     (wl_batches w \<noteq> [] \<longrightarrow> wl_is_object_storage w = k)"

lemma of_kind_add:
  assumes "of_kind k w" and "is_object_storage b = k"
  shows "\<exists>w'. add_batch b w = (Success, w') \<and> of_kind k w' \<and> wl_batches w' = wl_batches w @ [b]"
  using assms
  by (auto simp: of_kind_def add_batch_def workload_size_def verify_batch_def Let_def)

definition all_batches :: "workload list \<Rightarrow> batch list" where
  "all_batches ws = concat (map wl_batches ws)"

lemma all_batches_update:
  assumes "i < length ws" and "wl_batches w = wl_batches (ws ! i) @ [b]"
  shows "mset (all_batches (ws[i := w])) = add_mset b (mset (all_batches ws))"
proof -
  have "ws = take i ws @ ws ! i # drop (Suc i) ws" using id_take_nth_drop [OF assms(1)] .
  then have "all_batches ws = all_batches (take i ws) @ wl_batches (ws ! i) @ all_batches (drop (Suc i) ws)"
    unfolding all_batches_def by (metis concat.simps(2) concat_append list.simps(9) map_append)
  then show ?thesis
    using assms by (simp add: all_batches_def upd_conv_take_nth_drop)
qed

lemma add_batches_spec:
  assumes "\<forall>b\<in>set bs. batch_tasks b \<noteq> [] \<and> is_object_storage b = k \<and> batch_workload_index b < length ws"
    and "list_all (of_kind k) ws"
  shows "\<exists>ws'. add_batches bs ws = (Success, ws') \<and> length ws' = length ws \<and> list_all (of_kind k) ws' \<and>
    mset (all_batches ws') = mset (all_batches ws) + mset bs"
  using assms
proof (induction bs arbitrary: ws)
  case (Cons b bs)
  let ?i = "batch_workload_index b"
  have i: "?i < length ws" and b: "batch_tasks b \<noteq> []" "is_object_storage b = k"
    using Cons.prems(1) by auto
  then have "of_kind k (ws ! ?i)" using Cons.prems(2) by (simp add: list_all_length)
  from of_kind_add [OF this b(2)] obtain w where w: "add_batch b (ws ! ?i) = (Success, w)" "of_kind k w"
    "wl_batches w = wl_batches (ws ! ?i) @ [b]"
    by blast
  have "list_all (of_kind k) (ws[?i := w])"
    using Cons.prems(2) w(2) set_update_subset_insert [of ws ?i w] by (auto simp: list_all_iff)
  moreover have "\<forall>b\<in>set bs. batch_tasks b \<noteq> [] \<and> is_object_storage b = k \<and>
      batch_workload_index b < length (ws[?i := w])"
    using Cons.prems(1) by simp
  ultimately obtain ws' where "add_batches bs (ws[?i := w]) = (Success, ws')"
    "length ws' = length ws" "list_all (of_kind k) ws'"
    "mset (all_batches ws') = mset (all_batches (ws[?i := w])) + mset bs"
    using Cons.IH [of "ws[?i := w]"] by auto
  then show ?case
    using w(1) b(1) all_batches_update [OF i w(3)] by simp
qed simp

section \<open>What is built\<close>

text \<open>
  After the transfers \<open>ts\<close>: the requests from \<open>n0\<close> on stand for their ranges, in order; every request
  counts its tasks in the batches, which lie within the span of the batches and belong to the
  submission.
\<close>

definition own_batch ::
  "submission_id \<Rightarrow> config \<Rightarrow> file_ranges list \<Rightarrow> nat \<Rightarrow> request_heap \<Rightarrow> batch \<Rightarrow> bool" where
  "own_batch sid cfg request n0 heap b \<longleftrightarrow> batch_ok heap b \<and>
     batch_submission_id b = sid \<and> batch_config b = cfg \<and>
     batch_path b = fr_path (request ! batch_file_index b) \<and>
     params_uri (batch_params b) = try_parse_uri (batch_path b) \<and>
     (\<forall>t\<in>set (batch_tasks b). n0 \<le> task_request t \<and> task_request t < length heap \<and>
        req_file_index (heap ! task_request t) = batch_file_index b)"

definition built ::
  "submission_id \<Rightarrow> config \<Rightarrow> file_ranges list \<Rightarrow> request_heap \<Rightarrow> contiguous_transfer list \<Rightarrow> batch list \<Rightarrow>
    request_heap \<Rightarrow> bool" where
  "built sid cfg request heap0 ts bs heap \<longleftrightarrow>
     take (length heap0) heap = heap0 \<and> length heap0 \<le> length heap \<and>
     map request_range (drop (length heap0) heap) = concat (map transfer_ranges ts) \<and>
     (\<forall>b\<in>set bs. own_batch sid cfg request (length heap0) heap b) \<and>
     (\<forall>r. length heap0 \<le> r \<and> r < length heap \<longrightarrow> request_ok heap (map batch_tasks bs) r)"

lemma task_seg_extend:
  "task_request t < length heap \<Longrightarrow> task_seg (heap @ new) t = task_seg heap t"
  by (simp add: task_seg_def task_destination_def nth_append)

lemma batch_ok_extend:
  assumes "batch_ok heap b" and "\<forall>t\<in>set (batch_tasks b). task_request t < length heap"
  shows "batch_ok (heap @ new) b"
proof -
  have "task_destination (heap @ new) t = task_destination heap t \<and> task_seg (heap @ new) t = task_seg heap t"
    if "t \<in> set (batch_tasks b)" for t
    using assms(2) that task_seg_extend by (simp add: task_destination_def nth_append)
  moreover have "batch_tasks b ! 0 \<in> set (batch_tasks b)"
    using assms(1) by (auto simp: batch_ok_def Let_def)
  moreover have "map (task_seg (heap @ new)) (batch_tasks b) = map (task_seg heap) (batch_tasks b)"
    using calculation(1) by (intro map_cong refl) simp
  ultimately show ?thesis
    using assms(1) by (simp del: map_eq_conv add: batch_ok_def tiles_def Let_def)
qed

lemma own_batch_extend:
  "own_batch sid cfg request n0 heap b \<Longrightarrow> own_batch sid cfg request n0 (heap @ new) b"
  using batch_ok_extend [of heap b new] by (auto simp: own_batch_def nth_append)

lemma request_ok_append:
  assumes "request_ok heap v r" and r: "r < length heap" and "tasks_of r v' = tasks_of r v"
  shows "request_ok (heap @ new) v' r"
proof -
  have "map (seg_of (dest_of (heap @ new))) (tasks_of r v) = map (seg_of (dest_of heap)) (tasks_of r v)"
    using r by (intro map_cong refl seg_of_cong) (auto simp: tasks_of_def dest_of_def nth_append)
  then show ?thesis
    using assms by (simp del: map_eq_conv add: request_ok_def Let_def nth_append)
qed

lemma tasks_of_append: "tasks_of r (v @ v') = tasks_of r v @ tasks_of r v'"
  by (simp add: tasks_of_def)

lemma tasks_of_none: "\<forall>t\<in>set (concat v). task_request t \<noteq> r \<Longrightarrow> tasks_of r v = []"
  by (simp add: tasks_of_def filter_empty_conv)

lemma built_start: "built sid cfg request heap0 [] [] heap0"
  by (auto simp: built_def)

lemma built_step:
  assumes built: "built sid cfg request heap0 ts bs heap" and ok: "batches_ok t heap new bs'"
    and own: "\<forall>b\<in>set bs'. batch_submission_id b = sid \<and> batch_config b = cfg \<and>
      batch_path b = fr_path (request ! tr_file_index t) \<and>
      params_uri (batch_params b) = try_parse_uri (batch_path b)"
  shows "built sid cfg request heap0 (ts @ [t]) (bs @ bs') (heap @ new)"
proof -
  let ?start = "length heap0" and ?n = "length heap"
  have n: "?start \<le> ?n" using built by (simp add: built_def)
  have new: "map request_range new = transfer_ranges t"
    and bs': "\<forall>b\<in>set bs'. batch_ok (heap @ new) b \<and> batch_file_index b = tr_file_index t"
    and span: "\<forall>b\<in>set bs'. \<forall>k\<in>set (batch_tasks b). ?n \<le> task_request k \<and> task_request k < length (heap @ new)"
    and req: "\<forall>r. ?n \<le> r \<and> r < length (heap @ new) \<longrightarrow> request_ok (heap @ new) (map batch_tasks bs') r"
    using ok by (simp_all add: batches_ok_def Let_def)
  have files: "req_file_index (new ! i) = tr_file_index t" if "i < length new" for i
  proof -
    have "request_range (new ! i) \<in> set (transfer_ranges t)"
      using that by (simp flip: new)
    moreover have "p \<in> set (number f j xs) \<Longrightarrow> fst p = f" for p f j and xs :: "segment list"
      by (induction xs arbitrary: j) auto
    ultimately show ?thesis
      unfolding transfer_ranges_def request_range_def by fastforce
  qed
  have "own_batch sid cfg request ?start (heap @ new) b" if b: "b \<in> set bs'" for b
  proof -
    have "req_file_index ((heap @ new) ! task_request k) = batch_file_index b" if "k \<in> set (batch_tasks b)" for k
      using span bs' files [of "task_request k - ?n"] b that by (force simp: nth_append)
    then show ?thesis
      using b bs' own span n unfolding own_batch_def by force
  qed
  moreover have "own_batch sid cfg request ?start (heap @ new) b" if "b \<in> set bs" for b
    using built that own_batch_extend [of sid cfg request ?start heap b new] unfolding built_def by blast
  moreover have "request_ok (heap @ new) (map batch_tasks (bs @ bs')) r" if r: "?start \<le> r" "r < length (heap @ new)" for r
  proof (cases "r < ?n")
    case True
    then have "tasks_of r (map batch_tasks bs') = []"
      using span by (intro tasks_of_none) fastforce
    then have "tasks_of r (map batch_tasks (bs @ bs')) = tasks_of r (map batch_tasks bs)"
      by (simp add: tasks_of_append)
    then show ?thesis
      using built True r by (intro request_ok_append [of heap "map batch_tasks bs"]) (auto simp: built_def)
  next
    case False
    have "tasks_of r (map batch_tasks bs) = []"
      using built False by (intro tasks_of_none) (fastforce simp: built_def own_batch_def)
    then have "tasks_of r (map batch_tasks (bs @ bs')) = tasks_of r (map batch_tasks bs')"
      by (simp add: tasks_of_append)
    then show ?thesis
      using req r False by (simp add: request_ok_def)
  qed
  ultimately show ?thesis
    using built n new by (auto simp: built_def)
qed

section \<open>The loop over the transfers\<close>

definition transfer_fits :: "contiguous_transfer \<Rightarrow> bool" where
  "transfer_fits t \<longleftrightarrow> unat (tr_offset t) + unat (tr_size t) < 18446744073709551616"

definition placed :: "nat \<Rightarrow> file_ranges list \<Rightarrow> bool \<Rightarrow> contiguous_transfer \<Rightarrow> bool" where
  "placed N request k t \<longleftrightarrow> divided N t \<and> sum_list (map unat (range_sizes t)) = unat (tr_size t) \<and>
     transfer_fits t \<and> file_kind (request ! tr_file_index t) = k"

definition cached_ok :: "file_ranges list \<Rightarrow> (nat \<times> params) option \<Rightarrow> bool" where
  "cached_ok request cached \<longleftrightarrow>
     (case cached of None \<Rightarrow> True
      | Some (f, ps) \<Rightarrow> params_uri ps = try_parse_uri (fr_path (request ! f)))"

lemma workers_index:
  "divided N t \<Longrightarrow> j \<in> workload_index ` set (tr_tasks t) \<Longrightarrow> j < N"
  by (auto simp: divided_def workers_below_def)

lemma build_workloads_spec:
  assumes "\<forall>t\<in>set ts. placed N request k t" and "N < 4294967296" and "length ws = N"
    and "list_all (of_kind k) ws" and "built sid (st_config s) request heap0 ts0 bs (st_heap s)"
    and "mset (all_batches ws) = mset bs" and "cached_ok request cached"
  shows "\<exists>r s'. build_workloads os sid request ts cached ws s = (r, s') \<and> uncommitted s s' \<and>
    (case r of Inl e \<Rightarrow> thrown e
     | Inr (c, ws') \<Rightarrow> c = Success \<and> list_all (of_kind k) ws' \<and>
         (\<exists>bs'. built sid (st_config s) request heap0 (ts0 @ ts) bs' (st_heap s') \<and>
            mset (all_batches ws') = mset bs'))"
  using assms
proof (induction ts arbitrary: cached ws s ts0 bs)
  case (Cons t ts)
  let ?path = "fr_path (request ! tr_file_index t)"
  have t: "divided N t" "sum_list (map unat (range_sizes t)) = unat (tr_size t)"
    "unat (tr_offset t) + unat (tr_size t) < 18446744073709551616" "file_kind (request ! tr_file_index t) = k"
    using Cons.prems(1) by (simp_all add: placed_def transfer_fits_def)
  obtain r1 s1 where p: "(case cached of
      Some (f, ps) \<Rightarrow> if f = tr_file_index t then (Inr ps, s) else handle_s3 os ?path s
    | None \<Rightarrow> handle_s3 os ?path s) = (r1, s1)"
    by fastforce
  have s1: "uncommitted s s1" "st_heap s1 = st_heap s"
    and uri: "\<And>ps. r1 = Inr ps \<Longrightarrow> params_uri ps = try_parse_uri ?path" and bad: "\<And>e. r1 = Inl e \<Longrightarrow> thrown e"
    using p handle_s3_spec [of os ?path s r1 s1] Cons.prems(7)
    by (auto simp: cached_ok_def split: option.splits prod.splits if_splits)
  have cfg: "st_config s1 = st_config s" using s1(1) by (simp add: uncommitted_def)
  show ?case
  proof (cases r1)
    case (Inl e)
    then show ?thesis using p s1 bad by simp
  next
    case (Inr ps)
    obtain new bs1 where mk: "batches_make sid (tr_file_index t) (tr_tasks t) (st_config s1) ?path ps
        (range_sizes t) (first_range_index t) (st_heap s1) = Inr (st_heap s1 @ new, bs1, tr_size t)"
      and ok: "batches_ok t (st_heap s1) new bs1"
      and own: "\<forall>b\<in>set bs1. batch_submission_id b = sid \<and> batch_path b = ?path \<and> batch_params b = ps \<and>
         batch_config b = st_config s1"
      using batches_make_spec [OF t(1) Cons.prems(2) t(2,3), of sid "st_config s1" ?path ps "st_heap s1"]
      by blast
    have "batch_tasks b \<noteq> [] \<and> is_object_storage b = k \<and> batch_workload_index b < length ws"
      if b: "b \<in> set bs1" for b
    proof -
      have "batch_ok (st_heap s1 @ new) b" "batch_workload_index b \<in> workload_index ` set (tr_tasks t)"
        using ok b by (simp_all add: batches_ok_def Let_def)
      moreover have "is_object_storage b = k"
        using own b uri [OF Inr] t(4) by (auto simp: is_object_storage_def params_valid_def file_kind_def)
      ultimately show ?thesis
        using workers_index [OF t(1)] Cons.prems(3) by (simp add: batch_ok_def Let_def)
    qed
    with add_batches_spec [of bs1 k ws] Cons.prems(4) obtain ws1 where
      add: "add_batches bs1 ws = (Success, ws1)" "length ws1 = length ws" "list_all (of_kind k) ws1"
        "mset (all_batches ws1) = mset (all_batches ws) + mset bs1"
      by blast
    let ?s2 = "s1\<lparr>st_heap := st_heap s1 @ new\<rparr>"
    have built: "built sid (st_config ?s2) request heap0 (ts0 @ [t]) (bs @ bs1) (st_heap ?s2)"
      using built_step [OF _ ok, of sid "st_config s" request heap0 ts0 bs] Cons.prems(5) own s1(2) cfg uri [OF Inr]
      by simp
    have "uncommitted s ?s2" using s1(1) by (simp add: uncommitted_def)
    moreover have "mset (all_batches ws1) = mset (bs @ bs1)"
      using add(4) Cons.prems(6) by simp
    moreover have "cached_ok request (Some (tr_file_index t, ps))"
      using uri [OF Inr] by (simp add: cached_ok_def)
    moreover have "\<forall>t\<in>set ts. placed N request k t" "length ws1 = N"
      using Cons.prems(1,3) add(2) by simp_all
    moreover have "build_workloads os sid request (t # ts) cached ws s =
        build_workloads os sid request ts (Some (tr_file_index t, ps)) ws1 ?s2"
      using p Inr mk add(1) by (simp add: Let_def)
    ultimately show ?thesis
      using Cons.IH [OF _ Cons.prems(2) _ add(3) built, of "Some (tr_file_index t, ps)"] cfg
        uncommitted_trans [of s ?s2]
      by (fastforce split: sum.splits)
  qed
qed auto

section \<open>Dispatch\<close>

definition pool_queue :: "backend_kind \<Rightarrow> backend_pools \<Rightarrow> workload list" where
  "pool_queue kind bp =
     (case (case kind of FileSystem \<Rightarrow> bp_filesystem_pool bp | ObjectStorage \<Rightarrow> bp_object_storage_pool bp) of
        None \<Rightarrow> [] | Some tp \<Rightarrow> dq_messages (tp_deque tp))"

lemma pools_push_queue:
  assumes "pools_push spawn oom kind w bp = Some (r, bp')"
  shows "pool_queue kind' bp' =
    pool_queue kind' bp @ (if kind' = kind \<and> r = Inr () then [w] else [])"
proof -
  have make: "thread_pool_make spawn n = Some (Inr tp) \<Longrightarrow> dq_messages (tp_deque tp) = []" for n tp
    by (auto simp: deque_make_def dest!: thread_pool_make_Some)
  have push: "thread_pool_push oom w tp = Inr tp' \<Longrightarrow>
      dq_messages (tp_deque tp') = dq_messages (tp_deque tp) @ [w]" for tp tp'
    by (auto simp: thread_pool_push_def dq_push_def dq_push_locked_def dq_post_def split: if_splits sum.splits)
  show ?thesis
    using assms make push
    by (cases kind; cases kind')
      (auto simp: pools_push_def pool_queue_def split: option.splits sum.splits)
qed

definition busy :: "workload list \<Rightarrow> workload list" where
  "busy ws = filter (\<lambda>w. wl_batches w \<noteq> []) ws"

definition kind_of :: "bool \<Rightarrow> backend_kind" where
  "kind_of k = (if k then ObjectStorage else FileSystem)"

lemma dispatch_spec:
  assumes "dispatch os next ws bp = Some (r, bp')" and "list_all (of_kind k) ws"
  shows "case r of
      None \<Rightarrow> pool_queue kind bp' = pool_queue kind bp @ (if kind = kind_of k then busy ws else [])
    | Some n \<Rightarrow> next \<le> n \<and> n < next + length ws \<and>
        pool_queue kind bp' = pool_queue kind bp @ (if kind = kind_of k then busy (take (n - next) ws) else [])"
  using assms
proof (induction os "next" ws bp rule: dispatch.induct)
  case (2 os "next" w ws bp)
  show ?case
  proof (cases "wl_batches w = []")
    case True
    then have "dispatch os (Suc next) ws bp = Some (r, bp')" "list_all (of_kind k) ws"
      using "2.prems" by (simp_all add: workload_size_def)
    from "2.IH"(2) [OF _ this] True show ?thesis
      by (auto simp: workload_size_def busy_def Suc_le_eq less_imp_le take_Cons' diff_Suc
          split: option.splits nat.splits)
  next
    case False
    then have kind: "workload_kind w = kind_of k"
      using "2.prems"(2) by (simp add: of_kind_def workload_kind_def kind_of_def)
    obtain r1 bp1 where push: "pools_push (os_spawn_filesystem os) (os_push_oom os next) (workload_kind w) w bp = Some (r1, bp1)"
      using "2.prems"(1) False by (auto simp: workload_size_def split: option.splits)
    note queue = pools_push_queue [OF push, of kind]
    show ?thesis
    proof (cases r1)
      case (Inl e)
      then show ?thesis
        using "2.prems"(1) push False queue by (auto simp: workload_size_def busy_def)
    next
      case (Inr u)
      then have "dispatch os (Suc next) ws bp1 = Some (r, bp')" "list_all (of_kind k) ws"
        using "2.prems" push False by (simp_all add: workload_size_def)
      from "2.IH"(1) [OF _ push refl Inr this] queue Inr False kind show ?thesis
        by (auto simp: workload_size_def busy_def Suc_le_eq less_imp_le take_Cons' diff_Suc
            split: option.splits nat.splits)
    qed
  qed
qed (simp add: busy_def)

lemma pools_push_filesystem:
  "pools_push spawn oom kind w bp = Some (r, bp') \<Longrightarrow> bp_filesystem_pool bp' = None \<Longrightarrow>
    bp_filesystem_pool bp = None"
  by (auto simp: pools_push_def split: backend_kind.splits option.splits sum.splits)

lemma dispatch_returns:
  "dispatch os next ws bp = None \<Longrightarrow> bp_filesystem_pool bp = None \<and>
    \<not> starts_cleanly (os_spawn_filesystem os) (unat (bp_filesystem_size bp))"
proof (induction os "next" ws bp rule: dispatch.induct)
  case (2 os "next" w ws bp)
  show ?case
  proof (cases "0 < workload_size w")
    case False
    then show ?thesis using 2 by simp
  next
    case True
    show ?thesis
    proof (cases "pools_push (os_spawn_filesystem os) (os_push_oom os next) (workload_kind w) w bp")
      case None
      then show ?thesis by (simp add: pools_push_returns)
    next
      case (Some x)
      then obtain u bp1 where x: "x = (Inr u, bp1)" "dispatch os (Suc next) ws bp1 = None"
        using "2.prems" True by (cases x; cases "fst x") auto
      show ?thesis
        using "2.IH"(1) [OF True Some x(1) [symmetric] refl x(2)] pools_push_keeps [of _ _ _ _ _ _ bp1]
          pools_push_filesystem [of _ _ _ _ _ _ bp1] Some x(1) by fastforce
    qed
  qed
qed simp

section \<open>Ranges that fit\<close>

definition ranges_fit :: "file_ranges list \<Rightarrow> bool" where
  "ranges_fit request \<longleftrightarrow>
     list_all (\<lambda>file. list_all (\<lambda>r. unat (rng_offset r) + unat (rng_size r) < 18446744073709551616)
       (fr_ranges file)) request"

definition segment_fits :: "segment \<Rightarrow> bool" where
  "segment_fits g \<longleftrightarrow> (case g of (off, n, dst) \<Rightarrow> unat off + unat n < 18446744073709551616)"

lemma lay_fits:
  "\<forall>g\<in>set (lay off dst ns). segment_fits g \<Longrightarrow> ns \<noteq> [] \<Longrightarrow>
    unat off + sum_list (map unat ns) < 18446744073709551616"
proof (induction ns arbitrary: off dst)
  case (Cons n ns)
  then have n: "unat off + unat n < 18446744073709551616" by (simp add: segment_fits_def)
  show ?case
  proof (cases "ns = []")
    case True
    then show ?thesis using n by simp
  next
    case False
    with Cons.IH [of "off + n" "dst + n"] Cons.prems(1) n show ?thesis
      by (simp add: unat_add_small)
  qed
qed simp

lemma in_number: "x \<in> set xs \<Longrightarrow> \<exists>j. (f, j, x) \<in> set (number f i xs)"
proof (induction xs arbitrary: i)
  case (Cons y ys)
  then show ?case
    using Cons.IH [of "Suc i"] by (cases "x = y") auto
qed simp

lemma number_in: "p \<in> set (number f i xs) \<Longrightarrow> snd (snd p) \<in> set xs"
  by (induction xs arbitrary: i) auto

lemma request_ranges_fit:
  assumes "ranges_fit request" and "(f, i, g) \<in> set (request_ranges f0 request)"
  shows "segment_fits g"
  using assms
proof (induction request arbitrary: f0)
  case (Cons fl request)
  show ?case
  proof (cases "(f, i, g) \<in> set (number f0 0 (map range_segment (fr_ranges fl)))")
    case True
    from number_in [OF this] have "g \<in> set (map range_segment (fr_ranges fl))" by simp
    then show ?thesis
      using Cons.prems(1) by (auto simp: ranges_fit_def list_all_iff segment_fits_def range_segment_def)
  next
    case False
    then show ?thesis using Cons by (auto simp: ranges_fit_def)
  qed
qed simp

lemma assigner_workloads:
  assumes cfg: "config_ok cfg" and mk: "assigner_make request cfg = Some (Inr a)"
  shows "unat (asg_num_workloads a) < 4294967296"
proof (cases "coalesce request")
  case (Inl e)
  then show ?thesis
    using mk by (auto simp: assigner_make_def Let_def split: if_splits)
next
  case (Inr p)
  obtain tot ts where p: "p = (tot, ts)" by (cases p)
  show ?thesis
  proof (cases "ts = []")
    case True
    then show ?thesis
      using mk Inr p by (auto simp: assigner_make_def Let_def split: if_splits)
  next
    case False
    have pos: "0 < assigner_block request cfg" "0 < unat (assigner_workers request cfg)"
      using cfg by (auto simp: assigner_block_def assigner_workers_def config_ok_def unat_pos_iff)
    obtain num base remainder where bpw:
      "bytes_per_worker (assigner_block request cfg) (assigner_workers request cfg) tot = (num, base, remainder)"
      by (metis prod_cases3)
    have num: "asg_num_workloads a = num"
      using assigner_make_nonempty [OF cfg _ False bpw] Inr p mk by auto
    show ?thesis
      unfolding num
      using bytes_per_worker_spec(1) [OF pos(1) bpw] bytes_per_worker_spec(3) [OF pos(1) bpw pos(2)]
        unat_lt32 [of "assigner_workers request cfg"] by linarith
  qed
qed

lemma assigner_placed:
  assumes cfg: "config_ok cfg" and mk: "assigner_make request cfg = Some (Inr a)"
    and fit: "ranges_fit request" and kind: "same_kind request k"
  shows "concat (map transfer_ranges (asg_transfers a)) = request_ranges 0 request"
    and "\<forall>t\<in>set (asg_transfers a). placed (unat (asg_num_workloads a)) request k t"
proof -
  have small: "request_bytes request < 18446744073709551616"
    using assigner_make_overflow [of request cfg] mk by (cases "request_bytes request < 18446744073709551616") auto
  note spec = assigner_make_spec [OF cfg small]
  show all: "concat (map transfer_ranges (asg_transfers a)) = request_ranges 0 request"
    using spec mk by auto
  show "\<forall>t\<in>set (asg_transfers a). placed (unat (asg_num_workloads a)) request k t"
  proof
    fix t assume t: "t \<in> set (asg_transfers a)"
    have div: "divided (unat (asg_num_workloads a)) t" and ok: "transfer_ok (strip t)"
      using spec mk t by (auto simp: list_all_iff)
    then have sizes: "range_sizes t \<noteq> []" "unat (tr_size t) = sum_list (map unat (range_sizes t))"
      by (simp_all add: transfer_ok_def strip_def)
    have "segment_fits g" if "g \<in> set (lay (tr_offset t) (tr_destination t) (range_sizes t))" for g
    proof -
      from in_number [OF that, of "tr_file_index t" "first_range_index t"] obtain f i where "(f, i, g) \<in> set (transfer_ranges t)"
        unfolding transfer_ranges_def by blast
      then have "(f, i, g) \<in> set (request_ranges 0 request)"
        using t by (auto simp flip: all)
      then show ?thesis using request_ranges_fit [OF fit] by blast
    qed
    then have "transfer_fits t"
      using lay_fits [OF _ sizes(1), of "tr_offset t" "tr_destination t"] sizes(2)
      by (simp add: transfer_fits_def)
    moreover have "file_kind (request ! tr_file_index t) = k"
      using transfer_file [OF all t sizes(1)] kind by (auto simp: same_kind_def)
    ultimately show "placed (unat (asg_num_workloads a)) request k t"
      using div sizes(2) by (simp add: placed_def)
  qed
qed

section \<open>Nothing or everything\<close>

definition workload_tasks :: "workload list \<Rightarrow> (nat \<times> task) list" where
  "workload_tasks ws =
     concat (map (\<lambda>b. map (\<lambda>t. (batch_file_index b, t)) (batch_tasks b)) (all_batches ws))"

definition sent_workloads :: "backend_pools \<Rightarrow> backend_pools \<Rightarrow> workload list" where
  "sent_workloads bp bp' =
     drop (length (pool_queue FileSystem bp)) (pool_queue FileSystem bp') @
     drop (length (pool_queue ObjectStorage bp)) (pool_queue ObjectStorage bp')"

text \<open>The workloads of a complete submission.\<close>

definition complete_workloads ::
  "submission_id \<Rightarrow> file_ranges list \<Rightarrow> bool \<Rightarrow> streamer \<Rightarrow> streamer \<Rightarrow> workload list \<Rightarrow> bool" where
  "complete_workloads sid request k s s1 ws \<longleftrightarrow> list_all (of_kind k) ws \<and>
     (\<exists>bs ts. mset (all_batches ws) = mset bs \<and> concat (map transfer_ranges ts) = request_ranges 0 request \<and>
        built sid (st_config s) request (st_heap s) ts bs (st_heap s1))"

lemma async_submit_spec:
  assumes cfg: "config_ok (st_config s)" and fit: "ranges_fit request" and kind: "same_kind request k"
  shows "(\<exists>e s'. async_submit os sid request s = Some (Inl e, s') \<and> thrown e \<and> uncommitted s s') \<or>
     (\<exists>ws s1. uncommitted s s1 \<and> complete_workloads sid request k s s1 ws \<and>
        async_submit os sid request s = commit_and_dispatch os sid request ws s1)"
proof (cases "assigner_make request (st_config s)")
  case None
  then show ?thesis
    using assigner_make_spec [OF cfg, of request] assigner_make_overflow [of request "st_config s"]
    by (cases "request_bytes request < 18446744073709551616") auto
next
  case (Some x)
  show ?thesis
  proof (cases x)
    case (Inl e)
    then have "e = CommonException InvalidParameterError"
      using Some assigner_make_spec [OF cfg, of request] assigner_make_overflow [of request "st_config s"]
      by (cases "request_bytes request < 18446744073709551616") auto
    then show ?thesis using Some Inl by (simp add: async_submit_def)
  next
    case (Inr a)
    with Some have mk: "assigner_make request (st_config s) = Some (Inr a)" by simp
    let ?N = "unat (asg_num_workloads a)" and ?ts = "asg_transfers a"
    let ?ws = "replicate ?N workload_make"
    note pl = assigner_placed [OF cfg mk fit kind]
    have empty: "all_batches ?ws = []" "list_all (of_kind k) ?ws"
      by (simp_all add: all_batches_def workload_make_def list_all_iff of_kind_def)
    have start: "mset (all_batches ?ws) = mset []" "cached_ok request None"
      by (simp_all add: empty(1) cached_ok_def)
    obtain r1 s1 where b: "build_workloads os sid request ?ts None ?ws s = (r1, s1)" and un: "uncommitted s s1"
      and res: "case r1 of Inl e \<Rightarrow> thrown e
       | Inr (c, ws') \<Rightarrow> c = Success \<and> list_all (of_kind k) ws' \<and>
           (\<exists>bs'. built sid (st_config s) request (st_heap s) ([] @ ?ts) bs' (st_heap s1) \<and>
              mset (all_batches ws') = mset bs')"
      using build_workloads_spec [OF pl(2) assigner_workloads [OF cfg mk] length_replicate empty(2) built_start
          start, of os sid] by blast
    show ?thesis
    proof (cases r1)
      case (Inl e)
      then show ?thesis using mk b un res by (auto simp: async_submit_def)
    next
      case (Inr q)
      obtain c ws where q: "q = (c, ws)" by (cases q)
      obtain bs where "built sid (st_config s) request (st_heap s) ?ts bs (st_heap s1)"
        "mset (all_batches ws) = mset bs" and ws: "c = Success" "list_all (of_kind k) ws"
        using res Inr q by auto
      then have "complete_workloads sid request k s s1 ws"
        using pl(1) unfolding complete_workloads_def by blast
      moreover have "async_submit os sid request s = commit_and_dispatch os sid request ws s1"
        using mk b Inr q ws(1) by (simp add: async_submit_def)
      ultimately show ?thesis using un by blast
    qed
  qed
qed

end
