(* ===== verification/Answering.thy ===== *)
theory Answering
  imports Submitting
begin

text \<open>
  A submission as a whole: either nothing of it is committed, or it is registered and every one of
  its ranges is answered exactly once, whatever the workers meet and however they interleave.
\<close>

section \<open>Complete workloads are answered\<close>

lemma request_range_same: "same_request q q' \<Longrightarrow> request_range q = request_range q'"
  by (simp add: same_request_def request_range_def)

lemma mset_map_cong: "mset xs = mset ys \<Longrightarrow> mset (map g xs) = mset (map g ys)"
  by (metis mset_map)

lemma mset_workload_tasks:
  assumes "mset (all_batches ws) = mset bs"
  shows "mset (workload_tasks ws) =
    mset (concat (map (\<lambda>b. map (\<lambda>t. (batch_file_index b, t)) (batch_tasks b)) bs))"
proof -
  have "mset (concat (map g xs)) = mset (concat (map g ys))" if "mset xs = mset ys" for g :: "batch \<Rightarrow> 'z list" and xs ys
  proof -
    have "\<Sum>\<^sub># (image_mset (\<lambda>x. mset (g x)) (mset xs)) = \<Sum>\<^sub># (image_mset (\<lambda>x. mset (g x)) (mset ys))"
      using that by simp
    then show ?thesis
      by (simp add: mset_concat comp_def sum_mset_sum_list flip: mset_map)
  qed
  from this [OF assms] show ?thesis by (simp add: workload_tasks_def)
qed

lemma own_batch_event:
  assumes "own_batch sid cfg request n0 heap b" and "t \<in> set (batch_tasks b)"
  shows "event_ok n0 (length heap) heap (batch_file_index b, t, c)"
  using assms by (auto simp: own_batch_def event_ok_def batch_ok_def batch_fresh_def Let_def)

lemma complete_run:
  assumes cw: "complete_workloads sid request k s s1 ws"
    and es: "mset (map (\<lambda>(f, t, c). (f, t)) es) = mset (workload_tasks ws)"
  shows "\<exists>heap' rs. deliver sid es (st_heap s1, []) = (heap', map (\<lambda>q. response_for sid (heap' ! q)) rs) \<and>
    distinct rs \<and> mset (map (\<lambda>q. request_range (heap' ! q)) rs) = mset (request_ranges 0 request) \<and>
    (\<forall>q\<in>set rs. outcome_ok (codes_of q es) (req_ret (heap' ! q))) \<and>
    (\<forall>q\<in>set rs. length (st_heap s) \<le> q \<and> q < length (st_heap s1) \<and> same_request (heap' ! q) (st_heap s1 ! q))"
proof -
  obtain bs ts where bs: "mset (all_batches ws) = mset bs"
    and ts: "concat (map transfer_ranges ts) = request_ranges 0 request"
    and b: "built sid (st_config s) request (st_heap s) ts bs (st_heap s1)"
    using cw by (auto simp: complete_workloads_def)
  let ?a = "length (st_heap s)" and ?z = "length (st_heap s1)" and ?v = "map batch_tasks bs"
  let ?pairs = "concat (map (\<lambda>b. map (\<lambda>t. (batch_file_index b, t)) (batch_tasks b)) bs)"
  have pairs: "mset (map (\<lambda>(f, t, c). (f, t)) es) = mset ?pairs"
    using es mset_workload_tasks [OF bs] by simp
  have az: "?a \<le> ?z" "map request_range (drop ?a (st_heap s1)) = request_ranges 0 request"
    and own: "\<forall>b\<in>set bs. own_batch sid (st_config s) request ?a (st_heap s1) b"
    and reqs: "\<forall>r. ?a \<le> r \<and> r < ?z \<longrightarrow> request_ok (st_heap s1) ?v r"
    using b ts by (simp_all add: built_def)
  have "run_of ?a ?z (st_heap s1) ?v es"
    unfolding run_of_def
  proof
    have "map (\<lambda>(f, t, c). t) es = map snd (map (\<lambda>(f, t, c). (f, t)) es)"
      by (simp add: comp_def case_prod_unfold)
    then have "mset (map (\<lambda>(f, t, c). t) es) = mset (map snd (map (\<lambda>(f, t, c). (f, t)) es))"
      by (simp only:)
    also have "\<dots> = mset (map snd ?pairs)" by (rule mset_map_cong [OF pairs])
    also have "map snd ?pairs = concat ?v" by (simp add: map_concat comp_def)
    finally show "mset (map (\<lambda>(f, t, c). t) es) = mset (concat ?v)" .
    show "\<forall>e\<in>set es. event_ok ?a ?z (st_heap s1) e"
    proof
      fix e assume e: "e \<in> set es"
      obtain f t c where p: "e = (f, t, c)" by (cases e)
      have "(f, t) \<in> set ?pairs"
        using e p unfolding set_mset_mset [symmetric] pairs [symmetric] by force
      then show "event_ok ?a ?z (st_heap s1) e"
        using own_batch_event own p by auto
    qed
  qed
  from deliver_spec [OF reqs order_refl this, of sid "[]"] obtain heap' rs where
    d: "deliver sid es (st_heap s1, []) = (heap', [] @ map (\<lambda>r. response_for sid (heap' ! r)) rs)"
    and rs: "distinct rs" "set rs = {?a..<?z}"
    and each: "\<forall>r. ?a \<le> r \<and> r < ?z \<longrightarrow> same_request (heap' ! r) (st_heap s1 ! r) \<and>
       outcome_ok (codes_of r es) (req_ret (heap' ! r))"
    by blast
  have "mset (map (\<lambda>q. request_range (heap' ! q)) rs) = mset (map (\<lambda>q. request_range (st_heap s1 ! q)) rs)"
    using each rs(2) request_range_same by (intro arg_cong [where f = mset] map_cong refl) auto
  also have "\<dots> = mset (map (\<lambda>q. request_range (st_heap s1 ! q)) [?a..<?z])"
  proof -
    have "mset rs = mset [?a..<?z]"
      using rs by (metis atLeastLessThan_upt distinct_upt set_eq_iff_mset_eq_distinct)
    then show ?thesis by (rule mset_map_cong)
  qed
  also have "map (\<lambda>q. request_range (st_heap s1 ! q)) [?a..<?z] = map request_range (drop ?a (st_heap s1))"
    by (rule nth_equalityI) simp_all
  finally show ?thesis
    using d rs each az(2) by (intro exI conjI) auto
qed

section \<open>Draining\<close>

lemma drain_workloads_spec:
  assumes "\<forall>b\<in>set (all_batches ws). batch_fresh b \<and> batch_submission_id b = sid"
  shows "drain_workloads ws hp =
    deliver sid (concat (map (\<lambda>b. batch_events b 0 UnknownError) (all_batches ws))) hp"
  using assms
proof (induction ws arbitrary: hp)
  case (Cons w ws)
  have "snd (workload_fail UnknownError w hp) =
      deliver sid (concat (map (\<lambda>b. batch_events b 0 UnknownError) (wl_batches w))) hp"
    using fail_batches_spec [of "wl_batches w" sid UnknownError hp] Cons.prems
    by (auto simp: workload_fail_def all_batches_def split: prod.splits)
  then have "(if 0 < workload_size w then snd (workload_fail UnknownError w hp) else hp) =
      deliver sid (concat (map (\<lambda>b. batch_events b 0 UnknownError) (wl_batches w))) hp"
    by (simp add: workload_size_def)
  then show ?case
    using Cons by (simp add: all_batches_def deliver_append)
qed (simp add: all_batches_def)

lemma batch_events_pairs:
  "map (\<lambda>(f, t, c). (f, t)) (batch_events b k c) = map (\<lambda>t. (batch_file_index b, t)) (batch_tasks b)"
proof -
  have "map (\<lambda>(f, t, c). (f, t)) (batch_events b k c) =
      map (\<lambda>t. (batch_file_index b, t)) (take k (batch_tasks b) @ drop k (batch_tasks b))"
    unfolding batch_events_def events_of_def by (simp add: comp_def del: append_take_drop_id)
  then show ?thesis by simp
qed

lemma all_events_pairs:
  "map (\<lambda>(f, t, c). (f, t)) (concat (map (\<lambda>b. batch_events b 0 c) (all_batches ws))) = workload_tasks ws"
  by (simp add: workload_tasks_def map_concat comp_def batch_events_pairs)

lemma workload_tasks_simps:
  "workload_tasks (xs @ ys) = workload_tasks xs @ workload_tasks ys"
  "workload_tasks (busy ws) = workload_tasks ws"
proof -
  show "workload_tasks (xs @ ys) = workload_tasks xs @ workload_tasks ys"
    by (simp add: workload_tasks_def all_batches_def)
  have "all_batches (busy ws) = all_batches ws"
    by (induction ws) (auto simp: all_batches_def busy_def)
  then show "workload_tasks (busy ws) = workload_tasks ws" by (simp add: workload_tasks_def)
qed

section \<open>The commit\<close>

definition range_count :: "file_ranges list \<Rightarrow> nat" where
  "range_count request = length (request_ranges 0 request)"

lemma length_request_ranges: "length (request_ranges f request) = sum_list (map (\<lambda>x. length (fr_ranges x)) request)"
  by (induction request arbitrary: f) auto

lemma unat_total_ranges:
  assumes "range_count request < 18446744073709551616"
  shows "unat (total_ranges request) = range_count request"
proof -
  have "total_ranges request = of_nat (range_count request)"
    unfolding total_ranges_def range_count_def length_request_ranges by (induction request) auto
  then show ?thesis using assms by (simp add: unat_of_nat)
qed

definition new_submission :: "os_world \<Rightarrow> file_ranges list \<Rightarrow> submission" where
  "new_submission os request = \<lparr>sub_remaining = of_nat (range_count request),
     sub_total_bytes = total_request_bytes request, sub_submit_time = os_now os\<rparr>"

definition registered :: "os_world \<Rightarrow> file_ranges list \<Rightarrow> submission_id \<Rightarrow> streamer \<Rightarrow> streamer \<Rightarrow> bool" where
  "registered os request sid s s' \<longleftrightarrow> sid \<noteq> 0 \<and> \<not> mgr_live (st_submissions s) sid \<and>
     mgr_submissions (st_submissions s') =
       mput sid (new_submission os request) (mgr_submissions (st_submissions s))"

lemma commit_spec:
  assumes cd: "commit_and_dispatch os sid request ws s = Some (r, s')" and kinds: "list_all (of_kind k) ws"
    and fresh: "\<not> mgr_live (st_submissions s) sid" and n: "range_count request < 4294967296"
  shows "mgr_submissions (st_submissions s') =
      mput sid (new_submission os request) (mgr_submissions (st_submissions s))"
    and "\<exists>m\<le>length ws.
      (\<forall>kind. pool_queue kind (st_pools s') = pool_queue kind (st_pools s) @
         (if kind = kind_of k then busy (take m ws) else [])) \<and>
      (if m = length ws then r = Inr Success else r = Inr UnknownError) \<and>
      (\<exists>ps. drain_workloads (drop m ws) (st_heap s, []) = (st_heap s', ps) \<and>
         st_responder s' = push_responses ps (sq_increment (of_nat (range_count request)) (st_responder s)))"
proof -
  have tot: "total_ranges request = of_nat (range_count request)"
    using unat_total_ranges [of request] n by (simp add: unat_word_eq_iff unat_of_nat)
  have expected: "(ucast (total_ranges request) :: uint) = of_nat (range_count request)"
    unfolding tot using n by (simp add: unsigned_of_nat take_bit_nat_eq_self)
  let ?m = "(st_submissions s)\<lparr>mgr_submissions :=
      mput sid (new_submission os request) (mgr_submissions (st_submissions s))\<rparr>"
  have add: "mgr_add sid (of_nat (range_count request)) (total_request_bytes request) (os_now os)
      (st_submissions s) = (Inr (), ?m)"
    using fresh by (simp add: mgr_add_def memplace_def new_submission_def mgr_live_def)
  let ?s1 = "s\<lparr>st_submissions := ?m,
      st_responder := sq_increment (of_nat (range_count request)) (st_responder s)\<rparr>"
  obtain next' bp where d: "dispatch os 0 ws (st_pools s) = Some (next', bp)"
    using cd add expected by (auto simp: commit_and_dispatch_def Let_def split: option.splits)
  note spec = dispatch_spec [OF d kinds]
  show "mgr_submissions (st_submissions s') =
      mput sid (new_submission os request) (mgr_submissions (st_submissions s))"
    using cd add d expected
    by (auto simp: commit_and_dispatch_def drain_undispatched_def Let_def split: option.splits prod.splits)
  show "\<exists>m\<le>length ws.
      (\<forall>kind. pool_queue kind (st_pools s') = pool_queue kind (st_pools s) @
         (if kind = kind_of k then busy (take m ws) else [])) \<and>
      (if m = length ws then r = Inr Success else r = Inr UnknownError) \<and>
      (\<exists>ps. drain_workloads (drop m ws) (st_heap s, []) = (st_heap s', ps) \<and>
         st_responder s' = push_responses ps (sq_increment (of_nat (range_count request)) (st_responder s)))"
  proof (cases next')
    case None
    then have "r = Inr Success" "s' = ?s1\<lparr>st_pools := bp\<rparr>"
      using cd add d expected by (simp_all add: commit_and_dispatch_def Let_def)
    then show ?thesis
      using spec None by (intro exI [of _ "length ws"]) (simp add: push_responses_def)
  next
    case (Some m)
    obtain heap ps where dr: "drain_workloads (drop m ws) (st_heap s, []) = (heap, ps)" by fastforce
    then have "r = Inr UnknownError"
      "s' = ?s1\<lparr>st_pools := bp, st_heap := heap, st_responder := push_responses ps
         (sq_increment (of_nat (range_count request)) (st_responder s))\<rparr>"
      using cd add d expected Some
      by (simp_all add: commit_and_dispatch_def Let_def drain_undispatched_def)
    moreover have "m < length ws" using spec [of FileSystem] Some by simp
    ultimately show ?thesis
      using spec Some dr by (intro exI [of _ m]) simp
  qed
qed

section \<open>An example\<close>

definition sample_os :: os_world where
  "sample_os = \<lparr>os_env = (\<lambda>x. None), os_now = 0, os_spawn_filesystem = (\<lambda>i. True),
     os_spawn_object = (\<lambda>i. True), os_push_oom = (\<lambda>i. False), os_accepts = (\<lambda>l. True)\<rparr>"

definition sample_streamer :: streamer where
  "sample_streamer = streamer_make sample_config None"

lemma sample_accepted: "\<exists>sid s'. async_request sample_os sample_request sample_streamer =
    Some (Inr Success, sid, s') \<and> length (workload_tasks (sent_workloads (st_pools sample_streamer) (st_pools s'))) = 6"
proof -
  have "case async_request sample_os sample_request sample_streamer of
      Some (Inr Success, sid, s') \<Rightarrow>
        length (workload_tasks (sent_workloads (st_pools sample_streamer) (st_pools s'))) = 6
    | _ \<Rightarrow> False"
    by code_simp
  then show ?thesis
    by (auto split: option.splits prod.splits sum.splits response_code.splits)
qed

section \<open>A request as a whole\<close>

definition streamer_ok :: "streamer \<Rightarrow> bool" where
  "streamer_ok s \<longleftrightarrow> config_ok (st_config s) \<and> lock_ok (st_pools s) \<and>
     (\<exists>sid. sid \<noteq> 0 \<and> \<not> mgr_live (st_submissions s) sid)"

definition request_ok_input :: "file_ranges list \<Rightarrow> bool" where
  "request_ok_input request \<longleftrightarrow> ranges_fit request \<and> range_count request < 18446744073709551616"

definition nothing_committed :: "streamer \<Rightarrow> streamer \<Rightarrow> bool" where
  "nothing_committed s s' \<longleftrightarrow> st_responder s' = st_responder s \<and>
     mgr_submissions (st_submissions s') = mgr_submissions (st_submissions s) \<and>
     sent_workloads (st_pools s) (st_pools s') = []"

lemma lock_object_plugin_queue:
  assumes "lock_object_plugin os request s = Some (r, s1)" and "lock_ok (st_pools s)"
  shows "pool_queue kind (st_pools s1) = pool_queue kind (st_pools s)"
proof -
  have make: "thread_pool_make spawn n = Some (Inr tp) \<Longrightarrow> dq_messages (tp_deque tp) = []" for spawn n tp
    by (auto simp: deque_make_def dest!: thread_pool_make_Some)
  have "pools_lock_object_plugin spawn p bp = Some (r', bp') \<Longrightarrow> lock_ok bp \<Longrightarrow>
      pool_queue kind bp' = pool_queue kind bp" for spawn p bp r' bp'
    using make by (cases kind)
      (auto simp: pools_lock_object_plugin_def lock_slow_def pool_queue_def lock_ok_def
        split: option.splits sum.splits if_splits)
  then show ?thesis
    using assms by (auto simp: lock_object_plugin_def split: sum.splits option.splits prod.splits if_splits)
qed

lemma lock_object_plugin_code:
  assumes "lock_object_plugin os request s = Some (Inr c, s1)" and "lock_ok (st_pools s)"
  shows "c = Success \<or> c = UnsupportedBackendMix"
proof -
  have "pools_lock_object_plugin spawn p bp = Some (Inr c, bp') \<Longrightarrow> lock_ok bp \<Longrightarrow>
      c = Success \<or> c = UnsupportedBackendMix" for spawn p bp bp'
    using lock_slow_ok(6) [of spawn p bp "Inr c" bp'] lock_fast_spec [of bp p]
    by (auto simp: pools_lock_object_plugin_def split: option.splits if_splits)
  then show ?thesis
    using assms classify_Inl [of request None False]
    by (auto simp: lock_object_plugin_def split: sum.splits option.splits prod.splits if_splits)
qed

lemma sent_workloads_queue:
  assumes "\<forall>kind. pool_queue kind bp' = pool_queue kind bp @ (if kind = kind_of k then ws else [])"
  shows "sent_workloads bp bp' = ws"
  using assms by (cases k) (simp_all add: sent_workloads_def kind_of_def)

lemma lock_object_plugin_error: "lock_object_plugin os request s = Some (Inl e, s1) \<Longrightarrow> thrown e"
  by (auto simp: lock_object_plugin_def pools_lock_object_plugin_def lock_slow_def
      split: sum.splits option.splits prod.splits if_splits dest!: thread_pool_make_Some)

lemma commit_returns:
  "commit_and_dispatch os sid request ws s = None \<Longrightarrow> bp_filesystem_pool (st_pools s) = None \<and>
    \<not> starts_cleanly (os_spawn_filesystem os) (unat (bp_filesystem_size (st_pools s)))"
  using dispatch_returns [of os 0 ws "st_pools s"]
  by (auto simp: commit_and_dispatch_def Let_def split: option.splits prod.splits sum.splits)

text \<open>
  What a request does: nothing is committed, or a complete set of workloads is; or it does not return
  because a pool fails to start.
\<close>

lemma async_request_cases:
  assumes ok: "streamer_ok s" and input: "request_ok_input request"
  shows "(async_request os request s = None \<and> \<not> pools_start_cleanly os (st_pools s)) \<or>
   (\<exists>r sid s'. async_request os request s = Some (r, sid, s') \<and>
    ((nothing_committed s s' \<and> r \<noteq> Inr UnknownError \<and> (r = Inr Success \<longrightarrow> range_count request = 0) \<and>
        (\<forall>e. r = Inl e \<longrightarrow> thrown e)) \<or>
     (\<exists>k ws s1. same_kind request k \<and> range_count request \<noteq> 0 \<and> range_count request < 4294967296 \<and>
        complete_workloads sid request k s s1 ws \<and> list_all (of_kind k) ws \<and>
        sid \<noteq> 0 \<and> \<not> mgr_live (st_submissions s) sid \<and>
        st_responder s1 = st_responder s \<and>
        mgr_submissions (st_submissions s1) = mgr_submissions (st_submissions s) \<and>
        (\<forall>kind. pool_queue kind (st_pools s1) = pool_queue kind (st_pools s)) \<and>
        commit_and_dispatch os sid request ws s1 = Some (r, s'))))"
proof (cases "verify_requests request")
  case (Inl e)
  have "verify_requests request = Inl e \<Longrightarrow> thrown e"
    by (induction request rule: verify_requests.induct) (auto split: if_splits)
  then show ?thesis using Inl by (simp add: async_request_def nothing_committed_def sent_workloads_def)
next
  case verified: (Inr u)
  have cfg: "config_ok (st_config s)" and locked: "lock_ok (st_pools s)"
    using ok by (simp_all add: streamer_ok_def)
  have n: "unat (total_ranges request) = range_count request" and fit: "ranges_fit request"
    using input unat_total_ranges by (simp_all add: request_ok_input_def)
  show ?thesis
  proof (cases "lock_object_plugin os request s")
    case None
    then have "async_request os request s = None"
      using verified by (simp add: async_request_def)
    then show ?thesis using lock_object_plugin_returns [OF None locked] by blast
  next
  case locks: (Some x)
  obtain l s1 where lock: "lock_object_plugin os request s = Some (l, s1)"
    using locks by (cases x) auto
  note lk = lock_object_plugin_spec [OF lock locked] and queue = lock_object_plugin_queue [OF lock locked]
  have same: "nothing_committed s s1"
    using lk queue by (simp add: nothing_committed_def sent_workloads_def)
  show ?thesis
  proof (cases "l = Inr Success")
    case False
    have "async_request os request s = Some (l, 0, s1)"
      using verified lock False by (cases l) (auto simp: async_request_def)
    moreover have "l \<noteq> Inr UnknownError"
      using lock_object_plugin_code [OF _ locked] lock by blast
    moreover have "\<forall>e. l = Inl e \<longrightarrow> thrown e" using lock_object_plugin_error lock by blast
    ultimately show ?thesis using same False by blast
  next
    case True
    then obtain k where kind: "same_kind request k" using lk(6) by blast
    show ?thesis
    proof (cases "0xFFFFFFFF < total_ranges request")
      case big: True
      then have "async_request os request s = Some (Inr InvalidParameterError, 0, s1)"
        using verified lock True by (simp add: async_request_def)
      then show ?thesis using same by blast
    next
      case False
      then have small: "range_count request < 4294967296"
        using n by (simp add: word_less_nat_alt)
      obtain x where x: "x \<noteq> 0" "\<not> mgr_live (st_submissions s1) x"
        using ok lk(4) by (auto simp: streamer_ok_def)
      have "mgr_next_id (st_submissions s1) + of_nat (unat (x - mgr_next_id (st_submissions s1))) = x" by simp
      with generate_loop_finds [of "mgr_next_id (st_submissions s1)"
          "unat (x - mgr_next_id (st_submissions s1))" "mgr_live (st_submissions s1)"] x
      obtain sid next1 where gen: "mgr_generate (st_submissions s1) =
          Some (sid, (st_submissions s1)\<lparr>mgr_next_id := next1\<rparr>)"
        and sid: "sid \<noteq> 0" "\<not> mgr_live (st_submissions s1) sid"
        by (auto simp: mgr_generate_def)
      let ?s2 = "s1\<lparr>st_submissions := (st_submissions s1)\<lparr>mgr_next_id := next1\<rparr>\<rparr>"
      have same2: "nothing_committed s ?s2"
        using same by (simp add: nothing_committed_def)
      show ?thesis
      proof (cases "total_ranges request = 0")
        case zero: True
        then have "async_request os request s = Some (Inr Success, sid, ?s2)"
          using verified lock True gen by (simp add: async_request_def)
        moreover have "range_count request = 0" using zero n by simp
        ultimately show ?thesis using same2 by blast
      next
        case nonzero: False
        have "config_ok (st_config ?s2)" using cfg lk(2) by simp
        note submit = async_submit_spec [OF this fit kind, of os sid]
        have run: "async_request os request s =
            map_option (\<lambda>(r, s'). (r, sid, s')) (async_submit os sid request ?s2)"
          using verified lock True gen nonzero False by (simp add: async_request_def)
        from submit show ?thesis
        proof (elim disjE exE conjE)
          fix e s' assume e: "async_submit os sid request ?s2 = Some (Inl e, s')" "thrown e" "uncommitted ?s2 s'"
          then have "nothing_committed s s'"
            using same2 by (simp add: nothing_committed_def uncommitted_def)
          then show ?thesis using run e by simp
        next
          fix ws s3
          assume ws: "uncommitted ?s2 s3" "complete_workloads sid request k ?s2 s3 ws"
            "async_submit os sid request ?s2 = commit_and_dispatch os sid request ws s3"
          have s3: "complete_workloads sid request k s s3 ws" "list_all (of_kind k) ws"
            using ws(2) lk(2,5) by (simp_all add: complete_workloads_def)
          have same3: "st_responder s3 = st_responder s"
            "mgr_submissions (st_submissions s3) = mgr_submissions (st_submissions s)"
            "pool_queue kind (st_pools s3) = pool_queue kind (st_pools s)" for kind
            using ws(1) lk(3,4) queue by (simp_all add: uncommitted_def)
          have fresh: "\<not> mgr_live (st_submissions s) sid" using sid(2) lk(4) by simp
          have count: "range_count request \<noteq> 0" using nonzero n by (simp add: unat_word_eq_iff)
          show ?thesis
          proof (cases "commit_and_dispatch os sid request ws s3")
            case None
            then have "\<not> pools_start_cleanly os (st_pools s)"
              using commit_returns [OF None] ws(1) lk(7,8)
              by (auto simp: pools_start_cleanly_def uncommitted_def)
            then show ?thesis using run ws(3) None by simp
          next
            case (Some y)
            obtain r s' where y: "y = (r, s')" by (cases y)
            then have "async_request os request s = Some (r, sid, s')"
              using run ws(3) Some by simp
            then show ?thesis
              using s3 same3 fresh count sid(1) small kind Some y by blast
          qed
        qed
      qed
    qed
  qed
  qed
qed

lemma async_request_runs:
  assumes "streamer_ok s" and "request_ok_input request" and "async_request os request s = Some (r, sid, s')"
  shows "(nothing_committed s s' \<and> r \<noteq> Inr UnknownError \<and> (r = Inr Success \<longrightarrow> range_count request = 0) \<and>
        (\<forall>e. r = Inl e \<longrightarrow> thrown e)) \<or>
     (\<exists>k ws s1. same_kind request k \<and> range_count request \<noteq> 0 \<and> range_count request < 4294967296 \<and>
        complete_workloads sid request k s s1 ws \<and> list_all (of_kind k) ws \<and>
        sid \<noteq> 0 \<and> \<not> mgr_live (st_submissions s) sid \<and>
        st_responder s1 = st_responder s \<and>
        mgr_submissions (st_submissions s1) = mgr_submissions (st_submissions s) \<and>
        (\<forall>kind. pool_queue kind (st_pools s1) = pool_queue kind (st_pools s)) \<and>
        commit_and_dispatch os sid request ws s1 = Some (r, s'))"
  using async_request_cases [OF assms(1,2), of os] unfolding assms(3) by auto

lemma async_request_returns:
  "streamer_ok s \<Longrightarrow> request_ok_input request \<Longrightarrow> pools_start_cleanly os (st_pools s) \<Longrightarrow>
    async_request os request s \<noteq> None"
  using async_request_cases [of s request os] by auto

text \<open>A request of one object-storage backend whose pool cannot start its later threads is caught.\<close>

lemma async_request_caught:
  assumes "streamer_ok s" and "verify_requests request = Inr ()"
    and "classify request None False = Inr (Some p, False)" and "bp_object_storage_pool (st_pools s) = None"
    and "\<not> starts_cleanly (os_spawn_object os) (unat (bp_object_storage_size (st_pools s)))"
  shows "async_request os request s = None"
proof -
  have ok: "lock_ok (st_pools s)" and "bp_plugin (st_pools s) = None"
    using assms(1,4) by (auto simp: streamer_ok_def lock_ok_def split: option.splits)
  then have "lock_slow (os_spawn_object os) p (st_pools s) = None" "lock_fast p (st_pools s) = None"
    using assms(5) lock_fast_spec [OF ok] by (simp_all add: lock_slow_returns)
  then show ?thesis
    using assms(2,3) by (simp add: async_request_def lock_object_plugin_def pools_lock_object_plugin_def)
qed

lemma committed_spec:
  assumes ok: "streamer_ok s" and input: "request_ok_input request"
    and run: "async_request os request s = Some (r, sid, s')"
    and r: "r = Inr Success \<and> range_count request \<noteq> 0 \<or> r = Inr UnknownError"
  shows "\<exists>k ws s1 m ps. same_kind request k \<and> range_count request < 4294967296 \<and> registered os request sid s s' \<and>
    complete_workloads sid request k s s1 ws \<and> m \<le> length ws \<and>
    sent_workloads (st_pools s) (st_pools s') = busy (take m ws) \<and>
    (r = Inr Success \<longleftrightarrow> m = length ws) \<and>
    drain_workloads (drop m ws) (st_heap s1, []) = (st_heap s', ps) \<and>
    st_responder s' = push_responses ps (sq_increment (of_nat (range_count request)) (st_responder s))"
proof -
  obtain k ws s1 where kind: "same_kind request k" and n: "range_count request < 4294967296"
    and cw: "complete_workloads sid request k s s1 ws" "list_all (of_kind k) ws"
    and sid: "sid \<noteq> 0" "\<not> mgr_live (st_submissions s) sid"
    and s1: "st_responder s1 = st_responder s"
      "mgr_submissions (st_submissions s1) = mgr_submissions (st_submissions s)"
      "\<forall>kind. pool_queue kind (st_pools s1) = pool_queue kind (st_pools s)"
    and cd: "commit_and_dispatch os sid request ws s1 = Some (r, s')"
    using async_request_runs [OF ok input run] r by auto
  have "\<not> mgr_live (st_submissions s1) sid"
    using sid(2) s1(2) by (simp add: mgr_live_def)
  note spec = commit_spec [OF cd cw(2) this n]
  from spec(2) obtain m ps where m: "m \<le> length ws"
    and q: "\<forall>kind. pool_queue kind (st_pools s') = pool_queue kind (st_pools s1) @
       (if kind = kind_of k then busy (take m ws) else [])"
    and rm: "if m = length ws then r = Inr Success else r = Inr UnknownError"
    and dr: "drain_workloads (drop m ws) (st_heap s1, []) = (st_heap s', ps)"
      "st_responder s' = push_responses ps (sq_increment (of_nat (range_count request)) (st_responder s1))"
    by blast
  have "registered os request sid s s'"
    using spec(1) sid s1(2) by (simp add: registered_def)
  moreover have "sent_workloads (st_pools s) (st_pools s') = busy (take m ws)"
    using q s1(3) sent_workloads_queue [of "st_pools s'" "st_pools s" k] by simp
  moreover have "r = Inr Success \<longleftrightarrow> m = length ws" using rm by (auto split: if_splits)
  ultimately show ?thesis
    using kind n cw(1) m dr s1(1)
    by (intro exI [of _ k] exI [of _ ws] exI [of _ s1] exI [of _ m] exI [of _ ps] conjI) simp_all
qed

lemma complete_own:
  assumes "complete_workloads sid request k s s1 ws" and "b \<in> set (all_batches ws)"
  shows "own_batch sid (st_config s) request (length (st_heap s)) (st_heap s1) b"
proof -
  obtain bs ts where "mset (all_batches ws) = mset bs"
    "built sid (st_config s) request (st_heap s) ts bs (st_heap s1)"
    using assms(1) by (auto simp: complete_workloads_def)
  then show ?thesis
    using assms(2) by (metis built_def set_mset_mset)
qed

lemma answered_spec:
  assumes ok: "streamer_ok s" and input: "request_ok_input request"
    and run: "async_request os request s = Some (r, sid, s')"
    and r: "r = Inr Success \<or> r = Inr UnknownError"
    and es: "mset (map (\<lambda>(f, t, c). (f, t)) es) =
      mset (workload_tasks (sent_workloads (st_pools s) (st_pools s')))"
  shows "\<exists>es0 ps heap' rs.
    st_responder s' = push_responses ps (sq_increment (of_nat (range_count request)) (st_responder s)) \<and>
    (\<forall>e\<in>set es0. snd (snd e) = UnknownError) \<and> (r = Inr Success \<longrightarrow> es0 = [] \<and> ps = []) \<and>
    deliver sid es (st_heap s', ps) = (heap', map (\<lambda>q. response_for sid (heap' ! q)) rs) \<and>
    distinct rs \<and> mset (map (\<lambda>q. request_range (heap' ! q)) rs) = mset (request_ranges 0 request) \<and>
    (\<forall>q\<in>set rs. outcome_ok (codes_of q (es0 @ es)) (req_ret (heap' ! q)))"
proof (cases "r = Inr Success \<and> range_count request = 0")
  case True
  then have none: "nothing_committed s s'" and empty: "request_ranges 0 request = []"
    using async_request_runs [OF ok input run] by (auto simp: range_count_def)
  then have "es = []" and "st_responder s' = st_responder s"
    using es by (simp_all add: nothing_committed_def workload_tasks_def all_batches_def)
  then have "st_responder s' = push_responses [] (sq_increment (of_nat (range_count request)) (st_responder s))"
    using True by (simp add: push_responses_def sq_increment_def)
  moreover have "deliver sid es (st_heap s', []) = (st_heap s', map (\<lambda>q. response_for sid (st_heap s' ! q)) [])"
    using \<open>es = []\<close> by simp
  moreover have "mset (map (\<lambda>q. request_range (st_heap s' ! q)) []) = mset (request_ranges 0 request)"
    using empty by simp
  ultimately show ?thesis by (intro exI [of _ "[]"] exI [of _ "st_heap s'"] conjI) auto
next
  case False
  then have "r = Inr Success \<and> range_count request \<noteq> 0 \<or> r = Inr UnknownError" using r by auto
  from committed_spec [OF ok input run this] obtain k ws s1 m ps where
    cw: "complete_workloads sid request k s s1 ws" and m: "m \<le> length ws"
    and sent: "sent_workloads (st_pools s) (st_pools s') = busy (take m ws)"
    and rm: "r = Inr Success \<longleftrightarrow> m = length ws"
    and dr: "drain_workloads (drop m ws) (st_heap s1, []) = (st_heap s', ps)"
    and resp: "st_responder s' = push_responses ps (sq_increment (of_nat (range_count request)) (st_responder s))"
    by blast
  let ?es0 = "concat (map (\<lambda>b. batch_events b 0 UnknownError) (all_batches (drop m ws)))"
  have "batch_fresh b \<and> batch_submission_id b = sid" if "b \<in> set (all_batches (drop m ws))" for b
  proof -
    have "b \<in> set (all_batches ws)"
      using that set_drop_subset [of m ws] by (auto simp: all_batches_def)
    then show ?thesis
      using complete_own [OF cw] by (auto simp: own_batch_def batch_ok_def Let_def)
  qed
  then have drained: "deliver sid ?es0 (st_heap s1, []) = (st_heap s', ps)"
    using drain_workloads_spec [of "drop m ws" sid "(st_heap s1, [])"] dr by simp
  have "mset (map (\<lambda>(f, t, c). (f, t)) (?es0 @ es)) =
      mset (workload_tasks (drop m ws)) + mset (workload_tasks (take m ws))"
    using es unfolding map_append mset_append sent all_events_pairs workload_tasks_simps(2) by simp
  also have "\<dots> = mset (workload_tasks (take m ws @ drop m ws))"
    unfolding workload_tasks_simps(1) by simp
  finally have "mset (map (\<lambda>(f, t, c). (f, t)) (?es0 @ es)) = mset (workload_tasks ws)" by simp
  from complete_run [OF cw this] obtain heap' rs where
    d: "deliver sid (?es0 @ es) (st_heap s1, []) = (heap', map (\<lambda>q. response_for sid (heap' ! q)) rs)"
    and rs: "distinct rs" "mset (map (\<lambda>q. request_range (heap' ! q)) rs) = mset (request_ranges 0 request)"
      "\<forall>q\<in>set rs. outcome_ok (codes_of q (?es0 @ es)) (req_ret (heap' ! q))"
    by blast
  have "deliver sid es (st_heap s', ps) = (heap', map (\<lambda>q. response_for sid (heap' ! q)) rs)"
    using d drained by (simp add: deliver_append)
  moreover have "\<forall>e\<in>set ?es0. snd (snd e) = UnknownError"
    by (auto simp: batch_events_def events_of_def)
  moreover have "r = Inr Success \<longrightarrow> ?es0 = [] \<and> ps = []"
    using rm dr by (auto simp: all_batches_def)
  ultimately show ?thesis using resp rs by blast
qed

lemma async_request_outcome:
  assumes ok: "streamer_ok s" and input: "request_ok_input request"
    and run: "async_request os request s = Some (r, sid, s')"
  shows "if r = Inr Success \<and> range_count request \<noteq> 0 \<or> r = Inr UnknownError
     then range_count request < 4294967296 \<and> registered os request sid s s' \<and>
       (r = Inr Success \<longrightarrow>
         st_responder s' = sq_increment (of_nat (range_count request)) (st_responder s))
     else nothing_committed s s' \<and> (\<forall>e. r = Inl e \<longrightarrow> thrown e)"
proof (cases "r = Inr Success \<and> range_count request \<noteq> 0 \<or> r = Inr UnknownError")
  case True
  from committed_spec [OF ok input run this] obtain ws m ps and s1 :: streamer where
    c: "range_count request < 4294967296" "registered os request sid s s'"
      "r = Inr Success \<longleftrightarrow> m = length ws"
      "drain_workloads (drop m ws) (st_heap s1, []) = (st_heap s', ps)"
      "st_responder s' = push_responses ps (sq_increment (of_nat (range_count request)) (st_responder s))"
    by blast
  then have "r = Inr Success \<longrightarrow> st_responder s' = sq_increment (of_nat (range_count request)) (st_responder s)"
    by (auto simp: push_responses_def)
  then show ?thesis using c(1,2) True by auto
next
  case False
  have "commit_and_dispatch os sid request ws s1 = Some (r, s') \<Longrightarrow> list_all (of_kind k) ws \<Longrightarrow>
      \<not> mgr_live (st_submissions s1) sid \<Longrightarrow> range_count request < 4294967296 \<Longrightarrow>
      r = Inr Success \<or> r = Inr UnknownError" for ws s1 k
    using commit_spec(2) [of os sid request ws s1 r s' k] by (auto split: if_splits)
  then have "nothing_committed s s' \<and> (\<forall>e. r = Inl e \<longrightarrow> thrown e)"
    using async_request_runs [OF ok input run] False by (auto simp: mgr_live_def) metis+
  then show ?thesis using False by auto
qed

text \<open>Property C5: a request commits nothing or everything. Only an accepted submission with ranges, or
  one whose dispatch failed (\<open>UnknownError\<close>), is registered: under a new id other than zero, with as
  many responses to come as it has ranges and its bytes, no other submission touched, and the
  responder expects exactly these. Every other outcome leaves the responder, the registry and the
  queues of the pools as they were. The request returns whenever the pools that are still to be
  made start all their threads or not even the first; a request to an object-storage backend whose
  pool starts its first thread but not all of them never returns.\<close>

theorem async_request_atomic:
  assumes ok: "streamer_ok s" and input: "request_ok_input request"
  shows "(pools_start_cleanly os (st_pools s) \<longrightarrow> async_request os request s \<noteq> None) \<and>
    (\<forall>p. verify_requests request = Inr () \<and> classify request None False = Inr (Some p, False) \<and>
       bp_object_storage_pool (st_pools s) = None \<and>
       \<not> starts_cleanly (os_spawn_object os) (unat (bp_object_storage_size (st_pools s))) \<longrightarrow>
       async_request os request s = None) \<and>
    (\<forall>r sid s'. async_request os request s = Some (r, sid, s') \<longrightarrow>
      (if r = Inr Success \<and> range_count request \<noteq> 0 \<or> r = Inr UnknownError
       then range_count request < 4294967296 \<and> registered os request sid s s' \<and>
         (r = Inr Success \<longrightarrow>
           st_responder s' = sq_increment (of_nat (range_count request)) (st_responder s))
       else nothing_committed s s'))"
proof (intro conjI allI impI)
  show "async_request os request s \<noteq> None" if "pools_start_cleanly os (st_pools s)"
    using async_request_returns [OF ok input that] .
  show "async_request os request s = None"
    if "verify_requests request = Inr () \<and> classify request None False = Inr (Some p, False) \<and>
       bp_object_storage_pool (st_pools s) = None \<and>
       \<not> starts_cleanly (os_spawn_object os) (unat (bp_object_storage_size (st_pools s)))" for p
    using async_request_caught [OF ok] that by blast
  show "if r = Inr Success \<and> range_count request \<noteq> 0 \<or> r = Inr UnknownError
       then range_count request < 4294967296 \<and> registered os request sid s s' \<and>
         (r = Inr Success \<longrightarrow>
           st_responder s' = sq_increment (of_nat (range_count request)) (st_responder s))
       else nothing_committed s s'" if "async_request os request s = Some (r, sid, s')" for r sid s'
    using async_request_outcome [OF ok input that] by (simp split: if_splits)
qed

lemma sample_streamer_ok: "streamer_ok sample_streamer"
proof -
  have "\<not> mgr_live (st_submissions sample_streamer) 1"
    by (simp add: sample_streamer_def streamer_make_def mgr_make_def mgr_live_def)
  then have "\<exists>sid. sid \<noteq> 0 \<and> \<not> mgr_live (st_submissions sample_streamer) sid"
    by (intro exI [of _ 1]) simp
  then show ?thesis
    using sample_config_ok pools_make_ok
    by (simp add: streamer_ok_def sample_streamer_def streamer_make_def)
qed

lemma sample_request_input: "request_ok_input sample_request"
  by (simp add: request_ok_input_def ranges_fit_def sample_request_def range_count_def)

theorem async_request_atomic_witness:
  "\<exists>r sid s'. async_request sample_os sample_request sample_streamer = Some (r, sid, s') \<and>
    (r = Inr Success \<and> registered sample_os sample_request sid sample_streamer s' \<or>
     r \<noteq> Inr Success)"
proof -
  have start: "pools_start_cleanly sample_os (st_pools sample_streamer)"
    by (simp add: pools_start_cleanly_def starts_cleanly_def sample_os_def list_all_iff)
  note atomic = async_request_atomic [OF sample_streamer_ok sample_request_input, of sample_os]
  obtain r sid s' where run: "async_request sample_os sample_request sample_streamer = Some (r, sid, s')"
    using mp [OF conjunct1 [OF atomic] start] by auto
  have n: "range_count sample_request \<noteq> 0"
    by (simp add: range_count_def sample_request_def)
  show ?thesis
    using conjunct2 [OF conjunct2 [OF atomic], rule_format, OF run] run n by (auto split: if_splits)
qed

text \<open>Property C2: once its tasks are finished, a committed submission has exactly one response for
  each of its ranges, whichever order the workers finish them in and whatever each meets: the
  responses carry the submission, the file and the index of the range; a response reports
  \<open>Success\<close> exactly when all tasks of its range did, and otherwise the code of one that failed. When
  the dispatch failed, the tasks that were not dispatched count as failed with \<open>UnknownError\<close>,
  and their responses are already with the responder.\<close>

theorem submission_answered:
  assumes "streamer_ok s" and "request_ok_input request"
    and "async_request os request s = Some (r, sid, s')" and "r = Inr Success \<or> r = Inr UnknownError"
    and "mset (map (\<lambda>(f, t, c). (f, t)) es) =
      mset (workload_tasks (sent_workloads (st_pools s) (st_pools s')))"
  shows "\<exists>es0 ps heap' rs.
    st_responder s' = push_responses ps (sq_increment (of_nat (range_count request)) (st_responder s)) \<and>
    (\<forall>e\<in>set es0. snd (snd e) = UnknownError) \<and> (r = Inr Success \<longrightarrow> es0 = [] \<and> ps = []) \<and>
    deliver sid es (st_heap s', ps) = (heap', map (\<lambda>q. response_for sid (heap' ! q)) rs) \<and>
    distinct rs \<and> mset (map (\<lambda>q. request_range (heap' ! q)) rs) = mset (request_ranges 0 request) \<and>
    (\<forall>q\<in>set rs. outcome_ok (codes_of q (es0 @ es)) (req_ret (heap' ! q)))"
  by (rule answered_spec [OF assms])

theorem submission_answered_witness:
  "\<exists>sid s' es heap' rs. async_request sample_os sample_request sample_streamer = Some (Inr Success, sid, s') \<and>
    length es = 6 \<and>
    deliver sid es (st_heap s', []) = (heap', map (\<lambda>q. response_for sid (heap' ! q)) rs) \<and> length rs = 4"
proof -
  obtain sid s' where run: "async_request sample_os sample_request sample_streamer = Some (Inr Success, sid, s')"
    and n: "length (workload_tasks (sent_workloads (st_pools sample_streamer) (st_pools s'))) = 6"
    using sample_accepted by blast
  let ?es = "map (\<lambda>(f, t). (f, t, Success)) (workload_tasks (sent_workloads (st_pools sample_streamer) (st_pools s')))"
  have "mset (map (\<lambda>(f, t, c). (f, t)) ?es) =
      mset (workload_tasks (sent_workloads (st_pools sample_streamer) (st_pools s')))"
    by (simp add: comp_def case_prod_unfold)
  from submission_answered [OF sample_streamer_ok sample_request_input run _ this]
  obtain heap' rs where d: "deliver sid ?es (st_heap s', []) = (heap', map (\<lambda>q. response_for sid (heap' ! q)) rs)"
    and m: "mset (map (\<lambda>q. request_range (heap' ! q)) rs) = mset (request_ranges 0 sample_request)"
    by auto
  have "length rs = 4"
    using arg_cong [OF m, of size] by (simp add: sample_request_def)
  then show ?thesis using run n d by (intro exI conjI) auto
qed

end
