(* ===== verification/Executing.thy ===== *)
theory Executing
  imports Answering
begin

text \<open>
  Running the workloads of a submission of local files: where each task writes, why the tasks of
  disjoint ranges do not disturb each other, and what is in memory in the end.
\<close>

section \<open>Areas of memory\<close>

definition seg_area :: "segment \<Rightarrow> ptr set" where
  "seg_area g = (case g of (off, n, dst) \<Rightarrow> buffer_addrs dst (unat n))"

definition task_area :: "request_heap \<Rightarrow> task \<Rightarrow> ptr set" where
  "task_area heap t = seg_area (task_seg heap t)"

definition batch_area :: "request_heap \<Rightarrow> batch \<Rightarrow> ptr set" where
  "batch_area heap b =
     buffer_addrs (task_destination heap (batch_tasks b ! 0)) (unat (bra_size (batch_range b)))"

lemma buffer_addrs_add: "buffer_addrs p (m + n) = buffer_addrs p m \<union> buffer_addrs (p + of_nat m) n"
proof -
  have "p + of_nat i \<in> buffer_addrs p m \<union> buffer_addrs (p + of_nat m) n" if "i < m + n" for i
  proof (cases "i < m")
    case True
    then show ?thesis unfolding buffer_addrs_def by blast
  next
    case False
    then have i: "i = m + (i - m)" "i - m < n" using that by auto
    have "p + of_nat i = p + of_nat m + of_nat (i - m)"
      using i(1) by (metis add.assoc of_nat_add)
    with i(2) show ?thesis unfolding buffer_addrs_def by blast
  qed
  moreover have "p + of_nat m + of_nat i \<in> buffer_addrs p (m + n)" if "i < n" for i
  proof -
    have "p + of_nat m + of_nat i = p + of_nat (m + i)" by (simp add: add.assoc)
    then show ?thesis using that unfolding buffer_addrs_def by (metis (mono_tags) add_less_cancel_left mem_Collect_eq)
  qed
  moreover have "buffer_addrs p m \<subseteq> buffer_addrs p (m + n)"
    by (rule buffer_addrs_mono) simp
  ultimately show ?thesis unfolding buffer_addrs_def by blast
qed

lemma buffer_addrs_0 [simp]: "buffer_addrs p 0 = {}"
  by (simp add: buffer_addrs_def)

lemma lay_area:
  "(\<Union>g\<in>set (lay off dst ns). seg_area g) = buffer_addrs dst (sum_list (map unat ns))"
proof (induction ns arbitrary: off dst)
  case (Cons n ns)
  then show ?case by (simp add: buffer_addrs_add seg_area_def)
qed simp

abbreviation apart :: "ptr set \<Rightarrow> ptr set \<Rightarrow> bool" where
  "apart A B \<equiv> A \<inter> B = {}"

lemma lay_apart:
  "sum_list (map unat ns) < 18446744073709551616 \<Longrightarrow>
    sorted_wrt (\<lambda>g g'. apart (seg_area g) (seg_area g')) (lay off dst ns)"
proof (induction ns arbitrary: off dst)
  case (Cons n ns)
  have "apart (buffer_addrs dst (unat n)) (buffer_addrs (dst + of_nat (unat n)) (sum_list (map unat ns)))"
    using Cons.prems by (intro buffer_disjoint) simp
  then have "apart (buffer_addrs dst (unat n)) (\<Union>g\<in>set (lay (off + n) (dst + n) ns). seg_area g)"
    unfolding lay_area by simp
  then have "\<forall>g\<in>set (lay (off + n) (dst + n) ns). apart (seg_area (off, n, dst)) (seg_area g)"
    by (auto simp: seg_area_def)
  then show ?case using Cons by simp
qed simp

lemma batch_area_tasks:
  assumes "batch_ok heap b"
  shows "batch_area heap b = (\<Union>t\<in>set (batch_tasks b). task_area heap t)"
proof -
  let ?ts = "batch_tasks b" and ?d = "task_destination heap (batch_tasks b ! 0)"
  have lay: "map (task_seg heap) ?ts = lay (bra_start (batch_range b)) ?d (map (\<lambda>t. ti_bytesize (task_info t)) ?ts)"
    and size: "unat (bra_size (batch_range b)) = sum_list (task_sizes ?ts)"
    using assms by (simp_all add: batch_ok_def tiles_def Let_def)
  have "(\<Union>t\<in>set ?ts. task_area heap t) = (\<Union>g\<in>set (map (task_seg heap) ?ts). seg_area g)"
    by (simp add: task_area_def)
  also have "\<dots> = batch_area heap b"
    unfolding lay lay_area by (simp add: batch_area_def size task_sizes_def comp_def)
  finally show ?thesis ..
qed

definition request_area :: "request \<Rightarrow> ptr set" where
  "request_area q = buffer_addrs (req_dst q) (unat (req_bytesize q))"

lemma request_area_range: "request_area q = seg_area (snd (snd (request_range q)))"
  by (simp add: request_area_def request_range_def seg_area_def)

lemma seg_of_task_seg: "seg_of (dest_of heap) = task_seg heap"
  by (rule ext) (simp add: seg_of_def dest_of_def task_seg_def task_destination_def)

lemma request_tasks_area:
  assumes "request_ok heap v r"
  shows "sorted_wrt (\<lambda>t t'. apart (task_area heap t) (task_area heap t')) (tasks_of r v)"
    and "(\<Union>t\<in>set (tasks_of r v). task_area heap t) = request_area (heap ! r)"
proof -
  let ?ns = "map (\<lambda>t. ti_bytesize (task_info t)) (tasks_of r v)"
  have lay: "map (task_seg heap) (tasks_of r v) = lay (req_offset (heap ! r)) (req_dst (heap ! r)) ?ns"
    and size: "sum_list (map unat ?ns) = unat (req_bytesize (heap ! r))"
    using assms by (simp_all add: request_ok_def seg_of_task_seg task_sizes_def comp_def Let_def)
  have "sorted_wrt (\<lambda>g g'. apart (seg_area g) (seg_area g')) (map (task_seg heap) (tasks_of r v))"
    unfolding lay by (rule lay_apart) (simp only: size unat_lt64)
  then show "sorted_wrt (\<lambda>t t'. apart (task_area heap t) (task_area heap t')) (tasks_of r v)"
    by (simp add: sorted_wrt_map task_area_def)
  have "(\<Union>t\<in>set (tasks_of r v). task_area heap t) = (\<Union>g\<in>set (map (task_seg heap) (tasks_of r v)). seg_area g)"
    by (simp add: task_area_def)
  then show "(\<Union>t\<in>set (tasks_of r v). task_area heap t) = request_area (heap ! r)"
    unfolding lay lay_area request_area_def size .
qed

section \<open>Tasks of disjoint ranges\<close>

text \<open>The destinations of the ranges of a submission do not overlap.\<close>

definition ranges_apart :: "file_ranges list \<Rightarrow> bool" where
  "ranges_apart request \<longleftrightarrow>
     sorted_wrt (\<lambda>(f, i, g) (f', i', g'). apart (seg_area g) (seg_area g')) (request_ranges 0 request)"

lemma sorted_wrt_by_key:
  assumes "\<And>r. sorted_wrt P (filter (\<lambda>t. key t = r) xs)"
    and "\<And>x y. x \<in> set xs \<Longrightarrow> y \<in> set xs \<Longrightarrow> key x \<noteq> key y \<Longrightarrow> P x y"
  shows "sorted_wrt P xs"
  using assms
proof (induction xs)
  case (Cons x xs)
  have "P x y" if "y \<in> set xs" for y
  proof (cases "key x = key y")
    case True
    have "sorted_wrt P (x # filter (\<lambda>t. key t = key x) xs)"
      using Cons.prems(1) [of "key x"] by simp
    then show ?thesis using that True by simp
  next
    case False
    then show ?thesis using Cons.prems(2) that by simp
  qed
  moreover have "sorted_wrt P (filter (\<lambda>t. key t = r) xs)" for r
    using Cons.prems(1) [of r] by (simp split: if_splits)
  then have "sorted_wrt P xs"
    using Cons.prems(2) by (intro Cons.IH) auto
  ultimately show ?case by simp
qed simp

lemma sorted_wrt_concat:
  "sorted_wrt P (concat xss) \<Longrightarrow> sorted_wrt (\<lambda>xs ys. \<forall>x\<in>set xs. \<forall>y\<in>set ys. P x y) xss"
  by (induction xss) (auto simp: sorted_wrt_append)

lemma batches_apart:
  assumes b: "built sid cfg request heap0 ts bs heap" and all: "concat (map transfer_ranges ts) = request_ranges 0 request"
    and apart: "ranges_apart request"
  shows "sorted_wrt (\<lambda>b b'. apart (batch_area heap b) (batch_area heap b')) bs"
    and "(\<Union>b\<in>set bs. batch_area heap b) \<subseteq> (\<Union>(f, i, g)\<in>set (request_ranges 0 request). seg_area g)"
proof -
  let ?v = "map batch_tasks bs" and ?a = "length heap0"
  have range: "map request_range (drop ?a heap) = request_ranges 0 request"
    and own: "\<forall>b\<in>set bs. own_batch sid cfg request ?a heap b"
    and req: "\<forall>r. ?a \<le> r \<and> r < length heap \<longrightarrow> request_ok heap ?v r"
    using b all by (simp_all add: built_def)
  have span: "?a \<le> task_request t \<and> task_request t < length heap" if "t \<in> set (concat ?v)" for t
    using that own by (auto simp: own_batch_def)
  have area: "task_area heap t \<subseteq> request_area (heap ! task_request t)" if "t \<in> set (concat ?v)" for t
  proof -
    have "t \<in> set (tasks_of (task_request t) ?v)" using that by (simp add: tasks_of_def)
    then show ?thesis
      using request_tasks_area(2) [of heap ?v "task_request t"] req span [OF that] by blast
  qed
  have sorted: "sorted_wrt (\<lambda>q q'. apart (request_area q) (request_area q')) (drop ?a heap)"
  proof -
    have "sorted_wrt (\<lambda>p p'. apart (seg_area (snd (snd p))) (seg_area (snd (snd p')))) (map request_range (drop ?a heap))"
      using apart unfolding range ranges_apart_def by (simp add: case_prod_unfold)
    then show ?thesis by (simp add: sorted_wrt_map request_area_range)
  qed
  have other: "apart (request_area (heap ! r)) (request_area (heap ! r'))"
    if "?a \<le> r" "r < r'" "r' < length heap" for r r'
  proof -
    have "apart (request_area (drop ?a heap ! (r - ?a))) (request_area (drop ?a heap ! (r' - ?a)))"
      using sorted that by (intro sorted_wrt_nth_less [OF sorted]) auto
    then show ?thesis using that by simp
  qed
  have "sorted_wrt (\<lambda>t t'. apart (task_area heap t) (task_area heap t')) (concat ?v)"
  proof (rule sorted_wrt_by_key [where key = task_request])
    fix r
    show "sorted_wrt (\<lambda>t t'. apart (task_area heap t) (task_area heap t'))
        (filter (\<lambda>t. task_request t = r) (concat ?v))"
    proof (cases "?a \<le> r \<and> r < length heap")
      case True
      then show ?thesis using request_tasks_area(1) [of heap ?v r] req by (simp add: tasks_of_def)
    next
      case False
      then have "filter (\<lambda>t. task_request t = r) (concat ?v) = []"
        using span by (auto simp only: filter_empty_conv)
      then show ?thesis by (simp only: sorted_wrt.simps)
    qed
  next
    fix t t'
    assume t: "t \<in> set (concat ?v)" "t' \<in> set (concat ?v)" and ne: "task_request t \<noteq> task_request t'"
    have "apart (request_area (heap ! task_request t)) (request_area (heap ! task_request t'))"
    proof (cases "task_request t < task_request t'")
      case True
      then show ?thesis using other span t by blast
    next
      case False
      then show ?thesis using other [of "task_request t'" "task_request t"] span t ne by auto
    qed
    then show "apart (task_area heap t) (task_area heap t')"
      using area t by blast
  qed
  from sorted_wrt_concat [OF this]
  have "sorted_wrt (\<lambda>b b'. \<forall>t\<in>set (batch_tasks b). \<forall>t'\<in>set (batch_tasks b').
      apart (task_area heap t) (task_area heap t')) bs"
    by (simp add: sorted_wrt_map)
  then show "sorted_wrt (\<lambda>b b'. apart (batch_area heap b) (batch_area heap b')) bs"
  proof (rule sorted_wrt_mono_rel [rotated])
    fix b b'
    assume "b \<in> set bs" "b' \<in> set bs" and d: "\<forall>t\<in>set (batch_tasks b). \<forall>t'\<in>set (batch_tasks b').
      apart (task_area heap t) (task_area heap t')"
    then have "batch_ok heap b" "batch_ok heap b'" using own by (auto simp: own_batch_def)
    then show "apart (batch_area heap b) (batch_area heap b')"
      using d by (auto simp: batch_area_tasks)
  qed
  show "(\<Union>b\<in>set bs. batch_area heap b) \<subseteq> (\<Union>(f, i, g)\<in>set (request_ranges 0 request). seg_area g)"
  proof
    fix a assume "a \<in> (\<Union>b\<in>set bs. batch_area heap b)"
    then obtain b t where bt: "b \<in> set bs" "t \<in> set (batch_tasks b)" "a \<in> task_area heap t"
      using own batch_area_tasks by (fastforce simp: own_batch_def)
    then have t: "t \<in> set (concat ?v)" by auto
    then have "a \<in> request_area (heap ! task_request t)" using area bt(3) by blast
    moreover have "drop ?a heap ! (task_request t - ?a) = heap ! task_request t"
      "task_request t - ?a < length (drop ?a heap)"
      using span [OF t] by (simp_all add: diff_less_mono)
    then have "heap ! task_request t \<in> set (drop ?a heap)" by (metis nth_mem)
    then have "request_range (heap ! task_request t) \<in> set (request_ranges 0 request)"
      unfolding range [symmetric] by simp
    ultimately show "a \<in> (\<Union>(f, i, g)\<in>set (request_ranges 0 request). seg_area g)"
      unfolding request_area_range by (force simp: case_prod_unfold)
  qed
qed

section \<open>Batches in a sequence\<close>

text \<open>The heap may change while batches run, but not where the requests go.\<close>

definition same_dsts :: "request_heap \<Rightarrow> request_heap \<Rightarrow> bool" where
  "same_dsts heap heap' \<longleftrightarrow> length heap' = length heap \<and>
     (\<forall>r<length heap. req_dst (heap' ! r) = req_dst (heap ! r))"

lemma same_dsts_trans: "same_dsts a b \<Longrightarrow> same_dsts b c \<Longrightarrow> same_dsts a c"
  by (simp add: same_dsts_def)

lemma nth_list_update': "r < length xs \<Longrightarrow> xs[i := x] ! r = (if i = r then x else xs ! r)"
  by (cases "i = r") simp_all

lemma finish_task_dsts: "same_dsts (fst w) (fst (fst (finish_task sid f c w t)))"
proof -
  obtain heap out where w: "w = (heap, out)" by (cases w)
  obtain q l where q: "request_finished c (heap ! task_request t) = (q, l)" by (cases "request_finished c (heap ! task_request t)")
  then have dst: "req_dst q = req_dst (heap ! task_request t)"
    using request_finished_simps(4) [of c "heap ! task_request t"] by simp
  have "same_dsts heap (heap[task_request t := q])"
    unfolding same_dsts_def using dst by (auto simp: nth_list_update')
  then show ?thesis
    using q by (auto simp: w finish_task_def finished_request_def same_dsts_def Let_def split: prod.splits)
qed

lemma deliver_dsts: "same_dsts (fst w) (fst (deliver sid es w))"
proof (induction sid es w rule: deliver.induct)
  case (2 sid f t c es w)
  then show ?case using finish_task_dsts [of w sid f c t] same_dsts_trans by fastforce
qed (simp add: same_dsts_def)

definition within :: "request_heap \<Rightarrow> batch \<Rightarrow> bool" where
  "within heap b \<longleftrightarrow> (\<forall>t\<in>set (batch_tasks b). task_request t < length heap)"

lemma task_destination_same:
  "same_dsts heap heap' \<Longrightarrow> task_request t < length heap \<Longrightarrow>
    task_destination heap' t = task_destination heap t"
  by (simp add: same_dsts_def task_destination_def)

lemma batch_ok_same:
  assumes "same_dsts heap heap'" and "within heap b" and "batch_ok heap b"
  shows "batch_ok heap' b" and "batch_area heap' b = batch_area heap b"
proof -
  have dest: "task_destination heap' t = task_destination heap t" if "t \<in> set (batch_tasks b)" for t
    using assms(1,2) that by (simp add: within_def task_destination_same)
  then have "map (task_seg heap') (batch_tasks b) = map (task_seg heap) (batch_tasks b)"
    by (intro map_cong refl) (simp add: task_seg_def)
  moreover have "batch_tasks b ! 0 \<in> set (batch_tasks b)"
    using assms(3) by (auto simp: batch_ok_def Let_def)
  ultimately show "batch_ok heap' b" "batch_area heap' b = batch_area heap b"
    using assms(3) dest by (simp_all del: map_eq_conv add: batch_ok_def tiles_def batch_area_def Let_def)
qed

text \<open>
  The files: all behave as \<open>read(2)\<close>, and \<open>content\<close> gives the bytes of each path.
\<close>

definition posix_files ::
  "(string \<Rightarrow> 'os file_system) \<Rightarrow> (string \<Rightarrow> byte list) \<Rightarrow> bool" where
  "posix_files fs content \<longleftrightarrow> (\<exists>pos patience. \<forall>path. posix_file (fs path) (content path) pos patience)"

definition runnable :: "request_heap \<Rightarrow> submission_id \<Rightarrow> (nat \<Rightarrow> string) \<Rightarrow> batch \<Rightarrow> bool" where
  "runnable heap sid path b \<longleftrightarrow> batch_ok heap b \<and> within heap b \<and> batch_submission_id b = sid \<and>
     batch_path b = path (batch_file_index b) \<and> \<not> is_object_storage b \<and>
     0 < fs_block_bytesize (batch_config b)"

text \<open>The outcome of events: codes a file can give, and after a success the task's bytes are there.\<close>

definition events_ok ::
  "(string \<Rightarrow> byte list) \<Rightarrow> (nat \<Rightarrow> string) \<Rightarrow> request_heap \<Rightarrow> memory \<Rightarrow> event list \<Rightarrow> bool" where
  "events_ok content path heap mem es \<longleftrightarrow> (\<forall>(f, t, c)\<in>set es.
     c \<in> {Success, FileAccessError, EofError, FinishedError} \<and>
     (c = Success \<longrightarrow> task_read (content (path f)) heap mem t))"

lemma batch_run:
  assumes b: "runnable heap sid path b" and w: "same_dsts heap (fst w)" and fs: "posix_files fs content"
    and mono: "\<forall>i j. stopped i \<and> i \<le> j \<longrightarrow> stopped j"
  shows "\<exists>b' w' mem' es. batch_execute (fs (batch_path b)) stopped b w mem = Some (Inr (), b', w', mem') \<and>
    w' = deliver sid es w \<and>
    map (\<lambda>(f, t, c). (f, t)) es = map (\<lambda>t. (batch_file_index b, t)) (batch_tasks b) \<and>
    events_ok content path heap mem' es \<and> (\<forall>a. a \<notin> batch_area heap b \<longrightarrow> mem' a = mem a)"
proof -
  have ok: "batch_ok heap b" "within heap b" and sid: "batch_submission_id b = sid"
    and path: "batch_path b = path (batch_file_index b)"
    and run: "\<not> is_object_storage b" "0 < fs_block_bytesize (batch_config b)"
    using b by (simp_all add: runnable_def)
  note same = batch_ok_same [OF w ok(2,1)]
  obtain pos patience where "posix_file (fs (batch_path b)) (content (batch_path b)) pos patience"
    using fs by (auto simp: posix_files_def)
  from batch_execute_spec [OF same(1) run(2,1) this mono, of mem] obtain out k c where
    some: "batch_execute (fs (batch_path b)) stopped b w mem = Some (Inr (), out)"
    and exec: "executed (content (batch_path b)) b w mem k c out"
    and c: "k < length (batch_tasks b) \<longrightarrow> c \<in> {FileAccessError, EofError} \<or>
      c = FinishedError \<and> (\<exists>i. stopped i)"
    by blast
  obtain b' w' mem' where o: "out = (b', w', mem')" by (cases out)
  have ex: "batch_execute (fs (batch_path b)) stopped b w mem = Some (Inr (), b', w', mem')"
    and out: "executed (content (batch_path b)) b w mem k c (b', w', mem')"
    using some exec by (simp_all add: o)
  let ?es = "batch_events b k c"
  have w': "w' = deliver sid ?es w"
    using out sid by (simp add: executed_def finish_events_deliver batch_events_def)
  have area: "\<forall>a. a \<notin> batch_area heap b \<longrightarrow> mem' a = mem a"
    using out same(2) by (simp add: executed_def batch_area_def)
  have read: "task_read (content (path (batch_file_index b))) heap mem' t" if "t \<in> set (take k (batch_tasks b))" for t
  proof -
    from that obtain i where "i < length (take k (batch_tasks b))" "t = take k (batch_tasks b) ! i"
      unfolding in_set_conv_nth by blast
    then have i: "i < k" "i < length (batch_tasks b)" "t = batch_tasks b ! i" by simp_all
    then have "task_read (content (batch_path b)) (fst w) mem' t"
      using out by (simp add: executed_def)
    moreover have "task_destination (fst w) t = task_destination heap t"
      using i ok(2) by (intro task_destination_same [OF w]) (simp add: within_def)
    ultimately show ?thesis by (simp add: task_read_def path)
  qed
  have "events_ok content path heap mem' ?es"
    unfolding events_ok_def
  proof
    fix e assume "e \<in> set ?es"
    then consider t where "e = (batch_file_index b, t, Success)" "t \<in> set (take k (batch_tasks b))"
      | t where "e = (batch_file_index b, t, c)" "t \<in> set (drop k (batch_tasks b))"
      by (auto simp: batch_events_def events_of_def)
    then show "case e of (f, t, c) \<Rightarrow> c \<in> {Success, FileAccessError, EofError, FinishedError} \<and>
        (c = Success \<longrightarrow> task_read (content (path f)) heap mem' t)"
    proof cases
      case 1
      then show ?thesis using read by simp
    next
      case (2 t)
      then have "k < length (batch_tasks b)" by (cases "k < length (batch_tasks b)") auto
      then show ?thesis using c 2 by auto
    qed
  qed
  then show ?thesis using ex w' area batch_events_pairs by blast
qed

lemma events_ok_keep:
  assumes "events_ok content path heap mem es"
    and "\<And>f t c. (f, t, c) \<in> set es \<Longrightarrow> \<forall>a\<in>task_area heap t. mem' a = mem a"
  shows "events_ok content path heap mem' es"
proof -
  have "task_read data heap mem' t = task_read data heap mem t" if "(f, t, c) \<in> set es" for f t c and data :: "byte list"
  proof -
    have "mem_bytes mem' (task_destination heap t) (unat (ti_bytesize (task_info t))) =
        mem_bytes mem (task_destination heap t) (unat (ti_bytesize (task_info t)))"
      using assms(2) [OF that] by (intro mem_bytes_cong) (simp add: task_area_def seg_area_def task_seg_def)
    then show ?thesis by (simp add: task_read_def)
  qed
  then show ?thesis using assms(1) by (fastforce simp: events_ok_def)
qed

definition batch_pairs :: "batch \<Rightarrow> (nat \<times> task) list" where
  "batch_pairs b = map (\<lambda>t. (batch_file_index b, t)) (batch_tasks b)"

lemma execute_batches_spec:
  assumes "\<forall>b\<in>set bs. runnable heap sid path b" and "same_dsts heap (fst w)" and "posix_files fs content"
    and "\<forall>n i j. stopped n i \<and> i \<le> j \<longrightarrow> stopped n j"
    and "sorted_wrt (\<lambda>b b'. apart (batch_area heap b) (batch_area heap b')) bs"
  shows "\<exists>bs' w' mem' es. execute_batches fs stopped n bs w mem = Some (Inr (), bs', w', mem') \<and>
    w' = deliver sid es w \<and> map (\<lambda>(f, t, c). (f, t)) es = concat (map batch_pairs bs) \<and>
    events_ok content path heap mem' es \<and>
    (\<forall>a. a \<notin> (\<Union>b\<in>set bs. batch_area heap b) \<longrightarrow> mem' a = mem a)"
  using assms(1,2,5)
proof (induction bs arbitrary: n w mem)
  case (Cons b bs)
  from batch_run [OF _ Cons.prems(2) assms(3), of sid path b "stopped n" mem] Cons.prems(1) assms(4)
  obtain b' w1 mem1 es1 where
    one: "batch_execute (fs (batch_path b)) (stopped n) b w mem = Some (Inr (), b', w1, mem1)"
      "w1 = deliver sid es1 w" "map (\<lambda>(f, t, c). (f, t)) es1 = batch_pairs b"
      "events_ok content path heap mem1 es1" "\<forall>a. a \<notin> batch_area heap b \<longrightarrow> mem1 a = mem a"
    unfolding batch_pairs_def by auto
  have "same_dsts heap (fst w1)"
    using Cons.prems(2) deliver_dsts same_dsts_trans one(2) by blast
  from Cons.IH [OF _ this, of "Suc n" mem1] Cons.prems obtain bs' w2 mem2 es2 where
    two: "execute_batches fs stopped (Suc n) bs w1 mem1 = Some (Inr (), bs', w2, mem2)"
      "w2 = deliver sid es2 w1" "map (\<lambda>(f, t, c). (f, t)) es2 = concat (map batch_pairs bs)"
      "events_ok content path heap mem2 es2"
      "\<forall>a. a \<notin> (\<Union>b\<in>set bs. batch_area heap b) \<longrightarrow> mem2 a = mem1 a"
    by auto
  have "events_ok content path heap mem2 es1"
  proof (rule events_ok_keep [OF one(4)])
    fix f t c assume e: "(f, t, c) \<in> set es1"
    then have "(f, t) \<in> set (map (\<lambda>(f, t, c). (f, t)) es1)" by force
    then have "t \<in> set (batch_tasks b)"
      unfolding one(3) by (auto simp: batch_pairs_def)
    moreover have "batch_ok heap b" using Cons.prems(1) by (simp add: runnable_def)
    ultimately have "task_area heap t \<subseteq> batch_area heap b"
      using batch_area_tasks by blast
    moreover have "apart (batch_area heap b) (\<Union>b\<in>set bs. batch_area heap b)"
      using Cons.prems(3) by auto
    ultimately show "\<forall>a\<in>task_area heap t. mem2 a = mem1 a"
      using two(5) by blast
  qed
  then have "events_ok content path heap mem2 (es1 @ es2)"
    using two(4) by (auto simp: events_ok_def)
  moreover have "execute_batches fs stopped n (b # bs) w mem = Some (Inr (), b' # bs', w2, mem2)"
    using one(1) two(1) by simp
  moreover have "w2 = deliver sid (es1 @ es2) w"
    using one(2) two(2) by (simp add: deliver_append)
  moreover have "\<forall>a. a \<notin> (\<Union>b\<in>set (b # bs). batch_area heap b) \<longrightarrow> mem2 a = mem a"
    using one(5) two(5) by simp
  moreover have "map (\<lambda>(f, t, c). (f, t)) (es1 @ es2) = concat (map batch_pairs (b # bs))"
    using one(3) two(3) by simp
  ultimately show ?case by blast
qed (auto simp: events_ok_def)

section \<open>The threads of the pool\<close>

text \<open>
  \<open>ThreadPool::routine\<close>, for workloads of files that are taken one after the other: the handler
  executes each workload, and what it throws is logged and dropped.
\<close>

fun execute_workloads ::
  "(string \<Rightarrow> 'os file_system) \<Rightarrow> (nat \<Rightarrow> nat \<Rightarrow> nat \<Rightarrow> bool) \<Rightarrow> nat \<Rightarrow> workload list \<Rightarrow>
    request_heap \<times> pushes \<Rightarrow> memory \<Rightarrow> ((request_heap \<times> pushes) \<times> memory) option" where
  "execute_workloads fs stopped i [] w mem = Some (w, mem)"
| "execute_workloads fs stopped i (wl # wls) w mem =
     (case workload_execute fs (stopped i) wl w mem of
        None \<Rightarrow> None
      | Some (r, wl', w', mem') \<Rightarrow> execute_workloads fs stopped (Suc i) wls w' mem')"

lemma execute_workloads_spec:
  assumes "\<forall>b\<in>set (all_batches wls). runnable heap sid path b" and "same_dsts heap (fst w)"
    and "posix_files fs content" and "\<forall>l n i j. stopped l n i \<and> i \<le> j \<longrightarrow> stopped l n j"
    and "sorted_wrt (\<lambda>b b'. apart (batch_area heap b) (batch_area heap b')) (all_batches wls)"
    and "list_all (of_kind False) wls"
  shows "\<exists>w' mem' es. execute_workloads fs stopped m wls w mem = Some (w', mem') \<and>
    w' = deliver sid es w \<and> map (\<lambda>(f, t, c). (f, t)) es = workload_tasks wls \<and>
    events_ok content path heap mem' es \<and>
    (\<forall>a. a \<notin> (\<Union>b\<in>set (all_batches wls). batch_area heap b) \<longrightarrow> mem' a = mem a)"
  using assms(1,2,5,6)
proof (induction wls arbitrary: m w mem)
  case (Cons wl wls)
  have split: "all_batches (wl # wls) = wl_batches wl @ all_batches wls" by (simp add: all_batches_def)
  have tasks: "workload_tasks (wl # wls) = concat (map batch_pairs (wl_batches wl)) @ workload_tasks wls"
    by (simp add: workload_tasks_def split batch_pairs_def [abs_def])
  have apart: "sorted_wrt (\<lambda>b b'. apart (batch_area heap b) (batch_area heap b')) (wl_batches wl)"
    "sorted_wrt (\<lambda>b b'. apart (batch_area heap b) (batch_area heap b')) (all_batches wls)"
    "\<forall>b\<in>set (wl_batches wl). \<forall>b'\<in>set (all_batches wls). apart (batch_area heap b) (batch_area heap b')"
    using Cons.prems(3) by (simp_all add: split sorted_wrt_append)
  have run: "\<forall>b\<in>set (wl_batches wl). runnable heap sid path b" "\<forall>b\<in>set (all_batches wls). runnable heap sid path b"
    using Cons.prems(1) by (simp_all add: split)
  obtain bs' w1 mem1 es1 where
    ex: "execute_batches fs (stopped m) 0 (wl_batches wl) w mem = Some (Inr (), bs', w1, mem1)"
    and one: "w1 = deliver sid es1 w" "map (\<lambda>(f, t, c). (f, t)) es1 = concat (map batch_pairs (wl_batches wl))"
      "events_ok content path heap mem1 es1"
      "\<forall>a. a \<notin> (\<Union>b\<in>set (wl_batches wl). batch_area heap b) \<longrightarrow> mem1 a = mem a"
    using execute_batches_spec [OF run(1) Cons.prems(2) assms(3) _ apart(1), of "stopped m" 0 mem] assms(4) by blast
  have "\<exists>wl'. workload_execute fs (stopped m) wl w mem = Some (Inr (), wl', w1, mem1)"
  proof (cases "wl_batches wl")
    case Nil
    then show ?thesis using ex by (simp add: workload_execute_def workload_size_def)
  next
    case (Cons b bs)
    then have "\<not> wl_is_object_storage wl" "workload_size wl \<noteq> 0"
      using Cons.prems(4) by (simp_all add: of_kind_def workload_size_def)
    then show ?thesis using ex by (simp add: workload_execute_def)
  qed
  then obtain wl' where exec: "workload_execute fs (stopped m) wl w mem = Some (Inr (), wl', w1, mem1)" by blast
  have "same_dsts heap (fst w1)"
    using Cons.prems(2) deliver_dsts same_dsts_trans one(1) by blast
  from Cons.IH [OF run(2) this apart(2), of "Suc m" mem1] Cons.prems(4) obtain w2 mem2 es2 where
    two: "execute_workloads fs stopped (Suc m) wls w1 mem1 = Some (w2, mem2)"
      "w2 = deliver sid es2 w1" "map (\<lambda>(f, t, c). (f, t)) es2 = workload_tasks wls"
      "events_ok content path heap mem2 es2"
      "\<forall>a. a \<notin> (\<Union>b\<in>set (all_batches wls). batch_area heap b) \<longrightarrow> mem2 a = mem1 a"
    by auto
  have "events_ok content path heap mem2 es1"
  proof (rule events_ok_keep [OF one(3)])
    fix f t c assume "(f, t, c) \<in> set es1"
    then have "(f, t) \<in> set (map (\<lambda>(f, t, c). (f, t)) es1)" by force
    then obtain b where b: "b \<in> set (wl_batches wl)" "t \<in> set (batch_tasks b)"
      unfolding one(2) by (auto simp: batch_pairs_def)
    then have "task_area heap t \<subseteq> batch_area heap b"
      using batch_area_tasks [of heap b] run(1) by (auto simp: runnable_def)
    moreover have "apart (batch_area heap b) (\<Union>b\<in>set (all_batches wls). batch_area heap b)"
      using apart(3) b(1) by blast
    ultimately show "\<forall>a\<in>task_area heap t. mem2 a = mem1 a"
      using two(5) by blast
  qed
  then have "events_ok content path heap mem2 (es1 @ es2)"
    using two(4) by (auto simp: events_ok_def)
  moreover have "execute_workloads fs stopped m (wl # wls) w mem = Some (w2, mem2)"
    using exec two(1) by simp
  moreover have "w2 = deliver sid (es1 @ es2) w"
    using one(1) two(2) by (simp add: deliver_append)
  moreover have "\<forall>a. a \<notin> (\<Union>b\<in>set (all_batches (wl # wls)). batch_area heap b) \<longrightarrow> mem2 a = mem a"
    using one(4) two(5) by (simp add: split)
  moreover have "map (\<lambda>(f, t, c). (f, t)) (es1 @ es2) = workload_tasks (wl # wls)"
    using one(2) two(3) by (simp add: tasks)
  ultimately show ?case by blast
qed (auto simp: events_ok_def all_batches_def workload_tasks_def)

section \<open>A submission of local files\<close>

lemma sorted_wrt_mset:
  assumes "mset xs = mset ys" and "sorted_wrt P ys" and sym: "\<And>x y. P x y \<Longrightarrow> P y x"
  shows "sorted_wrt P xs"
  using assms(1,2)
proof (induction xs arbitrary: ys)
  case (Cons x xs)
  then have "x \<in> set ys" by (metis list.set_intros(1) set_mset_mset)
  then obtain us vs where ys: "ys = us @ x # vs" using split_list by fast
  then have "mset xs = mset (us @ vs)" using Cons.prems(1) by simp
  moreover have "sorted_wrt P (us @ vs)" "\<forall>y\<in>set (us @ vs). P x y"
    using Cons.prems(2) sym by (auto simp: ys sorted_wrt_append)
  moreover have "set xs = set (us @ vs)" using \<open>mset xs = mset (us @ vs)\<close> by (metis set_mset_mset)
  ultimately show ?case using Cons.IH [of "us @ vs"] by (metis sorted_wrt.simps(2))
qed simp

lemma all_batches_busy: "all_batches (busy ws) = all_batches ws"
  by (induction ws) (auto simp: all_batches_def busy_def)

lemma mset_all_batches:
  assumes "mset ws = mset ws'"
  shows "mset (all_batches ws) = mset (all_batches ws')"
proof -
  have "mset (all_batches ws) = \<Sum>\<^sub># (image_mset (\<lambda>w. mset (wl_batches w)) (mset ws))" for ws
    by (simp add: all_batches_def mset_concat comp_def sum_mset_sum_list flip: mset_map)
  then show ?thesis using assms by simp
qed

text \<open>What a range of a submission has come to: its code, and the bytes of the file on success.\<close>

definition range_outcome ::
  "(string \<Rightarrow> byte list) \<Rightarrow> file_ranges list \<Rightarrow> memory \<Rightarrow> request \<Rightarrow> bool" where
  "range_outcome content request mem q \<longleftrightarrow>
     req_ret q \<in> {Success, FileAccessError, EofError, FinishedError} \<and>
     (req_ret q = Success \<longrightarrow>
       range_read (content (fr_path (request ! req_file_index q))) mem (snd (snd (request_range q))))"

lemma range_outcome_of_events:
  assumes req: "request_ok heap v r" and ev: "events_ok content path heap mem es"
    and es: "mset (map (\<lambda>(f, t, c). t) es) = mset (concat v)"
    and file_of: "\<forall>(f, t, c)\<in>set es. task_request t = r \<longrightarrow> f = req_file_index (heap ! r)"
    and fits: "unat (req_offset (heap ! r)) + unat (req_bytesize (heap ! r)) < 18446744073709551616"
    and same: "same_request q (heap ! r)" and out: "outcome_ok (codes_of r es) (req_ret q)"
    and path: "path = (\<lambda>f. fr_path (request ! f))"
  shows "range_outcome content request mem q"
proof -
  have range: "request_range q = request_range (heap ! r)" and f: "req_file_index q = req_file_index (heap ! r)"
    using request_range_same [OF same] same by (simp_all add: same_request_def)
  have codes: "c \<in> {Success, FileAccessError, EofError, FinishedError}" if "c \<in> set (codes_of r es)" for c
    using that ev by (force simp: codes_of_def events_ok_def)
  have ret: "req_ret q \<in> {Success, FileAccessError, EofError, FinishedError}"
    using out codes by (cases "req_ret q = Success") (auto simp: outcome_ok_def)
  have "range_read (content (path (req_file_index (heap ! r)))) mem
      (req_offset (heap ! r), req_bytesize (heap ! r), req_dst (heap ! r))" if "req_ret q = Success"
  proof (rule request_ok_read [OF req _ fits], rule ballI)
    fix t assume "t \<in> set (tasks_of r v)"
    then have t: "t \<in> set (concat v)" "task_request t = r" by (simp_all add: tasks_of_def)
    then have "t \<in> set (map (\<lambda>(f, t, c). t) es)" by (metis es set_mset_mset)
    then obtain f c where e: "(f, t, c) \<in> set es" by auto
    then have "c \<in> set (codes_of r es)" using t(2) by (force simp: codes_of_def)
    then have "c = Success" using out that by (auto simp: outcome_ok_def list_all_iff)
    then show "task_read (content (path (req_file_index (heap ! r)))) heap mem t"
      using ev e file_of t(2) by (fastforce simp: events_ok_def)
  qed
  then show ?thesis
    using ret by (simp add: range_outcome_def range f path) (simp add: request_range_def)
qed

lemma complete_executed:
  assumes cw: "complete_workloads sid request False s s1 ws" and cfg: "config_ok (st_config s)"
    and fit: "ranges_fit request" and apart: "ranges_apart request" and fs: "posix_files fs content"
    and mono: "\<forall>l n i j. stopped l n i \<and> i \<le> j \<longrightarrow> stopped l n j"
    and wls: "mset wls = mset (busy ws)"
  shows "\<exists>heap' rs mem'. execute_workloads fs stopped m wls (st_heap s1, []) mem =
      Some ((heap', map (\<lambda>q. response_for sid (heap' ! q)) rs), mem') \<and> distinct rs \<and>
    mset (map (\<lambda>q. request_range (heap' ! q)) rs) = mset (request_ranges 0 request) \<and>
    (\<forall>q\<in>set rs. range_outcome content request mem' (heap' ! q)) \<and>
    (\<forall>a. a \<notin> (\<Union>(f, i, g)\<in>set (request_ranges 0 request). seg_area g) \<longrightarrow> mem' a = mem a)"
proof -
  let ?path = "\<lambda>f. fr_path (request ! f)" and ?heap = "st_heap s1"
  obtain bs ts where bs0: "mset (all_batches ws) = mset bs"
    and ts: "concat (map transfer_ranges ts) = request_ranges 0 request"
    and b: "built sid (st_config s) request (st_heap s) ts bs ?heap"
    using cw by (auto simp: complete_workloads_def)
  let ?a = "length (st_heap s)"
  have bs: "mset (all_batches wls) = mset bs"
    using mset_all_batches [OF wls] bs0 by (simp add: all_batches_busy)
  have own: "\<forall>b\<in>set bs. own_batch sid (st_config s) request ?a ?heap b"
    and req: "\<forall>r. ?a \<le> r \<and> r < length ?heap \<longrightarrow> request_ok ?heap (map batch_tasks bs) r"
    and ranges: "map request_range (drop ?a ?heap) = request_ranges 0 request"
    using b ts by (simp_all add: built_def)
  have kind: "list_all (of_kind False) wls"
  proof -
    have "set wls \<subseteq> set ws" using wls by (metis busy_def filter_is_subset set_mset_mset)
    then show ?thesis using cw by (auto simp: complete_workloads_def list_all_iff)
  qed
  have sets: "set (all_batches wls) = set bs" using bs by (metis set_mset_mset)
  have "\<not> is_object_storage b" if "b \<in> set (all_batches wls)" for b
    using that kind by (auto simp: all_batches_def list_all_iff of_kind_def)
  then have run: "\<forall>b\<in>set (all_batches wls). runnable ?heap sid ?path b"
    using own cfg unfolding sets by (auto simp: runnable_def own_batch_def within_def config_ok_def)
  have sorted: "sorted_wrt (\<lambda>b b'. apart (batch_area ?heap b) (batch_area ?heap b')) (all_batches wls)"
    by (rule sorted_wrt_mset [OF bs batches_apart(1) [OF b ts apart]]) blast
  have "same_dsts ?heap (fst (?heap, [] :: pushes))" by (simp add: same_dsts_def)
  from execute_workloads_spec [OF run this fs mono sorted kind, of m mem] obtain w' mem' es where
    ex: "execute_workloads fs stopped m wls (?heap, []) mem = Some (w', mem')" "w' = deliver sid es (?heap, [])"
    and es: "map (\<lambda>(f, t, c). (f, t)) es = workload_tasks wls"
    and ev: "events_ok content ?path ?heap mem' es"
    and mem: "\<forall>a. a \<notin> (\<Union>b\<in>set (all_batches wls). batch_area ?heap b) \<longrightarrow> mem' a = mem a"
    by blast
  have tasks: "mset (workload_tasks wls) = mset (workload_tasks ws)"
    using mset_workload_tasks [OF bs] mset_workload_tasks [OF bs0] by simp
  from complete_run [OF cw, of es] es tasks obtain heap' rs where
    d: "deliver sid es (?heap, []) = (heap', map (\<lambda>q. response_for sid (heap' ! q)) rs)"
    and rs: "distinct rs" "mset (map (\<lambda>q. request_range (heap' ! q)) rs) = mset (request_ranges 0 request)"
    and out: "\<forall>q\<in>set rs. outcome_ok (codes_of q es) (req_ret (heap' ! q))"
    and same: "\<forall>q\<in>set rs. ?a \<le> q \<and> q < length ?heap \<and> same_request (heap' ! q) (?heap ! q)"
    by auto
  have pairs: "mset (workload_tasks wls) = mset (concat (map batch_pairs bs))"
    using mset_workload_tasks [OF bs] by (simp add: batch_pairs_def [abs_def])
  have es_tasks: "mset (map (\<lambda>(f, t, c). t) es) = mset (concat (map batch_tasks bs))"
  proof -
    have "map (\<lambda>(f, t, c). t) es = map snd (workload_tasks wls)"
      unfolding es [symmetric] by (simp add: comp_def case_prod_unfold)
    then have "mset (map (\<lambda>(f, t, c). t) es) = mset (map snd (concat (map batch_pairs bs)))"
      using mset_map_cong [OF pairs] by simp
    then show ?thesis by (simp add: map_concat comp_def batch_pairs_def)
  qed
  have file_of: "f = req_file_index (?heap ! task_request t)" if "(f, t, c) \<in> set es" for f t c
  proof -
    have "(f, t) \<in> set (map (\<lambda>(f, t, c). (f, t)) es)" using that by force
    then have "(f, t) \<in> set (concat (map batch_pairs bs))"
      unfolding es using pairs by (metis set_mset_mset)
    then show ?thesis using own by (auto simp: batch_pairs_def own_batch_def)
  qed
  have "range_outcome content request mem' (heap' ! q)" if q: "q \<in> set rs" for q
  proof (rule range_outcome_of_events [OF _ ev es_tasks, of q])
    show "request_ok ?heap (map batch_tasks bs) q" using req same q by blast
    show "\<forall>(f, t, c)\<in>set es. task_request t = q \<longrightarrow> f = req_file_index (?heap ! q)"
      using file_of by auto
    have "?heap ! q = drop ?a ?heap ! (q - ?a)" "q - ?a < length (drop ?a ?heap)"
      using same q by (auto intro: diff_less_mono)
    then have "?heap ! q \<in> set (drop ?a ?heap)" by (metis nth_mem)
    then have "request_range (?heap ! q) \<in> set (request_ranges 0 request)"
      unfolding ranges [symmetric] by simp
    then have "segment_fits (snd (snd (request_range (?heap ! q))))"
      using request_ranges_fit [OF fit] by (metis prod.collapse)
    then show "unat (req_offset (?heap ! q)) + unat (req_bytesize (?heap ! q)) < 18446744073709551616"
      by (simp add: segment_fits_def request_range_def)
  qed (use same out q in auto)
  moreover have "\<forall>a. a \<notin> (\<Union>(f, i, g)\<in>set (request_ranges 0 request). seg_area g) \<longrightarrow> mem' a = mem a"
    using mem batches_apart(2) [OF b ts apart] unfolding sets by blast
  ultimately show ?thesis using ex d rs by auto
qed

text \<open>Property C1: an accepted submission of local files is read completely. Whatever order the pool
  takes its workloads in, executing them returns; every range has exactly one response, which is
  \<open>Success\<close>, \<open>FileAccessError\<close>, \<open>EofError\<close> or \<open>FinishedError\<close>; after a \<open>Success\<close> the destination
  of the range holds exactly the range's bytes of its file, also when other ranges were written
  after it; and no memory outside of the destinations is touched.\<close>

theorem submission_executed:
  assumes ok: "streamer_ok s" and input: "request_ok_input request"
    and local: "same_kind request False" and apart: "ranges_apart request"
    and run: "async_request os request s = Some (Inr Success, sid, s')"
    and fs: "posix_files fs content"
    and mono: "\<forall>l n i j. stopped l n i \<and> i \<le> j \<longrightarrow> stopped l n j"
    and wls: "mset wls = mset (sent_workloads (st_pools s) (st_pools s'))"
  shows "\<exists>heap' rs mem'. execute_workloads fs stopped 0 wls (st_heap s', []) mem =
      Some ((heap', map (\<lambda>q. response_for sid (heap' ! q)) rs), mem') \<and> distinct rs \<and>
    mset (map (\<lambda>q. request_range (heap' ! q)) rs) = mset (request_ranges 0 request) \<and>
    (\<forall>q\<in>set rs. range_outcome content request mem' (heap' ! q)) \<and>
    (\<forall>a. a \<notin> (\<Union>(f, i, g)\<in>set (request_ranges 0 request). seg_area g) \<longrightarrow> mem' a = mem a)"
proof (cases "range_count request = 0")
  case True
  then have "nothing_committed s s'" and empty: "request_ranges 0 request = []"
    using async_request_runs [OF ok input run] by (auto simp: range_count_def)
  then have "wls = []" using wls by (simp add: nothing_committed_def)
  then show ?thesis
    by (intro exI [of _ "st_heap s'"] exI [of _ "[]"] exI [of _ mem]) (simp add: empty)
next
  case False
  obtain k ws s1 m ps where kind: "same_kind request k" and cw: "complete_workloads sid request k s s1 ws"
    and m: "sent_workloads (st_pools s) (st_pools s') = busy (take m ws)" "m = length ws"
    and dr: "drain_workloads (drop m ws) (st_heap s1, []) = (st_heap s', ps)"
    using committed_spec [OF ok input run] False by blast
  have "\<exists>file\<in>set request. fr_ranges file \<noteq> []"
  proof (rule ccontr)
    assume "\<not> (\<exists>file\<in>set request. fr_ranges file \<noteq> [])"
    then have "sum_list (map (\<lambda>f. length (fr_ranges f)) request) = 0"
      unfolding sum_list_eq_0_iff by simp
    with False show False by (simp only: range_count_def length_request_ranges)
  qed
  then have "k = False" using kind local by (auto simp: same_kind_def)
  moreover have "st_heap s' = st_heap s1" using dr m(2) by simp
  moreover have "mset wls = mset (busy ws)" using wls m by simp
  moreover have "config_ok (st_config s)" "ranges_fit request"
    using ok input by (simp_all add: streamer_ok_def request_ok_input_def)
  ultimately show ?thesis
    using complete_executed [of sid request s s1 ws fs content stopped wls 0 mem] cw apart fs mono by simp
qed

definition sample_content :: "string \<Rightarrow> byte list" where
  "sample_content path = (if path = ''/a'' then [1, 2, 3, 4, 5, 6, 7] else [8, 9])"

lemma buffer_addrs_image: "buffer_addrs p n = (\<lambda>i. p + of_nat i) ` {..<n}"
  by (auto simp: buffer_addrs_def)

lemma sample_apart: "ranges_apart sample_request"
  by (simp add: ranges_apart_def sample_request_def seg_area_def range_segment_def buffer_addrs_image lessThan_nat_numeral lessThan_Suc)

lemma sample_local: "same_kind sample_request False"
  unfolding same_kind_def sample_request_def file_kind_def try_parse_uri_def by code_simp

lemma sample_posix: "posix_files (\<lambda>path. ram_file (sample_content path)) sample_content"
  using ram_posix unfolding posix_files_def by blast

theorem submission_executed_witness:
  "\<exists>sid s' heap' rs mem'. async_request sample_os sample_request sample_streamer = Some (Inr Success, sid, s') \<and>
    execute_workloads (\<lambda>path. ram_file (sample_content path)) (\<lambda>l n i. False) 0
      (sent_workloads (st_pools sample_streamer) (st_pools s')) (st_heap s', []) (\<lambda>a. 0) =
      Some ((heap', map (\<lambda>q. response_for sid (heap' ! q)) rs), mem') \<and> length rs = 4 \<and> mem' 107 = 0"
proof -
  obtain sid s' where run: "async_request sample_os sample_request sample_streamer = Some (Inr Success, sid, s')"
    using sample_accepted by blast
  from submission_executed [OF sample_streamer_ok sample_request_input sample_local sample_apart run sample_posix _ refl,
      of "\<lambda>l n i. False" "\<lambda>a. 0"]
  obtain heap' rs mem' where ex: "execute_workloads (\<lambda>path. ram_file (sample_content path)) (\<lambda>l n i. False) 0
      (sent_workloads (st_pools sample_streamer) (st_pools s')) (st_heap s', []) (\<lambda>a. 0) =
      Some ((heap', map (\<lambda>q. response_for sid (heap' ! q)) rs), mem')"
    and m: "mset (map (\<lambda>q. request_range (heap' ! q)) rs) = mset (request_ranges 0 sample_request)"
    and mem: "\<forall>a. a \<notin> (\<Union>(f, i, g)\<in>set (request_ranges 0 sample_request). seg_area g) \<longrightarrow> mem' a = 0"
    by auto
  have "length rs = 4"
    using arg_cong [OF m, of size] by (simp add: sample_request_def)
  moreover have "(107 :: ptr) \<notin> (\<Union>(f, i, g)\<in>set (request_ranges 0 sample_request). seg_area g)"
    by (simp add: sample_request_def seg_area_def range_segment_def buffer_addrs_image lessThan_nat_numeral lessThan_Suc)
  ultimately show ?thesis using run ex mem by blast
qed

end
