(* ===== verification/Responses.thy ===== *)
theory Responses
  imports Streamer
begin

text \<open>
  The consumer's side of the streamer: responses come out in the order they were pushed, each with
  whether it completed its submission, and credentials are set once.
\<close>

section \<open>Consuming responses\<close>

fun get_responses ::
  "os_world \<Rightarrow> uint \<Rightarrow> nat \<Rightarrow> streamer \<Rightarrow> ((response \<times> bool) list \<times> streamer) option" where
  "get_responses os timeout_ms 0 s = Some ([], s)"
| "get_responses os timeout_ms (Suc n) s =
     (case get_response os timeout_ms s of
        Some (Inr r, s1) \<Rightarrow>
          (case get_responses os timeout_ms n s1 of
             Some (rs, s2) \<Rightarrow> Some (r # rs, s2)
           | None \<Rightarrow> None)
      | _ \<Rightarrow> None)"

definition is_answer :: "response \<Rightarrow> bool" where
  "is_answer r \<longleftrightarrow> resp_ret r \<noteq> FinishedError \<and> resp_ret r \<noteq> TimedOut"

lemma get_response_step:
  assumes q: "sq_ok (st_responder s)" "q_responses (st_responder s) = r # rs" and r: "is_answer r"
    and ex: "expects (st_submissions s) (map resp_submission_id (r # rs))"
  shows "\<exists>s'. get_response os timeout_ms s =
      Some (Inr (r, resp_submission_id r \<notin> set (map resp_submission_id rs)), s') \<and>
    sq_ok (st_responder s') \<and> q_responses (st_responder s') = rs \<and>
    expects (st_submissions s') (map resp_submission_id rs)"
proof -
  obtain q' where pop: "sq_pop sentinel_response timeout_ms (st_responder s) = Some (Inr (r, q'))"
    and q': "q_responses q' = rs" "sq_ok q'"
    using sq_pop_ok [OF q, of sentinel_response timeout_ms] by blast
  obtain c m where c: "mgr_consume (resp_submission_id r) (os_now os) (st_submissions s) = Inr (c, m)"
    and m: "expects m (map resp_submission_id rs)"
    "c = Pending \<longleftrightarrow> resp_submission_id r \<in> set (map resp_submission_id rs)"
    using mgr_consume_expects [of "st_submissions s" "resp_submission_id r" "map resp_submission_id rs" "os_now os"] ex
    by auto
  show ?thesis
    using pop c m q' r
    by (simp add: get_response_def consume_submission_response_def is_answer_def Let_def)
qed

lemma get_responses_spec:
  assumes "sq_ok (st_responder s)" and "q_responses (st_responder s) = rs" and "list_all is_answer rs"
    and "expects (st_submissions s) (map resp_submission_id rs)"
  shows "\<exists>outs s'. get_responses os timeout_ms (length rs) s = Some (outs, s') \<and> map fst outs = rs \<and>
    mgr_submissions (st_submissions s') = [] \<and>
    (\<forall>i<length rs. snd (outs ! i) \<longleftrightarrow>
       resp_submission_id (rs ! i) \<notin> set (map resp_submission_id (drop (Suc i) rs)))"
  using assms
proof (induction rs arbitrary: s)
  case Nil
  then show ?case using expects_Nil by auto
next
  case (Cons r rs)
  then have "is_answer r" by simp
  from get_response_step [OF Cons.prems(1,2) this Cons.prems(4), of os timeout_ms] obtain s1 where
    s1: "get_response os timeout_ms s =
      Some (Inr (r, resp_submission_id r \<notin> set (map resp_submission_id rs)), s1)"
    "sq_ok (st_responder s1)" "q_responses (st_responder s1) = rs"
    "expects (st_submissions s1) (map resp_submission_id rs)"
    by blast
  obtain outs s' where rest: "get_responses os timeout_ms (length rs) s1 = Some (outs, s')"
    "map fst outs = rs" "mgr_submissions (st_submissions s') = []"
    "\<forall>i<length rs. snd (outs ! i) \<longleftrightarrow>
       resp_submission_id (rs ! i) \<notin> set (map resp_submission_id (drop (Suc i) rs))"
    using Cons.IH [OF s1(2,3) _ s1(4)] Cons.prems(3) by auto
  let ?outs = "(r, resp_submission_id r \<notin> set (map resp_submission_id rs)) # outs"
  have "snd (?outs ! i) \<longleftrightarrow>
      resp_submission_id ((r # rs) ! i) \<notin> set (map resp_submission_id (drop (Suc i) (r # rs)))"
    if "i < length (r # rs)" for i
    using rest(4) that by (cases i) auto
  moreover have "get_responses os timeout_ms (length (r # rs)) s = Some (?outs, s')"
    using s1(1) rest(1) by simp
  ultimately show ?case using rest(2,3) by (intro exI [of _ ?outs] exI [of _ s']) auto
qed

text \<open>Property C10: when the responder holds exactly the responses that the registry expects, of any
  number of submissions in any interleaving, the consumer gets them all, in order; a response is
  flagged as its submission's last exactly when it is; no accounting check fails, and in the end no
  submission is left.\<close>

theorem responses_handed_out:
  assumes "sq_ok (st_responder s)" and "list_all is_answer (q_responses (st_responder s))"
    and "expects (st_submissions s) (map resp_submission_id (q_responses (st_responder s)))"
  shows "\<exists>outs s'. get_responses os timeout_ms (length (q_responses (st_responder s))) s = Some (outs, s') \<and>
    map fst outs = q_responses (st_responder s) \<and> mgr_size (st_submissions s') = 0 \<and>
    (\<forall>i<length (q_responses (st_responder s)). snd (outs ! i) \<longleftrightarrow>
       resp_submission_id (q_responses (st_responder s) ! i) \<notin>
         set (map resp_submission_id (drop (Suc i) (q_responses (st_responder s)))))"
  using get_responses_spec [OF assms(1) refl assms(2,3), of os timeout_ms] by (auto simp: mgr_size_def)

definition responding_streamer :: streamer where
  "responding_streamer = (streamer_make \<lparr>concurrency = 1, s3_concurrency = 1, s3_block_bytesize = 8,
       fs_block_bytesize = 8\<rparr> None)
     \<lparr>st_responder := \<lparr>q_mode = Persistent, q_running = 0, q_responses =
        [\<lparr>resp_submission_id = 1, resp_file_index = 0, resp_index = 0, resp_ret = Success\<rparr>,
         \<lparr>resp_submission_id = 2, resp_file_index = 0, resp_index = 0, resp_ret = EofError\<rparr>,
         \<lparr>resp_submission_id = 1, resp_file_index = 0, resp_index = 1, resp_ret = Success\<rparr>],
        q_ready = 3, q_stopped = False, q_total_bytesize = 0, q_successful = False,
        q_unexpected_push_error = False\<rparr>,
      st_submissions := sample_mgr\<rparr>"

theorem responses_handed_out_witness:
  "\<exists>os outs s'. get_responses os 0 3 responding_streamer = Some (outs, s') \<and>
     mgr_size (st_submissions s') = 0 \<and> \<not> snd (outs ! 0)"
proof -
  let ?q = "q_responses (st_responder responding_streamer)"
  have "length ?q = 3" "resp_submission_id (?q ! 0) \<in> set (map resp_submission_id (drop 1 ?q))"
    "sq_ok (st_responder responding_streamer)" "list_all is_answer ?q"
    by (simp_all add: responding_streamer_def sq_ok_def is_answer_def)
  moreover have "expects (st_submissions responding_streamer) (map resp_submission_id ?q)"
    by (auto simp: expects_def sample_mgr_def responding_streamer_def split: if_splits)
  ultimately show ?thesis
    using responses_handed_out [of responding_streamer undefined 0] by fastforce
qed

section \<open>Credentials\<close>

fun set_all_credentials :: "credentials list \<Rightarrow> streamer \<Rightarrow> response_code list \<times> streamer" where
  "set_all_credentials [] s = ([], s)"
| "set_all_credentials (c # cs) s =
     (case set_credentials c s of (r, s1) \<Rightarrow>
        (case set_all_credentials cs s1 of (rs, s2) \<Rightarrow> (r # rs, s2)))"

lemma set_credentials_again:
  "st_credentials s = Some c \<Longrightarrow>
     set_all_credentials cs s =
       (map (\<lambda>c'. if c' = c then Success else CredentialsAlreadySet) cs, s)"
proof (induction cs)
  case (Cons c' cs)
  then have "set_credentials c' s = (if c' = c then Success else CredentialsAlreadySet, s)"
    by (auto simp: set_credentials_def credentials_state_set_def credentials_eq_def)
  with Cons show ?case by simp
qed simp

text \<open>The credentials of a streamer are those of the first call; every later call with the
  same ones succeeds, every one with others is refused, and none changes them.\<close>

theorem credentials_set_once:
  "set_all_credentials (c # cs) (streamer_make cfg l) =
     (Success # map (\<lambda>c'. if c' = c then Success else CredentialsAlreadySet) cs,
      (streamer_make cfg l)\<lparr>st_credentials := Some c\<rparr>) \<and>
   get_credentials (snd (set_all_credentials (c # cs) (streamer_make cfg l))) = c"
proof -
  have "set_credentials c (streamer_make cfg l) = (Success, (streamer_make cfg l)\<lparr>st_credentials := Some c\<rparr>)"
    by (simp add: set_credentials_def credentials_state_set_def streamer_make_def)
  then show ?thesis
    using set_credentials_again [of "(streamer_make cfg l)\<lparr>st_credentials := Some c\<rparr>" c cs]
    by (simp add: get_credentials_def)
qed

end
