(* ===== verification/CapacityQueue.thy ===== *)
theory CapacityQueue
  imports Prelude
begin

text \<open>
  \<open>CapacityQueue\<close> (\<open>utils/capacity_queue\<close>): the items that wait to be submitted and the credit of
  those in flight. The specification below keeps the costs as natural numbers and knows which
  items are in flight; the queue, which keeps a wrapping counter only, refines it.
\<close>

section \<open>The queue\<close>

record 'c cap_queue =
  cq_capacity :: size_t
  cq_inflight :: size_t
  cq_pending :: "('c \<times> size_t) list"

definition cq_make :: "size_t \<Rightarrow> 'c cap_queue" where
  "cq_make capacity = \<lparr>cq_capacity = capacity, cq_inflight = 0, cq_pending = []\<rparr>"

definition cq_enqueue :: "'c \<Rightarrow> size_t \<Rightarrow> 'c cap_queue \<Rightarrow> 'c cap_queue" where
  "cq_enqueue item cost q = q\<lparr>cq_pending := cq_pending q @ [(item, cost)]\<rparr>"

definition cq_try_take :: "'c cap_queue \<Rightarrow> 'c option \<times> 'c cap_queue" where
  "cq_try_take q =
     (case cq_pending q of
        [] \<Rightarrow> (None, q)
      | (item, cost) # rest \<Rightarrow>
          if cq_inflight q \<noteq> 0 \<and> cq_capacity q < cq_inflight q + cost then (None, q)
          else (Some item, q\<lparr>cq_pending := rest, cq_inflight := cq_inflight q + cost\<rparr>))"

definition cq_complete :: "size_t \<Rightarrow> 'c cap_queue \<Rightarrow> 'c cap_queue" where
  "cq_complete cost q =
     q\<lparr>cq_inflight := (if cost \<le> cq_inflight q then cq_inflight q - cost else 0)\<rparr>"

definition cq_clear :: "'c cap_queue \<Rightarrow> 'c cap_queue" where
  "cq_clear q = q\<lparr>cq_pending := [], cq_inflight := 0\<rparr>"

definition cq_empty :: "'c cap_queue \<Rightarrow> bool" where
  "cq_empty q \<longleftrightarrow> cq_pending q = []"

definition cq_idle :: "'c cap_queue \<Rightarrow> bool" where
  "cq_idle q \<longleftrightarrow> cq_pending q = [] \<and> cq_inflight q = 0"

section \<open>The specification\<close>

text \<open>
  A window: the waiting items with their costs, the items in flight with theirs, and all items
  taken so far, in order.
\<close>

record 'c window =
  win_capacity :: nat
  win_waiting :: "('c \<times> nat) list"
  win_running :: "('c \<times> nat) list"
  win_taken :: "'c list"

datatype 'c window_op = Enqueue 'c size_t | TryTake | Complete nat | Clear

definition running_cost :: "'c window \<Rightarrow> nat" where
  "running_cost w = sum_list (map snd (win_running w))"

text \<open>
  One operation, and what it returns. \<open>Complete i\<close> finishes the running item at position \<open>i\<close>;
  there is nothing to finish when there is none.
\<close>

fun window_step :: "'c window_op \<Rightarrow> 'c window \<Rightarrow> 'c option \<times> 'c window" where
  "window_step (Enqueue c n) w = (None, w\<lparr>win_waiting := win_waiting w @ [(c, unat n)]\<rparr>)"
| "window_step TryTake w =
     (case win_waiting w of
        [] \<Rightarrow> (None, w)
      | (c, n) # rest \<Rightarrow>
          if running_cost w = 0 \<or> running_cost w + n \<le> win_capacity w
          then (Some c, w\<lparr>win_waiting := rest, win_running := win_running w @ [(c, n)],
                  win_taken := win_taken w @ [c]\<rparr>)
          else (None, w))"
| "window_step (Complete i) w =
     (None, w\<lparr>win_running := take i (win_running w) @ drop (Suc i) (win_running w)\<rparr>)"
| "window_step Clear w = (None, w\<lparr>win_waiting := [], win_running := []\<rparr>)"

text \<open>The same operation on the queue; the cost to release is that of the running item.\<close>

fun queue_op :: "'c window_op \<Rightarrow> 'c window \<Rightarrow> 'c cap_queue \<Rightarrow> 'c option \<times> 'c cap_queue" where
  "queue_op (Enqueue c n) w q = (None, cq_enqueue c n q)"
| "queue_op TryTake w q = cq_try_take q"
| "queue_op (Complete i) w q =
     (None, if i < length (win_running w) then cq_complete (of_nat (snd (win_running w ! i))) q else q)"
| "queue_op Clear w q = (None, cq_clear q)"

definition queue_refines :: "'c cap_queue \<Rightarrow> 'c window \<Rightarrow> bool" where
  "queue_refines q w \<longleftrightarrow> win_capacity w = unat (cq_capacity q) \<and>
     win_waiting w = map (apsnd unat) (cq_pending q) \<and> running_cost w = unat (cq_inflight q)"

definition total_cost :: "'c window \<Rightarrow> nat" where
  "total_cost w = running_cost w + sum_list (map snd (win_waiting w))"

fun op_cost :: "'c window_op \<Rightarrow> nat" where
  "op_cost (Enqueue c n) = unat n"
| "op_cost op = 0"

lemma running_cost_remove:
  "i < length (win_running w) \<Longrightarrow>
    sum_list (map snd (take i (win_running w) @ drop (Suc i) (win_running w))) +
      snd (win_running w ! i) = running_cost w"
  unfolding running_cost_def
  by (subst (3) id_take_nth_drop [of i]) auto

lemma queue_op_refines:
  assumes r: "queue_refines q w" and fits: "total_cost w + op_cost op < 18446744073709551616"
  shows "fst (queue_op op w q) = fst (window_step op w) \<and>
    queue_refines (snd (queue_op op w q)) (snd (window_step op w)) \<and>
    total_cost (snd (window_step op w)) \<le> total_cost w + op_cost op"
proof (cases op)
  case (Enqueue c n)
  then show ?thesis
    using r by (simp add: queue_refines_def cq_enqueue_def total_cost_def running_cost_def)
next
  case TryTake
  show ?thesis
  proof (cases "cq_pending q")
    case Nil
    then show ?thesis using r TryTake by (simp add: queue_refines_def cq_try_take_def)
  next
    case (Cons p rest)
    obtain c n where p: "p = (c, n)" by (cases p)
    have w: "win_waiting w = (c, unat n) # map (apsnd unat) rest" "running_cost w = unat (cq_inflight q)"
      and cap: "win_capacity w = unat (cq_capacity q)"
      using r by (simp_all add: queue_refines_def Cons p)
    have "unat (cq_inflight q) + unat n < 18446744073709551616"
      using fits w by (simp add: total_cost_def TryTake)
    then have add: "unat (cq_inflight q + n) = unat (cq_inflight q) + unat n" by (simp add: word_to_nat)
    have free: "cq_inflight q \<noteq> 0 \<and> cq_capacity q < cq_inflight q + n \<longleftrightarrow>
        \<not> (running_cost w = 0 \<or> running_cost w + unat n \<le> win_capacity w)"
      by (simp add: word_less_nat_alt add w(2) cap unat_eq_0 not_le)
    show ?thesis
    proof (cases "running_cost w = 0 \<or> running_cost w + unat n \<le> win_capacity w")
      case True
      then have "cq_try_take q = (Some c, q\<lparr>cq_pending := rest, cq_inflight := cq_inflight q + n\<rparr>)"
        using free by (auto simp: cq_try_take_def Cons p)
      moreover have "window_step TryTake w = (Some c, w\<lparr>win_waiting := map (apsnd unat) rest,
          win_running := win_running w @ [(c, unat n)], win_taken := win_taken w @ [c]\<rparr>)"
        using True w by auto
      ultimately show ?thesis
        using add w(2) cap
        by (simp del: window_step.simps add: TryTake queue_refines_def total_cost_def running_cost_def w(1))
    next
      case False
      then have "cq_try_take q = (None, q)" using free by (simp add: cq_try_take_def Cons p)
      moreover have "window_step TryTake w = (None, w)" using False w by auto
      ultimately show ?thesis using r by (simp add: TryTake)
    qed
  qed
next
  case (Complete i)
  show ?thesis
  proof (cases "i < length (win_running w)")
    case True
    let ?n = "snd (win_running w ! i)"
    have sum: "sum_list (map snd (take i (win_running w) @ drop (Suc i) (win_running w))) + ?n = unat (cq_inflight q)"
      using running_cost_remove [OF True] r by (simp add: queue_refines_def)
    then have "?n \<le> unat (cq_inflight q)" by simp
    moreover from this have "?n < 18446744073709551616"
      using unat_lt64 [of "cq_inflight q"] by linarith
    then have "unat (of_nat ?n :: size_t) = ?n" by (simp add: unat_of_nat)
    ultimately have "of_nat ?n \<le> cq_inflight q" "unat (cq_inflight q - of_nat ?n) = unat (cq_inflight q) - ?n"
      by (simp_all add: word_le_nat_alt unat_sub)
    then show ?thesis
      using r sum True by (simp add: Complete queue_refines_def cq_complete_def running_cost_def total_cost_def)
  next
    case False
    then show ?thesis
      using r by (simp add: Complete queue_refines_def running_cost_def total_cost_def)
  qed
next
  case Clear
  then show ?thesis
    using r by (simp add: queue_refines_def cq_clear_def running_cost_def total_cost_def)
qed

section \<open>Runs\<close>

fun window_run :: "'c window_op list \<Rightarrow> 'c window \<Rightarrow> 'c option list \<times> 'c window" where
  "window_run [] w = ([], w)"
| "window_run (op # ops) w =
     (case window_step op w of (r, w1) \<Rightarrow> (case window_run ops w1 of (rs, w2) \<Rightarrow> (r # rs, w2)))"

fun queue_run :: "'c window_op list \<Rightarrow> 'c window \<Rightarrow> 'c cap_queue \<Rightarrow> 'c option list \<times> 'c cap_queue" where
  "queue_run [] w q = ([], q)"
| "queue_run (op # ops) w q =
     (case queue_op op w q of (r, q1) \<Rightarrow>
        (case queue_run ops (snd (window_step op w)) q1 of (rs, q2) \<Rightarrow> (r # rs, q2)))"

lemma queue_run_refines:
  assumes "queue_refines q w" and "total_cost w + sum_list (map op_cost ops) < 18446744073709551616"
  shows "fst (queue_run ops w q) = fst (window_run ops w) \<and>
    queue_refines (snd (queue_run ops w q)) (snd (window_run ops w))"
  using assms
proof (induction ops arbitrary: w q)
  case (Cons op ops)
  have "total_cost w + op_cost op < 18446744073709551616" using Cons.prems(2) by simp
  note one = queue_op_refines [OF Cons.prems(1) this]
  have "total_cost (snd (window_step op w)) + sum_list (map op_cost ops) < 18446744073709551616"
    using one Cons.prems(2) by simp
  from Cons.IH [OF _ this, of "snd (queue_op op w q)"] one show ?case
    by (simp add: case_prod_unfold)
qed simp

definition window_make :: "nat \<Rightarrow> 'c window" where
  "window_make capacity =
     \<lparr>win_capacity = capacity, win_waiting = [], win_running = [], win_taken = []\<rparr>"

text \<open>
  What the window promises: what runs fits the capacity, or is a single item with a cost.
\<close>

definition window_bounded :: "'c window \<Rightarrow> bool" where
  "window_bounded w \<longleftrightarrow> running_cost w \<le> win_capacity w \<or>
     length (filter (\<lambda>(c, n). n \<noteq> 0) (win_running w)) \<le> 1"

lemma running_cost_0: "running_cost w = 0 \<longleftrightarrow> filter (\<lambda>(c, n). n \<noteq> 0) (win_running w) = []"
  by (auto simp: running_cost_def filter_empty_conv)

lemma window_step_bounded:
  assumes "window_bounded w"
  shows "window_bounded (snd (window_step op w))"
proof (cases op)
  case TryTake
  then show ?thesis
    using assms running_cost_0 [of w]
    by (auto simp: window_bounded_def running_cost_def split: list.splits)
next
  case (Complete i)
  have "length (filter P (take i xs @ drop (Suc i) xs)) \<le> length (filter P xs)" for P :: "'a \<times> nat \<Rightarrow> bool" and xs
    by (subst (3) append_take_drop_id [of i xs, symmetric], subst filter_append)
      (cases "drop i xs"; simp add: drop_Suc tl_drop [symmetric] drop_tl)
  moreover have "running_cost (snd (window_step op w)) \<le> running_cost w"
  proof (cases "i < length (win_running w)")
    case True
    then show ?thesis using running_cost_remove [of i w] by (simp add: Complete running_cost_def)
  qed (simp add: Complete running_cost_def)
  ultimately show ?thesis
    using assms by (auto simp: window_bounded_def Complete intro: order_trans)
qed (use assms in \<open>auto simp: window_bounded_def running_cost_def\<close>)

lemma window_run_bounded: "window_bounded w \<Longrightarrow> window_bounded (snd (window_run ops w))"
proof (induction ops arbitrary: w)
  case (Cons op ops)
  then show ?case using window_step_bounded [of w op] by (simp add: case_prod_unfold)
qed simp

text \<open>Without a clear, the items leave in the order they came in and none is lost.\<close>

definition op_items :: "'c window_op list \<Rightarrow> 'c list" where
  "op_items ops = concat (map (\<lambda>op. case op of Enqueue c n \<Rightarrow> [c] | _ \<Rightarrow> []) ops)"

definition takes :: "'c option list \<Rightarrow> 'c list" where
  "takes rs = concat (map (\<lambda>r. case r of None \<Rightarrow> [] | Some c \<Rightarrow> [c]) rs)"

lemma op_items_Cons: "op_items (op # ops) = op_items [op] @ op_items ops"
  by (simp add: op_items_def)

lemma takes_Cons: "takes (r # rs) = takes [r] @ takes rs"
  by (simp add: takes_def)

lemma window_run_fifo:
  "Clear \<notin> set ops \<Longrightarrow>
    win_taken (snd (window_run ops w)) @ map fst (win_waiting (snd (window_run ops w))) =
      win_taken w @ map fst (win_waiting w) @ op_items ops \<and>
    win_taken (snd (window_run ops w)) = win_taken w @ takes (fst (window_run ops w))"
proof (induction ops arbitrary: w)
  case (Cons op ops)
  let ?r = "fst (window_step op w)" and ?w = "snd (window_step op w)"
  have step: "win_taken ?w @ map fst (win_waiting ?w) = win_taken w @ map fst (win_waiting w) @ op_items [op]"
    "win_taken ?w = win_taken w @ takes [?r]"
    using Cons.prems by (cases op; auto simp: op_items_def takes_def split: list.splits)+
  have run: "snd (window_run (op # ops) w) = snd (window_run ops ?w)"
    "fst (window_run (op # ops) w) = ?r # fst (window_run ops ?w)"
    by (simp_all add: case_prod_unfold)
  have "Clear \<notin> set ops" using Cons.prems by simp
  note ih = Cons.IH [OF this, of ?w]
  have "win_taken (snd (window_run ops ?w)) @ map fst (win_waiting (snd (window_run ops ?w))) =
      win_taken w @ map fst (win_waiting w) @ op_items [op] @ op_items ops"
    using ih step(1) by (metis append_assoc)
  moreover have "win_taken (snd (window_run ops ?w)) = win_taken w @ takes [?r] @ takes (fst (window_run ops ?w))"
    using ih step(2) by simp
  ultimately show ?case
    unfolding run op_items_Cons [of op ops] takes_Cons [of ?r "fst (window_run ops ?w)"] by blast
qed (simp add: op_items_def takes_def)

lemma window_make_sel: "win_taken (window_make c) = []" "win_waiting (window_make c) = []"
  by (simp_all add: window_make_def)

lemma window_make_refines: "queue_refines (cq_make capacity) (window_make (unat capacity))"
  by (simp add: queue_refines_def cq_make_def window_make_def running_cost_def)

text \<open>Property C40: the capacity queue refines the window. As long as the costs of what was enqueued
  fit in \<open>size_t\<close>, any sequence of enqueues, takes, completions of taken items and clears gives the
  same answers on both; what is in flight fits the capacity or is a single item with a cost;
  and, without a clear, the items are taken in the order they were enqueued and none is lost.\<close>

theorem capacity_queue_refines:
  fixes ops :: "'c window_op list"
  assumes "sum_list (map op_cost ops) < 18446744073709551616"
  shows "let w0 = window_make (unat capacity);
      (rs, w) = window_run ops w0; (rs', q) = queue_run ops w0 (cq_make capacity)
    in rs' = rs \<and> queue_refines q w \<and>
      (unat (cq_inflight q) \<le> unat capacity \<or> length (filter (\<lambda>(c, n). n \<noteq> 0) (win_running w)) \<le> 1) \<and>
      (if Clear \<in> set ops then True
       else takes rs' @ map fst (cq_pending q) = op_items ops)"
proof -
  let ?w0 = "window_make (unat capacity) :: 'c window"
  obtain rs w where w: "window_run ops ?w0 = (rs, w)" by fastforce
  obtain rs' q where q: "queue_run ops ?w0 (cq_make capacity) = (rs', q)" by fastforce
  have "total_cost ?w0 = 0" by (simp add: total_cost_def window_make_def running_cost_def)
  then have r: "rs' = rs" "queue_refines q w"
    using queue_run_refines [OF window_make_refines [of capacity], where ops = ops] assms w q by simp_all
  have "window_bounded ?w0" by (simp add: window_bounded_def window_make_def running_cost_def)
  then have "window_bounded w" using window_run_bounded [of ?w0 ops] w by simp
  moreover have "win_capacity w = unat capacity"
  proof -
    have "win_capacity (snd (window_run ops v)) = win_capacity v" for v :: "'c window"
    proof (induction ops arbitrary: v)
      case (Cons op ops)
      have "win_capacity (snd (window_step op v)) = win_capacity v"
        by (cases op) (auto split: list.splits)
      then show ?case using Cons by (simp add: case_prod_unfold)
    qed simp
    from this [of ?w0] show ?thesis by (simp add: w) (simp add: window_make_def)
  qed
  ultimately have "unat (cq_inflight q) \<le> unat capacity \<or>
      length (filter (\<lambda>(c, n). n \<noteq> 0) (win_running w)) \<le> 1"
    using r(2) by (simp add: window_bounded_def queue_refines_def)
  moreover have "takes rs' @ map fst (cq_pending q) = op_items ops" if "Clear \<notin> set ops"
  proof -
    have "map fst (win_waiting w) = map fst (cq_pending q)"
      using r(2) by (simp add: queue_refines_def)
    moreover have "win_taken w @ map fst (win_waiting w) = op_items ops" and "win_taken w = takes rs"
      using window_run_fifo [OF that, of ?w0] unfolding w fst_conv snd_conv window_make_sel append_Nil
        list.map(1) by blast+
    ultimately show ?thesis using r(1) by metis
  qed
  ultimately show ?thesis using w q r by simp
qed

theorem capacity_queue_refines_witness:
  "fst (queue_run [Enqueue (1 :: nat) 5, Enqueue 2 3, TryTake, TryTake, Complete 0, TryTake]
      (window_make 4) (cq_make 4)) = [None, None, Some 1, None, None, Some 2]"
proof -
  let ?ops = "[Enqueue (1 :: nat) 5, Enqueue 2 3, TryTake, TryTake, Complete 0, TryTake]"
  have "fst (queue_run ?ops (window_make 4) (cq_make 4)) = fst (window_run ?ops (window_make 4))"
  proof -
    have u: "unat (4 :: size_t) = 4" and fits: "sum_list (map op_cost ?ops) < 18446744073709551616" by simp_all
    show ?thesis
      using capacity_queue_refines [OF fits, of 4] unfolding u Let_def case_prod_unfold by blast
  qed
  then show ?thesis by (simp add: window_make_def running_cost_def)
qed

end
