(* ===== verification/CapacityWorker.thy ===== *)
theory CapacityWorker
  imports CapacityQueue ResponseCodes
begin

text \<open>
  \<open>CapacityWorker\<close> (\<open>utils/capacity_worker\<close>), the base class of a worker with a window: it owns the
  queue of chunks and interleaves submissions with completions, and the worker proper fills in
  the hooks. The hooks are arguments here; the locale states what they promise, and what the base
  class makes of it: every request is submitted, and drained until the worker is idle.
\<close>

section \<open>The base class\<close>

text \<open>The members of the base and of the derived class. Null is no queue.\<close>

record ('c, 's) cworker =
  cw_queue :: "'c cap_queue option"
  cw_state :: 's

definition cw_idle :: "('c, 's) cworker \<Rightarrow> bool" where
  "cw_idle w \<longleftrightarrow> (case cw_queue w of None \<Rightarrow> True | Some q \<Rightarrow> cq_idle q)"

text \<open>The loops may run forever; then there is no result. A null queue is a trap.\<close>

partial_function (option) cw_pump ::
  "('c \<Rightarrow> ('c, 's) cworker \<Rightarrow> (exn + unit) \<times> ('c, 's) cworker) \<Rightarrow> ('c, 's) cworker \<Rightarrow>
    ((exn + unit) \<times> ('c, 's) cworker) option" where
  "cw_pump submit w =
     (case cw_queue w of
        None \<Rightarrow> Some (Inl Trap, w)
      | Some q \<Rightarrow>
          (case cq_try_take q of
             (None, q') \<Rightarrow> Some (Inr (), w)
           | (Some c, q') \<Rightarrow>
               (case submit c (w\<lparr>cw_queue := Some q'\<rparr>) of
                  (Inl e, w') \<Rightarrow> Some (Inl e, w')
                | (Inr u, w') \<Rightarrow> cw_pump submit w')))"

declare cw_pump.simps [code]

text \<open>The loop of \<open>execute\<close> that submits all pending chunks.\<close>

partial_function (option) cw_fill ::
  "('c \<Rightarrow> ('c, 's) cworker \<Rightarrow> (exn + unit) \<times> ('c, 's) cworker) \<Rightarrow>
    (('c, 's) cworker \<Rightarrow> (exn + unit) \<times> ('c, 's) cworker) \<Rightarrow> ('c, 's) cworker \<Rightarrow>
    ((exn + unit) \<times> ('c, 's) cworker) option" where
  "cw_fill submit drain_batch w =
     (case cw_queue w of
        None \<Rightarrow> Some (Inl Trap, w)
      | Some q \<Rightarrow>
          if cq_empty q then Some (Inr (), w)
          else case cw_pump submit w of
            None \<Rightarrow> None
          | Some (Inl e, w1) \<Rightarrow> Some (Inl e, w1)
          | Some (Inr u, w1) \<Rightarrow>
              (case cw_queue w1 of
                 None \<Rightarrow> Some (Inl Trap, w1)
               | Some q1 \<Rightarrow>
                   if cq_empty q1 then Some (Inr (), w1)
                   else case drain_batch w1 of
                     (Inl e, w2) \<Rightarrow> Some (Inl e, w2)
                   | (Inr u, w2) \<Rightarrow> cw_fill submit drain_batch w2))"

declare cw_fill.simps [code]

text \<open>\<open>execute\<close> once the window is up, and \<open>execute\<close>.\<close>

definition cw_admit ::
  "('r \<Rightarrow> ('c, 's) cworker \<Rightarrow> ((exn + unit) \<times> ('c, 's) cworker) option) \<Rightarrow>
    ('c \<Rightarrow> ('c, 's) cworker \<Rightarrow> (exn + unit) \<times> ('c, 's) cworker) \<Rightarrow>
    (('c, 's) cworker \<Rightarrow> (exn + unit) \<times> ('c, 's) cworker) \<Rightarrow> 'r \<Rightarrow> ('c, 's) cworker \<Rightarrow>
    ((exn + unit) \<times> ('c, 's) cworker) option" where
  "cw_admit enqueue submit drain_batch r w =
     (case enqueue r w of
        None \<Rightarrow> None
      | Some (Inl e, w1) \<Rightarrow> Some (Inl e, w1)
      | Some (Inr u, w1) \<Rightarrow>
          (case cw_fill submit drain_batch w1 of
             None \<Rightarrow> None
           | Some (Inl e, w2) \<Rightarrow> Some (Inl e, w2)
           | Some (Inr u, w2) \<Rightarrow>
               (case cw_queue w2 of
                  None \<Rightarrow> Some (Inl Trap, w2)
                | Some q \<Rightarrow>
                    if cq_capacity q \<le> cq_inflight q then Some (drain_batch w2) else Some (Inr (), w2))))"

definition cw_execute ::
  "('r \<Rightarrow> ('c, 's) cworker \<Rightarrow> (exn + size_t) \<times> ('c, 's) cworker) \<Rightarrow>
    ('r \<Rightarrow> ('c, 's) cworker \<Rightarrow> (exn + unit) \<times> ('c, 's) cworker) \<Rightarrow>
    ('r \<Rightarrow> ('c, 's) cworker \<Rightarrow> ((exn + unit) \<times> ('c, 's) cworker) option) \<Rightarrow>
    ('c \<Rightarrow> ('c, 's) cworker \<Rightarrow> (exn + unit) \<times> ('c, 's) cworker) \<Rightarrow>
    (('c, 's) cworker \<Rightarrow> (exn + unit) \<times> ('c, 's) cworker) \<Rightarrow> 'r \<Rightarrow> ('c, 's) cworker \<Rightarrow>
    ((exn + unit) \<times> ('c, 's) cworker) option" where
  "cw_execute capacity discard enqueue submit drain_batch r w =
     (case cw_queue w of
        None \<Rightarrow>
          (case capacity r w of
             (Inl e, w1) \<Rightarrow> if e = Trap then Some (Inl Trap, w1) else Some (discard r w1)
           | (Inr n, w1) \<Rightarrow>
               cw_admit enqueue submit drain_batch r (w1\<lparr>cw_queue := Some (cq_make n)\<rparr>))
      | Some q \<Rightarrow> cw_admit enqueue submit drain_batch r w)"

definition cw_drain ::
  "('c \<Rightarrow> ('c, 's) cworker \<Rightarrow> (exn + unit) \<times> ('c, 's) cworker) \<Rightarrow>
    (('c, 's) cworker \<Rightarrow> (exn + unit) \<times> ('c, 's) cworker) \<Rightarrow> ('c, 's) cworker \<Rightarrow>
    ((exn + unit) \<times> ('c, 's) cworker) option" where
  "cw_drain submit drain_batch w =
     (case cw_queue w of
        None \<Rightarrow> Some (Inr (), w)
      | Some q \<Rightarrow>
          (case drain_batch w of
             (Inl e, w1) \<Rightarrow> Some (Inl e, w1)
           | (Inr u, w1) \<Rightarrow> cw_pump submit w1))"

section \<open>The loop of the thread\<close>

text \<open>
  \<open>ThreadPool::worker_routine\<close>: \<open>arrivals\<close> is what the non-blocking pops find, one after the other
  (\<open>None\<close> is an empty queue), and when it is used up the queue stays empty until the pool stops. An
  idle worker that finds no request parks in the blocking pop, which then takes the next one. What
  a request throws is logged and dropped.
\<close>

partial_function (option) cw_serve ::
  "('r \<Rightarrow> ('c, 's) cworker \<Rightarrow> ((exn + unit) \<times> ('c, 's) cworker) option) \<Rightarrow>
    (('c, 's) cworker \<Rightarrow> ((exn + unit) \<times> ('c, 's) cworker) option) \<Rightarrow> 'r option list \<Rightarrow>
    ('c, 's) cworker \<Rightarrow> ((exn + unit) \<times> ('c, 's) cworker) option" where
  "cw_serve execute drain arrivals w =
     (case arrivals of
        Some r # rest \<Rightarrow>
          (case execute r w of
             None \<Rightarrow> None
           | Some (x, w') \<Rightarrow>
               if x = Inl Trap then Some (x, w') else cw_serve execute drain rest w')
      | _ \<Rightarrow>
          if cw_idle w then
            (if arrivals = [] then Some (Inr (), w) else cw_serve execute drain (tl arrivals) w)
          else case drain w of
            None \<Rightarrow> None
          | Some (x, w') \<Rightarrow>
              if x = Inl Trap then Some (x, w') else cw_serve execute drain (tl arrivals) w')"

declare cw_serve.simps [code]

section \<open>What the hooks promise\<close>

locale windowed =
  fixes submit :: "'c \<Rightarrow> ('c, 's) cworker \<Rightarrow> (exn + unit) \<times> ('c, 's) cworker"
    and drain_batch :: "('c, 's) cworker \<Rightarrow> (exn + unit) \<times> ('c, 's) cworker"
    and inv :: "'g \<Rightarrow> ('c, 's) cworker \<Rightarrow> bool"
    and weight :: "('c, 's) cworker \<Rightarrow> nat"
  assumes submit_law: "inv g w \<Longrightarrow> cw_queue w = Some q \<Longrightarrow> cq_try_take q = (Some c, q') \<Longrightarrow>
      \<exists>w' q''. submit c (w\<lparr>cw_queue := Some q'\<rparr>) = (Inr (), w') \<and> inv g w' \<and>
        cw_queue w' = Some q'' \<and> cq_pending q'' = cq_pending q' \<and> weight w' \<le> weight w"
    and drain_law: "inv g w \<Longrightarrow> cw_queue w = Some q \<Longrightarrow> \<not> cq_idle q \<Longrightarrow>
      \<exists>w' q'. drain_batch w = (Inr (), w') \<and> inv g w' \<and> cw_queue w' = Some q' \<and>
        length (cq_pending q') \<le> length (cq_pending q) \<and> weight w' < weight w"
    and capacity_law: "inv g w \<Longrightarrow> cw_queue w = Some q \<Longrightarrow> cq_capacity q \<noteq> 0"
begin

text \<open>A result that keeps the invariant, with at most \<open>n\<close> chunks pending and a weight of at most \<open>m\<close>.\<close>

definition after :: "'g \<Rightarrow> nat \<Rightarrow> nat \<Rightarrow> ('c, 's) cworker \<Rightarrow> bool" where
  "after g n m w \<longleftrightarrow> inv g w \<and> weight w \<le> m \<and>
     (\<exists>q. cw_queue w = Some q \<and> length (cq_pending q) \<le> n)"

lemma pump_returns:
  "inv g w \<Longrightarrow> cw_queue w = Some q \<Longrightarrow>
    \<exists>w'. cw_pump submit w = Some (Inr (), w') \<and> after g (length (cq_pending q)) (weight w) w'"
proof (induction "length (cq_pending q)" arbitrary: w q rule: less_induct)
  case less
  show ?case
  proof (cases "cq_try_take q")
    case (Pair r q')
    show ?thesis
    proof (cases r)
      case None
      then show ?thesis
        using Pair less.prems by (subst cw_pump.simps) (auto simp: after_def)
    next
      case (Some c)
      from submit_law [OF less.prems, of c q'] obtain w' q'' where
        s: "submit c (w\<lparr>cw_queue := Some q'\<rparr>) = (Inr (), w')" "inv g w'"
        "cw_queue w' = Some q''" "cq_pending q'' = cq_pending q'" "weight w' \<le> weight w"
        using Pair Some by blast
      have short: "length (cq_pending q'') < length (cq_pending q)"
        using Pair Some s(4) by (auto simp: cq_try_take_def split: list.splits if_splits)
      from less.hyps [OF this s(2,3)] obtain w2 where
        "cw_pump submit w' = Some (Inr (), w2)" "after g (length (cq_pending q'')) (weight w') w2"
        by blast
      then show ?thesis
        using Pair Some less.prems s short by (subst cw_pump.simps) (auto simp: after_def)
    qed
  qed
qed

lemma fill_returns:
  "inv g w \<Longrightarrow> cw_queue w = Some q \<Longrightarrow>
    \<exists>w'. cw_fill submit drain_batch w = Some (Inr (), w') \<and> after g 0 (weight w) w'"
proof (induction "weight w" arbitrary: w q rule: less_induct)
  case less
  show ?case
  proof (cases "cq_empty q")
    case True
    then show ?thesis
      using less.prems by (subst cw_fill.simps) (auto simp: after_def cq_empty_def)
  next
    case False
    from pump_returns [OF less.prems] obtain w1 q1 where
      p: "cw_pump submit w = Some (Inr (), w1)" "inv g w1" "weight w1 \<le> weight w" "cw_queue w1 = Some q1"
      by (auto simp: after_def)
    show ?thesis
    proof (cases "cq_empty q1")
      case True
      then show ?thesis
        using False less.prems p by (subst cw_fill.simps) (auto simp: after_def cq_empty_def)
    next
      case busy: False
      then have "\<not> cq_idle q1" by (simp add: cq_empty_def cq_idle_def)
      with drain_law [OF p(2,4)] obtain w2 q2 where
        d: "drain_batch w1 = (Inr (), w2)" "inv g w2" "cw_queue w2 = Some q2" "weight w2 < weight w1"
        by blast
      from less.hyps [OF _ d(2,3)] d(4) p(3) obtain w3 where
        "cw_fill submit drain_batch w2 = Some (Inr (), w3)" "after g 0 (weight w2) w3"
        by auto
      then show ?thesis
        using False busy less.prems p d by (subst cw_fill.simps) (auto simp: after_def)
    qed
  qed
qed

lemma admit_returns:
  assumes "enqueue r w = Some (Inr (), w1)" and "inv g w1" and "cw_queue w1 = Some q"
  shows "\<exists>w'. cw_admit enqueue submit drain_batch r w = Some (Inr (), w') \<and> after g 0 (weight w1) w'"
proof -
  from fill_returns [OF assms(2,3)] obtain w2 q2 where
    f: "cw_fill submit drain_batch w1 = Some (Inr (), w2)" "inv g w2" "weight w2 \<le> weight w1"
      "cw_queue w2 = Some q2" "cq_pending q2 = []"
    by (auto simp: after_def)
  show ?thesis
  proof (cases "cq_capacity q2 \<le> cq_inflight q2")
    case True
    then have "\<not> cq_idle q2"
      using capacity_law [OF f(2,4)] by (auto simp: cq_idle_def)
    from drain_law [OF f(2,4) this] f(5) obtain w3 q3 where
      d: "drain_batch w2 = (Inr (), w3)" "inv g w3" "cw_queue w3 = Some q3" "cq_pending q3 = []"
        "weight w3 < weight w2"
      by auto
    then show ?thesis
      using True assms f by (auto simp: cw_admit_def after_def)
  next
    case False
    then show ?thesis
      using assms f by (auto simp: cw_admit_def after_def)
  qed
qed

lemma drain_returns:
  assumes "inv g w" and "\<not> cw_idle w"
  shows "\<exists>w'. cw_drain submit drain_batch w = Some (Inr (), w') \<and> inv g w' \<and> weight w' < weight w \<and>
    cw_queue w' \<noteq> None"
proof -
  obtain q where q: "cw_queue w = Some q" "\<not> cq_idle q"
    using assms(2) by (auto simp: cw_idle_def split: option.splits)
  from drain_law [OF assms(1) q] obtain w1 q1 where
    d: "drain_batch w = (Inr (), w1)" "inv g w1" "cw_queue w1 = Some q1" "weight w1 < weight w"
    by blast
  from pump_returns [OF d(2,3)] d q show ?thesis
    by (auto simp: cw_drain_def after_def)
qed

text \<open>A worker that is only drained ends idle.\<close>

lemma serve_rest:
  "inv g w \<Longrightarrow> \<exists>w'. cw_serve execute (cw_drain submit drain_batch) [] w = Some (Inr (), w') \<and>
    inv g w' \<and> cw_idle w'"
proof (induction "weight w" arbitrary: w rule: less_induct)
  case less
  show ?case
  proof (cases "cw_idle w")
    case True
    then show ?thesis using less.prems by (subst cw_serve.simps) simp
  next
    case False
    from drain_returns [OF less.prems this] obtain w' where
      "cw_drain submit drain_batch w = Some (Inr (), w')" "inv g w'" "weight w' < weight w" by blast
    with less.hyps [of w'] False show ?thesis by (subst cw_serve.simps) simp
  qed
qed

text \<open>
  Any schedule of requests is served, provided that executing a request keeps the invariant.
  \<open>ready rs g\<close> says what the requests to come need.
\<close>

lemma serve_returns:
  assumes exec: "\<And>r rs g w. inv g w \<Longrightarrow> ready (r # rs) g \<Longrightarrow>
      \<exists>w' g'. execute r w = Some (Inr (), w') \<and> inv g' w' \<and> ready rs g'"
  shows "inv g w \<Longrightarrow> ready (concat (map (case_option [] (\<lambda>r. [r])) arrivals)) g \<Longrightarrow>
    \<exists>w' g'. cw_serve execute (cw_drain submit drain_batch) arrivals w = Some (Inr (), w') \<and>
      inv g' w' \<and> ready [] g' \<and> cw_idle w'"
proof (induction arrivals arbitrary: g w)
  case Nil
  then show ?case using serve_rest [of g w execute] by auto
next
  case (Cons a arrivals)
  show ?case
  proof (cases a)
    case None
    show ?thesis
    proof (cases "cw_idle w")
      case True
      then show ?thesis using Cons None by (subst cw_serve.simps) simp
    next
      case False
      from drain_returns [OF Cons.prems(1) this] obtain w' where
        d: "cw_drain submit drain_batch w = Some (Inr (), w')" "inv g w'" by blast
      have "ready (concat (map (case_option [] (\<lambda>r. [r])) arrivals)) g"
        using Cons.prems(2) None by simp
      with Cons.IH [OF d(2)] d(1) False None show ?thesis by (subst cw_serve.simps) simp
    qed
  next
    case (Some r)
    have "ready (r # concat (map (case_option [] (\<lambda>r. [r])) arrivals)) g"
      using Cons.prems(2) Some by simp
    from exec [OF Cons.prems(1) this] obtain w' g' where
      e: "execute r w = Some (Inr (), w')" "inv g' w'" "ready (concat (map (case_option [] (\<lambda>r. [r])) arrivals)) g'"
      by blast
    with Cons.IH [OF e(2,3)] Some show ?thesis by (subst cw_serve.simps) simp
  qed
qed

end

end
