(* ===== verification/ObjectWorker.thy ===== *)
theory ObjectWorker
  imports CapacityWorker Workloads
begin

text \<open>
  \<open>ObjectStorageWorker\<close> (\<open>streamer/impl/object_storage_worker\<close>) and the reader it drives
  (\<open>streamer/impl/s3\<close>): the tasks of a workload are split into chunks, each a ranged read under a
  handle of its own; completions come back by handle, and a workload is reported once its last
  task has completed. The client of the plugin is a parameter, as are the stop flag (a function of
  the number of its loads) and the allocations of the registration that find no memory.
\<close>

section \<open>The plugin's client\<close>

type_synonym object_handle = "64 word"

record 'b object_client =
  oc_create :: "params \<Rightarrow> exn + 'b"
  oc_window :: "'b \<Rightarrow> response_code \<times> string"
  oc_read :: "params \<Rightarrow> size_t \<times> size_t \<Rightarrow> ptr \<Rightarrow> object_handle \<Rightarrow> 'b \<Rightarrow> response_code \<times> 'b"
  oc_wait :: "nat \<Rightarrow> 'b \<Rightarrow> (response_code \<times> nat \<times> backend_response list) \<times> 'b"

text \<open>\<open>S3::async_read\<close>, which dereferences the address, and \<open>S3::async_response\<close>.\<close>

definition s3_async_read ::
  "'b object_client \<Rightarrow> params \<Rightarrow> object_handle \<Rightarrow> size_t \<times> size_t \<Rightarrow> ptr \<Rightarrow> 'b \<Rightarrow> (exn + unit) \<times> 'b" where
  "s3_async_read client ps handle rng buffer b =
     (if params_uri ps = None then (Inl Trap, b)
      else case oc_read client ps rng buffer handle b of
        (c, b') \<Rightarrow> (if c \<noteq> Success then Inl (CommonException c) else Inr (), b'))"

definition s3_async_response ::
  "'b object_client \<Rightarrow> uint \<Rightarrow> 'b \<Rightarrow> (exn + response_code \<times> backend_response list) \<times> 'b" where
  "s3_async_response client max_responses b =
     (case (if max_responses = 0 then ((Success, 0, []), b) else oc_wait client (unat max_responses) b) of
        (answer, b') \<Rightarrow>
          (case async_read_response answer (unat max_responses) of
             Inl e \<Rightarrow> (Inl e, b')
           | Inr (c, events) \<Rightarrow> (Inr (c, if c \<noteq> Success then [] else events), b')))"

section \<open>The state of the worker\<close>

record object_chunk =
  ch_handle :: object_handle
  ch_offset :: size_t
  ch_bytesize :: size_t
  ch_buffer :: ptr

text \<open>The batch and the task of a \<open>TaskState\<close> are positions in the workload.\<close>

record task_state =
  ts_batch :: nat
  ts_task :: nat
  ts_remaining_chunks :: uint
  ts_error :: response_code

record inflight =
  if_workload :: workload
  if_chunk_task :: "nat list"
  if_tasks :: "task_state list"
  if_errors :: "(nat \<times> response_code) list"
  if_remaining_tasks :: nat

record 'b object_state =
  ow_config :: "config option"
  ow_reader :: "'b option"
  ow_reader_error :: response_code
  ow_chunk_bytesize :: size_t
  ow_max_responses :: uint
  ow_inflight :: "(object_handle \<times> inflight) list"
  ow_counter :: object_handle
  ow_world :: "request_heap \<times> pushes"
  ow_loads :: nat

type_synonym 'b object_worker = "(object_chunk, 'b object_state) cworker"

definition object_worker_make :: "request_heap \<times> pushes \<Rightarrow> 'b object_worker" where
  "object_worker_make world =
     \<lparr>cw_queue = None,
      cw_state = \<lparr>ow_config = None, ow_reader = None, ow_reader_error = Success,
        ow_chunk_bytesize = default_chunk_bytesize, ow_max_responses = 1, ow_inflight = [],
        ow_counter = 1, ow_world = world, ow_loads = 0\<rparr>\<rparr>"

definition set_state :: "('b object_state \<Rightarrow> 'b object_state) \<Rightarrow> 'b object_worker \<Rightarrow> 'b object_worker" where
  "set_state f w = w\<lparr>cw_state := f (cw_state w)\<rparr>"

section \<open>The window\<close>

text \<open>
  \<open>capacity\<close>. The client is created once; a failure of the plugin is recorded for \<open>discard\<close>, any
  other exception is not.
\<close>

definition build_reader ::
  "environment \<Rightarrow> credentials \<Rightarrow> 'b object_client \<Rightarrow> workload \<Rightarrow> 'b object_worker \<Rightarrow>
    (exn + 'b) \<times> 'b object_worker" where
  "build_reader env cred client first w =
     (let b = wl_batches first ! 0; chunk = max 1 (s3_block_bytesize (batch_config b));
          w1 = set_state (\<lambda>s. s\<lparr>ow_config := Some (batch_config b), ow_chunk_bytesize := chunk\<rparr>) w
      in case getenv_ulong_or env ''RUNAI_STREAMER_INTERNAL_MAX_RESPONSES'' 1 of
           Inl e \<Rightarrow> (Inl e, w1)
         | Inr n \<Rightarrow>
             let w2 = set_state (\<lambda>s. s\<lparr>ow_max_responses := ucast (max 1 n)\<rparr>) w1 in
             case (case params_make env (params_uri (batch_params b)) cred chunk of
                     Inl e \<Rightarrow> Inl e | Inr ps \<Rightarrow> oc_create client ps) of
               Inl e \<Rightarrow>
                 (Inl e, case e of
                    CommonException c \<Rightarrow> set_state (\<lambda>s. s\<lparr>ow_reader_error := c\<rparr>) w2
                  | _ \<Rightarrow> w2)
             | Inr rdr \<Rightarrow> (Inr rdr, set_state (\<lambda>s. s\<lparr>ow_reader := Some rdr\<rparr>) w2))"

definition window_chunks :: "size_t \<Rightarrow> size_t \<Rightarrow> size_t" where
  "window_chunks window_bytes chunk =
     (if window_bytes = size_max then size_max else max 1 (window_bytes div chunk))"

definition object_capacity ::
  "environment \<Rightarrow> credentials \<Rightarrow> 'b object_client \<Rightarrow> workload \<Rightarrow> 'b object_worker \<Rightarrow>
    (exn + size_t) \<times> 'b object_worker" where
  "object_capacity env cred client first w =
     (if wl_batches first = [] then (Inl (CommonException EmptyRequestError), w)
      else case (case ow_reader (cw_state w) of
                   Some rdr \<Rightarrow> (Inr rdr, w)
                 | None \<Rightarrow> build_reader env cred client first w) of
             (Inl e, w1) \<Rightarrow> (Inl e, w1)
           | (Inr rdr, w1) \<Rightarrow>
               (Inr (window_chunks (max_inflight_bytes (oc_window client rdr))
                  (ow_chunk_bytesize (cw_state w1))), w1))"

section \<open>Reporting\<close>

text \<open>\<open>report_workload\<close>: the code for all batches, or for each the error of its file, if any.\<close>

fun report_batches ::
  "response_code \<Rightarrow> (nat \<times> response_code) list \<Rightarrow> batch list \<Rightarrow> request_heap \<times> pushes \<Rightarrow>
    request_heap \<times> pushes" where
  "report_batches code errors [] world = world"
| "report_batches code errors (b # bs) world =
     (let error_code =
            (if code = Success
             then case map_of errors (batch_file_index b) of None \<Rightarrow> code | Some c \<Rightarrow> c
             else code)
      in report_batches code errors bs (snd (handle_error error_code b world)))"

definition report_workload ::
  "inflight \<Rightarrow> response_code \<Rightarrow> request_heap \<times> pushes \<Rightarrow> request_heap \<times> pushes" where
  "report_workload wl code world =
     report_batches code (if_errors wl) (wl_batches (if_workload wl)) world"

definition inflight_of :: "workload \<Rightarrow> inflight" where
  "inflight_of workload = \<lparr>if_workload = workload, if_chunk_task = [], if_tasks = [],
     if_errors = [], if_remaining_tasks = 0\<rparr>"

definition finalize ::
  "object_handle \<Rightarrow> response_code \<Rightarrow> 'b object_worker \<Rightarrow> 'b object_worker" where
  "finalize base code w =
     (case map_of (ow_inflight (cw_state w)) base of
        None \<Rightarrow> w
      | Some wl \<Rightarrow> set_state (\<lambda>s. s\<lparr>ow_world := report_workload wl code (ow_world s),
          ow_inflight := merase base (ow_inflight s)\<rparr>) w)"

definition abort_all :: "response_code \<Rightarrow> 'b object_worker \<Rightarrow> 'b object_worker" where
  "abort_all code w =
     (let w1 = fold (\<lambda>base. finalize base code) (map fst (ow_inflight (cw_state w))) w
      in w1\<lparr>cw_queue := map_option cq_clear (cw_queue w1)\<rparr>)"

definition object_discard :: "workload \<Rightarrow> 'b object_worker \<Rightarrow> (exn + unit) \<times> 'b object_worker" where
  "object_discard workload w =
     (let code = (if wl_batches workload = [] then EmptyRequestError
                  else if ow_reader_error (cw_state w) \<noteq> Success then ow_reader_error (cw_state w)
                  else UnknownError)
      in (Inr (), set_state (\<lambda>s. s\<lparr>ow_world := report_workload (inflight_of workload) code (ow_world s),
            ow_reader_error := Success\<rparr>) w))"

section \<open>Completing a chunk\<close>

text \<open>\<open>handle_response\<close> of a success, for a task of the workload.\<close>

definition respond_success ::
  "nat \<Rightarrow> nat \<Rightarrow> workload \<Rightarrow> request_heap \<times> pushes \<Rightarrow> exn + workload \<times> (request_heap \<times> pushes)" where
  "respond_success i j workload world =
     (case handle_response Success (Some j) (wl_batches workload ! i) world of
        Inl e \<Rightarrow> Inl e
      | Inr (b, world') \<Rightarrow> Inr (workload\<lparr>wl_batches := (wl_batches workload)[i := b]\<rparr>, world'))"

text \<open>All chunks of the task have completed.\<close>

definition task_completed ::
  "task_state \<Rightarrow> inflight \<Rightarrow> request_heap \<times> pushes \<Rightarrow> exn + inflight \<times> (request_heap \<times> pushes)" where
  "task_completed ts wl world =
     (if ts_error ts = Success then
        case respond_success (ts_batch ts) (ts_task ts) (if_workload wl) world of
          Inl e \<Rightarrow> Inl e
        | Inr (workload, world') \<Rightarrow> Inr (wl\<lparr>if_workload := workload\<rparr>, world')
      else
        Inr (wl\<lparr>if_errors := fst (memplace
               (batch_file_index (wl_batches (if_workload wl) ! ts_batch ts)) (ts_error ts)
               (if_errors wl))\<rparr>, world))"

definition set_inflight ::
  "object_handle \<Rightarrow> inflight \<Rightarrow> request_heap \<times> pushes \<Rightarrow> 'b object_worker \<Rightarrow> 'b object_worker" where
  "set_inflight base wl world w =
     set_state (\<lambda>s. s\<lparr>ow_inflight := mput base wl (ow_inflight s), ow_world := world\<rparr>) w"

text \<open>One chunk less, with the first error of the task.\<close>

definition chunk_done :: "response_code \<Rightarrow> task_state \<Rightarrow> task_state" where
  "chunk_done ret ts =
     (let ts1 = (if ret \<noteq> Success \<and> ts_error ts = Success then ts\<lparr>ts_error := ret\<rparr> else ts)
      in ts1\<lparr>ts_remaining_chunks := ts_remaining_chunks ts1 - 1\<rparr>)"

text \<open>One task less: the workload is finalized when it was the last.\<close>

definition put_back ::
  "object_handle \<Rightarrow> inflight \<Rightarrow> request_heap \<times> pushes \<Rightarrow> 'b object_worker \<Rightarrow> 'b object_worker" where
  "put_back base wl world w =
     (let w1 = set_inflight base wl world w in
      if if_remaining_tasks wl = 0 then finalize base Success w1 else w1)"

definition complete_chunk ::
  "object_handle \<Rightarrow> nat \<Rightarrow> response_code \<Rightarrow> 'b object_worker \<Rightarrow> (exn + unit) \<times> 'b object_worker" where
  "complete_chunk base k ret w =
     (case (cw_queue w, map_of (ow_inflight (cw_state w)) base) of
        (Some q, Some wl) \<Rightarrow>
          let w1 = w\<lparr>cw_queue := Some (cq_complete 1 q)\<rparr>; ts = if_tasks wl ! k;
              world = ow_world (cw_state w) in
          if ts_remaining_chunks ts = 0 then (Inl StdException, w1)
          else
            let ts' = chunk_done ret ts; wl1 = wl\<lparr>if_tasks := (if_tasks wl)[k := ts']\<rparr> in
            if ts_remaining_chunks ts' = 0 then
              case task_completed ts' wl1 world of
                Inl e \<Rightarrow> (Inl e, set_inflight base wl1 world w1)
              | Inr (wl2, world2) \<Rightarrow>
                  (Inr (), put_back base (wl2\<lparr>if_remaining_tasks := if_remaining_tasks wl2 - 1\<rparr>) world2 w1)
            else (Inr (), set_inflight base wl1 world w1)
      | _ \<Rightarrow> (Inl Trap, w))"

text \<open>\<open>locate\<close>: the block a handle is in, and the task there.\<close>

definition locate :: "object_handle \<Rightarrow> (object_handle \<times> inflight) list \<Rightarrow> (object_handle \<times> nat) option" where
  "locate handle m =
     (let before = takeWhile (\<lambda>p. fst p \<le> handle) m in
      if before = [] then None
      else case last before of (base, wl) \<Rightarrow>
        if length (if_chunk_task wl) \<le> unat (handle - base) then None
        else Some (base, if_chunk_task wl ! unat (handle - base)))"

section \<open>Submitting a chunk\<close>

definition object_submit ::
  "'b object_client \<Rightarrow> object_chunk \<Rightarrow> 'b object_worker \<Rightarrow> (exn + unit) \<times> 'b object_worker" where
  "object_submit client chunk w =
     (case locate (ch_handle chunk) (ow_inflight (cw_state w)) of
        None \<Rightarrow> (Inl StdException, w)
      | Some (base, k) \<Rightarrow>
          (case (map_of (ow_inflight (cw_state w)) base, ow_reader (cw_state w)) of
             (Some wl, Some rdr) \<Rightarrow>
               let ts = if_tasks wl ! k in
               if ts_error ts \<noteq> Success then complete_chunk base k (ts_error ts) w
               else case s3_async_read client (batch_params (wl_batches (if_workload wl) ! ts_batch ts))
                       (ch_handle chunk) (ch_offset chunk, ch_bytesize chunk) (ch_buffer chunk) rdr of
                 (r, rdr') \<Rightarrow>
                   let w1 = set_state (\<lambda>s. s\<lparr>ow_reader := Some rdr'\<rparr>) w in
                   (case r of
                      Inr u \<Rightarrow> (Inr (), w1)
                    | Inl (CommonException c) \<Rightarrow> complete_chunk base k c w1
                    | Inl Trap \<Rightarrow> (Inl Trap, w1)
                    | Inl e \<Rightarrow> complete_chunk base k UnknownError w1)
           | _ \<Rightarrow> (Inl Trap, w)))"

section \<open>Registering a workload\<close>

text \<open>
  What the registration of a workload allocates: the node of the map (named by the first handle of the
  workload), the index of its chunks, the entry of a task (named by the first handle of the
  task), and the queue entry of a chunk. Any of them may find no memory. The memory for responses
  and for the errors by file is assumed to be found.
\<close>

datatype allocation =
    AllocNode object_handle
  | AllocIndex object_handle
  | AllocTask object_handle
  | AllocChunk object_handle

text \<open>The chunks of one task, from index \<open>next\<close> of the block on; the loop ends when nothing remains.\<close>

partial_function (option) enqueue_chunks ::
  "(allocation \<Rightarrow> bool) \<Rightarrow> size_t \<Rightarrow> object_handle \<Rightarrow> nat \<Rightarrow> nat \<Rightarrow> size_t \<Rightarrow> size_t \<Rightarrow> ptr \<Rightarrow>
    inflight \<Rightarrow> object_chunk cap_queue \<Rightarrow> ((exn + nat) \<times> inflight \<times> object_chunk cap_queue) option" where
  "enqueue_chunks oom chunk base k i offset left buffer wl q =
     (if left = 0 then Some (Inr i, wl, q)
      else
        let bs = min left chunk; handle = base + of_nat i;
            wl1 = wl\<lparr>if_chunk_task := (if_chunk_task wl)[i := k]\<rparr> in
        if oom (AllocChunk handle) then Some (Inl StdException, wl1, q)
        else
          let ts = if_tasks wl1 ! k;
              wl2 = wl1\<lparr>if_tasks := (if_tasks wl1)[k := ts\<lparr>ts_remaining_chunks := ts_remaining_chunks ts + 1\<rparr>]\<rparr>
          in enqueue_chunks oom chunk base k (Suc i) (offset + bs) (left - bs) (buffer + bs) wl2
               (cq_enqueue \<lparr>ch_handle = handle, ch_offset = offset, ch_bytesize = bs, ch_buffer = buffer\<rparr> 1 q))"

declare enqueue_chunks.simps [code]

definition positions :: "workload \<Rightarrow> (nat \<times> nat) list" where
  "positions workload =
     concat (map (\<lambda>i. map (Pair i) [0..<length (batch_tasks (wl_batches workload ! i))])
       [0..<length (wl_batches workload)])"

fun enqueue_tasks ::
  "(allocation \<Rightarrow> bool) \<Rightarrow> size_t \<Rightarrow> object_handle \<Rightarrow> (nat \<times> nat) list \<Rightarrow> nat \<Rightarrow>
    inflight \<Rightarrow> object_chunk cap_queue \<Rightarrow> request_heap \<times> pushes \<Rightarrow>
    ((exn + unit) \<times> inflight \<times> object_chunk cap_queue \<times> (request_heap \<times> pushes)) option" where
  "enqueue_tasks oom chunk base [] next wl q world = Some (Inr (), wl, q, world)"
| "enqueue_tasks oom chunk base ((i, j) # ps) next wl q world =
     (let t = batch_tasks (wl_batches (if_workload wl) ! i) ! j in
      if ti_bytesize (task_info t) = 0 then
        case respond_success i j (if_workload wl) world of
          Inl e \<Rightarrow> Some (Inl e, wl, q, world)
        | Inr (workload, world') \<Rightarrow>
            enqueue_tasks oom chunk base ps next (wl\<lparr>if_workload := workload\<rparr>) q world'
      else if oom (AllocTask (base + of_nat next)) then Some (Inl StdException, wl, q, world)
      else
        let k = length (if_tasks wl);
            wl1 = wl\<lparr>if_tasks := if_tasks wl @ [\<lparr>ts_batch = i, ts_task = j,
              ts_remaining_chunks = 0, ts_error = Success\<rparr>]\<rparr> in
        case enqueue_chunks oom chunk base k next (ti_offset (task_info t)) (ti_bytesize (task_info t))
               (task_destination (fst world) t) wl1 q of
          None \<Rightarrow> None
        | Some (Inl e, wl2, q') \<Rightarrow> Some (Inl e, wl2, q', world)
        | Some (Inr next', wl2, q') \<Rightarrow> enqueue_tasks oom chunk base ps next' wl2 q' world)"

text \<open>The tasks without bytes of a workload that has no other tasks.\<close>

fun respond_all ::
  "(nat \<times> nat) list \<Rightarrow> workload \<Rightarrow> request_heap \<times> pushes \<Rightarrow> exn + workload \<times> (request_heap \<times> pushes)" where
  "respond_all [] workload world = Inr (workload, world)"
| "respond_all ((i, j) # ps) workload world =
     (case respond_success i j workload world of
        Inl e \<Rightarrow> Inl e
      | Inr (workload', world') \<Rightarrow> respond_all ps workload' world')"

definition task_chunks :: "size_t \<Rightarrow> task \<Rightarrow> size_t" where
  "task_chunks chunk t =
     (if ti_bytesize (task_info t) \<noteq> 0 then (ti_bytesize (task_info t) + chunk - 1) div chunk else 0)"

definition total_chunks :: "size_t \<Rightarrow> workload \<Rightarrow> size_t" where
  "total_chunks chunk workload =
     sum_list (map (task_chunks chunk) (concat (map batch_tasks (wl_batches workload))))"

text \<open>
  \<open>enqueue\<close>. The workload is moved into its entry of the map after the node was made: when there is no
  memory for the node, it is in no entry when everything in flight is aborted, and is dropped.
\<close>

definition object_enqueue ::
  "(allocation \<Rightarrow> bool) \<Rightarrow> workload \<Rightarrow> 'b object_worker \<Rightarrow> ((exn + unit) \<times> 'b object_worker) option" where
  "object_enqueue oom workload w =
     (let s = cw_state w; chunk = ow_chunk_bytesize s; total = total_chunks chunk workload in
      if total = 0 then
        case respond_all (positions workload) workload (ow_world s) of
          Inl e \<Rightarrow> Some (Inl e, w)
        | Inr (workload', world) \<Rightarrow>
            Some (Inr (), set_state (\<lambda>s. s\<lparr>ow_world :=
              report_workload (inflight_of workload') Success world\<rparr>) w)
      else
        let base = ow_counter s; w1 = set_state (\<lambda>s. s\<lparr>ow_counter := base + total\<rparr>) w in
        case cw_queue w of
          None \<Rightarrow> Some (Inl Trap, w1)
        | Some q \<Rightarrow>
            if oom (AllocNode base) \<or> map_of (ow_inflight s) base \<noteq> None
            then Some (Inr (), abort_all UnknownError w1)
            else if oom (AllocIndex base)
            then Some (Inr (), abort_all UnknownError (set_inflight base (inflight_of workload) (ow_world s) w1))
            else case enqueue_tasks oom chunk base (positions workload) 0
                   ((inflight_of workload)\<lparr>if_chunk_task := replicate (unat total) 0\<rparr>) q (ow_world s) of
              None \<Rightarrow> None
            | Some (r, wl, q', world) \<Rightarrow>
                (case r of
                   Inl e \<Rightarrow> Some (Inr (), abort_all UnknownError
                     (set_inflight base wl world (w1\<lparr>cw_queue := Some q'\<rparr>)))
                 | Inr u \<Rightarrow> Some (Inr (), set_inflight base
                     (wl\<lparr>if_remaining_tasks := length (if_tasks wl)\<rparr>) world (w1\<lparr>cw_queue := Some q'\<rparr>))))"

section \<open>Draining\<close>

text \<open>The loop over the responses: whether it progressed, and whether it saw the end of the round.\<close>

fun drain_responses ::
  "backend_response list \<Rightarrow> bool \<Rightarrow> 'b object_worker \<Rightarrow> (exn + bool \<times> bool) \<times> 'b object_worker" where
  "drain_responses [] progressed w = (Inr (progressed, False), w)"
| "drain_responses (r # rs) progressed w =
     (if br_ret r = FinishedError then (Inr (progressed, True), w)
      else case locate (br_handle r) (ow_inflight (cw_state w)) of
        None \<Rightarrow> drain_responses rs progressed w
      | Some (base, k) \<Rightarrow>
          (case complete_chunk base k (br_ret r) w of
             (Inl e, w') \<Rightarrow> (Inl e, w')
           | (Inr u, w') \<Rightarrow> drain_responses rs True w'))"

definition object_drain_batch ::
  "(nat \<Rightarrow> bool) \<Rightarrow> 'b object_client \<Rightarrow> 'b object_worker \<Rightarrow> (exn + unit) \<times> 'b object_worker" where
  "object_drain_batch stopped client w =
     (case ow_reader (cw_state w) of
        None \<Rightarrow> (Inr (), w)
      | Some rdr \<Rightarrow>
          let flag = stopped (ow_loads (cw_state w));
              w0 = set_state (\<lambda>s. s\<lparr>ow_loads := Suc (ow_loads s)\<rparr>) w in
          if flag then (Inr (), abort_all FinishedError w0)
          else case s3_async_response client (ow_max_responses (cw_state w)) rdr of
            (answer, rdr') \<Rightarrow>
              let w1 = set_state (\<lambda>s. s\<lparr>ow_reader := Some rdr'\<rparr>) w0 in
              (case answer of
                 Inl e \<Rightarrow> (Inl e, w1)
               | Inr (c, responses) \<Rightarrow>
                   if c \<noteq> Success then (Inr (), abort_all c w1)
                   else case drain_responses responses False w1 of
                     (Inl e, w2) \<Rightarrow> (Inl e, w2)
                   | (Inr (progressed, ended), w2) \<Rightarrow>
                       (Inr (), if \<not> progressed \<and> (responses = [] \<or> ended) \<and> \<not> cw_idle w2
                                then abort_all FinishedError w2 else w2)))"

section \<open>The worker\<close>

definition object_execute ::
  "environment \<Rightarrow> credentials \<Rightarrow> (allocation \<Rightarrow> bool) \<Rightarrow> (nat \<Rightarrow> bool) \<Rightarrow> 'b object_client \<Rightarrow>
    workload \<Rightarrow> 'b object_worker \<Rightarrow> ((exn + unit) \<times> 'b object_worker) option" where
  "object_execute env cred oom stopped client =
     cw_execute (object_capacity env cred client) object_discard (object_enqueue oom)
       (object_submit client) (object_drain_batch stopped client)"

definition object_drain ::
  "(nat \<Rightarrow> bool) \<Rightarrow> 'b object_client \<Rightarrow> 'b object_worker \<Rightarrow> ((exn + unit) \<times> 'b object_worker) option" where
  "object_drain stopped client = cw_drain (object_submit client) (object_drain_batch stopped client)"

definition object_serve ::
  "environment \<Rightarrow> credentials \<Rightarrow> (allocation \<Rightarrow> bool) \<Rightarrow> (nat \<Rightarrow> bool) \<Rightarrow> 'b object_client \<Rightarrow>
    workload option list \<Rightarrow> 'b object_worker \<Rightarrow> ((exn + unit) \<times> 'b object_worker) option" where
  "object_serve env cred oom stopped client =
     cw_serve (object_execute env cred oom stopped client) (object_drain stopped client)"

end
