(* ===== verification/ObjectReads.thy ===== *)
theory ObjectReads
  imports ObjectWorker Executing
begin

text \<open>
  What the tasks of an object-storage worker become: the pieces of a task and their handles, the
  registration of a workload, the events that finish tasks, and the reports of workloads.
\<close>

section \<open>Pieces\<close>

fun piece_sizes :: "nat \<Rightarrow> nat \<Rightarrow> nat list" where
  "piece_sizes c n = (if n = 0 \<or> c = 0 then [] else min n c # piece_sizes c (n - min n c))"

declare piece_sizes.simps [simp del]

lemma sum_piece_sizes: "c \<noteq> 0 \<Longrightarrow> sum_list (piece_sizes c n) = n"
proof (induction c n rule: piece_sizes.induct)
  case (1 c n)
  then show ?case by (subst piece_sizes.simps) auto
qed

lemma length_piece_sizes: "c \<noteq> 0 \<Longrightarrow> length (piece_sizes c n) = (n + c - 1) div c"
proof (induction c n rule: piece_sizes.induct)
  case (1 c n)
  show ?case
  proof (cases "n = 0")
    case True
    then show ?thesis using "1.prems" by (simp add: piece_sizes.simps)
  next
    case False
    then have ih: "length (piece_sizes c (n - min n c)) = (n - min n c + c - 1) div c" using 1 by simp
    have "(n + c - 1) div c = Suc ((n - min n c + c - 1) div c)"
    proof (cases "n \<le> c")
      case True
      then have "(n + c - 1) div c = (n - 1 + c) div c" using \<open>n \<noteq> 0\<close> by simp
      also have "\<dots> = Suc ((n - 1) div c)" using "1.prems" by (simp add: div_add_self2)
      finally show ?thesis using True False "1.prems" by simp
    next
      case False
      then have "(n + c - 1) div c = (n - c + c - 1 + c) div c" by simp
      also have "\<dots> = Suc ((n - c + c - 1) div c)" using "1.prems" div_add_self2 [of c "n - c + c - 1"] by linarith
      finally show ?thesis using False by (simp add: min_def)
    qed
    then show ?thesis using ih False "1.prems" by (subst piece_sizes.simps) simp
  qed
qed

definition pieces :: "size_t \<Rightarrow> segment \<Rightarrow> segment list" where
  "pieces chunk g = (case g of (off, n, dst) \<Rightarrow> lay off dst (map of_nat (piece_sizes (unat chunk) (unat n))))"

lemma pieces_step:
  assumes "chunk \<noteq> 0" and "n \<noteq> 0"
  shows "pieces chunk (off, n, dst) =
    (off, min n chunk, dst) # pieces chunk (off + min n chunk, n - min n chunk, dst + min n chunk)"
proof -
  have "unat n \<noteq> 0" "unat chunk \<noteq> 0" using assms by (simp_all add: unat_eq_0)
  moreover have "of_nat (min (unat n) (unat chunk)) = min n chunk"
    by (simp flip: unat_min)
  moreover have "unat (n - min n chunk) = unat n - min (unat n) (unat chunk)"
    by (subst unat_sub_le) (simp_all add: unat_min)
  ultimately show ?thesis
    by (simp add: pieces_def piece_sizes.simps [of "unat chunk" "unat n"])
qed

lemma pieces_0 [simp]: "pieces chunk (off, 0, dst) = []"
  by (simp add: pieces_def piece_sizes.simps)

lemma pieces_empty: "chunk \<noteq> 0 \<Longrightarrow> pieces chunk g = [] \<longleftrightarrow> fst (snd g) = 0"
  by (cases g; cases "fst (snd g) = 0") (auto simp: pieces_step)

text \<open>
  A segment was fetched for given parameters: pieces that tile it were read.
\<close>

definition fetched :: "(params \<times> segment) set \<Rightarrow> params \<Rightarrow> segment \<Rightarrow> bool" where
  "fetched G ps g \<longleftrightarrow> (case g of (off, n, dst) \<Rightarrow>
     \<exists>ns. sum_list (map unat ns) = unat n \<and> (\<forall>s\<in>set (lay off dst ns). (ps, s) \<in> G))"

lemma fetched_mono: "fetched G ps g \<Longrightarrow> G \<subseteq> G' \<Longrightarrow> fetched G' ps g"
  unfolding fetched_def by (auto split: prod.splits)

lemma fetched_pieces:
  assumes "chunk \<noteq> 0" and "\<forall>s\<in>set (pieces chunk g). (ps, s) \<in> G"
  shows "fetched G ps g"
proof -
  obtain off n dst where g: "g = (off, n, dst)" by (cases g)
  let ?ns = "piece_sizes (unat chunk) (unat n)"
  have sum: "sum_list ?ns = unat n" using assms(1) by (simp add: sum_piece_sizes unat_eq_0)
  have "unat (of_nat k :: size_t) = k" if "k \<in> set ?ns" for k
  proof -
    have "k < 18446744073709551616"
      using member_le_sum_list [OF that] sum unat_lt64 [of n] by linarith
    then show ?thesis by (simp add: unat_of_nat)
  qed
  then have "map unat (map of_nat ?ns :: size_t list) = ?ns" by (simp add: map_idI)
  then have "sum_list (map unat (map of_nat ?ns :: size_t list)) = unat n" using sum by simp
  then show ?thesis
    using assms(2) unfolding fetched_def g pieces_def prod.case by blast
qed

text \<open>The task that each chunk of a block belongs to.\<close>

fun owners :: "nat \<Rightarrow> nat list \<Rightarrow> nat list" where
  "owners k [] = []"
| "owners k (n # ns) = replicate n k @ owners (Suc k) ns"

lemma length_owners [simp]: "length (owners k ns) = sum_list ns"
  by (induction k ns rule: owners.induct) auto

lemma owners_append: "owners k (xs @ ys) = owners k xs @ owners (k + length xs) ys"
  by (induction k xs rule: owners.induct) auto

lemma owners_range: "j \<in> set (owners k ns) \<Longrightarrow> k \<le> j \<and> j < k + length ns"
  by (induction k ns rule: owners.induct) fastforce+

lemma owners_count: "k \<le> j \<Longrightarrow> j < k + length ns \<Longrightarrow> length (filter ((=) j) (owners k ns)) = ns ! (j - k)"
proof (induction k ns rule: owners.induct)
  case (2 k n ns)
  show ?case
  proof (cases "j = k")
    case True
    have "filter ((=) k) (owners (Suc k) ns) = []"
      using owners_range [of _ "Suc k" ns] by (fastforce simp: filter_empty_conv)
    then show ?thesis using True by simp
  next
    case False
    then have "length (filter ((=) j) (owners (Suc k) ns)) = ns ! (j - Suc k)" using 2 by simp
    moreover have "filter ((=) j) (replicate n k) = []" using False by (simp add: filter_empty_conv)
    moreover have "(n # ns) ! (j - k) = ns ! (j - Suc k)"
      using False "2.prems" by (metis Suc_diff_Suc le_neq_implies_less nth_Cons_Suc)
    ultimately show ?thesis by simp
  qed
qed simp

lemma owners_at:
  "i < length (concat xss) \<Longrightarrow> \<exists>j<length xss. owners k (map length xss) ! i = k + j \<and> concat xss ! i \<in> set (xss ! j)"
proof (induction xss arbitrary: k i)
  case (Cons xs xss)
  show ?case
  proof (cases "i < length xs")
    case True
    then show ?thesis by (intro exI [of _ 0]) (simp add: nth_append)
  next
    case False
    then have "i - length xs < length (concat xss)" using Cons.prems by auto
    from Cons.IH [OF this, of "Suc k"] obtain j where
      "j < length xss" "owners (Suc k) (map length xss) ! (i - length xs) = Suc k + j"
      "concat xss ! (i - length xs) \<in> set (xss ! j)" by blast
    then show ?thesis using False by (intro exI [of _ "Suc j"]) (simp add: nth_append)
  qed
qed simp

lemma owners_cover:
  "j < length xss \<Longrightarrow> p \<in> set (xss ! j) \<Longrightarrow>
    \<exists>i<length (concat xss). owners k (map length xss) ! i = k + j \<and> concat xss ! i = p"
proof (induction xss arbitrary: k j)
  case (Cons xs xss)
  show ?case
  proof (cases j)
    case 0
    then obtain i where "i < length xs" "xs ! i = p" using Cons.prems by (auto simp: in_set_conv_nth)
    then show ?thesis using 0 by (intro exI [of _ i]) (simp add: nth_append)
  next
    case (Suc j')
    then have "j' < length xss" "p \<in> set (xss ! j')" using Cons.prems by auto
    from Cons.IH [OF this, of "Suc k"] obtain i where
      "i < length (concat xss)" "owners (Suc k) (map length xss) ! i = Suc k + j'" "concat xss ! i = p" by blast
    then show ?thesis using Suc by (intro exI [of _ "length xs + i"]) (simp add: nth_append)
  qed
qed simp

section \<open>Registering the chunks of a task\<close>

definition chunk_of :: "object_handle \<Rightarrow> nat \<Rightarrow> segment \<Rightarrow> object_chunk" where
  "chunk_of base i g = (case g of (off, n, dst) \<Rightarrow>
     \<lparr>ch_handle = base + of_nat i, ch_offset = off, ch_bytesize = n, ch_buffer = dst\<rparr>)"

definition chunks_of :: "object_handle \<Rightarrow> nat \<Rightarrow> segment list \<Rightarrow> (object_chunk \<times> size_t) list" where
  "chunks_of base i gs = map (\<lambda>(j, g). (chunk_of base j g, 1)) (zip [i..<i + length gs] gs)"

lemma chunks_of_simps [simp]:
  "chunks_of base i [] = []"
  "chunks_of base i (g # gs) = (chunk_of base i g, 1) # chunks_of base (Suc i) gs"
  by (simp_all add: chunks_of_def upt_conv_Cons del: upt_Suc)

lemma chunks_of_append: "chunks_of base i (xs @ ys) = chunks_of base i xs @ chunks_of base (i + length xs) ys"
  by (induction xs arbitrary: i) auto

lemma length_chunks_of [simp]: "length (chunks_of base i gs) = length gs"
  by (simp add: chunks_of_def)

text \<open>What registering leaves of a workload and of the queue, whether or not it finds memory.\<close>

definition registered_in :: "inflight \<Rightarrow> object_chunk cap_queue \<Rightarrow> inflight \<times> object_chunk cap_queue \<Rightarrow> bool" where
  "registered_in wl q x \<longleftrightarrow> (case x of (wl', q') \<Rightarrow>
     if_workload wl' = if_workload wl \<and> if_errors wl' = if_errors wl \<and>
     cq_capacity q' = cq_capacity q \<and> cq_inflight q' = cq_inflight q)"

definition add_chunks :: "nat \<Rightarrow> nat \<Rightarrow> nat \<Rightarrow> inflight \<Rightarrow> inflight" where
  "add_chunks k i m wl = wl\<lparr>
     if_chunk_task := take i (if_chunk_task wl) @ replicate m k @ drop (i + m) (if_chunk_task wl),
     if_tasks := (if_tasks wl)[k := (if_tasks wl ! k)\<lparr>ts_remaining_chunks :=
       ts_remaining_chunks (if_tasks wl ! k) + of_nat m\<rparr>]\<rparr>"

lemma add_chunks_step:
  assumes "k < length (if_tasks wl)" and "i < length (if_chunk_task wl)"
  shows "add_chunks k (Suc i) m (add_chunks k i 1 wl) = add_chunks k i (Suc m) wl"
proof -
  have "take (Suc i) (take i xs @ [k] @ drop (Suc i) xs) = take i xs @ [k]"
    "drop (Suc i + m) (take i xs @ [k] @ drop (Suc i) xs) = drop (i + Suc m) xs"
    if "i < length xs" for xs :: "nat list"
    using that by (simp_all add: add.commute)
  then show ?thesis
    using assms by (simp add: add_chunks_def add.assoc)
qed

lemma add_chunks_0:
  "k < length (if_tasks wl) \<Longrightarrow> add_chunks k i 0 wl = wl"
  by (simp add: add_chunks_def)

lemma enqueue_chunks_spec:
  assumes "chunk \<noteq> 0" and "k < length (if_tasks wl)"
    and "i + length (pieces chunk (off, n, dst)) \<le> length (if_chunk_task wl)"
  shows "\<exists>r wl' q'. enqueue_chunks oom chunk base k i off n dst wl q = Some (r, wl', q') \<and>
    registered_in wl q (wl', q') \<and>
    (case r of
       Inl e \<Rightarrow> True
     | Inr i' \<Rightarrow> let gs = pieces chunk (off, n, dst) in i' = i + length gs \<and>
         wl' = add_chunks k i (length gs) wl \<and>
         cq_pending q' = cq_pending q @ chunks_of base i gs)"
  using assms(2,3)
proof (induction "unat n" arbitrary: i off n dst wl q rule: less_induct)
  case less
  show ?case
  proof (cases "n = 0")
    case True
    then show ?thesis
      using less.prems(1) by (subst enqueue_chunks.simps) (simp add: registered_in_def add_chunks_0)
  next
    case False
    let ?bs = "min n chunk" and ?wl1 = "wl\<lparr>if_chunk_task := (if_chunk_task wl)[i := k]\<rparr>"
    let ?wl2 = "add_chunks k i 1 wl"
    let ?q = "cq_enqueue (chunk_of base i (off, ?bs, dst)) 1 q"
    note step = pieces_step [OF assms(1) False, of off dst]
    have len: "i < length (if_chunk_task wl)" using less.prems(2) by (simp add: step)
    show ?thesis
    proof (cases "oom (AllocChunk (base + of_nat i))")
      case True
      then show ?thesis
        using False by (subst enqueue_chunks.simps) (simp add: registered_in_def Let_def)
    next
      case mem: False
      have wl2: "?wl1\<lparr>if_tasks := (if_tasks wl)[k := (if_tasks wl ! k)\<lparr>ts_remaining_chunks :=
          ts_remaining_chunks (if_tasks wl ! k) + 1\<rparr>]\<rparr> = ?wl2"
        using len by (simp add: add_chunks_def upd_conv_take_nth_drop)
      have "unat (n - ?bs) < unat n"
        using assms(1) False by (subst unat_sub_le) (auto simp: unat_min unat_eq_0 unat_gt_0 min_def)
      moreover have "k < length (if_tasks ?wl2)" using less.prems(1) by (simp add: add_chunks_def)
      moreover have "Suc i + length (pieces chunk (off + ?bs, n - ?bs, dst + ?bs)) \<le> length (if_chunk_task ?wl2)"
        using less.prems(2) len by (simp add: step add_chunks_def)
      ultimately obtain r wl' q' where
        rest: "enqueue_chunks oom chunk base k (Suc i) (off + ?bs) (n - ?bs) (dst + ?bs) ?wl2 ?q = Some (r, wl', q')"
          "registered_in ?wl2 ?q (wl', q')"
        and res: "case r of Inl e \<Rightarrow> True
          | Inr i' \<Rightarrow> let gs = pieces chunk (off + ?bs, n - ?bs, dst + ?bs) in i' = Suc i + length gs \<and>
              wl' = add_chunks k (Suc i) (length gs) ?wl2 \<and>
              cq_pending q' = cq_pending ?q @ chunks_of base (Suc i) gs"
        using less.hyps [of "n - ?bs" ?wl2 "Suc i" "off + ?bs" "dst + ?bs" ?q] by blast
      have run: "enqueue_chunks oom chunk base k i off n dst wl q = Some (r, wl', q')"
        using False mem rest(1) wl2
        by (subst enqueue_chunks.simps) (simp add: Let_def chunk_of_def)
      moreover have "registered_in wl q (wl', q')"
        using rest(2) by (simp add: registered_in_def add_chunks_def cq_enqueue_def)
      moreover have "case r of Inl e \<Rightarrow> True
        | Inr i' \<Rightarrow> let gs = pieces chunk (off, n, dst) in i' = i + length gs \<and>
            wl' = add_chunks k i (length gs) wl \<and> cq_pending q' = cq_pending q @ chunks_of base i gs"
        using res add_chunks_step [OF less.prems(1) len]
        by (cases r) (simp_all add: step cq_enqueue_def Let_def)
      ultimately show ?thesis by blast
    qed
  qed
qed

section \<open>Events\<close>

text \<open>An event finishes a task of a batch: submission, file, parameters, the task and its code.\<close>

type_synonym task_key = "submission_id \<times> nat \<times> params \<times> task"
type_synonym object_event = "task_key \<times> response_code"

definition key_of :: "batch \<Rightarrow> task \<Rightarrow> task_key" where
  "key_of b t = (batch_submission_id b, batch_file_index b, batch_params b, t)"

fun object_run :: "object_event list \<Rightarrow> request_heap \<times> pushes \<Rightarrow> request_heap \<times> pushes" where
  "object_run [] w = w"
| "object_run (((sid, f, ps, t), c) # es) w = object_run es (fst (finish_task sid f c w t))"

lemma object_run_append: "object_run (xs @ ys) w = object_run ys (object_run xs w)"
  by (induction xs w rule: object_run.induct) auto

text \<open>What the requests never change.\<close>

definition same_heap :: "request_heap \<Rightarrow> request_heap \<Rightarrow> bool" where
  "same_heap heap0 heap \<longleftrightarrow> length heap = length heap0 \<and>
     (\<forall>r<length heap0. same_request (heap ! r) (heap0 ! r))"

lemma same_heap_refl [simp]: "same_heap heap heap"
  by (simp add: same_heap_def same_request_def)

lemma finish_task_heap:
  assumes "same_heap heap0 (fst w)"
  shows "same_heap heap0 (fst (fst (finish_task sid f c w t)))"
proof -
  obtain heap out where w: "w = (heap, out)" by (cases w)
  obtain q l where q: "request_finished c (heap ! task_request t) = (q, l)"
    by (cases "request_finished c (heap ! task_request t)")
  then have "same_request q (heap ! task_request t)"
    using request_finished_simps [of c "heap ! task_request t"] by (simp add: same_request_def)
  then have "same_heap heap0 (heap[task_request t := q])"
    using assms by (auto simp: same_heap_def w nth_list_update' same_request_def)
  then show ?thesis
    using q assms by (auto simp: w finish_task_def finished_request_def Let_def split: prod.splits)
qed

lemma object_run_heap: "same_heap heap0 (fst w) \<Longrightarrow> same_heap heap0 (fst (object_run es w))"
  by (induction es w rule: object_run.induct) (auto simp: finish_task_heap)

text \<open>The tasks of batches that are still open, as keys.\<close>

definition open_tasks :: "batch \<Rightarrow> task list" where
  "open_tasks b = filter (\<lambda>t. \<not> task_finished t) (batch_tasks b)"

definition open_keys :: "batch list \<Rightarrow> task_key multiset" where
  "open_keys bs = mset (concat (map (\<lambda>b. map (key_of b) (open_tasks b)) bs))"

lemma open_keys_simps [simp]:
  "open_keys [] = {#}"
  "open_keys (b # bs) = mset (map (key_of b) (open_tasks b)) + open_keys bs"
  by (simp_all add: open_keys_def)

definition finish_at :: "nat \<Rightarrow> batch \<Rightarrow> batch" where
  "finish_at j b = b\<lparr>batch_tasks := (batch_tasks b)[j := set_finished (batch_tasks b ! j)]\<rparr>"

lemma finish_at_simps [simp]:
  "batch_submission_id (finish_at j b) = batch_submission_id b"
  "batch_file_index (finish_at j b) = batch_file_index b"
  "batch_params (finish_at j b) = batch_params b"
  "length (batch_tasks (finish_at j b)) = length (batch_tasks b)"
  "key_of (finish_at j b) = key_of b"
  by (simp_all add: finish_at_def key_of_def fun_eq_iff)

lemma mset_filter_update:
  assumes "j < length ts" and "P (ts ! j)" and "\<not> P x"
  shows "add_mset (ts ! j) (mset (filter P (ts[j := x]))) = mset (filter P ts)"
  using assms
proof (induction ts arbitrary: j)
  case (Cons t ts)
  then show ?case by (cases j) auto
qed simp

lemma open_keys_update:
  assumes "i < length bs" and "j < length (batch_tasks (bs ! i))"
    and "\<not> task_finished (batch_tasks (bs ! i) ! j)"
  shows "add_mset (key_of (bs ! i) (batch_tasks (bs ! i) ! j)) (open_keys (bs[i := finish_at j (bs ! i)])) =
    open_keys bs"
  using assms
proof (induction bs arbitrary: i)
  case (Cons b bs)
  show ?case
  proof (cases i)
    case 0
    have "add_mset (batch_tasks b ! j) (mset (open_tasks (finish_at j b))) = mset (open_tasks b)"
      using Cons.prems 0 mset_filter_update [of j "batch_tasks b" "\<lambda>t. \<not> task_finished t"
          "set_finished (batch_tasks b ! j)"]
      by (simp add: open_tasks_def finish_at_def set_finished_def)
    from arg_cong [OF this, of "image_mset (key_of b)"] show ?thesis using 0 by simp
  next
    case (Suc i')
    then show ?thesis using Cons by (simp flip: union_mset_add_mset_right)
  qed
qed simp

lemma respond_success_spec:
  assumes "t = batch_tasks (wl_batches workload ! i) ! j" and "\<not> task_finished t"
    and "req_file_index (fst world ! task_request t) = batch_file_index (wl_batches workload ! i)"
  shows "respond_success i j workload world =
    Inr (workload\<lparr>wl_batches := (wl_batches workload)[i := finish_at j (wl_batches workload ! i)]\<rparr>,
      object_run [(key_of (wl_batches workload ! i) t, Success)] world)"
  using assms snd_finish_task [of t "batch_submission_id (wl_batches workload ! i)"
      "batch_file_index (wl_batches workload ! i)" Success world]
  by (auto simp: respond_success_def handle_response_def handle_task_response_def Let_def finish_at_def
      key_of_def split: prod.splits)

text \<open>Reporting: the open tasks of every batch that has a code other than \<open>Success\<close>.\<close>

definition batch_code :: "response_code \<Rightarrow> (nat \<times> response_code) list \<Rightarrow> batch \<Rightarrow> response_code" where
  "batch_code code errors b =
     (if code = Success then case map_of errors (batch_file_index b) of None \<Rightarrow> code | Some c \<Rightarrow> c else code)"

definition report_events ::
  "response_code \<Rightarrow> (nat \<times> response_code) list \<Rightarrow> batch list \<Rightarrow> object_event list" where
  "report_events code errors bs = concat (map (\<lambda>b.
     let c = batch_code code errors b in
     if c = Success then [] else map (\<lambda>t. (key_of b t, c)) (open_tasks b)) bs)"

lemma finish_each_open:
  "snd (finish_each sid f c ts w) =
    object_run (map (\<lambda>t. ((sid, f, ps, t), c)) (filter (\<lambda>t. \<not> task_finished t) ts)) w"
proof (induction ts arbitrary: w)
  case (Cons t ts)
  obtain w1 t' where f: "finish_task sid f c w t = (w1, t')" by (cases "finish_task sid f c w t")
  obtain ts' w2 where r: "finish_each sid f c ts w1 = (ts', w2)" by (cases "finish_each sid f c ts w1")
  have "w1 = w" if "task_finished t" using finish_task_done [OF that, of sid f c w] f by simp
  then show ?case
    using Cons [of w1] f r by (cases "task_finished t") simp_all
qed simp

lemma report_batches_run:
  "report_batches code errors bs w = object_run (report_events code errors bs) w"
proof (induction bs arbitrary: w)
  case (Cons b bs)
  let ?c = "batch_code code errors b"
  have "snd (handle_error ?c b w) =
      object_run (if ?c = Success then [] else map (\<lambda>t. (key_of b t, ?c)) (open_tasks b)) w"
    using finish_each_open [of "batch_submission_id b" "batch_file_index b" ?c "batch_tasks b" w "batch_params b"]
    by (auto simp: handle_error_def key_of_def open_tasks_def split: prod.splits)
  then show ?case
    using Cons by (simp add: report_events_def batch_code_def object_run_append Let_def)
qed (simp add: report_events_def)

lemma report_events_keys:
  assumes "\<forall>b\<in>set bs. open_tasks b \<noteq> [] \<longrightarrow> batch_code code errors b \<noteq> Success"
  shows "mset (map fst (report_events code errors bs)) = open_keys bs"
  using assms by (induction bs) (auto simp: report_events_def Let_def comp_def multiset.map_comp)

lemma report_events_codes: "\<forall>e\<in>set (report_events code errors bs). snd e \<noteq> Success"
  by (auto simp: report_events_def Let_def split: if_splits)

section \<open>Positions\<close>

definition task_of :: "batch list \<Rightarrow> nat \<times> nat \<Rightarrow> task" where
  "task_of bs p = batch_tasks (bs ! fst p) ! snd p"

definition valid_pos :: "batch list \<Rightarrow> nat \<times> nat \<Rightarrow> bool" where
  "valid_pos bs p \<longleftrightarrow> fst p < length bs \<and> snd p < length (batch_tasks (bs ! fst p))"

lemma set_positions: "set (positions wl) = {p. valid_pos (wl_batches wl) p}"
  by (auto simp: positions_def valid_pos_def)

lemma distinct_positions: "distinct (positions wl)"
proof -
  have "distinct (concat (map (\<lambda>i. map (Pair i) [0..<f i]) is))" if "distinct is" for f and "is" :: "nat list"
    using that by (induction "is") (auto simp: distinct_map inj_on_def)
  then show ?thesis by (simp add: positions_def)
qed

text \<open>Batches that differ at most in which of their tasks are finished.\<close>

definition same_batch :: "batch \<Rightarrow> batch \<Rightarrow> bool" where
  "same_batch b b' \<longleftrightarrow> batch_submission_id b = batch_submission_id b' \<and>
     batch_file_index b = batch_file_index b' \<and> batch_params b = batch_params b' \<and>
     length (batch_tasks b) = length (batch_tasks b')"

definition same_batches :: "batch list \<Rightarrow> batch list \<Rightarrow> bool" where
  "same_batches bs bs' \<longleftrightarrow> list_all2 same_batch bs bs'"

lemma same_batches_refl [simp]: "same_batches bs bs"
  by (simp add: same_batches_def same_batch_def list_all2_conv_all_nth)

lemma same_batches_trans: "same_batches a b \<Longrightarrow> same_batches b c \<Longrightarrow> same_batches a c"
  by (auto simp: same_batches_def same_batch_def list_all2_conv_all_nth)

lemma same_batches_finish: "same_batches bs (bs[i := finish_at j (bs ! i)])"
  by (auto simp: same_batches_def same_batch_def list_all2_conv_all_nth nth_list_update')

lemma same_batches_nth:
  assumes "same_batches bs bs'"
  shows "length bs' = length bs" and "i < length bs \<Longrightarrow> same_batch (bs ! i) (bs' ! i)"
  using assms by (auto simp: same_batches_def list_all2_conv_all_nth)

lemma valid_pos_same: "same_batches bs bs' \<Longrightarrow> valid_pos bs' p \<longleftrightarrow> valid_pos bs p"
  using same_batches_nth [of bs bs'] by (auto simp: valid_pos_def same_batch_def)

lemma key_of_same: "same_batch b b' \<Longrightarrow> key_of b' = key_of b"
  by (simp add: same_batch_def key_of_def fun_eq_iff)

lemma task_of_finish:
  "valid_pos bs (i, j) \<Longrightarrow> valid_pos bs p \<Longrightarrow>
    task_of (bs[i := finish_at j (bs ! i)]) p = (if p = (i, j) then set_finished (task_of bs p) else task_of bs p)"
  by (cases p) (auto simp: task_of_def valid_pos_def finish_at_def nth_list_update)

fun finish_positions :: "(nat \<times> nat) list \<Rightarrow> batch list \<Rightarrow> batch list" where
  "finish_positions [] bs = bs"
| "finish_positions ((i, j) # zs) bs = finish_positions zs (bs[i := finish_at j (bs ! i)])"

lemma finish_positions_same: "same_batches bs (finish_positions zs bs)"
proof (induction zs bs rule: finish_positions.induct)
  case (2 i j zs bs)
  then show ?case using same_batches_trans [OF same_batches_finish [of bs i j]] by simp
qed simp

lemma finish_positions_task:
  "\<forall>z\<in>set zs. valid_pos bs z \<Longrightarrow> valid_pos bs p \<Longrightarrow>
    task_of (finish_positions zs bs) p = (if p \<in> set zs then set_finished (task_of bs p) else task_of bs p)"
proof (induction zs bs rule: finish_positions.induct)
  case (2 i j zs bs)
  note same = valid_pos_same [OF same_batches_finish [of bs i j]]
  show ?case
    using 2 same task_of_finish [of bs i j p] by (auto simp: set_finished_def)
qed simp

definition zero_events :: "batch list \<Rightarrow> (nat \<times> nat) list \<Rightarrow> object_event list" where
  "zero_events bs zs = map (\<lambda>z. (key_of (bs ! fst z) (task_of bs z), Success)) zs"

lemma zero_events_finish:
  assumes "valid_pos bs (i, j)" and "\<forall>z\<in>set zs. valid_pos bs z" and "(i, j) \<notin> set zs"
  shows "zero_events (bs[i := finish_at j (bs ! i)]) zs = zero_events bs zs"
  unfolding zero_events_def
proof (intro map_cong refl)
  fix z assume z: "z \<in> set zs"
  then have "task_of (bs[i := finish_at j (bs ! i)]) z = task_of bs z"
    using task_of_finish [OF assms(1), of z] assms(2,3) by auto
  moreover have "key_of (bs[i := finish_at j (bs ! i)] ! fst z) = key_of (bs ! fst z)"
    by (metis finish_at_simps(5) nth_list_update_eq nth_list_update_neq list_update_beyond linorder_not_less)
  ultimately show "(key_of (bs[i := finish_at j (bs ! i)] ! fst z) (task_of (bs[i := finish_at j (bs ! i)]) z), Success) =
      (key_of (bs ! fst z) (task_of bs z), Success)" by simp
qed

lemma open_keys_finish:
  "\<forall>z\<in>set zs. valid_pos bs z \<and> \<not> task_finished (task_of bs z) \<Longrightarrow> distinct zs \<Longrightarrow>
    mset (map fst (zero_events bs zs)) + open_keys (finish_positions zs bs) = open_keys bs"
proof (induction zs bs rule: finish_positions.induct)
  case (2 i j zs bs)
  let ?bs = "bs[i := finish_at j (bs ! i)]"
  have v: "valid_pos bs (i, j)" "\<forall>z\<in>set zs. valid_pos bs z" "(i, j) \<notin> set zs" using "2.prems" by auto
  have "\<forall>z\<in>set zs. valid_pos ?bs z \<and> \<not> task_finished (task_of ?bs z)"
    using "2.prems" v valid_pos_same [OF same_batches_finish [of bs i j]] task_of_finish [OF v(1)] by auto
  then have "mset (map fst (zero_events ?bs zs)) + open_keys (finish_positions zs ?bs) = open_keys ?bs"
    using 2 by simp
  then have rest: "mset (map fst (zero_events bs zs)) + open_keys (finish_positions zs ?bs) = open_keys ?bs"
    unfolding zero_events_finish [OF v] .
  have "add_mset (key_of (bs ! i) (task_of bs (i, j))) (open_keys ?bs) = open_keys bs"
    using "2.prems" open_keys_update [of i bs j] by (simp add: valid_pos_def task_of_def)
  moreover have "map fst (zero_events bs ((i, j) # zs)) =
      key_of (bs ! i) (task_of bs (i, j)) # map fst (zero_events bs zs)"
    by (simp add: zero_events_def)
  ultimately show ?case by (simp flip: rest)
qed (simp add: zero_events_def)

section \<open>Registering a workload\<close>

definition zero_pos :: "batch list \<Rightarrow> nat \<times> nat \<Rightarrow> bool" where
  "zero_pos bs p \<longleftrightarrow> ti_bytesize (task_info (task_of bs p)) = 0"

lemma piece_sizes_bounds: "x \<in> set (piece_sizes c n) \<Longrightarrow> 0 < x \<and> x \<le> c"
proof (induction c n rule: piece_sizes.induct)
  case (1 c n)
  then show ?case by (subst (asm) (2) piece_sizes.simps) (auto split: if_splits)
qed

lemma pieces_bounds:
  assumes "(off, n, dst) \<in> set (pieces chunk g)"
  shows "0 < n \<and> n \<le> chunk"
proof -
  obtain o1 n1 d1 where g: "g = (o1, n1, d1)" by (cases g)
  have "n \<in> set (map (\<lambda>(off, n, dst). n) (pieces chunk g))" using assms by force
  then have "n \<in> set (map of_nat (piece_sizes (unat chunk) (unat n1)))"
    by (simp add: pieces_def g lay_sizes)
  then obtain x where x: "n = of_nat x" "x \<in> set (piece_sizes (unat chunk) (unat n1))" by auto
  note b = piece_sizes_bounds [OF x(2)]
  have "x < 18446744073709551616" using b unat_lt64 [of chunk] by linarith
  then have "unat n = x" by (simp add: x(1) unat_of_nat)
  then show ?thesis using b by (simp add: word_le_nat_alt word_less_nat_alt)
qed

definition task_pieces :: "size_t \<Rightarrow> request_heap \<Rightarrow> batch list \<Rightarrow> nat \<times> nat \<Rightarrow> segment list" where
  "task_pieces chunk heap bs p = pieces chunk (task_seg heap (task_of bs p))"

lemma task_pieces_zero: "chunk \<noteq> 0 \<Longrightarrow> task_pieces chunk heap bs p = [] \<longleftrightarrow> zero_pos bs p"
  by (simp add: task_pieces_def pieces_empty zero_pos_def task_seg_def)

definition new_task :: "size_t \<Rightarrow> request_heap \<Rightarrow> batch list \<Rightarrow> nat \<times> nat \<Rightarrow> task_state" where
  "new_task chunk heap bs p = \<lparr>ts_batch = fst p, ts_task = snd p,
     ts_remaining_chunks = of_nat (length (task_pieces chunk heap bs p)), ts_error = Success\<rparr>"

text \<open>A position that registration can handle.\<close>

text \<open>The parameters of a batch have the address that the plugin will parse.\<close>

definition addressed :: "params \<Rightarrow> bool" where
  "addressed ps \<longleftrightarrow> (\<exists>u v. params_uri ps = Some u \<and> make_storage_uri (uri_uri u) = Inr v)"

definition ready_pos :: "request_heap \<Rightarrow> batch list \<Rightarrow> nat \<times> nat \<Rightarrow> bool" where
  "ready_pos heap bs p \<longleftrightarrow> valid_pos bs p \<and> \<not> task_finished (task_of bs p) \<and>
     task_request (task_of bs p) < length heap \<and>
     req_file_index (heap ! task_request (task_of bs p)) = batch_file_index (bs ! fst p) \<and>
     addressed (batch_params (bs ! fst p))"

lemma task_seg_finished [simp]: "task_seg heap (set_finished t) = task_seg heap t"
  by (simp add: task_seg_def set_finished_def task_destination_def)

lemma pos_finish:
  assumes "valid_pos bs (i, j)" and "valid_pos bs p"
  shows "task_pieces chunk heap (bs[i := finish_at j (bs ! i)]) p = task_pieces chunk heap bs p"
    and "zero_pos (bs[i := finish_at j (bs ! i)]) p = zero_pos bs p"
    and "new_task chunk heap (bs[i := finish_at j (bs ! i)]) p = new_task chunk heap bs p"
  using task_of_finish [OF assms]
  by (auto simp: task_pieces_def zero_pos_def new_task_def set_finished_def
      task_seg_finished [unfolded set_finished_def])

lemma ready_pos_finish:
  assumes "valid_pos bs (i, j)" and "ready_pos heap bs p" and "p \<noteq> (i, j)"
  shows "ready_pos heap (bs[i := finish_at j (bs ! i)]) p"
proof -
  have valid: "valid_pos bs p" using assms(2) by (simp add: ready_pos_def)
  then have "same_batch (bs ! fst p) (bs[i := finish_at j (bs ! i)] ! fst p)"
    by (intro same_batches_nth(2) [OF same_batches_finish]) (simp add: valid_pos_def)
  then have "batch_file_index (bs[i := finish_at j (bs ! i)] ! fst p) = batch_file_index (bs ! fst p)"
    "batch_params (bs[i := finish_at j (bs ! i)] ! fst p) = batch_params (bs ! fst p)"
    by (simp_all add: same_batch_def)
  with valid show ?thesis
    using assms task_of_finish [OF assms(1), of p] valid_pos_same [OF same_batches_finish [of bs i j]]
    by (auto simp: ready_pos_def)
qed

lemma same_heap_task:
  assumes "same_heap heap0 heap" and "task_request t < length heap0"
  shows "task_seg heap t = task_seg heap0 t"
    and "task_destination heap t = task_destination heap0 t"
    and "req_file_index (heap ! task_request t) = req_file_index (heap0 ! task_request t)"
  using assms by (auto simp: same_heap_def same_request_def task_seg_def task_destination_def)

text \<open>
  The state after registering the positions \<open>ps\<close>, when there was memory for all of them: the tasks
  with bytes are new task states with their chunks, those without are finished.
\<close>

definition tasks_added ::
  "size_t \<Rightarrow> request_heap \<Rightarrow> object_handle \<Rightarrow> (nat \<times> nat) list \<Rightarrow> nat \<Rightarrow> inflight \<Rightarrow>
    object_chunk cap_queue \<Rightarrow> inflight \<Rightarrow> object_chunk cap_queue \<Rightarrow> bool" where
  "tasks_added chunk heap base ps i wl q wl' q' \<longleftrightarrow>
     (let bs = wl_batches (if_workload wl); nz = filter (\<lambda>p. \<not> zero_pos bs p) ps;
          gs = map (task_pieces chunk heap bs) nz; n = length (concat gs) in
      wl_batches (if_workload wl') = finish_positions (filter (zero_pos bs) ps) bs \<and>
      if_tasks wl' = if_tasks wl @ map (new_task chunk heap bs) nz \<and>
      if_chunk_task wl' = take i (if_chunk_task wl) @
        owners (length (if_tasks wl)) (map length gs) @ drop (i + n) (if_chunk_task wl) \<and>
      if_errors wl' = if_errors wl \<and>
      cq_pending q' = cq_pending q @ chunks_of base i (concat gs))"

lemma tasks_added_zero:
  assumes z: "zero_pos (wl_batches (if_workload wl)) (a, b)"
    and valid: "\<forall>p\<in>set ((a, b) # ps). valid_pos (wl_batches (if_workload wl)) p"
    and wl1: "wl1 = wl\<lparr>if_workload := (if_workload wl)\<lparr>wl_batches :=
      (wl_batches (if_workload wl))[a := finish_at b (wl_batches (if_workload wl) ! a)]\<rparr>\<rparr>"
    and added: "tasks_added chunk heap base ps i wl1 q wl' q'"
  shows "tasks_added chunk heap base ((a, b) # ps) i wl q wl' q'"
proof -
  let ?bs = "wl_batches (if_workload wl)"
  let ?bs1 = "?bs[a := finish_at b (?bs ! a)]"
  have v: "valid_pos ?bs (a, b)" "\<forall>p\<in>set ps. valid_pos ?bs p" using valid by auto
  have zero: "filter (zero_pos ?bs1) ps = filter (zero_pos ?bs) ps"
    "filter (\<lambda>p. \<not> zero_pos ?bs1 p) ps = filter (\<lambda>p. \<not> zero_pos ?bs p) ps"
    using v pos_finish(2) [OF v(1)] by (auto intro: filter_cong)
  have new: "map (f ?bs1) (filter (\<lambda>p. \<not> zero_pos ?bs p) ps) = map (f ?bs) (filter (\<lambda>p. \<not> zero_pos ?bs p) ps)"
    if "\<And>p. valid_pos ?bs p \<Longrightarrow> f ?bs1 p = f ?bs p" for f :: "batch list \<Rightarrow> nat \<times> nat \<Rightarrow> 'z"
    using v that by (intro map_cong refl) auto
  note same = new [of "task_pieces chunk heap", OF pos_finish(1) [OF v(1)]]
    new [of "new_task chunk heap", OF pos_finish(3) [OF v(1)]]
  show ?thesis
    using added z unfolding tasks_added_def Let_def wl1
    by (simp add: zero same)
qed

lemma tasks_added_step:
  assumes z: "\<not> zero_pos (wl_batches (if_workload wl)) p"
    and wl1: "wl1 = wl\<lparr>if_tasks := if_tasks wl @ [\<lparr>ts_batch = fst p, ts_task = snd p,
      ts_remaining_chunks = 0, ts_error = Success\<rparr>]\<rparr>"
    and gs: "gs = task_pieces chunk heap (wl_batches (if_workload wl)) p"
    and len: "i + length gs \<le> length (if_chunk_task wl)"
    and q1: "cq_pending q1 = cq_pending q @ chunks_of base i gs"
    and added: "tasks_added chunk heap base ps (i + length gs)
      (add_chunks (length (if_tasks wl)) i (length gs) wl1) q1 wl' q'"
  shows "tasks_added chunk heap base (p # ps) i wl q wl' q'"
proof -
  have "if_tasks (add_chunks (length (if_tasks wl)) i (length gs) wl1) =
      if_tasks wl @ [new_task chunk heap (wl_batches (if_workload wl)) p]"
    by (simp add: add_chunks_def wl1 new_task_def gs)
  moreover have "if_workload (add_chunks (length (if_tasks wl)) i (length gs) wl1) = if_workload wl"
    "if_errors (add_chunks (length (if_tasks wl)) i (length gs) wl1) = if_errors wl"
    by (simp_all add: add_chunks_def wl1)
  moreover have "take (i + length gs) (if_chunk_task (add_chunks (length (if_tasks wl)) i (length gs) wl1)) =
      take i (if_chunk_task wl) @ replicate (length gs) (length (if_tasks wl))"
    "drop (i + length gs + n) (if_chunk_task (add_chunks (length (if_tasks wl)) i (length gs) wl1)) =
      drop (i + (length gs + n)) (if_chunk_task wl)" for n
    using len by (simp_all add: add_chunks_def wl1 ac_simps)
  ultimately show ?thesis
    using added z unfolding tasks_added_def Let_def
    by (simp add: q1 chunks_of_append flip: gs)
qed

lemma enqueue_tasks_spec:
  assumes "chunk \<noteq> 0"
    and "\<forall>p\<in>set ps. ready_pos heap0 (wl_batches (if_workload wl)) p" and "distinct ps"
    and "same_heap heap0 (fst world)"
    and "i + sum_list (map (\<lambda>p. length (task_pieces chunk heap0 (wl_batches (if_workload wl)) p)) ps)
      \<le> length (if_chunk_task wl)"
  shows "\<exists>r wl' q' world' zs. enqueue_tasks oom chunk base ps i wl q world = Some (r, wl', q', world') \<and>
    cq_capacity q' = cq_capacity q \<and> cq_inflight q' = cq_inflight q \<and>
    wl_batches (if_workload wl') = finish_positions zs (wl_batches (if_workload wl)) \<and>
    world' = object_run (zero_events (wl_batches (if_workload wl)) zs) world \<and>
    distinct zs \<and> set zs \<subseteq> {p \<in> set ps. zero_pos (wl_batches (if_workload wl)) p} \<and>
    (r = Inr () \<longrightarrow> tasks_added chunk heap0 base ps i wl q wl' q' \<and>
      zs = filter (zero_pos (wl_batches (if_workload wl))) ps)"
  using assms(2-5)
proof (induction ps arbitrary: i wl q world)
  case Nil
  then show ?case by (simp add: tasks_added_def zero_events_def)
next
  case (Cons p ps)
  obtain a b where p: "p = (a, b)" by (cases p)
  let ?bs = "wl_batches (if_workload wl)"
  let ?t = "task_of ?bs p"
  have rp: "ready_pos heap0 ?bs p" and dist: "p \<notin> set ps" "distinct ps"
    and ready: "\<forall>p\<in>set ps. ready_pos heap0 ?bs p"
    using Cons.prems(1,2) by auto
  then have valid: "valid_pos ?bs p" "\<forall>p\<in>set ps. valid_pos ?bs p"
    and open_t: "\<not> task_finished ?t" "task_request ?t < length heap0"
      "req_file_index (heap0 ! task_request ?t) = batch_file_index (?bs ! a)"
    by (auto simp: ready_pos_def p)
  show ?case
  proof (cases "zero_pos ?bs p")
    case True
    let ?bs1 = "?bs[a := finish_at b (?bs ! a)]"
    let ?wl1 = "wl\<lparr>if_workload := (if_workload wl)\<lparr>wl_batches := ?bs1\<rparr>\<rparr>"
    let ?ev = "[(key_of (?bs ! a) ?t, Success)]"
    have "respond_success a b (if_workload wl) world =
        Inr ((if_workload wl)\<lparr>wl_batches := ?bs1\<rparr>, object_run ?ev world)"
      using open_t same_heap_task(3) [OF Cons.prems(3) open_t(2)]
      by (intro respond_success_spec) (simp_all add: task_of_def p)
    then have run: "enqueue_tasks oom chunk base (p # ps) i wl q world =
        enqueue_tasks oom chunk base ps i ?wl1 q (object_run ?ev world)"
      using True by (simp add: p zero_pos_def task_of_def Let_def del: object_run.simps)
    have v: "valid_pos ?bs (a, b)" using valid(1) p by simp
    have r1: "\<forall>p\<in>set ps. ready_pos heap0 (wl_batches (if_workload ?wl1)) p"
    proof
      fix p' assume "p' \<in> set ps"
      then have "ready_pos heap0 ?bs p'" "p' \<noteq> (a, b)" using ready dist(1) p by auto
      then show "ready_pos heap0 (wl_batches (if_workload ?wl1)) p'" using ready_pos_finish [OF v] by simp
    qed
    have h1: "same_heap heap0 (fst (object_run ?ev world))"
      by (rule object_run_heap [OF Cons.prems(3)])
    have "sum_list (map (\<lambda>p. length (task_pieces chunk heap0 ?bs1 p)) ps) =
        sum_list (map (\<lambda>p. length (task_pieces chunk heap0 ?bs p)) ps)"
      using valid(2) pos_finish(1) [OF v] by (intro arg_cong [where f = sum_list] map_cong refl) auto
    then have l1: "i + sum_list (map (\<lambda>p. length (task_pieces chunk heap0 (wl_batches (if_workload ?wl1)) p)) ps)
        \<le> length (if_chunk_task ?wl1)"
      using Cons.prems(4) by simp
    from Cons.IH [OF r1 dist(2) h1 l1, of q] obtain r wl' q' world' zs where
      ih: "enqueue_tasks oom chunk base ps i ?wl1 q (object_run ?ev world) = Some (r, wl', q', world')"
        "cq_capacity q' = cq_capacity q" "cq_inflight q' = cq_inflight q"
      and bs': "wl_batches (if_workload wl') = finish_positions zs ?bs1"
      and w': "world' = object_run (zero_events ?bs1 zs) (object_run ?ev world)"
      and zs: "distinct zs" "set zs \<subseteq> {p \<in> set ps. zero_pos ?bs1 p}"
      and res: "r = Inr () \<longrightarrow> tasks_added chunk heap0 base ps i ?wl1 q wl' q' \<and> zs = filter (zero_pos ?bs1) ps"
      by auto
    have sub: "set zs \<subseteq> set ps" using zs(2) by auto
    have "(a, b) \<notin> set zs" "\<forall>z\<in>set zs. valid_pos ?bs z" using sub dist(1) valid(2) p by auto
    then have ev: "zero_events ?bs1 zs = zero_events ?bs zs" by (intro zero_events_finish [OF v]) auto
    have "zero_events ?bs (p # zs) = ?ev @ zero_events ?bs zs" by (simp add: p zero_events_def)
    then have "world' = object_run (zero_events ?bs (p # zs)) world"
      by (simp only: w' ev object_run_append)
    moreover have "wl_batches (if_workload wl') = finish_positions (p # zs) ?bs" by (simp add: bs' p)
    moreover have "distinct (p # zs)" using zs(1) sub dist(1) by auto
    moreover have "set (p # zs) \<subseteq> {p' \<in> set (p # ps). zero_pos ?bs p'}"
      using zs(2) True valid(2) pos_finish(2) [OF v] by auto
    moreover have "r = Inr () \<longrightarrow> tasks_added chunk heap0 base (p # ps) i wl q wl' q' \<and> p # zs = filter (zero_pos ?bs) (p # ps)"
    proof
      assume "r = Inr ()"
      then have added: "tasks_added chunk heap0 base ps i ?wl1 q wl' q'" "zs = filter (zero_pos ?bs1) ps"
        using res by auto
      have "filter (zero_pos ?bs1) ps = filter (zero_pos ?bs) ps"
        using valid(2) pos_finish(2) [OF v] by (auto intro: filter_cong)
      moreover have "tasks_added chunk heap0 base ((a, b) # ps) i wl q wl' q'"
        using True valid p by (intro tasks_added_zero [OF _ _ refl added(1)]) auto
      ultimately show "tasks_added chunk heap0 base (p # ps) i wl q wl' q' \<and> p # zs = filter (zero_pos ?bs) (p # ps)"
        using added(2) True p by simp
    qed
    moreover have "enqueue_tasks oom chunk base (p # ps) i wl q world = Some (r, wl', q', world')"
      using run ih(1) by simp
    ultimately show ?thesis
      using ih(2,3) by (intro exI [of _ r] exI [of _ wl'] exI [of _ q'] exI [of _ world'] exI [of _ "p # zs"] conjI)
  next
    case False
    show ?thesis
    proof (cases "oom (AllocTask (base + of_nat i))")
    case True
    then have "enqueue_tasks oom chunk base (p # ps) i wl q world = Some (Inl StdException, wl, q, world)"
      using False by (simp add: p zero_pos_def task_of_def Let_def)
    then show ?thesis
      by (intro exI [of _ "Inl StdException"] exI [of _ wl] exI [of _ q] exI [of _ world] exI [of _ "[]"])
        (simp add: zero_events_def)
    next
    case mem: False
    let ?gs = "task_pieces chunk heap0 ?bs p" and ?k = "length (if_tasks wl)"
    let ?wl1 = "wl\<lparr>if_tasks := if_tasks wl @ [\<lparr>ts_batch = a, ts_task = b,
      ts_remaining_chunks = 0, ts_error = Success\<rparr>]\<rparr>"
    have seg: "pieces chunk (ti_offset (task_info ?t), ti_bytesize (task_info ?t), task_destination (fst world) ?t) = ?gs"
      using same_heap_task(2) [OF Cons.prems(3) open_t(2)] by (simp add: task_pieces_def task_seg_def)
    have len: "i + length ?gs \<le> length (if_chunk_task wl)" using Cons.prems(4) by simp
    have kl: "?k < length (if_tasks ?wl1)"
      and len1: "i + length (pieces chunk (ti_offset (task_info ?t), ti_bytesize (task_info ?t),
        task_destination (fst world) ?t)) \<le> length (if_chunk_task ?wl1)"
      using len unfolding seg by simp_all
    obtain r1 wl2 q1 where
      ec: "enqueue_chunks oom chunk base ?k i (ti_offset (task_info ?t)) (ti_bytesize (task_info ?t))
        (task_destination (fst world) ?t) ?wl1 q = Some (r1, wl2, q1)"
      and reg: "registered_in ?wl1 q (wl2, q1)"
      and r1: "case r1 of Inl e \<Rightarrow> True | Inr i' \<Rightarrow> let gs = ?gs in i' = i + length gs \<and>
        wl2 = add_chunks ?k i (length gs) ?wl1 \<and> cq_pending q1 = cq_pending q @ chunks_of base i gs"
      using enqueue_chunks_spec [OF assms(1) kl len1, of oom base q] unfolding seg by blast
    show ?thesis
    proof (cases r1)
      case (Inl e)
      then have "enqueue_tasks oom chunk base (p # ps) i wl q world = Some (Inl e, wl2, q1, world)"
        using ec False mem by (simp add: p zero_pos_def task_of_def Let_def)
      then show ?thesis
        using reg by (intro exI [of _ "Inl e"] exI [of _ wl2] exI [of _ q1] exI [of _ world] exI [of _ "[]"])
          (simp add: registered_in_def zero_events_def)
    next
      case (Inr i')
      then have i': "i' = i + length ?gs" and wl2: "wl2 = add_chunks ?k i (length ?gs) ?wl1"
        and q1: "cq_pending q1 = cq_pending q @ chunks_of base i ?gs"
        using r1 by (simp_all add: Let_def)
      have same: "if_workload wl2 = if_workload wl" using reg by (simp add: registered_in_def)
      have "length (if_chunk_task wl2) = length (if_chunk_task wl)"
        using len by (simp add: wl2 add_chunks_def)
      then have l1: "i' + sum_list (map (\<lambda>p. length (task_pieces chunk heap0 (wl_batches (if_workload wl2)) p)) ps)
          \<le> length (if_chunk_task wl2)"
        using Cons.prems(4) by (simp add: same i')
      have "\<forall>p\<in>set ps. ready_pos heap0 (wl_batches (if_workload wl2)) p" using ready same by simp
      from Cons.IH [OF this dist(2) Cons.prems(3) l1, of q1] obtain r wl' q' world' zs where
        ih: "enqueue_tasks oom chunk base ps i' wl2 q1 world = Some (r, wl', q', world')"
          "cq_capacity q' = cq_capacity q1" "cq_inflight q' = cq_inflight q1"
        and bs': "wl_batches (if_workload wl') = finish_positions zs ?bs"
        and w': "world' = object_run (zero_events ?bs zs) world"
        and zs: "distinct zs" "set zs \<subseteq> {p \<in> set ps. zero_pos ?bs p}"
        and res: "r = Inr () \<longrightarrow> tasks_added chunk heap0 base ps i' wl2 q1 wl' q' \<and> zs = filter (zero_pos ?bs) ps"
        unfolding same by blast
      have "enqueue_tasks oom chunk base (p # ps) i wl q world = Some (r, wl', q', world')"
        using ec False mem ih(1) Inr by (simp add: p zero_pos_def task_of_def Let_def)
      moreover have "cq_capacity q' = cq_capacity q" "cq_inflight q' = cq_inflight q"
        using ih(2,3) reg by (simp_all add: registered_in_def)
      moreover have "r = Inr () \<longrightarrow> tasks_added chunk heap0 base (p # ps) i wl q wl' q' \<and> zs = filter (zero_pos ?bs) (p # ps)"
      proof
        assume "r = Inr ()"
        then have added: "tasks_added chunk heap0 base ps (i + length ?gs)
            (add_chunks ?k i (length ?gs) ?wl1) q1 wl' q'" "zs = filter (zero_pos ?bs) ps"
          using res by (simp_all add: i' wl2)
        have "tasks_added chunk heap0 base (p # ps) i wl q wl' q'"
          by (rule tasks_added_step [OF False _ refl len q1 added(1)]) (simp add: p)
        then show "tasks_added chunk heap0 base (p # ps) i wl q wl' q' \<and> zs = filter (zero_pos ?bs) (p # ps)"
          using added(2) False by simp
      qed
      moreover have "set zs \<subseteq> {p' \<in> set (p # ps). zero_pos ?bs p'}" using zs(2) by auto
      ultimately show ?thesis using bs' w' zs(1) by blast
    qed
    qed
  qed
qed

end
