(* ===== verification/ObjectFlights.thy ===== *)
theory ObjectFlights
  imports ObjectReads
begin

text \<open>
  The workloads in flight of an object-storage worker: the invariant that ties the counters of a
  workload to the handles that are still live, and what completing a chunk does to it.
\<close>

section \<open>The invariant of a workload in flight\<close>

definition ts_pos :: "task_state \<Rightarrow> nat \<times> nat" where
  "ts_pos x = (ts_batch x, ts_task x)"

definition flight_pieces :: "size_t \<Rightarrow> request_heap \<Rightarrow> inflight \<Rightarrow> segment list list" where
  "flight_pieces chunk heap wl =
     map (\<lambda>x. task_pieces chunk heap (wl_batches (if_workload wl)) (ts_pos x)) (if_tasks wl)"

text \<open>The handle of the chunk at index \<open>i\<close>, and how many chunks of task \<open>k\<close> are live.\<close>

definition live_chunks :: "object_handle set \<Rightarrow> object_handle \<Rightarrow> nat list \<Rightarrow> nat \<Rightarrow> nat set" where
  "live_chunks L base ct k = {i. i < length ct \<and> ct ! i = k \<and> base + of_nat i \<in> L}"

definition flight_shape :: "size_t \<Rightarrow> request_heap \<Rightarrow> object_handle \<Rightarrow> inflight \<Rightarrow> bool" where
  "flight_shape chunk heap base wl \<longleftrightarrow>
     (let bs = wl_batches (if_workload wl); ts = if_tasks wl; ct = if_chunk_task wl in
      ct = owners 0 (map length (flight_pieces chunk heap wl)) \<and>
      0 < length ct \<and> unat base + length ct < 18446744073709551616 \<and>
      distinct (map ts_pos ts) \<and> (\<forall>x\<in>set ts. valid_pos bs (ts_pos x)) \<and>
      (\<forall>p. valid_pos bs p \<longrightarrow> task_request (task_of bs p) < length heap \<and>
         req_file_index (heap ! task_request (task_of bs p)) = batch_file_index (bs ! fst p) \<and>
         addressed (batch_params (bs ! fst p))))"

text \<open>
  The tasks: the counter of a task is the number of its live chunks; it is finished exactly when
  it has none and no error; a failed one has an error for its file; and as long as it has no
  error, the chunks that are no longer live have been read.
\<close>

definition flight_tasks ::
  "size_t \<Rightarrow> request_heap \<Rightarrow> object_handle set \<Rightarrow> (params \<times> segment) set \<Rightarrow> object_handle \<Rightarrow> inflight \<Rightarrow> bool" where
  "flight_tasks chunk heap L G base wl \<longleftrightarrow>
     (let bs = wl_batches (if_workload wl); ts = if_tasks wl; ct = if_chunk_task wl;
          gs = concat (flight_pieces chunk heap wl) in
      (\<forall>p. valid_pos bs p \<longrightarrow> task_finished (task_of bs p) \<or> p \<in> ts_pos ` set ts) \<and>
      (\<forall>k<length ts. unat (ts_remaining_chunks (ts ! k)) = card (live_chunks L base ct k)) \<and>
      (\<forall>x\<in>set ts. task_finished (task_of bs (ts_pos x)) \<longleftrightarrow>
         ts_remaining_chunks x = 0 \<and> ts_error x = Success) \<and>
      (\<forall>x\<in>set ts. ts_remaining_chunks x = 0 \<and> ts_error x \<noteq> Success \<longrightarrow>
         map_of (if_errors wl) (batch_file_index (bs ! ts_batch x)) \<noteq> None) \<and>
      (\<forall>f c. map_of (if_errors wl) f = Some c \<longrightarrow> c \<noteq> Success) \<and>
      (\<forall>k<length ts. ts_error (ts ! k) = Success \<longrightarrow> (\<forall>i<length ct. ct ! i = k \<and> base + of_nat i \<notin> L \<longrightarrow>
         (batch_params (bs ! ts_batch (ts ! k)), gs ! i) \<in> G)))"

definition flight_ok ::
  "size_t \<Rightarrow> request_heap \<Rightarrow> object_handle set \<Rightarrow> (params \<times> segment) set \<Rightarrow> object_handle \<Rightarrow> inflight \<Rightarrow> bool" where
  "flight_ok chunk heap L G base wl \<longleftrightarrow> flight_shape chunk heap base wl \<and>
     flight_tasks chunk heap L G base wl \<and>
     if_remaining_tasks wl = length (filter (\<lambda>x. ts_remaining_chunks x \<noteq> 0) (if_tasks wl))"

lemma flight_ok_mono:
  "flight_ok chunk heap L G base wl \<Longrightarrow> G \<subseteq> G' \<Longrightarrow> flight_ok chunk heap L G' base wl"
  unfolding flight_ok_def flight_tasks_def Let_def by blast

definition block :: "object_handle \<Rightarrow> inflight \<Rightarrow> object_handle set" where
  "block base wl = (\<lambda>i. base + of_nat i) ` {..<length (if_chunk_task wl)}"

lemma flight_ok_live:
  assumes "flight_ok chunk heap L G base wl" and "L \<inter> block base wl = L' \<inter> block base wl"
  shows "flight_ok chunk heap L' G base wl"
proof -
  have "base + of_nat i \<in> L \<longleftrightarrow> base + of_nat i \<in> L'" if "i < length (if_chunk_task wl)" for i
    using assms(2) that by (auto simp: block_def)
  then have "live_chunks L' base (if_chunk_task wl) k = live_chunks L base (if_chunk_task wl) k" for k
    by (auto simp: live_chunks_def)
  then show ?thesis
    using assms(1) \<open>\<And>i. i < length (if_chunk_task wl) \<Longrightarrow> _\<close>
    by (simp add: flight_ok_def flight_tasks_def Let_def)
qed

lemma flight_pieces_length [simp]: "length (flight_pieces chunk heap wl) = length (if_tasks wl)"
  by (simp add: flight_pieces_def)

lemma shape_owner:
  assumes "flight_shape chunk heap base wl" and "i < length (if_chunk_task wl)"
  shows "if_chunk_task wl ! i < length (if_tasks wl)"
    and "i < length (concat (flight_pieces chunk heap wl))"
proof -
  have ct: "if_chunk_task wl = owners 0 (map length (flight_pieces chunk heap wl))"
    using assms(1) by (simp add: flight_shape_def Let_def)
  then have "if_chunk_task wl ! i \<in> set (owners 0 (map length (flight_pieces chunk heap wl)))"
    using assms(2) by (metis nth_mem)
  then show "if_chunk_task wl ! i < length (if_tasks wl)"
    using owners_range by fastforce
  show "i < length (concat (flight_pieces chunk heap wl))"
    using ct assms(2) by (simp add: length_concat)
qed

lemma handle_inj:
  assumes "flight_shape chunk heap base wl" and "i < length (if_chunk_task wl)" and "j < length (if_chunk_task wl)"
  shows "base + of_nat i = base + of_nat j \<longleftrightarrow> i = j"
proof -
  have "unat base + length (if_chunk_task wl) < 18446744073709551616"
    using assms(1) unfolding flight_shape_def Let_def by blast
  then show ?thesis using assms(2,3) of_nat_inj64 [of i j] by simp
qed

lemma live_chunks_remove:
  assumes "flight_shape chunk heap base wl" and "i < length (if_chunk_task wl)" and "base + of_nat i \<in> L"
  shows "card (live_chunks (L - {base + of_nat i}) base (if_chunk_task wl) k) +
    (if if_chunk_task wl ! i = k then 1 else 0) = card (live_chunks L base (if_chunk_task wl) k)"
proof -
  let ?A = "live_chunks L base (if_chunk_task wl) k"
  have fin: "finite ?A" by (rule finite_subset [of _ "{..<length (if_chunk_task wl)}"]) (auto simp: live_chunks_def)
  have eq: "live_chunks (L - {base + of_nat i}) base (if_chunk_task wl) k = ?A - {i}"
    using handle_inj [OF assms(1) _ assms(2)] by (auto simp: live_chunks_def)
  show ?thesis
  proof (cases "if_chunk_task wl ! i = k")
    case True
    then have "i \<in> ?A" using assms(2,3) by (simp add: live_chunks_def)
    then show ?thesis using True eq fin card_Suc_Diff1 [of ?A i] by simp
  next
    case False
    then have "i \<notin> ?A" by (simp add: live_chunks_def)
    then show ?thesis using False eq by simp
  qed
qed

section \<open>Completing a chunk of a task\<close>

lemma chunk_done_simps [simp]:
  "ts_batch (chunk_done ret ts) = ts_batch ts"
  "ts_task (chunk_done ret ts) = ts_task ts"
  "ts_remaining_chunks (chunk_done ret ts) = ts_remaining_chunks ts - 1"
  "ts_error (chunk_done ret ts) = (if ret \<noteq> Success \<and> ts_error ts = Success then ret else ts_error ts)"
  "ts_pos (chunk_done ret ts) = ts_pos ts"
  by (simp_all add: chunk_done_def ts_pos_def Let_def)

text \<open>
  A workload whose task \<open>k\<close> became \<open>x\<close>, with other batches and errors: the shape and the pieces are
  as before when the batches only differ in what is finished.
\<close>

definition with_task :: "nat \<Rightarrow> task_state \<Rightarrow> batch list \<Rightarrow> (nat \<times> response_code) list \<Rightarrow> nat \<Rightarrow> inflight \<Rightarrow> inflight" where
  "with_task k x bs errors n wl = wl\<lparr>if_tasks := (if_tasks wl)[k := x],
     if_workload := (if_workload wl)\<lparr>wl_batches := bs\<rparr>, if_errors := errors, if_remaining_tasks := n\<rparr>"

lemma with_task_simps [simp]:
  "if_tasks (with_task k x bs errors n wl) = (if_tasks wl)[k := x]"
  "wl_batches (if_workload (with_task k x bs errors n wl)) = bs"
  "if_chunk_task (with_task k x bs errors n wl) = if_chunk_task wl"
  "if_errors (with_task k x bs errors n wl) = errors"
  "if_remaining_tasks (with_task k x bs errors n wl) = n"
  by (simp_all add: with_task_def)

lemma flight_pieces_with_task:
  assumes shape: "flight_shape chunk heap base wl" and k: "k < length (if_tasks wl)"
    and pos: "ts_pos x = ts_pos (if_tasks wl ! k)"
    and tasks: "\<And>p. valid_pos (wl_batches (if_workload wl)) p \<Longrightarrow>
      task_of bs p = task_of (wl_batches (if_workload wl)) p \<or>
      task_of bs p = set_finished (task_of (wl_batches (if_workload wl)) p)"
  shows "flight_pieces chunk heap (with_task k x bs errors n wl) = flight_pieces chunk heap wl"
proof -
  let ?bs = "wl_batches (if_workload wl)"
  have same: "task_pieces chunk heap bs p = task_pieces chunk heap ?bs p" if "valid_pos ?bs p" for p
    using tasks [OF that] by (auto simp: task_pieces_def)
  have valid: "\<forall>y\<in>set (if_tasks wl). valid_pos ?bs (ts_pos y)"
    using shape unfolding flight_shape_def Let_def by blast
  have "map (\<lambda>y. task_pieces chunk heap bs (ts_pos y)) ((if_tasks wl)[k := x]) =
      map (\<lambda>y. task_pieces chunk heap bs (ts_pos y)) (if_tasks wl)"
    by (rule map_update_same) (simp add: pos)
  also have "\<dots> = map (\<lambda>y. task_pieces chunk heap ?bs (ts_pos y)) (if_tasks wl)"
    using valid same by (intro map_cong refl) blast
  finally show ?thesis by (simp add: flight_pieces_def)
qed

lemma flight_shape_with_task:
  assumes shape: "flight_shape chunk heap base wl" and k: "k < length (if_tasks wl)"
    and pos: "ts_pos x = ts_pos (if_tasks wl ! k)"
    and same: "same_batches (wl_batches (if_workload wl)) bs"
    and tasks: "\<And>p. valid_pos (wl_batches (if_workload wl)) p \<Longrightarrow>
      task_of bs p = task_of (wl_batches (if_workload wl)) p \<or>
      task_of bs p = set_finished (task_of (wl_batches (if_workload wl)) p)"
  shows "flight_shape chunk heap base (with_task k x bs errors n wl)"
proof -
  let ?bs = "wl_batches (if_workload wl)"
  have poss: "map ts_pos ((if_tasks wl)[k := x]) = map ts_pos (if_tasks wl)"
    by (rule map_update_same) (simp add: pos)
  have "set (map ts_pos ((if_tasks wl)[k := x])) = set (map ts_pos (if_tasks wl))"
    by (simp only: poss)
  moreover have "\<forall>q\<in>set (map ts_pos (if_tasks wl)). valid_pos ?bs q"
    using shape unfolding flight_shape_def Let_def by auto
  ultimately have valid: "\<forall>y\<in>set ((if_tasks wl)[k := x]). valid_pos bs (ts_pos y)"
    unfolding valid_pos_same [OF same] by (metis image_eqI list.set_map)
  have "task_request (task_of bs p) < length heap \<and>
      req_file_index (heap ! task_request (task_of bs p)) = batch_file_index (bs ! fst p) \<and>
      addressed (batch_params (bs ! fst p))" if v: "valid_pos bs p" for p
  proof -
    have v': "valid_pos ?bs p" using v valid_pos_same [OF same] by simp
    then have "same_batch (?bs ! fst p) (bs ! fst p)"
      by (intro same_batches_nth(2) [OF same]) (simp add: valid_pos_def)
    then have "batch_file_index (bs ! fst p) = batch_file_index (?bs ! fst p)"
      and "batch_params (bs ! fst p) = batch_params (?bs ! fst p)"
      by (simp_all add: same_batch_def)
    moreover have "task_request (task_of bs p) = task_request (task_of ?bs p)"
      using tasks [OF v'] by (auto simp: set_finished_def)
    moreover have "task_request (task_of ?bs p) < length heap \<and>
        req_file_index (heap ! task_request (task_of ?bs p)) = batch_file_index (?bs ! fst p) \<and>
        addressed (batch_params (?bs ! fst p))"
      using shape v' unfolding flight_shape_def Let_def by blast
    ultimately show ?thesis by simp
  qed
  then have reqs: "\<forall>p. valid_pos bs p \<longrightarrow> task_request (task_of bs p) < length heap \<and>
      req_file_index (heap ! task_request (task_of bs p)) = batch_file_index (bs ! fst p) \<and>
      addressed (batch_params (bs ! fst p))" by blast
  have "if_chunk_task wl = owners 0 (map length (flight_pieces chunk heap wl))"
    "0 < length (if_chunk_task wl)" "unat base + length (if_chunk_task wl) < 18446744073709551616"
    "distinct (map ts_pos (if_tasks wl))"
    using shape unfolding flight_shape_def Let_def by blast+
  moreover have "flight_pieces chunk heap (with_task k x bs errors n wl) = flight_pieces chunk heap wl"
    by (rule flight_pieces_with_task [OF shape k pos]) (rule tasks)
  ultimately show ?thesis
    using valid reqs unfolding flight_shape_def Let_def with_task_simps poss by simp
qed

lemma distinct_pos_at:
  assumes "flight_shape chunk heap base wl" and "j < length (if_tasks wl)" and "k < length (if_tasks wl)"
  shows "ts_pos (if_tasks wl ! j) = ts_pos (if_tasks wl ! k) \<longleftrightarrow> j = k"
  using assms by (auto simp: flight_shape_def Let_def distinct_conv_nth)

lemma flight_ok_with_task:
  assumes ok: "flight_ok chunk heap L G base wl"
    and i: "i < length (if_chunk_task wl)" "if_chunk_task wl ! i = k" "base + of_nat i \<in> L"
    and x: "x = chunk_done ret (if_tasks wl ! k)"
    and read: "ret = Success \<Longrightarrow> (batch_params (wl_batches (if_workload wl) ! ts_batch x),
      concat (flight_pieces chunk heap wl) ! i) \<in> G"
    and same: "same_batches (wl_batches (if_workload wl)) bs"
    and tasks: "\<And>p. valid_pos (wl_batches (if_workload wl)) p \<Longrightarrow> task_of bs p =
      (if p = ts_pos x \<and> ts_remaining_chunks x = 0 \<and> ts_error x = Success
       then set_finished (task_of (wl_batches (if_workload wl)) p) else task_of (wl_batches (if_workload wl)) p)"
    and errors: "\<And>f c. map_of errors f = Some c \<Longrightarrow> c \<noteq> Success"
      "\<And>f. map_of (if_errors wl) f \<noteq> None \<Longrightarrow> map_of errors f \<noteq> None"
      "ts_remaining_chunks x = 0 \<Longrightarrow> ts_error x \<noteq> Success \<Longrightarrow>
        map_of errors (batch_file_index (wl_batches (if_workload wl) ! ts_batch x)) \<noteq> None"
    and n: "n = length (filter (\<lambda>x. ts_remaining_chunks x \<noteq> 0) ((if_tasks wl)[k := x]))"
  shows "flight_ok chunk heap (L - {base + of_nat i}) G base (with_task k x bs errors n wl)"
proof -
  let ?bs = "wl_batches (if_workload wl)" and ?ts = "if_tasks wl" and ?ct = "if_chunk_task wl"
  let ?wl = "with_task k x bs errors n wl" and ?L = "L - {base + of_nat i}"
  have shape: "flight_shape chunk heap base wl" and ft: "flight_tasks chunk heap L G base wl"
    using ok by (simp_all add: flight_ok_def)
  have k: "k < length ?ts" using shape_owner(1) [OF shape i(1)] i(2) by simp
  have pos: "ts_pos x = ts_pos (?ts ! k)" by (simp add: x)
  have tasks': "task_of bs p = task_of ?bs p \<or> task_of bs p = set_finished (task_of ?bs p)" if "valid_pos ?bs p" for p
    using tasks [OF that] by auto
  note gs = flight_pieces_with_task [OF shape k pos tasks', where errors = errors and n = n]
  note shape' = flight_shape_with_task [OF shape k pos same tasks', where errors = errors and n = n]
  have counts: "unat (ts_remaining_chunks (?ts ! j)) = card (live_chunks L base ?ct j)" if "j < length ?ts" for j
    using ft that by (simp add: flight_tasks_def Let_def)
  have counter: "ts_remaining_chunks (?ts ! k) \<noteq> 0" "unat (ts_remaining_chunks x) = card (live_chunks ?L base ?ct k)"
  proof -
    have "card (live_chunks ?L base ?ct k) + 1 = unat (ts_remaining_chunks (?ts ! k))"
      using live_chunks_remove [OF shape i(1,3), of k] counts [OF k] i(2) by simp
    moreover from this have nz: "ts_remaining_chunks (?ts ! k) \<noteq> 0" by auto
    moreover from nz have "unat (ts_remaining_chunks (?ts ! k) - 1) = unat (ts_remaining_chunks (?ts ! k)) - 1"
      by (simp add: unat_minus_one)
    ultimately show "ts_remaining_chunks (?ts ! k) \<noteq> 0" "unat (ts_remaining_chunks x) = card (live_chunks ?L base ?ct k)"
      by (simp_all add: x)
  qed
  have valid_k: "valid_pos ?bs (ts_pos (?ts ! k))"
    using shape k unfolding flight_shape_def Let_def by fastforce
  have poss: "ts_pos ` set (?ts[k := x]) = ts_pos ` set ?ts"
    using map_update_same [of ts_pos x ?ts k] pos by (metis list.set_map)
  have other: "y = x \<or> (\<exists>j<length ?ts. j \<noteq> k \<and> y = ?ts ! j)" if "y \<in> set (?ts[k := x])" for y
    using that k by (auto simp: in_set_conv_nth nth_list_update' split: if_splits)
  have file_same: "batch_file_index (bs ! ts_batch y) = batch_file_index (?bs ! ts_batch y)"
    "batch_params (bs ! ts_batch y) = batch_params (?bs ! ts_batch y)" if "valid_pos ?bs (ts_pos y)" for y
    using same_batches_nth(2) [OF same, of "ts_batch y"] that by (simp_all add: valid_pos_def ts_pos_def same_batch_def)
  have valid: "valid_pos ?bs (ts_pos (?ts ! j))" if "j < length ?ts" for j
    using shape that unfolding flight_shape_def Let_def by fastforce
  have "flight_tasks chunk heap ?L G base ?wl"
    unfolding flight_tasks_def Let_def with_task_simps
  proof (intro conjI allI ballI impI)
    fix p assume "valid_pos bs p"
    then have v: "valid_pos ?bs p" using valid_pos_same [OF same] by simp
    then have "task_finished (task_of ?bs p) \<or> p \<in> ts_pos ` set ?ts"
      using ft unfolding flight_tasks_def Let_def by blast
    then show "task_finished (task_of bs p) \<or> p \<in> ts_pos ` set (?ts[k := x])"
      using tasks [OF v] poss by (auto simp: set_finished_def)
  next
    fix j assume j: "j < length (?ts[k := x])"
    show "unat (ts_remaining_chunks (?ts[k := x] ! j)) = card (live_chunks ?L base ?ct j)"
    proof (cases "j = k")
      case True
      then show ?thesis using counter(2) k by simp
    next
      case False
      then show ?thesis
        using counts [of j] j live_chunks_remove [OF shape i(1,3), of j] i(2) by simp
    qed
  next
    fix y assume "y \<in> set (?ts[k := x])"
    from other [OF this] show "task_finished (task_of bs (ts_pos y)) =
        (ts_remaining_chunks y = 0 \<and> ts_error y = Success)"
    proof (elim disjE exE conjE)
      assume y: "y = x"
      have "\<not> task_finished (task_of ?bs (ts_pos (?ts ! k)))"
        using ft k counter(1) by (simp add: flight_tasks_def Let_def)
      then show ?thesis
        using tasks [of "ts_pos x"] valid_k pos y by (auto simp: set_finished_def)
    next
      fix j assume j: "j < length ?ts" "j \<noteq> k" "y = ?ts ! j"
      then have "ts_pos y \<noteq> ts_pos x" using distinct_pos_at [OF shape j(1) k] pos by simp
      then have "task_of bs (ts_pos y) = task_of ?bs (ts_pos y)" using tasks [of "ts_pos y"] valid j by simp
      then show ?thesis using ft j by (simp add: flight_tasks_def Let_def)
    qed
  next
    fix y assume "y \<in> set (?ts[k := x])" and bad: "ts_remaining_chunks y = 0 \<and> ts_error y \<noteq> Success"
    from other [OF this(1)] show "map_of errors (batch_file_index (bs ! ts_batch y)) \<noteq> None"
    proof (elim disjE exE conjE)
      assume "y = x"
      then show ?thesis using errors(3) bad file_same(1) [of x] valid_k pos by simp
    next
      fix j assume j: "j < length ?ts" "j \<noteq> k" "y = ?ts ! j"
      then have "map_of (if_errors wl) (batch_file_index (?bs ! ts_batch y)) \<noteq> None"
        using ft bad nth_mem [OF j(1)] unfolding flight_tasks_def Let_def by blast
      then show ?thesis using errors(2) file_same(1) [of y] valid j by simp
    qed
  next
    fix f c assume "map_of errors f = Some c"
    then show "c \<noteq> Success" by (rule errors(1))
  next
    fix j i' assume j: "j < length (?ts[k := x])" "ts_error (?ts[k := x] ! j) = Success"
      and i': "i' < length ?ct" "?ct ! i' = j \<and> base + of_nat i' \<notin> ?L"
    have old: "(batch_params (?bs ! ts_batch (?ts ! j)), concat (flight_pieces chunk heap wl) ! i') \<in> G"
    proof (cases "base + of_nat i' \<in> L")
      case True
      then have "i' = i" using handle_inj [OF shape i'(1) i(1)] i'(2) by auto
      then have jk: "j = k" using i'(2) i(2) by simp
      then have "ret = Success" using j k by (simp add: x split: if_splits)
      then show ?thesis using read \<open>i' = i\<close> jk by (simp add: x)
    next
      case False
      moreover have "ts_error (?ts ! j) = Success"
        using j k by (cases "j = k") (simp_all add: x split: if_splits)
      ultimately show ?thesis using ft j i' by (simp add: flight_tasks_def Let_def)
    qed
    have "ts_batch (?ts[k := x] ! j) = ts_batch (?ts ! j)" using k by (cases "j = k") (simp_all add: x)
    then show "(batch_params (bs ! ts_batch (?ts[k := x] ! j)), concat (flight_pieces chunk heap ?wl) ! i') \<in> G"
      using old gs file_same(2) [of "?ts ! j"] valid [of j] j by simp
  qed
  then show ?thesis using shape' n by (simp add: flight_ok_def)
qed

section \<open>The blocks of handles\<close>

text \<open>The blocks are in ascending order, do not overlap and lie below the counter.\<close>

definition blocks_ok :: "(object_handle \<times> inflight) list \<Rightarrow> object_handle \<Rightarrow> bool" where
  "blocks_ok m counter \<longleftrightarrow> msorted m \<and>
     (\<forall>p\<in>set m. 0 < length (if_chunk_task (snd p)) \<and>
        unat (fst p) + length (if_chunk_task (snd p)) \<le> unat counter) \<and>
     (\<forall>p\<in>set m. \<forall>p'\<in>set m. fst p < fst p' \<longrightarrow>
        unat (fst p) + length (if_chunk_task (snd p)) \<le> unat (fst p'))"

lemma unat_handle:
  assumes "unat (base :: object_handle) + n \<le> unat (counter :: object_handle)" and "i < n"
  shows "unat (base + of_nat i) = unat base + i"
proof -
  have "i < 18446744073709551616" using assms unat_lt64 [of counter] by linarith
  then have "unat (of_nat i :: object_handle) = i" by (simp add: unat_of_nat)
  moreover have "unat base + i < 18446744073709551616"
    using assms unat_lt64 [of counter] by linarith
  ultimately show ?thesis using unat_add_small [of base "of_nat i"] by simp
qed

lemma block_interval:
  assumes "unat base + length (if_chunk_task wl) \<le> unat (counter :: object_handle)"
  shows "h \<in> block base wl \<longleftrightarrow> unat base \<le> unat h \<and> unat h < unat base + length (if_chunk_task wl)"
proof
  assume "h \<in> block base wl"
  then show "unat base \<le> unat h \<and> unat h < unat base + length (if_chunk_task wl)"
    using unat_handle [OF assms] by (auto simp: block_def)
next
  assume h: "unat base \<le> unat h \<and> unat h < unat base + length (if_chunk_task wl)"
  then have "unat h - unat base < length (if_chunk_task wl)" by linarith
  moreover have "h = base + of_nat (unat h - unat base)"
    using h unat_handle [OF assms calculation] by (simp add: word_unat_eq_iff)
  ultimately show "h \<in> block base wl" unfolding block_def by blast
qed

lemma blocks_disjoint:
  assumes "blocks_ok m counter" and "(b, wl) \<in> set m" and "(b', wl') \<in> set m" and "b \<noteq> b'"
  shows "block b wl \<inter> block b' wl' = {}"
proof -
  have le: "unat b + length (if_chunk_task wl) \<le> unat counter" "unat b' + length (if_chunk_task wl') \<le> unat counter"
    using assms(1-3) by (auto simp: blocks_ok_def)
  have "b < b' \<longrightarrow> unat b + length (if_chunk_task wl) \<le> unat b'"
    "b' < b \<longrightarrow> unat b' + length (if_chunk_task wl') \<le> unat b"
    using assms(1-3) unfolding blocks_ok_def by (metis fst_conv snd_conv)+
  then show ?thesis
    using assms(4) block_interval [OF le(1)] block_interval [OF le(2)]
    by (fastforce simp: neq_iff)
qed

lemma map_of_msorted: "msorted m \<Longrightarrow> map_of m k = Some v \<longleftrightarrow> (k, v) \<in> set m"
  using msorted_distinct [of m] by (simp add: map_of_eq_Some_iff)

lemma takeWhile_sorted:
  "msorted m \<Longrightarrow> takeWhile (\<lambda>p. fst p \<le> h) m = filter (\<lambda>p. fst p \<le> h) m"
proof (induction m)
  case (Cons p m)
  obtain k v where p: "p = (k, v)" by (cases p)
  have "filter (\<lambda>p. fst p \<le> h) m = []" if "\<not> k \<le> h"
    using Cons.prems that by (fastforce simp: p filter_empty_conv)
  then show ?case using Cons by (auto simp: p)
qed simp

lemma last_filter_sorted:
  assumes "msorted m" and "(b, wl) \<in> set m" and "b \<le> h"
    and "\<And>b' wl'. (b', wl') \<in> set m \<Longrightarrow> b' \<le> h \<Longrightarrow> b' \<le> b"
  shows "last (filter (\<lambda>p. fst p \<le> h) m) = (b, wl)"
proof -
  obtain us vs where m: "m = us @ (b, wl) # vs" using assms(2) by (meson split_list)
  have "\<forall>p\<in>set vs. b < fst p" using assms(1) unfolding m msorted_def by (auto simp: sorted_wrt_append)
  then have "filter (\<lambda>p. fst p \<le> h) vs = []"
    using assms(4) unfolding m by (fastforce simp: filter_empty_conv)
  then show ?thesis using assms(3) by (simp add: m)
qed

lemma locate_iff:
  assumes ok: "blocks_ok m counter"
  shows "locate h m = Some (b, k) \<longleftrightarrow>
    (\<exists>wl i. (b, wl) \<in> set m \<and> i < length (if_chunk_task wl) \<and> h = b + of_nat i \<and> k = if_chunk_task wl ! i)"
proof
  let ?before = "filter (\<lambda>p. fst p \<le> h) m"
  have sorted: "msorted m" using ok by (simp add: blocks_ok_def)
  assume loc: "locate h m = Some (b, k)"
  then have ne: "?before \<noteq> []"
    unfolding locate_def Let_def takeWhile_sorted [OF sorted] by (auto split: if_splits)
  obtain b0 wl where lst: "last ?before = (b0, wl)" by (cases "last ?before")
  have "(b0, wl) \<in> set ?before" using last_in_set [OF ne] lst by simp
  then have in_m: "(b0, wl) \<in> set m" "b0 \<le> h" by auto
  have "b0 = b" "unat (h - b0) < length (if_chunk_task wl)" "k = if_chunk_task wl ! unat (h - b0)"
    using loc ne lst unfolding locate_def Let_def takeWhile_sorted [OF sorted] by (auto split: if_splits)
  then show "\<exists>wl i. (b, wl) \<in> set m \<and> i < length (if_chunk_task wl) \<and> h = b + of_nat i \<and> k = if_chunk_task wl ! i"
    using in_m by (intro exI [of _ wl] exI [of _ "unat (h - b0)"]) simp
next
  let ?before = "filter (\<lambda>p. fst p \<le> h) m"
  have sorted: "msorted m" using ok by (simp add: blocks_ok_def)
  assume "\<exists>wl i. (b, wl) \<in> set m \<and> i < length (if_chunk_task wl) \<and> h = b + of_nat i \<and> k = if_chunk_task wl ! i"
  then obtain wl i where i: "(b, wl) \<in> set m" "i < length (if_chunk_task wl)" "h = b + of_nat i"
    "k = if_chunk_task wl ! i" by blast
  have le: "unat b + length (if_chunk_task wl) \<le> unat counter" using ok i(1) by (auto simp: blocks_ok_def)
  have h: "unat h = unat b + i" using unat_handle [OF le i(2)] i(3) by simp
  have bh: "b \<le> h" using h by (simp add: word_le_nat_alt)
  have top: "b' \<le> b" if "(b', wl') \<in> set m" "b' \<le> h" for b' wl'
  proof (rule ccontr)
    assume "\<not> b' \<le> b"
    then have "unat b + length (if_chunk_task wl) \<le> unat b'"
      using ok i(1) that(1) unfolding blocks_ok_def by (metis fst_conv linorder_not_le snd_conv)
    then show False using that(2) h i(2) by (simp add: word_le_nat_alt)
  qed
  have "last ?before = (b, wl)" by (rule last_filter_sorted [OF sorted i(1) bh top])
  moreover have "?before \<noteq> []" using i(1) bh by (force simp: filter_empty_conv)
  moreover have "unat (h - b) = i" using bh h by (simp add: unat_sub_le)
  ultimately show "locate h m = Some (b, k)"
    using i unfolding locate_def Let_def takeWhile_sorted [OF sorted] by simp
qed

lemma located_block:
  assumes "blocks_ok m counter"
  shows "locate h m \<noteq> None \<longleftrightarrow> (\<exists>(b, wl)\<in>set m. h \<in> block b wl)"
proof -
  have "locate h m \<noteq> None \<longleftrightarrow> (\<exists>b k. locate h m = Some (b, k))" by auto
  also have "\<dots> \<longleftrightarrow> (\<exists>(b, wl)\<in>set m. h \<in> block b wl)"
    unfolding locate_iff [OF assms] by (auto simp: block_def)
  finally show ?thesis .
qed

text \<open>Replacing the workload of a block by one with the same chunks, and removing a block.\<close>

lemma set_mput:
  "msorted m \<Longrightarrow> (k, v) \<in> set m \<Longrightarrow> set (mput k v' m) = insert (k, v') (set m - {(k, v)})"
proof -
  assume s: "msorted m" and "(k, v) \<in> set m"
  then have v: "map_of m k = Some v" by (simp add: map_of_msorted)
  have "p \<in> set (mput k v' m) \<longleftrightarrow> p = (k, v') \<or> p \<in> set m \<and> p \<noteq> (k, v)" for p
  proof -
    obtain a b where p: "p = (a, b)" by (cases p)
    have "p \<in> set (mput k v' m) \<longleftrightarrow> map_of (mput k v' m) a = Some b"
      using map_of_msorted [OF msorted_mput [OF s]] by (simp add: p)
    also have "\<dots> \<longleftrightarrow> p = (k, v') \<or> p \<in> set m \<and> p \<noteq> (k, v)"
      using v map_of_msorted [OF s, of a b] by (auto simp: p)
    finally show ?thesis .
  qed
  then show ?thesis by auto
qed

lemma blocks_ok_update:
  assumes ok: "blocks_ok m counter" and wl: "(base, wl) \<in> set m"
    and same: "if_chunk_task wl' = if_chunk_task wl"
  shows "blocks_ok (mput base wl' m) counter"
proof -
  have s: "msorted m" using ok by (simp add: blocks_ok_def)
  have old: "\<exists>p\<in>set m. fst p = fst p' \<and> length (if_chunk_task (snd p)) = length (if_chunk_task (snd p'))"
    if "p' \<in> set (mput base wl' m)" for p'
    using that wl same unfolding set_mput [OF s wl] by force
  show ?thesis
    unfolding blocks_ok_def
  proof (intro conjI ballI impI)
    show "msorted (mput base wl' m)" using s by simp
    fix p' assume "p' \<in> set (mput base wl' m)"
    from old [OF this] obtain p where p: "p \<in> set m" "fst p = fst p'"
      "length (if_chunk_task (snd p)) = length (if_chunk_task (snd p'))" by blast
    then show "0 < length (if_chunk_task (snd p'))" "unat (fst p') + length (if_chunk_task (snd p')) \<le> unat counter"
      using ok unfolding blocks_ok_def by metis+
    fix q' assume "q' \<in> set (mput base wl' m)" "fst p' < fst q'"
    from old [OF this(1)] this(2) show "unat (fst p') + length (if_chunk_task (snd p')) \<le> unat (fst q')"
      using ok p unfolding blocks_ok_def by metis
  qed
qed

lemma blocks_ok_erase: "blocks_ok m counter \<Longrightarrow> blocks_ok (merase base m) counter"
  by (auto simp: blocks_ok_def set_merase)

lemma blocks_ok_insert:
  assumes ok: "blocks_ok m counter" and "0 < length (if_chunk_task wl)"
    and "unat counter + length (if_chunk_task wl) = unat counter'"
  shows "mput counter wl m = m @ [(counter, wl)]" and "blocks_ok (mput counter wl m) counter'"
proof -
  have below: "\<forall>p\<in>set m. fst p < counter"
  proof
    fix p assume "p \<in> set m"
    then have "0 < length (if_chunk_task (snd p))" "unat (fst p) + length (if_chunk_task (snd p)) \<le> unat counter"
      using ok by (auto simp: blocks_ok_def)
    then show "fst p < counter" unfolding word_less_nat_alt by linarith
  qed
  then show m: "mput counter wl m = m @ [(counter, wl)]" by (rule mput_last)
  have "msorted (mput counter wl m)" using ok by (simp add: blocks_ok_def)
  moreover have "unat (fst p) + length (if_chunk_task (snd p)) \<le> unat counter'" if "p \<in> set m" for p
    using ok that assms(3) unfolding blocks_ok_def by fastforce
  ultimately show "blocks_ok (mput counter wl m) counter'"
    using ok assms(2,3) below unfolding blocks_ok_def m by (auto simp: not_less [symmetric])
qed

end
