(* ===== verification/ObjectCompletion.thy ===== *)
theory ObjectCompletion
  imports ObjectFlights
begin

text \<open>
  Completions and reports of an object-storage worker keep its invariant: every task it accepted
  is either still open in a workload in flight or has been finished exactly once, with success
  only after all of its pieces were read.
\<close>

section \<open>The history of a worker\<close>

definition event_read :: "request_heap \<Rightarrow> (params \<times> segment) set \<Rightarrow> object_event \<Rightarrow> bool" where
  "event_read heap G e \<longleftrightarrow> (case e of ((sid, f, ps, t), c) \<Rightarrow> c = Success \<longrightarrow> fetched G ps (task_seg heap t))"

lemma event_read_mono: "event_read heap G e \<Longrightarrow> G \<subseteq> G' \<Longrightarrow> event_read heap G' e"
  by (cases e) (auto simp: event_read_def intro: fetched_mono)

abbreviation batches_of :: "inflight \<Rightarrow> batch list" where
  "batches_of wl \<equiv> wl_batches (if_workload wl)"

definition open_all :: "(object_handle \<times> inflight) list \<Rightarrow> task_key multiset" where
  "open_all m = (\<Sum>p\<in>set m. open_keys (batches_of (snd p)))"

lemma msorted_unique: "msorted m \<Longrightarrow> (k, v) \<in> set m \<Longrightarrow> (k, v') \<in> set m \<Longrightarrow> v' = v"
  by (metis map_of_msorted option.inject)

lemma open_all_update:
  assumes "msorted m" and "(k, v) \<in> set m"
  shows "open_all (mput k v' m) + open_keys (batches_of v) = open_all m + open_keys (batches_of v')"
proof -
  have "(k, v') \<notin> set m - {(k, v)}"
    using assms map_of_msorted [OF assms(1), of k] by (metis DiffD1 DiffD2 option.inject singletonI)
  then have "open_all (mput k v' m) = open_keys (batches_of v') + (\<Sum>p\<in>set m - {(k, v)}. open_keys (batches_of (snd p)))"
    unfolding open_all_def set_mput [OF assms] by (subst sum.insert) auto
  moreover have "open_all m = open_keys (batches_of v) + (\<Sum>p\<in>set m - {(k, v)}. open_keys (batches_of (snd p)))"
    unfolding open_all_def using assms(2) by (subst sum.remove [of _ "(k, v)"]) auto
  ultimately show ?thesis by simp
qed

lemma open_all_erase:
  assumes "msorted m" and "(k, v) \<in> set m"
  shows "open_all (merase k m) + open_keys (batches_of v) = open_all m"
proof -
  have "set (merase k m) = set m - {(k, v)}"
  proof (rule set_eqI)
    fix p show "p \<in> set (merase k m) \<longleftrightarrow> p \<in> set m - {(k, v)}"
      by (cases p) (use msorted_unique [OF assms] in \<open>simp add: set_merase, blast\<close>)
  qed
  then have "open_all (merase k m) = (\<Sum>p\<in>set m - {(k, v)}. open_keys (batches_of (snd p)))"
    by (simp only: open_all_def)
  moreover have "open_all m = open_keys (batches_of v) + (\<Sum>p\<in>set m - {(k, v)}. open_keys (batches_of (snd p)))"
    unfolding open_all_def using assms(2) by (subst sum.remove [of _ "(k, v)"]) auto
  ultimately show ?thesis by simp
qed

definition log_ok ::
  "request_heap \<Rightarrow> request_heap \<times> pushes \<Rightarrow> task_key multiset \<Rightarrow> (params \<times> segment) set \<Rightarrow>
    (object_handle \<times> inflight) list \<Rightarrow> request_heap \<times> pushes \<Rightarrow> bool" where
  "log_ok heap w0 T G m world \<longleftrightarrow> same_heap heap (fst w0) \<and>
     (\<exists>es. world = object_run es w0 \<and> mset (map fst es) + open_all m = T \<and> (\<forall>e\<in>set es. event_read heap G e))"

lemma log_ok_heap: "log_ok heap w0 T G m world \<Longrightarrow> same_heap heap (fst world)"
  unfolding log_ok_def using object_run_heap by blast

lemma log_ok_mono: "log_ok heap w0 T G m world \<Longrightarrow> G \<subseteq> G' \<Longrightarrow> log_ok heap w0 T G' m world"
  using event_read_mono unfolding log_ok_def by blast

lemma log_ok_extend:
  assumes "log_ok heap w0 T G m world" and "mset (map fst es) + open_all m' + X = open_all m + Y"
    and "\<forall>e\<in>set es. event_read heap G e" and "T' + X = T + Y"
  shows "log_ok heap w0 T' G m' (object_run es world)"
proof -
  obtain es0 where es0: "world = object_run es0 w0" "mset (map fst es0) + open_all m = T"
    "\<forall>e\<in>set es0. event_read heap G e" and h: "same_heap heap (fst w0)"
    using assms(1) by (auto simp: log_ok_def)
  have "mset (map fst (es0 @ es)) + open_all m' + X = mset (map fst es0) + (open_all m + Y)"
    using assms(2) by (simp add: ac_simps)
  also have "\<dots> = T' + X" using es0(2) assms(4) by (simp add: ac_simps)
  finally have "mset (map fst (es0 @ es)) + open_all m' = T'" by simp
  moreover have "object_run es world = object_run (es0 @ es) w0" by (simp add: es0 object_run_append)
  ultimately show ?thesis using es0(3) assms(3) h unfolding log_ok_def by (intro conjI exI [of _ "es0 @ es"]) auto
qed

section \<open>The invariant of the worker\<close>

text \<open>
  \<open>L\<close> are the handles that are still live, \<open>F\<close> those that hold credit of the window, \<open>G\<close> the reads
  the plugin has reported as done.
\<close>

definition core ::
  "size_t \<Rightarrow> request_heap \<Rightarrow> request_heap \<times> pushes \<Rightarrow> task_key multiset \<Rightarrow> object_handle set \<Rightarrow>
    (params \<times> segment) set \<Rightarrow> object_handle set \<Rightarrow> 'b object_worker \<Rightarrow> bool" where
  "core chunk heap w0 T L G F w \<longleftrightarrow>
     (let s = cw_state w; m = ow_inflight s in
      chunk \<noteq> 0 \<and> blocks_ok m (ow_counter s) \<and>
      (\<forall>p\<in>set m. flight_ok chunk heap L G (fst p) (snd p) \<and> if_remaining_tasks (snd p) \<noteq> 0) \<and>
      log_ok heap w0 T G m (ow_world s) \<and>
      (\<exists>q. cw_queue w = Some q \<and> cq_capacity q \<noteq> 0 \<and> unat (cq_inflight q) = card F) \<and>
      finite F \<and> F \<subseteq> L \<and> (\<forall>h\<in>F. locate h m \<noteq> None))"

text \<open>The read that a located handle stands for.\<close>

definition read_of ::
  "size_t \<Rightarrow> request_heap \<Rightarrow> (object_handle \<times> inflight) list \<Rightarrow> object_handle \<Rightarrow> (params \<times> segment) option" where
  "read_of chunk heap m h =
     (case locate h m of
        None \<Rightarrow> None
      | Some (b, k) \<Rightarrow>
          (case map_of m b of
             None \<Rightarrow> None
           | Some wl \<Rightarrow> Some (batch_params (batches_of wl ! ts_batch (if_tasks wl ! k)),
               concat (flight_pieces chunk heap wl) ! unat (h - b))))"

lemma read_of_at:
  assumes ok: "blocks_ok m counter" and wl: "(b, wl) \<in> set m" and i: "i < length (if_chunk_task wl)"
  shows "read_of chunk heap m (b + of_nat i) =
      Some (batch_params (batches_of wl ! ts_batch (if_tasks wl ! (if_chunk_task wl ! i))),
        concat (flight_pieces chunk heap wl) ! i)"
proof -
  have le: "unat b + length (if_chunk_task wl) \<le> unat counter" using ok wl by (auto simp: blocks_ok_def)
  have "locate (b + of_nat i) m = Some (b, if_chunk_task wl ! i)"
    unfolding locate_iff [OF ok] using wl i by blast
  moreover have "map_of m b = Some wl" using ok wl by (simp add: map_of_msorted blocks_ok_def)
  moreover have "unat (b + of_nat i - b) = i"
  proof -
    have "i < 18446744073709551616" using le i unat_lt64 [of counter] by linarith
    then show ?thesis by (simp add: unat_of_nat)
  qed
  ultimately show ?thesis by (simp add: read_of_def)
qed

lemma read_of_None:
  assumes ok: "blocks_ok m counter"
  shows "read_of chunk heap m h = None \<longleftrightarrow> locate h m = None"
proof (cases "locate h m")
  case None
  then show ?thesis by (simp add: read_of_def)
next
  case (Some p)
  obtain b k where p: "p = (b, k)" by (cases p)
  then obtain wl where "(b, wl) \<in> set m" using Some locate_iff [OF ok, of h b k] by blast
  then have "map_of m b = Some wl" using ok by (simp add: map_of_msorted blocks_ok_def)
  then show ?thesis using Some p by (simp add: read_of_def)
qed

lemma read_of_readable:
  assumes ok: "blocks_ok m counter" and flights: "\<forall>p\<in>set m. flight_shape chunk heap (fst p) (snd p)"
    and rd: "read_of chunk heap m h = Some (ps, (off, n, buf))"
  shows "addressed ps \<and> 0 < n \<and> n \<le> chunk"
proof -
  obtain b k where loc: "locate h m = Some (b, k)" using rd by (auto simp: read_of_def split: option.splits)
  then obtain wl i where wl: "(b, wl) \<in> set m" and i: "i < length (if_chunk_task wl)" "h = b + of_nat i"
    "k = if_chunk_task wl ! i"
    unfolding locate_iff [OF ok] by blast
  have shape: "flight_shape chunk heap b wl" using flights wl by auto
  note own = shape_owner [OF shape i(1)]
  have r: "ps = batch_params (batches_of wl ! ts_batch (if_tasks wl ! k))"
    "(off, n, buf) = concat (flight_pieces chunk heap wl) ! i"
    using rd read_of_at [OF ok wl i(1), of chunk heap] i(2,3) by auto
  have "(off, n, buf) \<in> set (concat (flight_pieces chunk heap wl))" using own(2) r(2) nth_mem by metis
  then obtain x where "(off, n, buf) \<in> set (task_pieces chunk heap (batches_of wl) (ts_pos x))"
    by (auto simp: flight_pieces_def)
  then have "(off, n, buf) \<in> set (pieces chunk (task_seg heap (task_of (batches_of wl) (ts_pos x))))"
    unfolding task_pieces_def .
  then have "0 < n \<and> n \<le> chunk" by (rule pieces_bounds)
  moreover have "valid_pos (batches_of wl) (ts_pos (if_tasks wl ! k))"
    using shape own(1) i(3) unfolding flight_shape_def Let_def by simp
  then have "addressed (batch_params (batches_of wl ! fst (ts_pos (if_tasks wl ! k))))"
    using shape unfolding flight_shape_def Let_def by blast
  ultimately show ?thesis by (simp add: r(1) ts_pos_def)
qed

section \<open>Completing a chunk\<close>

lemma filter_length_update:
  assumes "k < length xs" and "P (xs ! k)"
  shows "length (filter P (xs[k := x])) = (if P x then length (filter P xs) else length (filter P xs) - 1)"
  using assms
proof (induction xs arbitrary: k)
  case (Cons y xs)
  show ?case
  proof (cases k)
    case (Suc j)
    have "0 < length (filter P xs)" using Cons.prems Suc by (auto simp: filter_empty_conv)
    then show ?thesis using Cons Suc by auto
  qed (use Cons.prems in simp)
qed simp

lemma task_fetched:
  assumes shape: "flight_shape chunk heap base wl" and tasks: "flight_tasks chunk heap L G base wl" and "chunk \<noteq> 0"
    and k: "k < length (if_tasks wl)" and x: "if_tasks wl ! k = x" and good: "ts_error x = Success" "ts_remaining_chunks x = 0"
  shows "fetched G (batch_params (batches_of wl ! ts_batch x)) (task_seg heap (task_of (batches_of wl) (ts_pos x)))"
proof (rule fetched_pieces [OF \<open>chunk \<noteq> 0\<close>], rule ballI)
  let ?gss = "flight_pieces chunk heap wl" and ?ct = "if_chunk_task wl"
  fix s assume "s \<in> set (pieces chunk (task_seg heap (task_of (batches_of wl) (ts_pos x))))"
  then have "s \<in> set (?gss ! k)" using k x by (simp add: flight_pieces_def task_pieces_def)
  then obtain i where i: "i < length (concat ?gss)" "owners 0 (map length ?gss) ! i = 0 + k" "concat ?gss ! i = s"
    using owners_cover [of k ?gss s 0] k by auto
  have ct: "?ct = owners 0 (map length ?gss)" using shape unfolding flight_shape_def Let_def by blast
  then have i': "i < length ?ct" "?ct ! i = k" using i by (simp_all add: length_concat)
  have "card (live_chunks L base ?ct k) = 0"
    using tasks k x good(2) by (auto simp: flight_tasks_def Let_def)
  moreover have "finite (live_chunks L base ?ct k)"
    by (rule finite_subset [of _ "{..<length ?ct}"]) (auto simp: live_chunks_def)
  ultimately have "base + of_nat i \<notin> L" using i' by (auto simp: live_chunks_def)
  then show "(batch_params (batches_of wl ! ts_batch x), s) \<in> G"
    using tasks k x good(1) i' i(3) unfolding flight_tasks_def Let_def by blast
qed

lemma with_task_same:
  "wl\<lparr>if_tasks := (if_tasks wl)[k := x]\<rparr> = with_task k x (batches_of wl) (if_errors wl) (if_remaining_tasks wl) wl"
  by (simp add: with_task_def)

lemma errors_emplace:
  assumes "\<forall>f c. map_of errors f = Some c \<longrightarrow> c \<noteq> Success" and "code \<noteq> (Success :: response_code)"
  shows "map_of (fst (memplace f0 code errors)) f = Some c \<Longrightarrow> c \<noteq> Success"
    and "map_of errors f \<noteq> None \<Longrightarrow> map_of (fst (memplace f0 code errors)) f \<noteq> None"
    and "map_of (fst (memplace f0 code errors)) f0 \<noteq> None"
  using assms by (auto simp: memplace_def split: if_splits)

text \<open>What completing the chunk at index \<open>i\<close> makes of its workload, up to the report.\<close>

lemma flight_complete:
  assumes ok: "flight_ok chunk heap L G base wl" and heap: "same_heap heap (fst world)" and "chunk \<noteq> 0"
    and i: "i < length (if_chunk_task wl)" "if_chunk_task wl ! i = k" "base + of_nat i \<in> L"
    and x: "x = chunk_done ret (if_tasks wl ! k)"
    and read: "ret = Success \<longrightarrow> (batch_params (batches_of wl ! ts_batch x), concat (flight_pieces chunk heap wl) ! i) \<in> G"
  shows "ts_remaining_chunks (if_tasks wl ! k) \<noteq> 0"
    and "ts_remaining_chunks x \<noteq> 0 \<Longrightarrow> flight_ok chunk heap (L - {base + of_nat i}) G base
      (wl\<lparr>if_tasks := (if_tasks wl)[k := x]\<rparr>) \<and> if_remaining_tasks wl \<noteq> 0"
    and "ts_remaining_chunks x = 0 \<Longrightarrow> \<exists>wl' es.
      task_completed x (wl\<lparr>if_tasks := (if_tasks wl)[k := x]\<rparr>) world = Inr (wl', object_run es world) \<and>
      flight_ok chunk heap (L - {base + of_nat i}) G base (wl'\<lparr>if_remaining_tasks := if_remaining_tasks wl' - 1\<rparr>) \<and>
      if_chunk_task wl' = if_chunk_task wl \<and> if_tasks wl' = (if_tasks wl)[k := x] \<and>
      (\<forall>p. task_pieces chunk heap (batches_of wl') p = task_pieces chunk heap (batches_of wl) p \<or> \<not> valid_pos (batches_of wl) p) \<and>
      same_batches (batches_of wl) (batches_of wl') \<and>
      mset (map fst es) + open_keys (batches_of wl') = open_keys (batches_of wl) \<and>
      (\<forall>e\<in>set es. event_read heap G e)"
proof -
  let ?ts = "if_tasks wl" and ?bs = "batches_of wl" and ?L = "L - {base + of_nat i}"
  let ?n = "length (filter (\<lambda>x. ts_remaining_chunks x \<noteq> 0) (?ts[k := x]))"
  have shape: "flight_shape chunk heap base wl" and ft: "flight_tasks chunk heap L G base wl"
    and rem: "if_remaining_tasks wl = length (filter (\<lambda>x. ts_remaining_chunks x \<noteq> 0) ?ts)"
    using ok by (simp_all add: flight_ok_def)
  have k: "k < length ?ts" using shape_owner(1) [OF shape i(1)] i(2) by simp
  have pos: "ts_pos x = ts_pos (?ts ! k)" by (simp add: x)
  have "0 < card (live_chunks L base (if_chunk_task wl) k)"
    using live_chunks_remove [OF shape i(1,3), of k] i(2) by simp
  then show nz: "ts_remaining_chunks (?ts ! k) \<noteq> 0"
    using ft k unfolding flight_tasks_def Let_def by (metis less_not_refl unat_0)
  have n: "?n = (if ts_remaining_chunks x \<noteq> 0 then if_remaining_tasks wl else if_remaining_tasks wl - 1)"
    using filter_length_update [of k ?ts "\<lambda>x. ts_remaining_chunks x \<noteq> 0" x] k nz by (simp add: rem)
  have codes: "\<forall>f c. map_of (if_errors wl) f = Some c \<longrightarrow> c \<noteq> Success"
    using ft unfolding flight_tasks_def Let_def by blast
  have "?ts ! k \<in> set (filter (\<lambda>x. ts_remaining_chunks x \<noteq> 0) ?ts)" using k nz by simp
  then have some: "if_remaining_tasks wl \<noteq> 0" unfolding rem by (metis length_0_conv list.set(1) empty_iff)
  note upd = flight_ok_with_task [OF ok i x read [rule_format]]
  show "flight_ok chunk heap ?L G base (wl\<lparr>if_tasks := ?ts[k := x]\<rparr>) \<and> if_remaining_tasks wl \<noteq> 0"
    if more: "ts_remaining_chunks x \<noteq> 0"
    using upd [of ?bs "if_errors wl" ?n] codes more some n by (simp add: with_task_same)
  assume last: "ts_remaining_chunks x = 0"
  show "\<exists>wl' es. task_completed x (wl\<lparr>if_tasks := ?ts[k := x]\<rparr>) world = Inr (wl', object_run es world) \<and>
      flight_ok chunk heap ?L G base (wl'\<lparr>if_remaining_tasks := if_remaining_tasks wl' - 1\<rparr>) \<and>
      if_chunk_task wl' = if_chunk_task wl \<and> if_tasks wl' = ?ts[k := x] \<and>
      (\<forall>p. task_pieces chunk heap (batches_of wl') p = task_pieces chunk heap ?bs p \<or> \<not> valid_pos ?bs p) \<and>
      same_batches ?bs (batches_of wl') \<and>
      mset (map fst es) + open_keys (batches_of wl') = open_keys ?bs \<and> (\<forall>e\<in>set es. event_read heap G e)"
  proof (cases "ts_error x = Success")
    case False
    let ?errors = "fst (memplace (batch_file_index (?bs ! ts_batch x)) (ts_error x) (if_errors wl))"
    let ?wl' = "wl\<lparr>if_tasks := ?ts[k := x], if_errors := ?errors\<rparr>"
    note em = errors_emplace [OF codes False]
    have "flight_ok chunk heap ?L G base (with_task k x ?bs ?errors ?n wl)"
      using em False by (intro upd) auto
    moreover have "with_task k x ?bs ?errors ?n wl = ?wl'\<lparr>if_remaining_tasks := if_remaining_tasks ?wl' - 1\<rparr>"
      using n last by (simp add: with_task_def)
    moreover have "task_completed x (wl\<lparr>if_tasks := ?ts[k := x]\<rparr>) world = Inr (?wl', object_run [] world)"
      using False by (simp add: task_completed_def)
    ultimately show ?thesis by (intro exI [of _ ?wl'] exI [of _ "[]"]) simp
  next
    case True
    let ?p = "ts_pos x" and ?t = "task_of ?bs (ts_pos x)"
    let ?bs' = "?bs[ts_batch x := finish_at (ts_task x) (?bs ! ts_batch x)]"
    let ?wl' = "wl\<lparr>if_tasks := ?ts[k := x], if_workload := (if_workload wl)\<lparr>wl_batches := ?bs'\<rparr>\<rparr>"
    let ?e = "(key_of (?bs ! ts_batch x) ?t, Success)"
    have "?ts ! k \<in> set ?ts" using k by simp
    then have valid: "valid_pos ?bs ?p" and open_t: "\<not> task_finished ?t"
      using shape ft nz unfolding flight_shape_def flight_tasks_def Let_def pos by blast+
    have p: "?p = (ts_batch x, ts_task x)" by (simp add: ts_pos_def)
    have v: "valid_pos ?bs (ts_batch x, ts_task x)" using valid p by simp
    have req: "task_request ?t < length heap"
        "req_file_index (heap ! task_request ?t) = batch_file_index (?bs ! ts_batch x)"
      using shape valid unfolding flight_shape_def Let_def by (auto simp: ts_pos_def)
    have done_t: "task_completed x (wl\<lparr>if_tasks := ?ts[k := x]\<rparr>) world = Inr (?wl', object_run [?e] world)"
      using respond_success_spec [of ?t "if_workload wl" "ts_batch x" "ts_task x" world] open_t req
        same_heap_task(3) [OF heap req(1)] True
      by (simp add: task_completed_def task_of_def ts_pos_def del: object_run.simps)
    have okw: "flight_ok chunk heap ?L G base (with_task k x ?bs' (if_errors wl) ?n wl)"
      using codes True last task_of_finish [OF v] p by (intro upd) (auto simp: same_batches_finish)
    have eq: "with_task k x ?bs' (if_errors wl) ?n wl = ?wl'\<lparr>if_remaining_tasks := if_remaining_tasks ?wl' - 1\<rparr>"
      using n last by (simp add: with_task_def)
    have "fetched G (batch_params (?bs' ! ts_batch x)) (task_seg heap (task_of ?bs' ?p))"
      using task_fetched [of chunk heap base "with_task k x ?bs' (if_errors wl) ?n wl" ?L G k x] okw k True last
        \<open>chunk \<noteq> 0\<close> by (simp add: flight_ok_def)
    then have "event_read heap G ?e"
      using task_of_finish [OF v valid] valid p by (simp add: event_read_def key_of_def valid_pos_def)
    moreover have "add_mset (key_of (?bs ! ts_batch x) ?t) (open_keys ?bs') = open_keys ?bs"
      using open_keys_update [of "ts_batch x" ?bs "ts_task x"] v open_t by (simp add: valid_pos_def task_of_def ts_pos_def)
    ultimately show ?thesis
      using done_t okw eq pos_finish(1) [OF v]
      by (intro exI [of _ ?wl'] exI [of _ "[?e]"]) (auto simp: same_batches_finish simp del: object_run.simps)
  qed
qed

section \<open>Reporting a workload\<close>

lemma finalize_log:
  assumes "log_ok heap w0 T G m world" and "msorted m" and "(base, wl) \<in> set m"
    and "\<forall>b\<in>set (batches_of wl). open_tasks b \<noteq> [] \<longrightarrow> batch_code code (if_errors wl) b \<noteq> Success"
  shows "log_ok heap w0 T G (merase base m) (report_workload wl code world)"
proof -
  let ?es = "report_events code (if_errors wl) (batches_of wl)"
  have "mset (map fst ?es) + open_all (merase base m) + {#} = open_all m + {#}"
    using report_events_keys [OF assms(4)] open_all_erase [OF assms(2,3)] by (simp add: ac_simps)
  moreover have "\<forall>e\<in>set ?es. event_read heap G e"
    using report_events_codes [of code "if_errors wl" "batches_of wl"]
    by (fastforce simp: event_read_def split: prod.splits)
  ultimately show ?thesis
    using log_ok_extend [OF assms(1), of ?es "merase base m" "{#}" "{#}" T]
    by (simp add: report_workload_def report_batches_run)
qed

text \<open>Once no task has chunks left, every open task is one that failed, with an error for its file.\<close>

lemma flight_reported:
  assumes ok: "flight_ok chunk heap L G base wl" and zero: "if_remaining_tasks wl = 0"
  shows "\<forall>b\<in>set (batches_of wl). open_tasks b \<noteq> [] \<longrightarrow> batch_code Success (if_errors wl) b \<noteq> Success"
    and "L \<inter> block base wl = {}"
proof -
  have ft: "flight_tasks chunk heap L G base wl" and shape: "flight_shape chunk heap base wl"
    using ok by (simp_all add: flight_ok_def)
  have none: "ts_remaining_chunks x = 0" if "x \<in> set (if_tasks wl)" for x
    using ok zero that by (auto simp: flight_ok_def filter_empty_conv)
  show "\<forall>b\<in>set (batches_of wl). open_tasks b \<noteq> [] \<longrightarrow> batch_code Success (if_errors wl) b \<noteq> Success"
  proof (intro ballI impI)
    fix b assume "b \<in> set (batches_of wl)" "open_tasks b \<noteq> []"
    then obtain i t where i: "i < length (batches_of wl)" "b = batches_of wl ! i"
      and t: "t \<in> set (batch_tasks b)" "\<not> task_finished t"
      by (metis (mono_tags, lifting) filter_False in_set_conv_nth open_tasks_def)
    then obtain j where j: "j < length (batch_tasks b)" "t = batch_tasks b ! j" by (metis in_set_conv_nth)
    then have "valid_pos (batches_of wl) (i, j)" "\<not> task_finished (task_of (batches_of wl) (i, j))"
      using i t by (simp_all add: valid_pos_def task_of_def)
    then obtain x where x: "x \<in> set (if_tasks wl)" "ts_pos x = (i, j)"
      and open_x: "\<not> task_finished (task_of (batches_of wl) (ts_pos x))"
      using ft unfolding flight_tasks_def Let_def by (metis imageE)
    then have "ts_error x \<noteq> Success"
      using ft none unfolding flight_tasks_def Let_def by blast
    then have "map_of (if_errors wl) (batch_file_index (batches_of wl ! ts_batch x)) \<noteq> None"
      using ft x(1) none unfolding flight_tasks_def Let_def by blast
    then obtain c where c: "map_of (if_errors wl) (batch_file_index b) = Some c"
      using x(2) i(2) by (auto simp: ts_pos_def)
    then have "c \<noteq> Success" using ft unfolding flight_tasks_def Let_def by blast
    then show "batch_code Success (if_errors wl) b \<noteq> Success" using c by (simp add: batch_code_def)
  qed
  have "base + of_nat i \<notin> L" if i: "i < length (if_chunk_task wl)" for i
  proof
    assume "base + of_nat i \<in> L"
    let ?k = "if_chunk_task wl ! i"
    have "?k < length (if_tasks wl)" by (rule shape_owner(1) [OF shape i])
    then have "card (live_chunks L base (if_chunk_task wl) ?k) = 0"
      using ft none unfolding flight_tasks_def Let_def by (metis nth_mem unat_0)
    moreover have "0 < card (live_chunks L base (if_chunk_task wl) ?k)"
      using live_chunks_remove [OF shape i \<open>base + of_nat i \<in> L\<close>, of ?k] by simp
    ultimately show False by simp
  qed
  then show "L \<inter> block base wl = {}" by (auto simp: block_def)
qed

section \<open>Completing a chunk of the worker\<close>

definition kept :: "'b object_worker \<Rightarrow> 'b object_worker \<Rightarrow> bool" where
  "kept w w' \<longleftrightarrow> ow_reader (cw_state w') = ow_reader (cw_state w) \<and>
     ow_counter (cw_state w') = ow_counter (cw_state w) \<and>
     ow_chunk_bytesize (cw_state w') = ow_chunk_bytesize (cw_state w) \<and>
     map_option cq_pending (cw_queue w') = map_option cq_pending (cw_queue w)"

lemma kept_refl [simp]: "kept w w"
  by (simp add: kept_def)

lemma kept_trans: "kept a b \<Longrightarrow> kept b c \<Longrightarrow> kept a c"
  by (simp add: kept_def)

text \<open>Replacing one workload in flight keeps what the other handles stand for.\<close>

lemma located_update:
  assumes ok: "blocks_ok m counter" and wl: "(base, wl) \<in> set m" and same: "if_chunk_task wl' = if_chunk_task wl"
  shows "locate h (mput base wl' m) = locate h m"
proof -
  note ok' = blocks_ok_update [OF ok wl same]
  have s: "msorted m" using ok by (simp add: blocks_ok_def)
  have at: "(base, v) \<in> set (mput base wl' m) \<longleftrightarrow> v = wl'" "(base, v) \<in> set m \<longleftrightarrow> v = wl" for v
    using wl msorted_unique [OF s wl] unfolding set_mput [OF s wl] by blast+
  have other: "(b, v) \<in> set (mput base wl' m) \<longleftrightarrow> (b, v) \<in> set m" if "b \<noteq> base" for b v
    using that unfolding set_mput [OF s wl] by blast
  have "locate h (mput base wl' m) = Some (b, k) \<longleftrightarrow> locate h m = Some (b, k)" for b k
    unfolding locate_iff [OF ok] locate_iff [OF ok'] by (cases "b = base") (simp_all add: at other same)
  then show ?thesis by (metis not_None_eq surj_pair)
qed

lemma located_erase:
  assumes ok: "blocks_ok m counter" and wl: "(base, wl) \<in> set m" and h: "h \<notin> block base wl"
  shows "locate h (merase base m) = locate h m"
proof -
  note ok' = blocks_ok_erase [OF ok, of base]
  have s: "msorted m" using ok by (simp add: blocks_ok_def)
  have "locate h m \<noteq> Some (base, k)" for k
    using h wl msorted_unique [OF s wl] unfolding locate_iff [OF ok] block_def by blast
  moreover have "locate h (merase base m) = Some (b, k) \<longleftrightarrow> b \<noteq> base \<and> locate h m = Some (b, k)" for b k
    unfolding locate_iff [OF ok] locate_iff [OF ok'] by (auto simp: set_merase)
  ultimately have "locate h (merase base m) = Some (b, k) \<longleftrightarrow> locate h m = Some (b, k)" for b k
    by metis
  then show ?thesis by (metis not_None_eq surj_pair)
qed

lemma read_of_update:
  assumes ok: "blocks_ok m counter" and wl: "(base, wl) \<in> set m" and same: "if_chunk_task wl' = if_chunk_task wl"
    and gs: "flight_pieces chunk heap wl' = flight_pieces chunk heap wl"
    and ps: "\<And>k. k < length (if_tasks wl) \<Longrightarrow> batch_params (batches_of wl' ! ts_batch (if_tasks wl' ! k)) =
      batch_params (batches_of wl ! ts_batch (if_tasks wl ! k))"
    and shape: "flight_shape chunk heap base wl"
  shows "read_of chunk heap (mput base wl' m) h = read_of chunk heap m h"
proof (cases "locate h m")
  case None
  then show ?thesis using located_update [OF ok wl same] by (simp add: read_of_def)
next
  case (Some q)
  obtain b k where q: "q = (b, k)" by (cases q)
  have s: "msorted m" using ok by (simp add: blocks_ok_def)
  have mb: "map_of m base = Some wl" using wl s by (simp add: map_of_msorted)
  obtain v i where v: "(b, v) \<in> set m" "i < length (if_chunk_task v)" "k = if_chunk_task v ! i"
    using Some locate_iff [OF ok, of h b k] q by blast
  show ?thesis
  proof (cases "b = base")
    case True
    then have "v = wl" using v(1) msorted_unique [OF s wl] by simp
    then have "k < length (if_tasks wl)" using shape_owner(1) [OF shape] v(2,3) by simp
    then show ?thesis
      using Some q True mb located_update [OF ok wl same, of h] ps gs by (simp add: read_of_def)
  next
    case False
    then show ?thesis
      using Some q located_update [OF ok wl same, of h] by (simp add: read_of_def)
  qed
qed

lemma read_of_erase:
  assumes ok: "blocks_ok m counter" and wl: "(base, wl) \<in> set m" and h: "h \<notin> block base wl"
  shows "read_of chunk heap (merase base m) h = read_of chunk heap m h"
proof (cases "locate h m")
  case None
  then show ?thesis using located_erase [OF assms] by (simp add: read_of_def)
next
  case (Some q)
  obtain b k where q: "q = (b, k)" by (cases q)
  have s: "msorted m" using ok by (simp add: blocks_ok_def)
  have "b \<noteq> base"
    using Some q h wl msorted_unique [OF s wl] unfolding q locate_iff [OF ok, of h b k] block_def by blast
  then show ?thesis using Some q located_erase [OF assms] by (simp add: read_of_def)
qed

lemma core_parts:
  assumes "core chunk heap w0 T L G F w"
  shows "chunk \<noteq> 0" and "blocks_ok (ow_inflight (cw_state w)) (ow_counter (cw_state w))"
    and "(b, wl) \<in> set (ow_inflight (cw_state w)) \<Longrightarrow> flight_ok chunk heap L G b wl \<and> if_remaining_tasks wl \<noteq> 0"
    and "log_ok heap w0 T G (ow_inflight (cw_state w)) (ow_world (cw_state w))"
    and "\<exists>q. cw_queue w = Some q \<and> cq_capacity q \<noteq> 0 \<and> unat (cq_inflight q) = card F"
    and "finite F" and "F \<subseteq> L" and "h \<in> F \<Longrightarrow> locate h (ow_inflight (cw_state w)) \<noteq> None"
  using assms unfolding core_def Let_def by (blast | auto)+

lemma coreI:
  assumes "chunk \<noteq> 0" and "blocks_ok (ow_inflight (cw_state w)) (ow_counter (cw_state w))"
    and "\<forall>p\<in>set (ow_inflight (cw_state w)). flight_ok chunk heap L G (fst p) (snd p) \<and> if_remaining_tasks (snd p) \<noteq> 0"
    and "log_ok heap w0 T G (ow_inflight (cw_state w)) (ow_world (cw_state w))"
    and "\<exists>q. cw_queue w = Some q \<and> cq_capacity q \<noteq> 0 \<and> unat (cq_inflight q) = card F"
    and "finite F" and "F \<subseteq> L" and "\<forall>h\<in>F. locate h (ow_inflight (cw_state w)) \<noteq> None"
  shows "core chunk heap w0 T L G F w"
  unfolding core_def Let_def using assms by blast

lemma set_state_simps [simp]:
  "cw_state (set_state f w) = f (cw_state w)" "cw_queue (set_state f w) = cw_queue w"
  by (simp_all add: set_state_def)

lemma set_inflight_simps [simp]:
  "ow_inflight (cw_state (set_inflight base wl world w)) = mput base wl (ow_inflight (cw_state w))"
  "ow_world (cw_state (set_inflight base wl world w)) = world"
  "ow_counter (cw_state (set_inflight base wl world w)) = ow_counter (cw_state w)"
  "ow_reader (cw_state (set_inflight base wl world w)) = ow_reader (cw_state w)"
  "ow_chunk_bytesize (cw_state (set_inflight base wl world w)) = ow_chunk_bytesize (cw_state w)"
  "cw_queue (set_inflight base wl world w) = cw_queue w"
  by (simp_all add: set_inflight_def)

lemma flight_reads_same:
  assumes "if_chunk_task wl' = if_chunk_task wl" and "same_batches (batches_of wl) (batches_of wl')"
    and "if_tasks wl' = (if_tasks wl)[k := x]" and "ts_pos x = ts_pos (if_tasks wl ! k)"
    and pcs: "\<And>p. valid_pos (batches_of wl) p \<Longrightarrow>
      task_pieces chunk heap (batches_of wl') p = task_pieces chunk heap (batches_of wl) p"
    and shape: "flight_shape chunk heap base wl"
  shows "flight_pieces chunk heap wl' = flight_pieces chunk heap wl"
    and "j < length (if_tasks wl) \<Longrightarrow> batch_params (batches_of wl' ! ts_batch (if_tasks wl' ! j)) =
      batch_params (batches_of wl ! ts_batch (if_tasks wl ! j))"
proof -
  have valid: "\<forall>y\<in>set (if_tasks wl). valid_pos (batches_of wl) (ts_pos y)"
    using shape unfolding flight_shape_def Let_def by blast
  have "flight_pieces chunk heap wl' = map (\<lambda>y. task_pieces chunk heap (batches_of wl') (ts_pos y)) (if_tasks wl)"
    unfolding flight_pieces_def assms(3) by (rule map_update_same) (simp add: assms(4))
  also have "\<dots> = flight_pieces chunk heap wl"
    unfolding flight_pieces_def using valid pcs by (intro map_cong refl) blast
  finally show "flight_pieces chunk heap wl' = flight_pieces chunk heap wl" .
  assume j: "j < length (if_tasks wl)"
  have "ts_pos (if_tasks wl' ! j) = ts_pos (if_tasks wl ! j)"
    using assms(3,4) j by (simp add: nth_list_update')
  then have "ts_batch (if_tasks wl' ! j) = ts_batch (if_tasks wl ! j)" by (simp add: ts_pos_def)
  moreover have "valid_pos (batches_of wl) (ts_pos (if_tasks wl ! j))" using valid j by simp
  then have "same_batch (batches_of wl ! ts_batch (if_tasks wl ! j)) (batches_of wl' ! ts_batch (if_tasks wl ! j))"
    using same_batches_nth(2) [OF assms(2)] by (simp add: valid_pos_def ts_pos_def)
  ultimately show "batch_params (batches_of wl' ! ts_batch (if_tasks wl' ! j)) =
      batch_params (batches_of wl ! ts_batch (if_tasks wl ! j))"
    by (simp add: same_batch_def)
qed

lemma put_back_core:
  fixes w :: "'b object_worker"
  assumes core: "core chunk heap w0 T L G F w" and q: "cw_queue w = Some q"
    and wl: "(base, wl) \<in> set (ow_inflight (cw_state w))" and h: "h \<in> F" "h \<in> block base wl"
    and same: "if_chunk_task wl' = if_chunk_task wl" and ok': "flight_ok chunk heap (L - {h}) G base wl'"
    and log': "log_ok heap w0 T G (mput base wl' (ow_inflight (cw_state w))) world'"
    and reads: "flight_pieces chunk heap wl' = flight_pieces chunk heap wl"
      "\<And>j. j < length (if_tasks wl) \<Longrightarrow> batch_params (batches_of wl' ! ts_batch (if_tasks wl' ! j)) =
        batch_params (batches_of wl ! ts_batch (if_tasks wl ! j))"
    and w': "w' = put_back base wl' world' (w\<lparr>cw_queue := Some (cq_complete 1 q)\<rparr>)"
  shows "core chunk heap w0 T (L - {h}) G (F - {h}) w'" and "kept w w'"
    and "\<forall>h'\<in>L - {h}. read_of chunk heap (ow_inflight (cw_state w')) h' = read_of chunk heap (ow_inflight (cw_state w)) h'"
proof -
  let ?m = "ow_inflight (cw_state w)" and ?c = "ow_counter (cw_state w)"
  let ?m2 = "mput base wl' ?m" and ?w1 = "set_inflight base wl' world' (w\<lparr>cw_queue := Some (cq_complete 1 q)\<rparr>)"
  note parts = core_parts [OF core]
  have s: "msorted ?m" using parts(2) by (simp add: blocks_ok_def)
  note blocks2 = blocks_ok_update [OF parts(2) wl same]
  have in2: "(base, wl') \<in> set ?m2" unfolding set_mput [OF s wl] by simp
  have s2: "msorted ?m2" using s by simp
  have others: "flight_ok chunk heap (L - {h}) G b v \<and> if_remaining_tasks v \<noteq> 0"
    if "(b, v) \<in> set ?m2" "b \<noteq> base" for b v
  proof -
    have v: "(b, v) \<in> set ?m" using that unfolding set_mput [OF s wl] by blast
    have "block base wl \<inter> block b v = {}" using blocks_disjoint [OF parts(2) wl v] that(2) by blast
    then have "L \<inter> block b v = (L - {h}) \<inter> block b v" using h(2) by blast
    then show ?thesis
      using parts(3) [OF v] flight_ok_live [of chunk heap L G b v "L - {h}"] by simp
  qed
  have queue: "\<exists>q'. Some (cq_complete 1 q) = Some q' \<and> cq_capacity q' \<noteq> 0 \<and> unat (cq_inflight q') = card (F - {h})"
  proof -
    have u: "unat (cq_inflight q) = card F" and c: "cq_capacity q \<noteq> 0" using parts(5) q by auto
    have "0 < card F" using h(1) parts(6) card_gt_0_iff by blast
    then have "1 \<le> cq_inflight q" using u by (simp add: word_le_nat_alt)
    then have "unat (cq_inflight (cq_complete 1 q)) = card F - 1"
      using u by (simp add: cq_complete_def unat_sub_le)
    then show ?thesis using c h(1) parts(6) by (simp add: cq_complete_def)
  qed
  have reads2: "read_of chunk heap ?m2 h' = read_of chunk heap ?m h'" for h'
    using read_of_update [OF parts(2) wl same reads, of h'] parts(3) [OF wl] by (simp add: flight_ok_def)
  have kept1: "kept w ?w1" using q by (simp add: kept_def cq_complete_def)
  have F2: "\<forall>h'\<in>F - {h}. locate h' ?m2 \<noteq> None"
    using parts(8) located_update [OF parts(2) wl same] by auto
  have "core chunk heap w0 T (L - {h}) G (F - {h}) w' \<and> kept w w' \<and>
    (\<forall>h'\<in>L - {h}. read_of chunk heap (ow_inflight (cw_state w')) h' = read_of chunk heap ?m h')"
  proof (cases "if_remaining_tasks wl' = 0")
    case False
    then have w'1: "w' = ?w1" by (simp add: w' put_back_def)
    have "\<forall>p\<in>set ?m2. flight_ok chunk heap (L - {h}) G (fst p) (snd p) \<and> if_remaining_tasks (snd p) \<noteq> 0"
    proof
      fix p assume p: "p \<in> set ?m2"
      show "flight_ok chunk heap (L - {h}) G (fst p) (snd p) \<and> if_remaining_tasks (snd p) \<noteq> 0"
      proof (cases "fst p = base")
        case True
        then have pv: "p = (base, snd p)" by (cases p) simp
        then have "(base, snd p) \<in> set ?m2" using p by simp
        from msorted_unique [OF s2 in2 this] pv have "p = (base, wl')" by simp
        then show ?thesis using ok' False by simp
      next
        case False
        then show ?thesis using others [of "fst p" "snd p"] p by simp
      qed
    qed
    then have "core chunk heap w0 T (L - {h}) G (F - {h}) ?w1"
      using parts(1,6,7) blocks2 log' queue F2 by (intro coreI) auto
    then show ?thesis using w'1 kept1 reads2 by simp
  next
    case True
    let ?m3 = "merase base ?m2"
    note rep = flight_reported [OF ok' True]
    have w'1: "w' = set_state (\<lambda>s. s\<lparr>ow_world := report_workload wl' Success (ow_world s),
        ow_inflight := merase base (ow_inflight s)\<rparr>) ?w1"
      using True by (simp add: w' put_back_def finalize_def)
    have F3: "h' \<notin> block base wl'" if "h' \<in> L - {h}" for h' using rep(2) that by blast
    have "\<forall>h'\<in>F - {h}. locate h' ?m3 \<noteq> None"
    proof
      fix h' assume h': "h' \<in> F - {h}"
      then have "h' \<notin> block base wl'" using F3 parts(7) by blast
      then show "locate h' ?m3 \<noteq> None" using located_erase [OF blocks2 in2] F2 h' by simp
    qed
    moreover have "\<forall>p\<in>set ?m3. flight_ok chunk heap (L - {h}) G (fst p) (snd p) \<and> if_remaining_tasks (snd p) \<noteq> 0"
      using others by (auto simp: set_merase)
    moreover note finalize_log [OF log' s2 in2 rep(1)] blocks_ok_erase [OF blocks2, of base]
    ultimately have "core chunk heap w0 T (L - {h}) G (F - {h}) w'"
      using parts(1,6,7) queue by (intro coreI) (auto simp: w'1)
    moreover have "kept w w'" using kept1 by (simp add: kept_def w'1)
    moreover have "\<forall>h'\<in>L - {h}. read_of chunk heap ?m3 h' = read_of chunk heap ?m h'"
      using read_of_erase [OF blocks2 in2] F3 reads2 by simp
    ultimately show ?thesis by (simp add: w'1)
  qed
  then show "core chunk heap w0 T (L - {h}) G (F - {h}) w'" and "kept w w'"
    and "\<forall>h'\<in>L - {h}. read_of chunk heap (ow_inflight (cw_state w')) h' = read_of chunk heap ?m h'"
    by blast+
qed

lemma complete_chunk_core:
  fixes w :: "'b object_worker"
  assumes core: "core chunk heap w0 T L G F w" and loc: "locate h (ow_inflight (cw_state w)) = Some (base, k)"
    and h: "h \<in> F"
    and read: "ret = Success \<Longrightarrow> the (read_of chunk heap (ow_inflight (cw_state w)) h) \<in> G"
  shows "\<exists>w'. complete_chunk base k ret w = (Inr (), w') \<and> core chunk heap w0 T (L - {h}) G (F - {h}) w' \<and>
    kept w w' \<and> (\<forall>h'\<in>L - {h}. read_of chunk heap (ow_inflight (cw_state w')) h' =
      read_of chunk heap (ow_inflight (cw_state w)) h')"
proof -
  let ?m = "ow_inflight (cw_state w)" and ?world = "ow_world (cw_state w)"
  note parts = core_parts [OF core]
  have s: "msorted ?m" using parts(2) by (simp add: blocks_ok_def)
  obtain q where q: "cw_queue w = Some q" using parts(5) by blast
  obtain wl i where wl: "(base, wl) \<in> set ?m" and i: "i < length (if_chunk_task wl)" "h = base + of_nat i"
    "k = if_chunk_task wl ! i"
    using loc unfolding locate_iff [OF parts(2)] by blast
  have ok: "flight_ok chunk heap L G base wl" using parts(3) [OF wl] by blast
  then have shape: "flight_shape chunk heap base wl" by (simp add: flight_ok_def)
  have mb: "map_of ?m base = Some wl" using wl s by (simp add: map_of_msorted)
  have hb: "h \<in> block base wl" using i by (auto simp: block_def)
  have hL: "base + of_nat i \<in> L" using h parts(7) i(2) by blast
  define x where "x = chunk_done ret (if_tasks wl ! k)"
  have "ret = Success \<longrightarrow> (batch_params (batches_of wl ! ts_batch x), concat (flight_pieces chunk heap wl) ! i) \<in> G"
    using read read_of_at [OF parts(2) wl i(1), of chunk heap] i(2,3) by (simp add: x_def)
  note fc = flight_complete [OF ok log_ok_heap [OF parts(4)] parts(1) i(1) i(3) [symmetric] hL x_def this]
  have nz: "ts_remaining_chunks (if_tasks wl ! k) \<noteq> 0" using fc(1) by simp
  let ?wl1 = "wl\<lparr>if_tasks := (if_tasks wl)[k := x]\<rparr>" and ?w1 = "w\<lparr>cw_queue := Some (cq_complete 1 q)\<rparr>"
  have run: "complete_chunk base k ret w =
      (if ts_remaining_chunks x = 0 then
         case task_completed x ?wl1 ?world of
           Inl e \<Rightarrow> (Inl e, set_inflight base ?wl1 ?world ?w1)
         | Inr (wl2, world2) \<Rightarrow>
             (Inr (), put_back base (wl2\<lparr>if_remaining_tasks := if_remaining_tasks wl2 - 1\<rparr>) world2 ?w1)
       else (Inr (), set_inflight base ?wl1 ?world ?w1))"
    using nz by (simp add: complete_chunk_def q mb Let_def flip: x_def)
  show ?thesis
  proof (cases "ts_remaining_chunks x = 0")
    case False
    then have f: "flight_ok chunk heap (L - {h}) G base ?wl1" "if_remaining_tasks ?wl1 \<noteq> 0"
      using fc(2) i(2) by simp_all
    have "log_ok heap w0 T G (mput base ?wl1 ?m) ?world"
      using log_ok_extend [OF parts(4), of "[]" "mput base ?wl1 ?m" "open_keys (batches_of wl)"
          "open_keys (batches_of wl)" T] open_all_update [OF s wl, of ?wl1] by simp
    note pb = put_back_core [OF core q wl h hb _ f(1) this _ _ refl]
    have "put_back base ?wl1 ?world ?w1 = set_inflight base ?wl1 ?world ?w1"
      using f(2) by (simp add: put_back_def)
    then have "complete_chunk base k ret w = (Inr (), put_back base ?wl1 ?world ?w1)"
      using run False by simp
    moreover note flight_reads_same [of ?wl1 wl k x chunk heap base] shape
    ultimately show ?thesis
      using pb by (intro exI [of _ "put_back base ?wl1 ?world ?w1"]) (simp add: x_def)
  next
    case True
    from fc(3) [OF True] i(2) obtain wl2 es where
      tc: "task_completed x ?wl1 ?world = Inr (wl2, object_run es ?world)"
      and f: "flight_ok chunk heap (L - {h}) G base (wl2\<lparr>if_remaining_tasks := if_remaining_tasks wl2 - 1\<rparr>)"
      and same: "if_chunk_task wl2 = if_chunk_task wl" "if_tasks wl2 = (if_tasks wl)[k := x]"
        "same_batches (batches_of wl) (batches_of wl2)"
      and pcs: "\<forall>p. task_pieces chunk heap (batches_of wl2) p = task_pieces chunk heap (batches_of wl) p \<or>
        \<not> valid_pos (batches_of wl) p"
      and ev: "mset (map fst es) + open_keys (batches_of wl2) = open_keys (batches_of wl)"
        "\<forall>e\<in>set es. event_read heap G e"
      by blast
    let ?wl3 = "wl2\<lparr>if_remaining_tasks := if_remaining_tasks wl2 - 1\<rparr>"
    have "mset (map fst es) + open_all (mput base ?wl3 ?m) + open_keys (batches_of wl) =
        open_all ?m + open_keys (batches_of wl)"
      using open_all_update [OF s wl, of ?wl3] ev(1) by (simp add: ac_simps)
    from log_ok_extend [OF parts(4) this ev(2) refl]
    have "log_ok heap w0 T G (mput base ?wl3 ?m) (object_run es ?world)" .
    note pb = put_back_core [OF core q wl h hb _ f this _ _ refl]
    have "complete_chunk base k ret w = (Inr (), put_back base ?wl3 (object_run es ?world) ?w1)"
      using run True tc by simp
    moreover have "flight_pieces chunk heap ?wl3 = flight_pieces chunk heap wl"
      "\<And>j. j < length (if_tasks wl) \<Longrightarrow> batch_params (batches_of ?wl3 ! ts_batch (if_tasks ?wl3 ! j)) =
        batch_params (batches_of wl ! ts_batch (if_tasks wl ! j))"
      using flight_reads_same [of ?wl3 wl k x chunk heap base] same pcs shape by (auto simp: x_def)
    ultimately show ?thesis
      using pb same(1) by (intro exI [of _ "put_back base ?wl3 (object_run es ?world) ?w1"]) simp
  qed
qed

end
