(* ===== verification/ObjectServing.thy ===== *)
theory ObjectServing
  imports ObjectCompletion
begin

text \<open>
  The hooks of the object-storage worker keep its invariant, so that the worker, whatever requests
  arrive and whatever the plugin answers, finishes every task exactly once.
\<close>

section \<open>Abandoning everything\<close>

lemma fold_finalize:
  assumes "msorted m" and "ow_inflight (cw_state w) = m" and "log_ok heap w0 T G m (ow_world (cw_state w))"
    and "code \<noteq> Success"
  shows "ow_inflight (cw_state (fold (\<lambda>b. finalize b code) (map fst m) w)) = [] \<and>
    log_ok heap w0 T G [] (ow_world (cw_state (fold (\<lambda>b. finalize b code) (map fst m) w))) \<and>
    kept w (fold (\<lambda>b. finalize b code) (map fst m) w) \<and>
    cw_queue (fold (\<lambda>b. finalize b code) (map fst m) w) = cw_queue w"
  using assms(1-3)
proof (induction m arbitrary: w)
  case (Cons p m)
  obtain b wl where p: "p = (b, wl)" by (cases p)
  let ?w1 = "finalize b code w"
  have rest: "merase b (p # m) = m"
    using Cons.prems(1) by (auto simp: p merase_def filter_id_conv)
  have w1: "?w1 = set_state (\<lambda>s. s\<lparr>ow_world := report_workload wl code (ow_world s),
      ow_inflight := merase b (ow_inflight s)\<rparr>) w"
    using Cons.prems(2) by (simp add: finalize_def p)
  have "\<forall>b\<in>set (batches_of wl). open_tasks b \<noteq> [] \<longrightarrow> batch_code code (if_errors wl) b \<noteq> Success"
    using assms(4) by (simp add: batch_code_def)
  from finalize_log [OF Cons.prems(3,1) _ this, of b]
  have "log_ok heap w0 T G m (ow_world (cw_state ?w1))"
    using rest by (simp add: p w1)
  moreover have "ow_inflight (cw_state ?w1) = m" using rest Cons.prems(2) by (simp add: w1)
  ultimately have "ow_inflight (cw_state (fold (\<lambda>b. finalize b code) (map fst m) ?w1)) = [] \<and>
    log_ok heap w0 T G [] (ow_world (cw_state (fold (\<lambda>b. finalize b code) (map fst m) ?w1))) \<and>
    kept ?w1 (fold (\<lambda>b. finalize b code) (map fst m) ?w1) \<and>
    cw_queue (fold (\<lambda>b. finalize b code) (map fst m) ?w1) = cw_queue ?w1"
    using Cons.IH [of ?w1] Cons.prems(1) by (simp add: p)
  moreover have "kept w ?w1" "cw_queue ?w1 = cw_queue w" by (simp_all add: w1 kept_def)
  ultimately show ?case using kept_trans by (auto simp: p)
qed simp

text \<open>What abandoning needs: no more than the log of the workloads in flight.\<close>

definition loggable ::
  "size_t \<Rightarrow> request_heap \<Rightarrow> request_heap \<times> pushes \<Rightarrow> task_key multiset \<Rightarrow> (params \<times> segment) set \<Rightarrow>
    'b object_worker \<Rightarrow> bool" where
  "loggable chunk heap w0 T G w \<longleftrightarrow> chunk \<noteq> 0 \<and> msorted (ow_inflight (cw_state w)) \<and>
     log_ok heap w0 T G (ow_inflight (cw_state w)) (ow_world (cw_state w)) \<and>
     (\<exists>q. cw_queue w = Some q \<and> cq_capacity q \<noteq> 0)"

lemma core_loggable: "core chunk heap w0 T L G F w \<Longrightarrow> loggable chunk heap w0 T G w"
  using core_parts [of chunk heap w0 T L G F w] by (auto simp: loggable_def blocks_ok_def)

lemma abort_all_core:
  assumes log: "loggable chunk heap w0 T G w" and code: "code \<noteq> Success"
  shows "core chunk heap w0 T L' G {} (abort_all code w)"
    and "ow_inflight (cw_state (abort_all code w)) = []"
    and "ow_reader (cw_state (abort_all code w)) = ow_reader (cw_state w)"
    and "ow_counter (cw_state (abort_all code w)) = ow_counter (cw_state w)"
    and "ow_chunk_bytesize (cw_state (abort_all code w)) = ow_chunk_bytesize (cw_state w)"
    and "\<exists>q. cw_queue w = Some q \<and> cw_queue (abort_all code w) = Some (cq_clear q)"
    and "cw_idle (abort_all code w)"
proof -
  have s: "msorted (ow_inflight (cw_state w))" and chunk: "chunk \<noteq> 0"
    and old: "log_ok heap w0 T G (ow_inflight (cw_state w)) (ow_world (cw_state w))"
    using log by (simp_all add: loggable_def)
  obtain q where q: "cw_queue w = Some q" "cq_capacity q \<noteq> 0" using log by (auto simp: loggable_def)
  note ff = fold_finalize [OF s refl old code]
  let ?w' = "abort_all code w"
  have queue: "cw_queue ?w' = Some (cq_clear q)" using ff q by (simp add: abort_all_def Let_def)
  show flights: "ow_inflight (cw_state ?w') = []" using ff by (simp add: abort_all_def Let_def)
  show "ow_reader (cw_state ?w') = ow_reader (cw_state w)" "ow_counter (cw_state ?w') = ow_counter (cw_state w)"
    "ow_chunk_bytesize (cw_state ?w') = ow_chunk_bytesize (cw_state w)"
    using ff by (simp_all add: abort_all_def Let_def kept_def)
  show "\<exists>q. cw_queue w = Some q \<and> cw_queue ?w' = Some (cq_clear q)" using queue q by blast
  show "cw_idle ?w'" using queue by (simp add: cw_idle_def cq_idle_def cq_clear_def)
  have "log_ok heap w0 T G [] (ow_world (cw_state ?w'))" using ff by (simp add: abort_all_def Let_def)
  then show "core chunk heap w0 T L' G {} ?w'"
    using chunk queue q(2) flights by (intro coreI) (auto simp: blocks_ok_def cq_clear_def)
qed

section \<open>A round of completions\<close>

lemma core_drop:
  assumes core: "core chunk heap w0 T L G F w" and h: "locate h (ow_inflight (cw_state w)) = None"
  shows "core chunk heap w0 T (L - {h}) G F w"
proof -
  note parts = core_parts [OF core]
  have nb: "h \<notin> block b wl" if "(b, wl) \<in> set (ow_inflight (cw_state w))" for b wl
    using h that located_block [OF parts(2), of h] by auto
  have "h \<notin> F" using parts(8) h by blast
  moreover have "\<forall>p\<in>set (ow_inflight (cw_state w)). flight_ok chunk heap (L - {h}) G (fst p) (snd p) \<and>
      if_remaining_tasks (snd p) \<noteq> 0"
  proof
    fix p assume p: "p \<in> set (ow_inflight (cw_state w))"
    then have "L \<inter> block (fst p) (snd p) = (L - {h}) \<inter> block (fst p) (snd p)" using nb [of "fst p" "snd p"] by auto
    then show "flight_ok chunk heap (L - {h}) G (fst p) (snd p) \<and> if_remaining_tasks (snd p) \<noteq> 0"
      using parts(3) [of "fst p" "snd p"] p flight_ok_live [of chunk heap L G "fst p" "snd p" "L - {h}"] by simp
  qed
  ultimately show ?thesis using parts by (intro coreI) auto
qed

definition real_events :: "backend_response list \<Rightarrow> backend_response list" where
  "real_events rs = takeWhile (\<lambda>r. br_ret r \<noteq> FinishedError) rs"

lemma real_events_simps [simp]:
  "real_events [] = []"
  "real_events (r # rs) = (if br_ret r = FinishedError then [] else r # real_events rs)"
  by (simp_all add: real_events_def)

definition credited :: "object_handle set \<Rightarrow> (object_handle \<times> inflight) list \<Rightarrow> object_handle set" where
  "credited D m = {h \<in> D. locate h m \<noteq> None}"

lemma drain_responses_core:
  fixes w :: "'b object_worker"
  assumes "core chunk heap w0 T (L \<union> set hs) G (credited (D \<union> set hs) (ow_inflight (cw_state w))) w"
    and "hs = map br_handle (real_events rs)" and "distinct hs" and "set hs \<inter> L = {}" and "D \<subseteq> L"
    and "\<forall>r\<in>set (real_events rs). br_ret r = Success \<longrightarrow>
      (case read_of chunk heap (ow_inflight (cw_state w)) (br_handle r) of None \<Rightarrow> True | Some x \<Rightarrow> x \<in> G)"
  shows "\<exists>p e w'. drain_responses rs progressed w = (Inr (p, e), w') \<and> (e \<longleftrightarrow> real_events rs \<noteq> rs) \<and>
    (real_events rs = [] \<longrightarrow> p = progressed \<and> w' = w) \<and>
    core chunk heap w0 T L G (credited D (ow_inflight (cw_state w'))) w' \<and> kept w w' \<and>
    (\<forall>h\<in>L. read_of chunk heap (ow_inflight (cw_state w')) h = read_of chunk heap (ow_inflight (cw_state w)) h)"
  using assms
proof (induction rs progressed w arbitrary: hs rule: drain_responses.induct)
  case (1 progressed w)
  then show ?case by (auto intro: exI [of _ False])
next
  case (2 r rs progressed w)
  let ?m = "ow_inflight (cw_state w)" and ?h = "br_handle r"
  show ?case
  proof (cases "br_ret r = FinishedError")
    case True
    then show ?thesis using "2.prems" by (auto intro: exI [of _ True])
  next
    case real: False
    let ?hs = "map br_handle (real_events rs)"
    have hs: "hs = ?h # ?hs" using "2.prems"(2) real by simp
    have fresh: "?h \<notin> set ?hs" "?h \<notin> L" "distinct ?hs" "set ?hs \<inter> L = {}" using "2.prems"(3,4) hs by auto
    have L: "L \<union> set hs - {?h} = L \<union> set ?hs" using fresh hs by auto
    show ?thesis
    proof (cases "locate ?h ?m")
      case None
      have F: "credited (D \<union> set hs) ?m = credited (D \<union> set ?hs) ?m"
        using None hs by (auto simp: credited_def)
      have "core chunk heap w0 T (L \<union> set ?hs) G (credited (D \<union> set ?hs) ?m) w"
        using core_drop [OF "2.prems"(1) None] L F by simp
      from "2.IH"(1) [OF real None this refl fresh(3,4) "2.prems"(5)] "2.prems"(6) real
      show ?thesis using None by auto
    next
      case (Some q)
      obtain b k where q: "q = (b, k)" by (cases q)
      have hF: "?h \<in> credited (D \<union> set hs) ?m" using Some hs by (simp add: credited_def)
      have blocks: "blocks_ok ?m (ow_counter (cw_state w))" using core_parts(2) [OF "2.prems"(1)] .
      then obtain x where x: "read_of chunk heap ?m ?h = Some x"
        using read_of_None [OF blocks, of chunk heap ?h] Some by auto
      have "br_ret r = Success \<Longrightarrow> the (read_of chunk heap ?m ?h) \<in> G"
        using "2.prems"(6) real x by simp
      from complete_chunk_core [OF "2.prems"(1) Some [unfolded q] hF this] obtain w1 where
        cc: "complete_chunk b k (br_ret r) w = (Inr (), w1)"
        and core1: "core chunk heap w0 T (L \<union> set hs - {?h}) G (credited (D \<union> set hs) ?m - {?h}) w1"
        and kept1: "kept w w1"
        and reads: "\<forall>h'\<in>L \<union> set hs - {?h}. read_of chunk heap (ow_inflight (cw_state w1)) h' = read_of chunk heap ?m h'"
        by blast
      have reads': "read_of chunk heap (ow_inflight (cw_state w1)) h' = read_of chunk heap ?m h'"
        if "h' \<in> L \<union> set ?hs" for h' using reads L that by blast
      have blocks1: "blocks_ok (ow_inflight (cw_state w1)) (ow_counter (cw_state w1))"
        using core_parts(2) [OF core1] .
      have loc: "locate h' (ow_inflight (cw_state w1)) \<noteq> None \<longleftrightarrow> locate h' ?m \<noteq> None"
        if "h' \<in> L \<union> set ?hs" for h'
        using reads' [OF that] read_of_None [OF blocks, of chunk heap h'] read_of_None [OF blocks1, of chunk heap h']
        by simp
      have "?h \<notin> D" using fresh(2) "2.prems"(5) by blast
      then have "credited (D \<union> set hs) ?m - {?h} = {h' \<in> D \<union> set ?hs. locate h' ?m \<noteq> None}"
        using fresh(1) hs by (auto simp: credited_def)
      also have "\<dots> = credited (D \<union> set ?hs) (ow_inflight (cw_state w1))"
        using loc "2.prems"(5) unfolding credited_def by blast
      finally have F: "credited (D \<union> set hs) ?m - {?h} = credited (D \<union> set ?hs) (ow_inflight (cw_state w1))" .
      have rd1: "\<forall>r\<in>set (real_events rs). br_ret r = Success \<longrightarrow>
          (case read_of chunk heap (ow_inflight (cw_state w1)) (br_handle r) of None \<Rightarrow> True | Some x \<Rightarrow> x \<in> G)"
        using "2.prems"(6) real reads' by simp
      from "2.IH"(2) [OF real Some q [symmetric] cc [symmetric] refl core1 [unfolded L F] refl fresh(3,4) "2.prems"(5) rd1]
      obtain p e w' where ih: "drain_responses rs True w1 = (Inr (p, e), w')" "e = (real_events rs \<noteq> rs)"
        "core chunk heap w0 T L G (credited D (ow_inflight (cw_state w'))) w'" "kept w1 w'"
        "\<forall>h\<in>L. read_of chunk heap (ow_inflight (cw_state w')) h = read_of chunk heap (ow_inflight (cw_state w1)) h"
        by blast
      have "drain_responses (r # rs) progressed w = (Inr (p, e), w')"
        using real Some q cc ih(1) by simp
      moreover have "\<forall>h\<in>L. read_of chunk heap (ow_inflight (cw_state w')) h = read_of chunk heap ?m h"
        using ih(5) reads' by simp
      ultimately show ?thesis
        using ih(2-4) real kept_trans [OF kept1 ih(4)] by auto
    qed
  qed
qed

section \<open>The plugin\<close>

text \<open>
  What the worker relies on: \<open>okb\<close> holds of a client that is in order, \<open>outst\<close> are the reads it has
  accepted and not yet completed, by handle, and \<open>got\<close> those it has reported as done. A read that is
  accepted is outstanding; a round of completions hands out outstanding handles once each and at
  most as many as asked for; and a success is reported only of a read that is done. A new client
  is in order and has nothing outstanding, and what its creation throws is an exception. In return
  the worker reads pieces of at most the chunk the client was made with, from objects that have an
  address, under handles that are not in use and below \<open>limit\<close>.
\<close>

definition round_ok ::
  "('b \<Rightarrow> object_handle \<rightharpoonup> 'x) \<Rightarrow> ('b \<Rightarrow> 'x set) \<Rightarrow> nat \<Rightarrow> 'b \<Rightarrow>
    response_code \<times> nat \<times> backend_response list \<Rightarrow> 'b \<Rightarrow> bool" where
  "round_ok outst got k b answer b' \<longleftrightarrow> got b \<subseteq> got b' \<and> outst b' \<subseteq>\<^sub>m outst b \<and>
     (case answer of (c, n, events) \<Rightarrow> c = Success \<longrightarrow>
        n \<le> k \<and>
        (let hs = map br_handle (real_events (take n events)) in
         distinct hs \<and> set hs \<subseteq> dom (outst b) \<and> outst b' = outst b |` (- set hs) \<and>
         (\<forall>r\<in>set (real_events (take n events)). br_ret r = Success \<longrightarrow>
            the (outst b (br_handle r)) \<in> got b')))"

definition readable :: "size_t \<Rightarrow> params \<Rightarrow> size_t \<Rightarrow> bool" where
  "readable chunk ps n \<longleftrightarrow> addressed ps \<and> 0 < n \<and> n \<le> chunk"

definition client_ok ::
  "size_t \<Rightarrow> object_handle \<Rightarrow> 'b object_client \<Rightarrow> ('b \<Rightarrow> bool) \<Rightarrow> ('b \<Rightarrow> object_handle \<rightharpoonup> params \<times> segment) \<Rightarrow> ('b \<Rightarrow> (params \<times> segment) set) \<Rightarrow> bool" where
  "client_ok chunk limit client okb outst got \<longleftrightarrow>
     (\<forall>ps. params_chunk_bytesize ps = chunk \<longrightarrow>
        (case oc_create client ps of Inl e \<Rightarrow> e \<noteq> Trap | Inr b \<Rightarrow> okb b \<and> outst b = Map.empty)) \<and>
     (\<forall>ps off n buf h b c b'. okb b \<longrightarrow> readable chunk ps n \<longrightarrow> h \<notin> dom (outst b) \<longrightarrow> h < limit \<longrightarrow>
        oc_read client ps (off, n) buf h b = (c, b') \<longrightarrow> okb b' \<and> got b \<subseteq> got b' \<and>
        outst b' = (if c = Success then (outst b)(h \<mapsto> (ps, (off, n, buf))) else outst b)) \<and>
     (\<forall>k b answer b'. okb b \<longrightarrow> 0 < k \<longrightarrow> oc_wait client k b = (answer, b') \<longrightarrow>
        okb b' \<and> round_ok outst got k b answer b')"

section \<open>The invariant between the calls of the hooks\<close>

definition chunk_seg :: "object_chunk \<Rightarrow> segment" where
  "chunk_seg c = (ch_offset c, ch_bytesize c, ch_buffer c)"

definition pending_handles :: "object_chunk cap_queue \<Rightarrow> object_handle list" where
  "pending_handles q = map (\<lambda>(c, n). ch_handle c) (cq_pending q)"

definition up_inv ::
  "('b \<Rightarrow> object_handle \<rightharpoonup> params \<times> segment) \<Rightarrow> ('b \<Rightarrow> (params \<times> segment) set) \<Rightarrow> size_t \<Rightarrow> request_heap \<Rightarrow>
    request_heap \<times> pushes \<Rightarrow> task_key multiset \<Rightarrow> object_chunk cap_queue \<Rightarrow> 'b \<Rightarrow> 'b object_worker \<Rightarrow> bool" where
  "up_inv outst got chunk heap w0 T q b w \<longleftrightarrow>
     (let m = ow_inflight (cw_state w); D = dom (outst b); P = pending_handles q in
      ow_reader (cw_state w) = Some b \<and> ow_chunk_bytesize (cw_state w) = chunk \<and>
      finite D \<and> distinct P \<and> set P \<inter> D = {} \<and> (\<forall>h\<in>set P \<union> D. h < ow_counter (cw_state w)) \<and>
      core chunk heap w0 T (set P \<union> D) (got b) (credited D m) w \<and>
      (\<forall>(c, n)\<in>set (cq_pending q). n = 1 \<and> (\<exists>ps. read_of chunk heap m (ch_handle c) = Some (ps, chunk_seg c))) \<and>
      (\<forall>h\<in>D. \<forall>x. read_of chunk heap m h = Some x \<longrightarrow> outst b h = Some x))"

definition object_inv ::
  "'b object_client \<Rightarrow> ('b \<Rightarrow> bool) \<Rightarrow> ('b \<Rightarrow> object_handle \<rightharpoonup> params \<times> segment) \<Rightarrow>
    ('b \<Rightarrow> (params \<times> segment) set) \<Rightarrow> object_handle \<Rightarrow> size_t \<Rightarrow>
    request_heap \<Rightarrow> request_heap \<times> pushes \<Rightarrow> task_key multiset \<times> object_handle \<Rightarrow> 'b object_worker \<Rightarrow> bool" where
  "object_inv client okb outst got limit chunk heap w0 g w \<longleftrightarrow> client_ok chunk limit client okb outst got \<and>
     ow_counter (cw_state w) = snd g \<and> snd g \<le> limit \<and>
     (case cw_queue w of
        None \<Rightarrow> ow_reader (cw_state w) = None \<and> ow_inflight (cw_state w) = [] \<and>
          log_ok heap w0 (fst g) {} [] (ow_world (cw_state w))
      | Some q \<Rightarrow> \<exists>b. okb b \<and> up_inv outst got chunk heap w0 (fst g) q b w)"

definition object_weight :: "('b \<Rightarrow> object_handle \<rightharpoonup> params \<times> segment) \<Rightarrow> 'b object_worker \<Rightarrow> nat" where
  "object_weight outst w =
     (if cw_idle w then 0
      else case (cw_queue w, ow_reader (cw_state w)) of
        (Some q, Some b) \<Rightarrow> Suc (length (cq_pending q) + card (dom (outst b)))
      | _ \<Rightarrow> 0)"

lemma core_mono:
  assumes core: "core chunk heap w0 T L G F w" and "G \<subseteq> G'"
    and "ow_inflight (cw_state w') = ow_inflight (cw_state w)" and "ow_counter (cw_state w') = ow_counter (cw_state w)"
    and "ow_world (cw_state w') = ow_world (cw_state w)" and "cw_queue w' = cw_queue w"
  shows "core chunk heap w0 T L G' F w'"
proof -
  note parts = core_parts [OF core]
  have "\<forall>p\<in>set (ow_inflight (cw_state w)). flight_ok chunk heap L G' (fst p) (snd p) \<and> if_remaining_tasks (snd p) \<noteq> 0"
    using parts(3) flight_ok_mono [OF _ assms(2)] by auto
  moreover have "log_ok heap w0 T G' (ow_inflight (cw_state w)) (ow_world (cw_state w))"
    by (rule log_ok_mono [OF parts(4) assms(2)])
  ultimately show ?thesis using parts assms(3-6) by (intro coreI) auto
qed

lemma card_below:
  assumes "\<forall>h\<in>S. h < (c :: object_handle)"
  shows "card S \<le> unat c"
proof -
  have "unat ` S \<subseteq> {..<unat c}" using assms by (auto simp: word_less_nat_alt)
  moreover have "inj_on unat S" by (simp add: inj_on_def word_unat_eq_iff)
  ultimately show ?thesis by (metis card_image card_lessThan card_mono finite_lessThan)
qed

text \<open>Taking a chunk gives its handle credit.\<close>

lemma take_core:
  assumes up: "up_inv outst got chunk heap w0 T q b w" and q: "cw_queue w = Some q"
    and "take": "cq_try_take q = (Some c, q')"
  shows "cq_pending q = (c, 1) # cq_pending q'"
    and "core chunk heap w0 T (set (pending_handles q) \<union> dom (outst b)) (got b)
      (insert (ch_handle c) (credited (dom (outst b)) (ow_inflight (cw_state w)))) (w\<lparr>cw_queue := Some q'\<rparr>)"
    and "ch_handle c \<notin> dom (outst b)" and "ch_handle c \<notin> set (pending_handles q')"
proof -
  let ?m = "ow_inflight (cw_state w)" and ?D = "dom (outst b)" and ?h = "ch_handle c"
  let ?F = "credited ?D ?m"
  have core: "core chunk heap w0 T (set (pending_handles q) \<union> ?D) (got b) ?F w"
    and dist: "distinct (pending_handles q)" "set (pending_handles q) \<inter> ?D = {}"
    and below: "\<forall>h\<in>set (pending_handles q) \<union> ?D. h < ow_counter (cw_state w)"
    and pend: "\<forall>(c, n)\<in>set (cq_pending q). n = 1 \<and> (\<exists>ps. read_of chunk heap ?m (ch_handle c) = Some (ps, chunk_seg c))"
    using up unfolding up_inv_def Let_def by blast+
  note parts = core_parts [OF core]
  obtain n rest where p: "cq_pending q = (c, n) # rest"
    and q': "q' = q\<lparr>cq_pending := rest, cq_inflight := cq_inflight q + n\<rparr>"
    using "take" by (auto simp: cq_try_take_def split: list.splits if_splits)
  have n: "n = 1" and rd: "\<exists>ps. read_of chunk heap ?m ?h = Some (ps, chunk_seg c)" using pend p by auto
  show "cq_pending q = (c, 1) # cq_pending q'" by (simp add: p q' n)
  have hs: "pending_handles q = ?h # pending_handles q'" by (simp add: pending_handles_def p q')
  then show fresh: "?h \<notin> ?D" "?h \<notin> set (pending_handles q')" using dist by auto
  have loc: "locate ?h ?m \<noteq> None" using rd read_of_None [OF parts(2), of chunk heap ?h] by auto
  have nF: "?h \<notin> ?F" using fresh(1) by (simp add: credited_def)
  have sub: "insert ?h ?F \<subseteq> set (pending_handles q) \<union> ?D" using hs by (auto simp: credited_def)
  have "card (insert ?h ?F) \<le> unat (ow_counter (cw_state w))"
    using below sub by (intro card_below) blast
  then have "Suc (card ?F) \<le> unat (ow_counter (cw_state w))" using nF parts(6) by simp
  then have small: "Suc (card ?F) < 18446744073709551616"
    using unat_lt64 [of "ow_counter (cw_state w)"] by linarith
  have u: "unat (cq_inflight q) = card ?F" "cq_capacity q \<noteq> 0" using parts(5) q by auto
  have "unat (cq_inflight q + 1) = card (insert ?h ?F)"
    using small u nF parts(6) by (simp add: unat_add_small)
  then show "core chunk heap w0 T (set (pending_handles q) \<union> ?D) (got b) (insert ?h ?F) (w\<lparr>cw_queue := Some q'\<rparr>)"
    using parts u(2) sub loc by (intro coreI) (auto simp: q' n)
qed

lemma up_invI:
  assumes "ow_reader (cw_state w) = Some b" and "ow_chunk_bytesize (cw_state w) = chunk"
    and "finite (dom (outst b))" and "distinct (pending_handles q)" and "set (pending_handles q) \<inter> dom (outst b) = {}"
    and "\<forall>h\<in>set (pending_handles q) \<union> dom (outst b). h < ow_counter (cw_state w)"
    and "core chunk heap w0 T (set (pending_handles q) \<union> dom (outst b)) (got b)
      (credited (dom (outst b)) (ow_inflight (cw_state w))) w"
    and "\<forall>(c, n)\<in>set (cq_pending q). n = 1 \<and>
      (\<exists>ps. read_of chunk heap (ow_inflight (cw_state w)) (ch_handle c) = Some (ps, chunk_seg c))"
    and "\<forall>h\<in>dom (outst b). \<forall>x. read_of chunk heap (ow_inflight (cw_state w)) h = Some x \<longrightarrow> outst b h = Some x"
  shows "up_inv outst got chunk heap w0 T q b w"
  unfolding up_inv_def Let_def using assms by blast

lemma up_inv_parts:
  assumes "up_inv outst got chunk heap w0 T q b w"
  shows "ow_reader (cw_state w) = Some b" and "ow_chunk_bytesize (cw_state w) = chunk"
    and "finite (dom (outst b))" and "distinct (pending_handles q)" and "set (pending_handles q) \<inter> dom (outst b) = {}"
    and "\<forall>h\<in>set (pending_handles q) \<union> dom (outst b). h < ow_counter (cw_state w)"
    and "core chunk heap w0 T (set (pending_handles q) \<union> dom (outst b)) (got b)
      (credited (dom (outst b)) (ow_inflight (cw_state w))) w"
    and "\<forall>(c, n)\<in>set (cq_pending q). n = 1 \<and>
      (\<exists>ps. read_of chunk heap (ow_inflight (cw_state w)) (ch_handle c) = Some (ps, chunk_seg c))"
    and "\<forall>h\<in>dom (outst b). \<forall>x. read_of chunk heap (ow_inflight (cw_state w)) h = Some x \<longrightarrow> outst b h = Some x"
  using assms unfolding up_inv_def Let_def by blast+

lemma credited_same:
  assumes "blocks_ok m c" and "blocks_ok m' c'"
    and "\<forall>h\<in>D. read_of chunk heap m' h = read_of chunk heap m h"
  shows "credited D m' = credited D m"
  using assms(3) read_of_None [OF assms(1), of chunk heap] read_of_None [OF assms(2), of chunk heap]
  unfolding credited_def by (metis (no_types, lifting))

text \<open>
  A chunk in hand is completed at once, when its task has already failed or the plugin refuses the
  read.
\<close>

lemma refused_inv:
  fixes w :: "'b object_worker"
  assumes up: "up_inv outst got chunk heap w0 T q b w" and q: "cw_queue w = Some q"
    and tk: "cq_try_take q = (Some c, q')" and loc: "locate (ch_handle c) (ow_inflight (cw_state w)) = Some (base, k)"
    and b': "outst b' = outst b" "got b \<subseteq> got b'" and code: "ret \<noteq> Success"
    and w1: "cw_queue w1 = Some q'" "ow_reader (cw_state w1) = Some b'"
      "ow_inflight (cw_state w1) = ow_inflight (cw_state w)" "ow_counter (cw_state w1) = ow_counter (cw_state w)"
      "ow_world (cw_state w1) = ow_world (cw_state w)" "ow_chunk_bytesize (cw_state w1) = ow_chunk_bytesize (cw_state w)"
  shows "\<exists>w' q''. complete_chunk base k ret w1 = (Inr (), w') \<and> cw_queue w' = Some q'' \<and>
    cq_pending q'' = cq_pending q' \<and> up_inv outst got chunk heap w0 T q'' b' w' \<and>
    ow_counter (cw_state w') = ow_counter (cw_state w)"
proof -
  note parts = up_inv_parts [OF up] and tc = take_core [OF up q tk]
  let ?m = "ow_inflight (cw_state w)" and ?D = "dom (outst b)" and ?h = "ch_handle c"
  let ?L = "set (pending_handles q) \<union> ?D" and ?F = "insert ?h (credited ?D ?m)"
  have core1: "core chunk heap w0 T ?L (got b') ?F w1"
    by (rule core_mono [OF tc(2) b'(2)]) (simp_all add: w1)
  have hs: "pending_handles q = ?h # pending_handles q'" by (simp add: pending_handles_def tc(1))
  have L: "?L - {?h} = set (pending_handles q') \<union> ?D" using hs tc(3,4) by auto
  have F: "?F - {?h} = credited ?D ?m" using tc(3) by (auto simp: credited_def)
  have loc1: "locate ?h (ow_inflight (cw_state w1)) = Some (base, k)" using loc w1(3) by simp
  have "?h \<in> ?F" by simp
  from complete_chunk_core [OF core1 loc1 this, of ret] code obtain w' where
    cc: "complete_chunk base k ret w1 = (Inr (), w')"
    and core': "core chunk heap w0 T (set (pending_handles q') \<union> ?D) (got b') (credited ?D ?m) w'"
    and kept: "kept w1 w'"
    and reads: "\<forall>h'\<in>set (pending_handles q') \<union> ?D.
      read_of chunk heap (ow_inflight (cw_state w')) h' = read_of chunk heap ?m h'"
    unfolding L F w1(3) by blast
  obtain q'' where q'': "cw_queue w' = Some q''" "cq_pending q'' = cq_pending q'"
    using kept w1(1) by (auto simp: kept_def)
  have pend: "pending_handles q'' = pending_handles q'" by (simp add: pending_handles_def q''(2))
  have cred: "credited ?D (ow_inflight (cw_state w')) = credited ?D ?m"
    using core_parts(2) [OF parts(7)] core_parts(2) [OF core'] reads by (intro credited_same) auto
  have "up_inv outst got chunk heap w0 T q'' b' w'"
  proof (rule up_invI)
    show "ow_reader (cw_state w') = Some b'" "ow_chunk_bytesize (cw_state w') = chunk"
      using kept w1(2,6) parts(2) by (simp_all add: kept_def)
    show "finite (dom (outst b'))" using parts(3) b'(1) by simp
    show "distinct (pending_handles q'')" "set (pending_handles q'') \<inter> dom (outst b') = {}"
      using parts(4,5) hs b'(1) pend by auto
    show "\<forall>h\<in>set (pending_handles q'') \<union> dom (outst b'). h < ow_counter (cw_state w')"
      using parts(6) hs b'(1) pend kept w1(4) by (auto simp: kept_def)
    show "core chunk heap w0 T (set (pending_handles q'') \<union> dom (outst b')) (got b')
        (credited (dom (outst b')) (ow_inflight (cw_state w'))) w'"
      using core' by (simp add: pend b'(1) cred)
    show "\<forall>(c, n)\<in>set (cq_pending q''). n = 1 \<and>
        (\<exists>ps. read_of chunk heap (ow_inflight (cw_state w')) (ch_handle c) = Some (ps, chunk_seg c))"
    proof
      fix y assume y: "y \<in> set (cq_pending q'')"
      then have "y \<in> set (cq_pending q)" by (simp add: q''(2) tc(1))
      moreover have "ch_handle (fst y) \<in> set (pending_handles q')"
        using y by (force simp: pending_handles_def q''(2) case_prod_unfold)
      ultimately show "case y of (c, n) \<Rightarrow> n = 1 \<and>
          (\<exists>ps. read_of chunk heap (ow_inflight (cw_state w')) (ch_handle c) = Some (ps, chunk_seg c))"
        using parts(8) reads by (auto simp: case_prod_unfold)
    qed
    show "\<forall>h\<in>dom (outst b'). \<forall>x. read_of chunk heap (ow_inflight (cw_state w')) h = Some x \<longrightarrow> outst b' h = Some x"
      using parts(9) reads b'(1) by auto
  qed
  then show ?thesis using cc q'' kept w1(4) by (auto simp: kept_def)
qed

text \<open>A chunk whose read the plugin accepts.\<close>

lemma accepted_inv:
  fixes w :: "'b object_worker"
  assumes up: "up_inv outst got chunk heap w0 T q b w" and q: "cw_queue w = Some q"
    and tk: "cq_try_take q = (Some c, q')"
    and rd: "read_of chunk heap (ow_inflight (cw_state w)) (ch_handle c) = Some (ps, chunk_seg c)"
    and b': "outst b' = (outst b)(ch_handle c \<mapsto> (ps, chunk_seg c))" "got b \<subseteq> got b'"
    and w1: "cw_queue w1 = Some q'" "ow_reader (cw_state w1) = Some b'"
      "ow_inflight (cw_state w1) = ow_inflight (cw_state w)" "ow_counter (cw_state w1) = ow_counter (cw_state w)"
      "ow_world (cw_state w1) = ow_world (cw_state w)" "ow_chunk_bytesize (cw_state w1) = ow_chunk_bytesize (cw_state w)"
  shows "up_inv outst got chunk heap w0 T q' b' w1"
proof (rule up_invI)
  note parts = up_inv_parts [OF up] and tc = take_core [OF up q tk]
  let ?m = "ow_inflight (cw_state w)" and ?D = "dom (outst b)" and ?h = "ch_handle c"
  have hs: "pending_handles q = ?h # pending_handles q'" by (simp add: pending_handles_def tc(1))
  have dom': "dom (outst b') = insert ?h ?D" by (simp add: b'(1))
  have L: "set (pending_handles q') \<union> dom (outst b') = set (pending_handles q) \<union> ?D" using hs dom' by auto
  have "locate ?h ?m \<noteq> None"
    using rd read_of_None [OF core_parts(2) [OF parts(7)], of chunk heap ?h] by auto
  then have cred: "credited (dom (outst b')) ?m = insert ?h (credited ?D ?m)"
    by (auto simp: credited_def dom')
  show "ow_reader (cw_state w1) = Some b'" "ow_chunk_bytesize (cw_state w1) = chunk"
    using w1 parts(2) by simp_all
  show "finite (dom (outst b'))" using parts(3) dom' by simp
  show "distinct (pending_handles q')" using parts(4) hs by simp
  show "set (pending_handles q') \<inter> dom (outst b') = {}" using parts(5) hs dom' tc(4) by auto
  show "\<forall>h\<in>set (pending_handles q') \<union> dom (outst b'). h < ow_counter (cw_state w1)"
    using parts(6) unfolding L w1(4) .
  show "core chunk heap w0 T (set (pending_handles q') \<union> dom (outst b')) (got b')
      (credited (dom (outst b')) (ow_inflight (cw_state w1))) w1"
    unfolding L w1(3) cred by (rule core_mono [OF tc(2) b'(2)]) (simp_all add: w1)
  show "\<forall>(c, n)\<in>set (cq_pending q'). n = 1 \<and>
      (\<exists>ps. read_of chunk heap (ow_inflight (cw_state w1)) (ch_handle c) = Some (ps, chunk_seg c))"
    using parts(8) by (simp add: tc(1) w1(3))
  show "\<forall>h\<in>dom (outst b'). \<forall>x. read_of chunk heap (ow_inflight (cw_state w1)) h = Some x \<longrightarrow> outst b' h = Some x"
    using parts(9) rd by (auto simp: b'(1) w1(3))
qed

section \<open>The laws of the hooks\<close>

lemma weight_le:
  assumes "\<not> cw_idle w" and "cw_queue w = Some q" and "ow_reader (cw_state w) = Some b"
    and "cw_queue w' = Some q'" and "ow_reader (cw_state w') = Some b'"
    and "length (cq_pending q') + card (dom (outst b')) \<le> length (cq_pending q) + card (dom (outst b))"
  shows "object_weight outst w' \<le> object_weight outst w"
  using assms by (simp add: object_weight_def)

lemma object_submit_law:
  fixes w :: "'b object_worker"
  assumes inv: "object_inv client okb outst got limit chunk heap w0 g w" and q: "cw_queue w = Some q"
    and tk: "cq_try_take q = (Some c, q')"
  shows "\<exists>w' q''. object_submit client c (w\<lparr>cw_queue := Some q'\<rparr>) = (Inr (), w') \<and>
    object_inv client okb outst got limit chunk heap w0 g w' \<and> cw_queue w' = Some q'' \<and> cq_pending q'' = cq_pending q' \<and>
    object_weight outst w' \<le> object_weight outst w"
proof -
  let ?m = "ow_inflight (cw_state w)" and ?h = "ch_handle c" and ?w1 = "w\<lparr>cw_queue := Some q'\<rparr>"
  obtain b where up: "up_inv outst got chunk heap w0 (fst g) q b w" and okb: "okb b"
    and client: "client_ok chunk limit client okb outst got"
    and counter: "ow_counter (cw_state w) = snd g" "snd g \<le> limit"
    using inv q by (auto simp: object_inv_def)
  note parts = up_inv_parts [OF up] and tc = take_core [OF up q tk]
  note cparts = core_parts [OF parts(7)]
  have s: "msorted ?m" using cparts(2) by (simp add: blocks_ok_def)
  have busy: "\<not> cw_idle w" using q tc(1) by (simp add: cw_idle_def cq_idle_def)
  obtain ps where rd: "read_of chunk heap ?m ?h = Some (ps, chunk_seg c)" using parts(8) tc(1) by auto
  then obtain base k where loc: "locate ?h ?m = Some (base, k)" by (auto simp: read_of_def split: option.splits)
  then obtain wl i where wl: "(base, wl) \<in> set ?m" and i: "i < length (if_chunk_task wl)"
    "?h = base + of_nat i" "k = if_chunk_task wl ! i"
    unfolding locate_iff [OF cparts(2)] by blast
  have mb: "map_of ?m base = Some wl" using wl s by (simp add: map_of_msorted)
  let ?ts = "if_tasks wl ! k"
  have ps: "ps = batch_params (batches_of wl ! ts_batch ?ts)"
    using rd read_of_at [OF cparts(2) wl i(1), of chunk heap] i(2,3) by simp
  have len: "length (cq_pending q) = Suc (length (cq_pending q'))" by (simp add: tc(1))
  have refused: "\<exists>w' q''. complete_chunk base k ret w1 = (Inr (), w') \<and>
      object_inv client okb outst got limit chunk heap w0 g w' \<and> cw_queue w' = Some q'' \<and> cq_pending q'' = cq_pending q' \<and>
      object_weight outst w' \<le> object_weight outst w"
    if "ret \<noteq> Success" "outst b' = outst b" "got b \<subseteq> got b'" "okb b'"
      and w1: "w1 = set_state (\<lambda>s. s\<lparr>ow_reader := Some b'\<rparr>) ?w1" for ret b' w1
  proof -
    from refused_inv [OF up q tk loc that(2,3,1), of w1] w1 obtain w' q'' where
      r: "complete_chunk base k ret w1 = (Inr (), w')" "cw_queue w' = Some q''" "cq_pending q'' = cq_pending q'"
      and up': "up_inv outst got chunk heap w0 (fst g) q'' b' w'" and c': "ow_counter (cw_state w') = ow_counter (cw_state w)"
      by auto
    have "object_inv client okb outst got limit chunk heap w0 g w'"
      using client counter c' r(2) up' that(4) by (auto simp: object_inv_def)
    moreover have "object_weight outst w' \<le> object_weight outst w"
      using weight_le [OF busy q parts(1) r(2) up_inv_parts(1) [OF up']] that(2) len r(3) by simp
    ultimately show ?thesis using r by blast
  qed
  show ?thesis
  proof (cases "ts_error ?ts = Success")
    case False
    have "object_submit client c ?w1 = complete_chunk base k (ts_error ?ts) ?w1"
      using loc mb parts(1) False by (simp add: object_submit_def Let_def)
    moreover have "?w1 = set_state (\<lambda>s. s\<lparr>ow_reader := Some b\<rparr>) ?w1"
      using parts(1) by (simp add: set_state_def)
    ultimately show ?thesis using refused [OF False refl subset_refl okb, of ?w1] by simp
  next
    case True
    obtain code b' where r: "oc_read client ps (ch_offset c, ch_bytesize c) (ch_buffer c) ?h b = (code, b')"
      by fastforce
    have "\<forall>p\<in>set ?m. flight_shape chunk heap (fst p) (snd p)"
      using cparts(3) by (simp add: flight_ok_def)
    from read_of_readable [OF cparts(2) this, of ?h] rd
    have good_ps: "readable chunk ps (ch_bytesize c)" by (auto simp: readable_def chunk_seg_def)
    then obtain u where uri: "params_uri ps = Some u" by (auto simp: readable_def addressed_def)
    have "?h \<in> set (pending_handles q)" by (simp add: pending_handles_def tc(1))
    then have "?h < snd g" using parts(6) counter(1) by auto
    then have "?h < limit" using counter(2) by (rule order.strict_trans2)
    with r good_ps tc(3) okb
    have ob: "got b \<subseteq> got b'" "okb b'"
      "outst b' = (if code = Success then (outst b)(?h \<mapsto> (ps, chunk_seg c)) else outst b)"
      using client unfolding client_ok_def chunk_seg_def by blast+
    let ?w2 = "set_state (\<lambda>s. s\<lparr>ow_reader := Some b'\<rparr>) ?w1"
    show ?thesis
    proof (cases "code = Success")
      case False
      have "object_submit client c ?w1 = complete_chunk base k code ?w2"
        using loc mb parts(1) True r False ps uri by (simp add: object_submit_def Let_def s3_async_read_def)
      then show ?thesis using refused [OF False _ ob(1,2) refl] ob(3) False by simp
    next
      case good: True
      have run: "object_submit client c ?w1 = (Inr (), ?w2)"
        using loc mb parts(1) True r good ps uri by (simp add: object_submit_def Let_def s3_async_read_def)
      have o: "outst b' = (outst b)(?h \<mapsto> (ps, chunk_seg c))" using ob(3) good by simp
      have "up_inv outst got chunk heap w0 (fst g) q' b' ?w2"
        by (rule accepted_inv [OF up q tk rd o ob(1)]) simp_all
      then have "object_inv client okb outst got limit chunk heap w0 g ?w2"
        using client counter ob(2) by (auto simp: object_inv_def)
      moreover have "card (dom (outst b')) = Suc (card (dom (outst b)))"
        using o tc(3) parts(3) by simp
      then have "object_weight outst ?w2 \<le> object_weight outst w"
        using len by (intro weight_le [OF busy q parts(1)]) auto
      ultimately show ?thesis using run by auto
    qed
  qed
qed

lemma aborted_inv:
  assumes log: "loggable chunk heap w0 T G w1" and code: "code \<noteq> Success" and G: "G \<subseteq> got b"
    and w1: "cw_queue w1 = Some q" "ow_reader (cw_state w1) = Some b" "ow_chunk_bytesize (cw_state w1) = chunk"
    and D: "finite (dom (outst b))" "\<forall>h\<in>dom (outst b). h < ow_counter (cw_state w1)"
  shows "up_inv outst got chunk heap w0 T (cq_clear q) b (abort_all code w1)"
    and "cw_queue (abort_all code w1) = Some (cq_clear q)"
    and "ow_counter (cw_state (abort_all code w1)) = ow_counter (cw_state w1)"
    and "object_weight outst (abort_all code w1) = 0"
proof -
  let ?w = "abort_all code w1"
  note ab = abort_all_core [OF log code]
  have none: "read_of chunk heap [] h = None" "locate h [] = None" for h
    by (simp_all add: read_of_def locate_def)
  have cred: "credited D [] = {}" for D by (simp add: credited_def none)
  have pend: "pending_handles (cq_clear q) = []" "cq_pending (cq_clear q) = []"
    by (simp_all add: pending_handles_def cq_clear_def)
  show queue: "cw_queue ?w = Some (cq_clear q)" using ab(6) w1(1) by auto
  show "ow_counter (cw_state ?w) = ow_counter (cw_state w1)" by (rule ab(4))
  show "object_weight outst ?w = 0" using ab(7) by (simp add: object_weight_def)
  have "core chunk heap w0 T (dom (outst b)) (got b) {} ?w"
    by (rule core_mono [OF ab(1) G]) simp_all
  then show "up_inv outst got chunk heap w0 T (cq_clear q) b ?w"
    using ab(2-5) w1 D by (intro up_invI) (simp_all add: pend cred none)
qed

lemma round_inv:
  fixes w :: "'b object_worker"
  assumes up: "up_inv outst got chunk heap w0 T q b w" and q: "cw_queue w = Some q"
    and hs: "hs = map br_handle (real_events rs)" "distinct hs" "set hs \<subseteq> dom (outst b)"
    and b': "outst b' = outst b |` (- set hs)" "got b \<subseteq> got b'"
    and good: "\<forall>r\<in>set (real_events rs). br_ret r = Success \<longrightarrow> the (outst b (br_handle r)) \<in> got b'"
    and w1: "cw_queue w1 = Some q" "ow_reader (cw_state w1) = Some b'"
      "ow_inflight (cw_state w1) = ow_inflight (cw_state w)" "ow_counter (cw_state w1) = ow_counter (cw_state w)"
      "ow_world (cw_state w1) = ow_world (cw_state w)" "ow_chunk_bytesize (cw_state w1) = ow_chunk_bytesize (cw_state w)"
  shows "\<exists>p e w' q'. drain_responses rs False w1 = (Inr (p, e), w') \<and> (e \<longleftrightarrow> real_events rs \<noteq> rs) \<and>
    (real_events rs = [] \<longrightarrow> \<not> p \<and> w' = w1) \<and> cw_queue w' = Some q' \<and> cq_pending q' = cq_pending q \<and>
    up_inv outst got chunk heap w0 T q' b' w' \<and> ow_counter (cw_state w') = ow_counter (cw_state w)"
proof -
  note parts = up_inv_parts [OF up]
  let ?m = "ow_inflight (cw_state w)" and ?D = "dom (outst b)" and ?D' = "dom (outst b')" and ?P = "set (pending_handles q)"
  have D': "?D' = ?D - set hs" by (auto simp: b'(1))
  then have D: "?D = ?D' \<union> set hs" using hs(3) by blast
  have L: "?P \<union> ?D = ?P \<union> ?D' \<union> set hs" using D by blast
  have core1: "core chunk heap w0 T (?P \<union> ?D' \<union> set hs) (got b') (credited (?D' \<union> set hs) (ow_inflight (cw_state w1))) w1"
    using core_mono [OF parts(7) b'(2), of w1] w1 q unfolding L [symmetric] D [symmetric] by simp
  have disj: "set hs \<inter> (?P \<union> ?D') = {}" using hs(3) parts(5) D' by auto
  have "case read_of chunk heap (ow_inflight (cw_state w1)) (br_handle r) of None \<Rightarrow> True | Some x \<Rightarrow> x \<in> got b'"
    if r: "r \<in> set (real_events rs)" "br_ret r = Success" for r
  proof -
    have "br_handle r \<in> ?D" using hs(1,3) r(1) by auto
    then have "\<forall>x. read_of chunk heap ?m (br_handle r) = Some x \<longrightarrow> outst b (br_handle r) = Some x"
      using parts(9) by blast
    then show ?thesis using good r by (auto simp: w1(3) split: option.splits)
  qed
  then have reads: "\<forall>r\<in>set (real_events rs). br_ret r = Success \<longrightarrow>
      (case read_of chunk heap (ow_inflight (cw_state w1)) (br_handle r) of None \<Rightarrow> True | Some x \<Rightarrow> x \<in> got b')"
    by blast
  from drain_responses_core [OF core1 hs(1,2) disj Un_upper2 reads, of False] obtain p e w' where
    dr: "drain_responses rs False w1 = (Inr (p, e), w')" "e \<longleftrightarrow> real_events rs \<noteq> rs"
      "real_events rs = [] \<longrightarrow> p = False \<and> w' = w1"
    and core': "core chunk heap w0 T (?P \<union> ?D') (got b') (credited ?D' (ow_inflight (cw_state w'))) w'"
    and kept: "kept w1 w'"
    and same: "\<forall>h\<in>?P \<union> ?D'. read_of chunk heap (ow_inflight (cw_state w')) h = read_of chunk heap ?m h"
    unfolding w1(3) by blast
  obtain q' where q': "cw_queue w' = Some q'" "cq_pending q' = cq_pending q"
    using kept w1(1) by (auto simp: kept_def)
  have pend: "pending_handles q' = pending_handles q" by (simp add: pending_handles_def q'(2))
  have "up_inv outst got chunk heap w0 T q' b' w'"
  proof (rule up_invI)
    show "ow_reader (cw_state w') = Some b'" "ow_chunk_bytesize (cw_state w') = chunk"
      using kept w1(2,6) parts(2) by (simp_all add: kept_def)
    show "finite ?D'" using parts(3) D' by simp
    show "distinct (pending_handles q')" using parts(4) pend by simp
    show "set (pending_handles q') \<inter> ?D' = {}" using parts(5) pend D' by auto
    show "\<forall>h\<in>set (pending_handles q') \<union> ?D'. h < ow_counter (cw_state w')"
      using parts(6) pend D' kept w1(4) by (auto simp: kept_def)
    show "core chunk heap w0 T (set (pending_handles q') \<union> ?D') (got b') (credited ?D' (ow_inflight (cw_state w'))) w'"
      using core' by (simp add: pend)
    show "\<forall>(c, n)\<in>set (cq_pending q'). n = 1 \<and>
        (\<exists>ps. read_of chunk heap (ow_inflight (cw_state w')) (ch_handle c) = Some (ps, chunk_seg c))"
    proof
      fix y assume y: "y \<in> set (cq_pending q')"
      then have "ch_handle (fst y) \<in> ?P" by (force simp: pending_handles_def q'(2) case_prod_unfold)
      then show "case y of (c, n) \<Rightarrow> n = 1 \<and>
          (\<exists>ps. read_of chunk heap (ow_inflight (cw_state w')) (ch_handle c) = Some (ps, chunk_seg c))"
        using parts(8) same y q'(2) by (auto simp: case_prod_unfold)
    qed
    show "\<forall>h\<in>?D'. \<forall>x. read_of chunk heap (ow_inflight (cw_state w')) h = Some x \<longrightarrow> outst b' h = Some x"
    proof (intro ballI allI impI)
      fix h x assume h: "h \<in> ?D'" and x: "read_of chunk heap (ow_inflight (cw_state w')) h = Some x"
      have hD: "h \<in> ?D" "h \<notin> set hs" using h D' by blast+
      have "read_of chunk heap ?m h = Some x" using same h x by auto
      then have "outst b h = Some x" using parts(9) hD(1) by blast
      then show "outst b' h = Some x" using hD(2) by (simp add: b'(1))
    qed
  qed
  then show ?thesis using dr q' kept w1(4) by (auto simp: kept_def)
qed

lemma object_drain_law:
  fixes w :: "'b object_worker"
  assumes inv: "object_inv client okb outst got limit chunk heap w0 g w" and q: "cw_queue w = Some q" and busy: "\<not> cq_idle q"
  shows "\<exists>w' q'. object_drain_batch stopped client w = (Inr (), w') \<and>
    object_inv client okb outst got limit chunk heap w0 g w' \<and> cw_queue w' = Some q' \<and>
    length (cq_pending q') \<le> length (cq_pending q) \<and> object_weight outst w' < object_weight outst w"
proof -
  obtain b where up: "up_inv outst got chunk heap w0 (fst g) q b w" and okb: "okb b"
    and client: "client_ok chunk limit client okb outst got"
    and counter: "ow_counter (cw_state w) = snd g" "snd g \<le> limit"
    using inv q by (auto simp: object_inv_def)
  note parts = up_inv_parts [OF up]
  let ?w0 = "set_state (\<lambda>s. s\<lparr>ow_loads := Suc (ow_loads s)\<rparr>) w"
  have notidle: "\<not> cw_idle w" using q busy by (simp add: cw_idle_def)
  have pos: "0 < object_weight outst w" using notidle q parts(1) by (simp add: object_weight_def)
  text \<open>Abandoning all in a worker that differs from this one in the client and the counter of loads.\<close>
  have aborted: "\<exists>w' q'. abort_all code w1 = w' \<and> object_inv client okb outst got limit chunk heap w0 g w' \<and>
      cw_queue w' = Some q' \<and> length (cq_pending q') \<le> length (cq_pending q) \<and>
      object_weight outst w' < object_weight outst w"
    if code: "code \<noteq> Success" and b': "got b \<subseteq> got b'" "dom (outst b') \<subseteq> dom (outst b)" "okb b'"
      and w1: "w1 = set_state (\<lambda>s. s\<lparr>ow_reader := Some b'\<rparr>) ?w0" for code b' w1
  proof -
    have core1: "core chunk heap w0 (fst g) (set (pending_handles q) \<union> dom (outst b)) (got b')
        (credited (dom (outst b)) (ow_inflight (cw_state w))) w1"
      by (rule core_mono [OF parts(7) b'(1)]) (simp_all add: w1)
    have D': "finite (dom (outst b'))" "\<forall>h\<in>dom (outst b'). h < ow_counter (cw_state w1)"
      using b'(2) parts(3,6) finite_subset by (auto simp: w1)
    have s1: "cw_queue w1 = Some q" "ow_reader (cw_state w1) = Some b'" "ow_chunk_bytesize (cw_state w1) = chunk"
      using q parts(2) by (simp_all add: w1)
    note ab = aborted_inv [where outst = outst and got = got, OF core_loggable [OF core1] code subset_refl s1 D']
    have "object_inv client okb outst got limit chunk heap w0 g (abort_all code w1)"
      using ab(1-3) client counter q parts(2) b'(3) by (auto simp: object_inv_def w1)
    then show ?thesis using ab(2,4) q parts(2) pos by (auto simp: w1 cq_clear_def)
  qed
  have w0b: "?w0 = set_state (\<lambda>s. s\<lparr>ow_reader := Some b\<rparr>) ?w0" using parts(1) by (simp add: set_state_def)
  show ?thesis
  proof (cases "stopped (ow_loads (cw_state w))")
    case True
    then have "object_drain_batch stopped client w = (Inr (), abort_all FinishedError ?w0)"
      using parts(1) by (simp add: object_drain_batch_def Let_def)
    then show ?thesis using aborted [OF _ subset_refl subset_refl okb w0b, of FinishedError] by auto
  next
    case False
    let ?k = "ow_max_responses (cw_state w)"
    obtain answer b' where ans: "s3_async_response client ?k b = (answer, b')" by fastforce
    let ?w1 = "set_state (\<lambda>s. s\<lparr>ow_reader := Some b'\<rparr>) ?w0"
    have sub: "got b \<subseteq> got b'" "dom (outst b') \<subseteq> dom (outst b)" "okb b'"
      and good: "\<exists>c rs. answer = Inr (c, rs) \<and> (c = Success \<longrightarrow>
        (let hs = map br_handle (real_events rs) in
         distinct hs \<and> set hs \<subseteq> dom (outst b) \<and> outst b' = outst b |` (- set hs) \<and>
         (\<forall>r\<in>set (real_events rs). br_ret r = Success \<longrightarrow> the (outst b (br_handle r)) \<in> got b')))"
    proof -
      have "got b \<subseteq> got b' \<and> dom (outst b') \<subseteq> dom (outst b) \<and> okb b' \<and> (\<exists>c rs. answer = Inr (c, rs) \<and> (c = Success \<longrightarrow>
        (let hs = map br_handle (real_events rs) in
         distinct hs \<and> set hs \<subseteq> dom (outst b) \<and> outst b' = outst b |` (- set hs) \<and>
         (\<forall>r\<in>set (real_events rs). br_ret r = Success \<longrightarrow> the (outst b (br_handle r)) \<in> got b'))))"
      proof (cases "?k = 0")
        case True
        then have "answer = Inr (Success, [])" "b' = b"
          using ans by (auto simp: s3_async_response_def async_read_response_def)
        then show ?thesis using okb by (simp add: restrict_map_def)
      next
        case False
        then have k: "unat ?k \<noteq> 0" by (simp add: unat_eq_0)
        obtain c n evs b1 where ow: "oc_wait client (unat ?k) b = ((c, n, evs), b1)" by (metis prod_cases3 surj_pair)
        have "0 < unat ?k" using k by simp
        with ow okb have r: "round_ok outst got (unat ?k) b (c, n, evs) b1" and okb1: "okb b1"
          using client unfolding client_ok_def by blast+
        have "b' = b1" and a: "answer = (if c = Success then (if n \<le> unat ?k then Inr (Success, take n evs)
            else Inl StdException) else Inr (c, []))"
          using ans ow False k by (auto simp: s3_async_response_def async_read_response_def split: if_splits)
        have "dom (outst b') \<subseteq> dom (outst b)" "got b \<subseteq> got b'"
          using r \<open>b' = b1\<close> by (auto simp: round_ok_def map_le_implies_dom_le)
        moreover have "n \<le> unat ?k" if "c = Success" using r that by (simp add: round_ok_def)
        ultimately show ?thesis using a r \<open>b' = b1\<close> okb1 by (auto simp: round_ok_def Let_def)
      qed
      then show "got b \<subseteq> got b'" "dom (outst b') \<subseteq> dom (outst b)" "okb b'" "\<exists>c rs. answer = Inr (c, rs) \<and> (c = Success \<longrightarrow>
        (let hs = map br_handle (real_events rs) in
         distinct hs \<and> set hs \<subseteq> dom (outst b) \<and> outst b' = outst b |` (- set hs) \<and>
         (\<forall>r\<in>set (real_events rs). br_ret r = Success \<longrightarrow> the (outst b (br_handle r)) \<in> got b')))"
        by blast+
    qed
    obtain c rs where crs: "answer = Inr (c, rs)" and g: "c = Success \<Longrightarrow>
        distinct (map br_handle (real_events rs)) \<and> set (map br_handle (real_events rs)) \<subseteq> dom (outst b) \<and>
        outst b' = outst b |` (- set (map br_handle (real_events rs))) \<and>
        (\<forall>r\<in>set (real_events rs). br_ret r = Success \<longrightarrow> the (outst b (br_handle r)) \<in> got b')"
      using good unfolding Let_def by blast
    show ?thesis
    proof (cases "c = Success")
      case bad: False
      have "object_drain_batch stopped client w = (Inr (), abort_all c ?w1)"
        using parts(1) False ans crs bad by (simp add: object_drain_batch_def Let_def)
      then show ?thesis using aborted [OF bad sub refl] by auto
    next
      case True
      note g = g [OF True]
      from round_inv [OF up q refl _ _ _ sub(1), of rs ?w1] g q obtain p e w2 q2 where
        dr: "drain_responses rs False ?w1 = (Inr (p, e), w2)" "e \<longleftrightarrow> real_events rs \<noteq> rs"
          "real_events rs = [] \<longrightarrow> \<not> p \<and> w2 = ?w1"
        and q2: "cw_queue w2 = Some q2" "cq_pending q2 = cq_pending q"
        and up2: "up_inv outst got chunk heap w0 (fst g) q2 b' w2" and c2: "ow_counter (cw_state w2) = ow_counter (cw_state w)"
        by auto
      have run: "object_drain_batch stopped client w = (Inr (),
          if \<not> p \<and> (rs = [] \<or> e) \<and> \<not> cw_idle w2 then abort_all FinishedError w2 else w2)"
        using parts(1) False ans crs True dr(1) by (simp add: object_drain_batch_def Let_def)
      show ?thesis
      proof (cases "\<not> p \<and> (rs = [] \<or> e) \<and> \<not> cw_idle w2")
        case abort: True
        note parts2 = up_inv_parts [OF up2]
        have below2: "\<forall>h\<in>dom (outst b'). h < ow_counter (cw_state w2)" using parts2(6) by blast
        note ab = aborted_inv [where outst = outst and got = got,
            OF core_loggable [OF parts2(7)] _ subset_refl q2(1) parts2(1,2,3) below2, of FinishedError]
        have "object_inv client okb outst got limit chunk heap w0 g (abort_all FinishedError w2)"
          using ab(1-3) client counter c2 sub(3) by (auto simp: object_inv_def)
        then show ?thesis using run abort ab(2,4) pos by (simp add: cq_clear_def)
      next
        case keep: False
        have "object_inv client okb outst got limit chunk heap w0 g w2"
          using up2 q2 client counter c2 sub(3) by (auto simp: object_inv_def)
        moreover have "object_weight outst w2 < object_weight outst w"
        proof (cases "cw_idle w2")
          case True
          then show ?thesis using pos by (simp add: object_weight_def)
        next
          case busy2: False
          have "real_events rs \<noteq> []" using keep busy2 dr(2,3) by auto
          then obtain h where h: "h \<in> set (map br_handle (real_events rs))" by (cases "real_events rs") auto
          have "dom (outst b') = dom (outst b) - set (map br_handle (real_events rs))" using g by auto
          moreover have "h \<in> dom (outst b)" using g h by blast
          ultimately have "dom (outst b') \<subset> dom (outst b)" using h by blast
          then have "card (dom (outst b')) < card (dom (outst b))" using parts(3) by (rule psubset_card_mono [rotated])
          then show ?thesis
            using notidle busy2 q q2 parts(1) up_inv_parts(1) [OF up2] by (simp add: object_weight_def)
        qed
        ultimately show ?thesis using run keep q2 by auto
      qed
    qed
  qed
qed

end
