(* ===== verification/ObjectAdmitting.thy ===== *)
theory ObjectAdmitting
  imports ObjectServing
begin

text \<open>
  Admitting workloads to the object-storage worker: the size of the block of handles, the state of
  a new workload in flight, registration with and without memory, and \<open>execute\<close>, the creation of
  the client included.
\<close>

section \<open>The chunks of a workload\<close>

lemma map_task_positions: "map (task_of (wl_batches wl)) (positions wl) = concat (map batch_tasks (wl_batches wl))"
proof -
  have "map (task_of (wl_batches wl)) (positions wl) =
      concat (map (\<lambda>i. map ((!) (batch_tasks (wl_batches wl ! i))) [0..<length (batch_tasks (wl_batches wl ! i))])
        [0..<length (wl_batches wl)])"
    by (simp add: positions_def map_concat comp_def task_of_def)
  also have "\<dots> = concat (map (\<lambda>i. batch_tasks (wl_batches wl ! i)) [0..<length (wl_batches wl)])"
    by (simp add: map_nth)
  also have "\<dots> = concat (map batch_tasks (map ((!) (wl_batches wl)) [0..<length (wl_batches wl)]))"
    by (simp add: comp_def)
  also have "\<dots> = concat (map batch_tasks (wl_batches wl))" by (simp add: map_nth)
  finally show ?thesis .
qed

text \<open>The chunks as natural numbers, and the bounds within which the worker counts them right.\<close>

definition chunk_count :: "size_t \<Rightarrow> request_heap \<Rightarrow> workload \<Rightarrow> nat" where
  "chunk_count chunk heap wl = sum_list (map (\<lambda>p. length (task_pieces chunk heap (wl_batches wl) p)) (positions wl))"

definition workload_ready :: "size_t \<Rightarrow> request_heap \<Rightarrow> workload \<Rightarrow> bool" where
  "workload_ready chunk heap wl \<longleftrightarrow>
     wl_batches wl \<noteq> [] \<and> max 1 (s3_block_bytesize (batch_config (wl_batches wl ! 0))) = chunk \<and>
     (\<forall>p\<in>set (positions wl). ready_pos heap (wl_batches wl) p \<and>
        unat (ti_bytesize (task_info (task_of (wl_batches wl) p))) + unat chunk \<le> 18446744073709551616 \<and>
        length (task_pieces chunk heap (wl_batches wl) p) < 4294967296)"

lemma length_task_pieces:
  "chunk \<noteq> 0 \<Longrightarrow> length (task_pieces chunk heap bs p) =
    (unat (ti_bytesize (task_info (task_of bs p))) + unat chunk - 1) div unat chunk"
  by (simp add: task_pieces_def pieces_def task_seg_def length_piece_sizes unat_eq_0)

lemma unat_task_chunks:
  assumes "chunk \<noteq> 0" and "unat (ti_bytesize (task_info t)) + unat chunk \<le> 18446744073709551616"
  shows "unat (task_chunks chunk t) = (unat (ti_bytesize (task_info t)) + unat chunk - 1) div unat chunk"
proof (cases "ti_bytesize (task_info t) = 0")
  case True
  have "(unat chunk - 1) div unat chunk = 0" using assms(1) by (simp add: unat_gt_0)
  then show ?thesis using True by (simp add: task_chunks_def)
next
  case False
  let ?n = "ti_bytesize (task_info t)"
  have pos: "1 \<le> unat chunk" using assms(1) by (simp add: Suc_leI unat_gt_0)
  then have c: "unat (chunk - 1) = unat chunk - 1" using assms(1) by (simp add: unat_minus_one)
  have "unat (?n + (chunk - 1)) = unat ?n + unat (chunk - 1)"
    using assms(2) pos by (intro unat_add_small) (simp add: c)
  then have "unat (?n + chunk - 1) = unat ?n + unat chunk - 1" using c pos by (simp add: algebra_simps)
  then show ?thesis using False by (simp add: task_chunks_def unat_div)
qed

lemma unat_total_chunks:
  assumes ready: "workload_ready chunk heap wl" and "chunk_count chunk heap wl < 18446744073709551616"
  shows "unat (total_chunks chunk wl) = chunk_count chunk heap wl"
proof -
  have "chunk \<noteq> 0"
    using ready unfolding workload_ready_def by (metis linorder_not_le max.cobounded1 word_coorder.extremum_unique zero_neq_one)
  then have pos: "unat (task_chunks chunk (task_of (wl_batches wl) p)) = length (task_pieces chunk heap (wl_batches wl) p)"
    if "p \<in> set (positions wl)" for p
    using ready that by (simp add: workload_ready_def unat_task_chunks length_task_pieces)
  let ?xs = "map (task_chunks chunk) (concat (map batch_tasks (wl_batches wl)))"
  have "map unat ?xs = map (\<lambda>p. length (task_pieces chunk heap (wl_batches wl) p)) (positions wl)"
    unfolding map_task_positions [symmetric] using pos by (simp add: comp_def)
  then have sum: "sum_list (map unat ?xs) = chunk_count chunk heap wl"
    by (simp add: chunk_count_def)
  then show ?thesis
    using assms(2) unat_sum_list [of ?xs] by (simp add: total_chunks_def)
qed

section \<open>A new workload in flight\<close>

lemma chunk_count_pieces:
  assumes "chunk \<noteq> 0"
  shows "length (concat (map (task_pieces chunk heap (wl_batches wl))
    (filter (\<lambda>p. \<not> zero_pos (wl_batches wl) p) (positions wl)))) = chunk_count chunk heap wl"
proof -
  have "sum_list (map (\<lambda>p. length (task_pieces chunk heap bs p)) (filter (\<lambda>p. \<not> zero_pos bs p) ps)) =
      sum_list (map (\<lambda>p. length (task_pieces chunk heap bs p)) ps)" for bs ps
    using task_pieces_zero [OF assms, of heap bs] by (induction ps) auto
  then show ?thesis by (simp add: chunk_count_def length_concat comp_def)
qed

text \<open>The tasks of \<open>bs\<close> at \<open>zs\<close> are finished: the rest of a position is as it was.\<close>

lemma finish_positions_pos:
  assumes "\<forall>z\<in>set zs. valid_pos bs z" and "valid_pos bs p"
  shows "task_pieces chunk heap (finish_positions zs bs) p = task_pieces chunk heap bs p"
    and "task_request (task_of (finish_positions zs bs) p) = task_request (task_of bs p)"
    and "batch_file_index (finish_positions zs bs ! fst p) = batch_file_index (bs ! fst p)"
    and "batch_params (finish_positions zs bs ! fst p) = batch_params (bs ! fst p)"
    and "task_finished (task_of (finish_positions zs bs) p) \<longleftrightarrow> p \<in> set zs \<or> task_finished (task_of bs p)"
proof -
  note t = finish_positions_task [OF assms]
  show "task_pieces chunk heap (finish_positions zs bs) p = task_pieces chunk heap bs p"
    by (simp add: task_pieces_def t)
  show "task_request (task_of (finish_positions zs bs) p) = task_request (task_of bs p)"
    "task_finished (task_of (finish_positions zs bs) p) \<longleftrightarrow> p \<in> set zs \<or> task_finished (task_of bs p)"
    by (simp_all add: t set_finished_def)
  have "same_batch (bs ! fst p) (finish_positions zs bs ! fst p)"
    using assms(2) by (intro same_batches_nth(2) [OF finish_positions_same]) (simp add: valid_pos_def)
  then show "batch_file_index (finish_positions zs bs ! fst p) = batch_file_index (bs ! fst p)"
    "batch_params (finish_positions zs bs ! fst p) = batch_params (bs ! fst p)"
    by (simp_all add: same_batch_def)
qed

lemma new_flight:
  assumes ready: "workload_ready chunk heap wl" and chunk: "chunk \<noteq> 0"
    and n: "n = chunk_count chunk heap wl" "0 < n" "unat base + n < 18446744073709551616"
    and added: "tasks_added chunk heap base (positions wl) 0
      ((inflight_of wl)\<lparr>if_chunk_task := replicate n 0\<rparr>) q wl1 q'"
    and wl': "wl' = wl1\<lparr>if_remaining_tasks := length (if_tasks wl1)\<rparr>"
    and L: "block base wl' \<subseteq> L"
  shows "length (if_chunk_task wl') = n" and "flight_ok chunk heap L G base wl'" and "if_remaining_tasks wl' \<noteq> 0"
    and "concat (flight_pieces chunk heap wl') = concat (map (task_pieces chunk heap (wl_batches wl))
      (filter (\<lambda>p. \<not> zero_pos (wl_batches wl) p) (positions wl)))"
proof -
  let ?bs = "wl_batches wl" and ?zs = "filter (zero_pos (wl_batches wl)) (positions wl)"
  let ?nz = "filter (\<lambda>p. \<not> zero_pos (wl_batches wl) p) (positions wl)"
  let ?gs = "map (task_pieces chunk heap (wl_batches wl)) ?nz"
  have count: "length (concat ?gs) = n" using chunk_count_pieces [OF chunk] n(1) by simp
  have bs': "batches_of wl' = finish_positions ?zs ?bs" and ts: "if_tasks wl' = map (new_task chunk heap ?bs) ?nz"
    and ct: "if_chunk_task wl' = owners 0 (map length ?gs)" and err: "if_errors wl' = []"
    using added unfolding tasks_added_def Let_def wl' by (simp_all add: inflight_of_def count)
  have pos: "ts_pos (new_task chunk heap ?bs p) = p" for p by (simp add: ts_pos_def new_task_def)
  then have poss: "map ts_pos (if_tasks wl') = ?nz" by (simp add: ts comp_def)
  have ready_at: "ready_pos heap ?bs p" "length (task_pieces chunk heap ?bs p) < 4294967296" if "valid_pos ?bs p" for p
    using ready that unfolding workload_ready_def set_positions by blast+
  have vz: "\<forall>z\<in>set ?zs. valid_pos ?bs z" by (simp add: set_positions)
  have v': "valid_pos (batches_of wl') p \<longleftrightarrow> valid_pos ?bs p" for p
    unfolding bs' by (rule valid_pos_same [OF finish_positions_same])
  note at = finish_positions_pos [OF vz, folded bs']
  have "flight_pieces chunk heap wl' = map (\<lambda>p. task_pieces chunk heap (batches_of wl') p) ?nz"
    unfolding flight_pieces_def ts by (simp add: comp_def pos)
  also have "\<dots> = ?gs" using at(1) by (intro map_cong refl) (auto simp: set_positions)
  finally have pcs: "flight_pieces chunk heap wl' = ?gs" .
  then show "concat (flight_pieces chunk heap wl') = concat ?gs" by simp
  show len: "length (if_chunk_task wl') = n" using ct count by (simp add: length_concat)
  have "?nz \<noteq> []" using count n(2) by auto
  then show "if_remaining_tasks wl' \<noteq> 0" using ts wl' by auto
  have shape: "flight_shape chunk heap base wl'"
    unfolding flight_shape_def Let_def pcs poss
  proof (intro conjI ballI allI impI)
    show "if_chunk_task wl' = owners 0 (map length ?gs)" by (rule ct)
    show "0 < length (if_chunk_task wl')" "unat base + length (if_chunk_task wl') < 18446744073709551616"
      using len n by simp_all
    show "distinct ?nz" by (simp add: distinct_positions)
    fix x assume "x \<in> set (if_tasks wl')"
    then show "valid_pos (batches_of wl') (ts_pos x)" unfolding v' ts by (auto simp: pos set_positions)
  next
    fix p assume "valid_pos (batches_of wl') p"
    then have v: "valid_pos ?bs p" using v' by simp
    then show "task_request (task_of (batches_of wl') p) < length heap"
      "req_file_index (heap ! task_request (task_of (batches_of wl') p)) = batch_file_index (batches_of wl' ! fst p)"
      "addressed (batch_params (batches_of wl' ! fst p))"
      using ready_at(1) [OF v] at(2-4) [OF v] by (simp_all add: ready_pos_def)
  qed
  have live: "base + of_nat i \<in> L" if "i < length (if_chunk_task wl')" for i
    using L that by (auto simp: block_def)
  have counts: "unat (ts_remaining_chunks (if_tasks wl' ! k)) = card (live_chunks L base (if_chunk_task wl') k)"
    "ts_remaining_chunks (if_tasks wl' ! k) \<noteq> 0" if k: "k < length (if_tasks wl')" for k
  proof -
    have kn: "k < length ?nz" using k ts by simp
    have "?nz ! k \<in> set ?nz" using kn by (rule nth_mem)
    then have v: "valid_pos ?bs (?nz ! k)" and nzk: "\<not> zero_pos ?bs (?nz ! k)" by (simp_all add: set_positions)
    have "live_chunks L base (if_chunk_task wl') k = {i. i < length (if_chunk_task wl') \<and> k = if_chunk_task wl' ! i}"
      using live by (auto simp: live_chunks_def)
    then have "card (live_chunks L base (if_chunk_task wl') k) = length (filter ((=) k) (if_chunk_task wl'))"
      by (simp add: length_filter_conv_card)
    also have "\<dots> = length (task_pieces chunk heap ?bs (?nz ! k))"
      unfolding ct using owners_count [of 0 k "map length ?gs"] kn by simp
    finally have c: "card (live_chunks L base (if_chunk_task wl') k) = length (task_pieces chunk heap ?bs (?nz ! k))" .
    have r: "unat (ts_remaining_chunks (if_tasks wl' ! k)) = length (task_pieces chunk heap ?bs (?nz ! k))"
      using ready_at(2) [OF v] kn by (simp add: ts new_task_def unat_of_nat)
    show "unat (ts_remaining_chunks (if_tasks wl' ! k)) = card (live_chunks L base (if_chunk_task wl') k)"
      using c r by simp
    have "length (task_pieces chunk heap ?bs (?nz ! k)) \<noteq> 0"
      using nzk task_pieces_zero [OF chunk, of heap ?bs "?nz ! k"] by simp
    then show "ts_remaining_chunks (if_tasks wl' ! k) \<noteq> 0" using r by (metis unat_0)
  qed
  have tasks: "ts_remaining_chunks x \<noteq> 0" "ts_error x = Success" "ts_pos x \<in> set ?nz" if "x \<in> set (if_tasks wl')" for x
    using that counts(2) unfolding in_set_conv_nth by (auto simp: ts new_task_def ts_pos_def in_set_conv_nth)
  have "flight_tasks chunk heap L G base wl'"
    unfolding flight_tasks_def Let_def
  proof (intro conjI ballI allI impI)
    fix p assume "valid_pos (batches_of wl') p"
    then have v: "valid_pos ?bs p" using v' by simp
    have "set ?nz = ts_pos ` set (if_tasks wl')" by (metis list.set_map poss)
    then show "task_finished (task_of (batches_of wl') p) \<or> p \<in> ts_pos ` set (if_tasks wl')"
      using v at(5) [OF v] by (auto simp: set_positions)
  next
    fix k assume "k < length (if_tasks wl')"
    then show "unat (ts_remaining_chunks (if_tasks wl' ! k)) = card (live_chunks L base (if_chunk_task wl') k)"
      by (rule counts(1))
  next
    fix x assume x: "x \<in> set (if_tasks wl')"
    have v: "valid_pos ?bs (ts_pos x)" using tasks(3) [OF x] by (simp add: set_positions)
    have "\<not> task_finished (task_of ?bs (ts_pos x))" using ready_at(1) [OF v] by (simp add: ready_pos_def)
    moreover have "ts_pos x \<notin> set ?zs" using tasks(3) [OF x] by simp
    ultimately have "\<not> task_finished (task_of (batches_of wl') (ts_pos x))" using at(5) [OF v] by blast
    then show "task_finished (task_of (batches_of wl') (ts_pos x)) = (ts_remaining_chunks x = 0 \<and> ts_error x = Success)"
      using tasks(1) [OF x] by simp
  next
    fix x assume "x \<in> set (if_tasks wl')" "ts_remaining_chunks x = 0 \<and> ts_error x \<noteq> Success"
    then show "map_of (if_errors wl') (batch_file_index (batches_of wl' ! ts_batch x)) \<noteq> None"
      using tasks(1) by blast
  next
    fix f c assume "map_of (if_errors wl') f = Some c"
    then show "c \<noteq> Success" by (simp add: err)
  next
    fix k i assume "i < length (if_chunk_task wl')" "if_chunk_task wl' ! i = k \<and> base + of_nat i \<notin> L"
    then show "(batch_params (batches_of wl' ! ts_batch (if_tasks wl' ! k)), concat (flight_pieces chunk heap wl') ! i) \<in> G"
      using live by blast
  qed
  moreover have "filter (\<lambda>x. ts_remaining_chunks x \<noteq> 0) (if_tasks wl') = if_tasks wl'"
    using tasks(1) by (intro filter_True) blast
  ultimately show "flight_ok chunk heap L G base wl'"
    using shape by (simp add: flight_ok_def wl')
qed

section \<open>Inserting a block\<close>

lemma read_of_insert:
  assumes ok: "blocks_ok m base" and ok': "blocks_ok (m @ [(base, wl)]) counter" and h: "h < base"
  shows "read_of chunk heap (m @ [(base, wl)]) h = read_of chunk heap m h"
proof -
  have le: "unat base + length (if_chunk_task wl) \<le> unat counter" using ok' by (simp add: blocks_ok_def)
  have other: "h \<noteq> base + of_nat i" if "i < length (if_chunk_task wl)" for i
    using unat_handle [OF le that] h by (auto simp: word_less_nat_alt)
  have "locate h (m @ [(base, wl)]) = Some (b, k) \<longleftrightarrow> locate h m = Some (b, k)" for b k
    unfolding locate_iff [OF ok] locate_iff [OF ok'] using other by auto
  then have loc: "locate h (m @ [(base, wl)]) = locate h m" by (metis option.exhaust surj_pair)
  have keys: "map_of (m @ [(base, wl)]) b = map_of m b" if here: "locate h m = Some (b, k)" for b k
  proof -
    obtain wl' where "(b, wl') \<in> set m" using here locate_iff [OF ok, of h b k] by blast
    then have "map_of m b = Some wl'" using ok by (simp add: blocks_ok_def map_of_msorted)
    then show ?thesis by (simp only: map_of_append map_add_find_right)
  qed
  show ?thesis
    using loc keys by (auto simp: read_of_def split: option.splits)
qed

lemma open_all_insert:
  assumes "(base, wl) \<notin> set m"
  shows "open_all (m @ [(base, wl)]) = open_all m + open_keys (batches_of wl)"
  using assms by (simp add: open_all_def ac_simps)

text \<open>The handles of the new block, in the order of the queue.\<close>

lemma chunks_of_nth:
  "x \<in> set (chunks_of base i gs) \<Longrightarrow> \<exists>j<length gs. x = (chunk_of base (i + j) (gs ! j), 1)"
  by (induction gs arbitrary: i) fastforce+

lemma chunk_of_simps [simp]:
  "ch_handle (chunk_of base i g) = base + of_nat i" "chunk_seg (chunk_of base i g) = g"
  by (auto simp: chunk_of_def chunk_seg_def split: prod.splits)

lemma chunks_of_handles: "map (\<lambda>(c, n). ch_handle c) (chunks_of base i gs) = map (\<lambda>j. base + of_nat j) [i..<i + length gs]"
  by (induction gs arbitrary: i) (simp_all add: upt_conv_Cons del: upt_Suc)

lemma distinct_handles:
  assumes "unat (base :: object_handle) + n \<le> unat (counter :: object_handle)"
  shows "distinct (map (\<lambda>j. base + of_nat j) [0..<n])"
proof -
  have "inj_on (\<lambda>j. base + of_nat j) {0..<n}"
  proof (rule inj_onI)
    fix x y assume xy: "x \<in> {0..<n}" "y \<in> {0..<n}" and same: "base + of_nat x = base + of_nat y"
    have "unat (base + of_nat x) = unat base + x" "unat (base + of_nat y) = unat base + y"
      using xy by (auto intro: unat_handle [OF assms])
    then show "x = y" unfolding same by linarith
  qed
  then show ?thesis by (simp add: distinct_map)
qed

section \<open>Registration\<close>

lemma respond_all_spec:
  assumes "\<forall>p\<in>set ps. ready_pos heap0 (wl_batches wl) p" and "distinct ps" and "same_heap heap0 (fst world)"
  shows "respond_all ps wl world = Inr (wl\<lparr>wl_batches := finish_positions ps (wl_batches wl)\<rparr>,
    object_run (zero_events (wl_batches wl) ps) world)"
  using assms
proof (induction ps arbitrary: wl world)
  case Nil
  then show ?case by (simp add: zero_events_def)
next
  case (Cons p ps)
  obtain i j where p: "p = (i, j)" by (cases p)
  let ?bs = "wl_batches wl"
  let ?bs1 = "?bs[i := finish_at j (?bs ! i)]" and ?t = "task_of ?bs p"
  let ?ev = "[(key_of (?bs ! i) ?t, Success)]"
  have rp: "ready_pos heap0 ?bs (i, j)" and ready: "\<forall>p\<in>set ps. ready_pos heap0 ?bs p"
    and dist: "(i, j) \<notin> set ps" "distinct ps"
    using Cons.prems(1,2) p by auto
  have v: "valid_pos ?bs (i, j)" and t: "\<not> task_finished ?t" "task_request ?t < length heap0"
    "req_file_index (heap0 ! task_request ?t) = batch_file_index (?bs ! i)"
    using rp by (simp_all add: ready_pos_def p)
  have run: "respond_success i j wl world = Inr (wl\<lparr>wl_batches := ?bs1\<rparr>, object_run ?ev world)"
    using t same_heap_task(3) [OF Cons.prems(3) t(2)]
    by (intro respond_success_spec) (simp_all add: task_of_def p)
  have r1: "\<forall>p\<in>set ps. ready_pos heap0 (wl_batches (wl\<lparr>wl_batches := ?bs1\<rparr>)) p"
  proof
    fix p' assume "p' \<in> set ps"
    then have "ready_pos heap0 ?bs p'" "p' \<noteq> (i, j)" using ready dist(1) by auto
    then show "ready_pos heap0 (wl_batches (wl\<lparr>wl_batches := ?bs1\<rparr>)) p'" using ready_pos_finish [OF v] by simp
  qed
  have "\<forall>p\<in>set ps. valid_pos ?bs p" using ready by (simp add: ready_pos_def)
  then have ev: "zero_events ?bs1 ps = zero_events ?bs ps" using dist(1) by (intro zero_events_finish [OF v]) auto
  have evs: "zero_events ?bs (p # ps) = ?ev @ zero_events ?bs ps" by (simp add: p zero_events_def)
  have "object_run (zero_events ?bs (p # ps)) world = object_run (zero_events ?bs ps) (object_run ?ev world)"
    unfolding evs by (rule object_run_append)
  moreover have "respond_all (p # ps) wl world = respond_all ps (wl\<lparr>wl_batches := ?bs1\<rparr>) (object_run ?ev world)"
    using run by (simp add: p del: object_run.simps)
  ultimately show ?case
    using Cons.IH [OF r1 dist(2) object_run_heap [OF Cons.prems(3)]] ev
    by (simp add: p del: object_run.simps)
qed

lemma report_nothing:
  assumes "if_errors wl = []"
  shows "report_workload wl Success world = world"
proof -
  have "report_events Success [] bs = []" for bs by (simp add: report_events_def batch_code_def)
  then show ?thesis using assms by (simp add: report_workload_def report_batches_run)
qed

lemma zero_events_read:
  assumes "(chunk :: size_t) \<noteq> 0" and "\<forall>p\<in>set zs. zero_pos bs p"
  shows "\<forall>e\<in>set (zero_events bs zs). event_read heap G e"
proof
  fix e assume "e \<in> set (zero_events bs zs)"
  then obtain p where p: "p \<in> set zs" "e = (key_of (bs ! fst p) (task_of bs p), Success)"
    by (auto simp: zero_events_def)
  then have "pieces chunk (task_seg heap (task_of bs p)) = []"
    using assms task_pieces_zero [OF assms(1), of heap bs p] by (simp add: task_pieces_def)
  then show "event_read heap G e"
    using fetched_pieces [OF assms(1), of "task_seg heap (task_of bs p)"] p(2)
    by (simp add: event_read_def key_of_def)
qed

text \<open>A workload without chunks is finished on the spot.\<close>

lemma enqueue_empty:
  assumes up: "up_inv outst got chunk heap w0 T q b w" and q: "cw_queue w = Some q"
    and ready: "workload_ready chunk heap wl" and none: "chunk_count chunk heap wl = 0"
  shows "\<exists>w' q'. object_enqueue oom wl w = Some (Inr (), w') \<and> cw_queue w' = Some q' \<and>
    up_inv outst got chunk heap w0 (T + open_keys (wl_batches wl)) q' b w' \<and>
    ow_counter (cw_state w') = ow_counter (cw_state w)"
proof -
  note parts = up_inv_parts [OF up] note cparts = core_parts [OF parts(7)]
  let ?bs = "wl_batches wl" and ?ps = "positions wl" and ?m = "ow_inflight (cw_state w)"
  let ?es = "zero_events (wl_batches wl) (positions wl)"
  let ?wl1 = "wl\<lparr>wl_batches := finish_positions ?ps ?bs\<rparr>"
  let ?w' = "set_state (\<lambda>s. s\<lparr>ow_world := object_run ?es (ow_world (cw_state w))\<rparr>) w"
  have ready_at: "\<forall>p\<in>set ?ps. ready_pos heap ?bs p" using ready unfolding workload_ready_def by blast
  have "total_chunks chunk wl = 0"
    using unat_total_chunks [OF ready] none by (simp add: unat_eq_0)
  moreover have "respond_all ?ps wl (ow_world (cw_state w)) = Inr (?wl1, object_run ?es (ow_world (cw_state w)))"
    by (rule respond_all_spec [OF ready_at distinct_positions log_ok_heap [OF cparts(4)]])
  ultimately have run: "object_enqueue oom wl w = Some (Inr (), ?w')"
    using parts(2) by (simp add: object_enqueue_def Let_def report_nothing inflight_of_def)
  have zero: "\<forall>p\<in>set ?ps. zero_pos ?bs p"
    using none task_pieces_zero [OF cparts(1), of heap ?bs] by (simp add: chunk_count_def)
  have "open_keys (finish_positions ?ps ?bs) = {#}"
  proof -
    have v: "\<forall>z\<in>set ?ps. valid_pos ?bs z" by (simp add: set_positions)
    have "open_tasks c = []" if c: "c \<in> set (finish_positions ?ps ?bs)" for c
    proof -
      obtain i where i: "i < length (finish_positions ?ps ?bs)" "c = finish_positions ?ps ?bs ! i"
        using c by (metis in_set_conv_nth)
      have "task_finished (batch_tasks c ! j)" if "j < length (batch_tasks c)" for j
      proof -
        have "valid_pos (finish_positions ?ps ?bs) (i, j)" using i that by (simp add: valid_pos_def)
        then have "valid_pos ?bs (i, j)" using valid_pos_same [OF finish_positions_same] by blast
        then have "task_finished (task_of (finish_positions ?ps ?bs) (i, j))"
          using finish_positions_pos(5) [OF v] by (auto simp: set_positions)
        then show ?thesis using i(2) by (simp add: task_of_def)
      qed
      then show ?thesis unfolding open_tasks_def filter_empty_conv by (metis in_set_conv_nth)
    qed
    then show ?thesis by (simp add: open_keys_def)
  qed
  moreover have "\<forall>z\<in>set ?ps. valid_pos ?bs z \<and> \<not> task_finished (task_of ?bs z)"
    using ready_at by (simp add: ready_pos_def)
  ultimately have "mset (map fst ?es) = open_keys ?bs"
    using open_keys_finish [of ?ps ?bs] distinct_positions by simp
  then have "log_ok heap w0 (T + open_keys ?bs) (got b) ?m (object_run ?es (ow_world (cw_state w)))"
    using log_ok_extend [OF cparts(4), of ?es ?m "{#}" "open_keys ?bs" "T + open_keys ?bs"]
      zero_events_read [OF cparts(1) zero] by (simp add: ac_simps)
  then have "core chunk heap w0 (T + open_keys ?bs) (set (pending_handles q) \<union> dom (outst b)) (got b)
      (credited (dom (outst b)) ?m) ?w'"
    using cparts by (intro coreI) auto
  then have "up_inv outst got chunk heap w0 (T + open_keys ?bs) q b ?w'"
    using parts by (intro up_invI) auto
  then show ?thesis using run q by auto
qed

text \<open>The keys of a workload whose tasks without bytes are finished.\<close>

lemma zeros_done:
  assumes "workload_ready chunk heap wl" and "distinct zs"
    and "set zs \<subseteq> {p \<in> set (positions wl). zero_pos (wl_batches wl) p}"
  shows "mset (map fst (zero_events (wl_batches wl) zs)) + open_keys (finish_positions zs (wl_batches wl)) =
    open_keys (wl_batches wl)"
proof (rule open_keys_finish [OF _ assms(2)])
  show "\<forall>z\<in>set zs. valid_pos (wl_batches wl) z \<and> \<not> task_finished (task_of (wl_batches wl) z)"
    using assms(1,3) by (auto simp: workload_ready_def ready_pos_def)
qed

lemma log_ok_insert:
  assumes log: "log_ok heap w0 T G m world" and ready: "workload_ready chunk heap wl" and "chunk \<noteq> 0"
    and zs: "distinct zs" "set zs \<subseteq> {p \<in> set (positions wl). zero_pos (wl_batches wl) p}"
    and wl': "batches_of wl' = finish_positions zs (wl_batches wl)" and "(base, wl') \<notin> set m"
  shows "log_ok heap w0 (T + open_keys (wl_batches wl)) G (m @ [(base, wl')])
    (object_run (zero_events (wl_batches wl) zs) world)"
proof (rule log_ok_extend [OF log])
  show "mset (map fst (zero_events (wl_batches wl) zs)) + open_all (m @ [(base, wl')]) + {#} =
      open_all m + open_keys (wl_batches wl)"
    using open_all_insert [OF assms(7)] zeros_done [OF ready zs] by (simp add: wl' ac_simps)
  show "\<forall>e\<in>set (zero_events (wl_batches wl) zs). event_read heap G e"
    using zs(2) by (intro zero_events_read [OF \<open>chunk \<noteq> 0\<close>]) auto
  show "T + open_keys (wl_batches wl) + {#} = T + open_keys (wl_batches wl)" by simp
qed

lemma counter_add:
  assumes "unat c + n < 18446744073709551616"
  shows "unat (c + of_nat n :: object_handle) = unat c + n"
  using assms by (simp add: unat_add_small unat_of_nat)

text \<open>The state after a successful registration.\<close>

lemma inserted_inv:
  fixes w :: "'b object_worker"
  assumes up: "up_inv outst got chunk heap w0 T q b w" and q: "cw_queue w = Some q"
    and ready: "workload_ready chunk heap wl"
    and n: "n = chunk_count chunk heap wl" "0 < n" "unat base + n < 18446744073709551616"
    and base: "base = ow_counter (cw_state w)"
    and added: "tasks_added chunk heap base (positions wl) 0
      ((inflight_of wl)\<lparr>if_chunk_task := replicate n 0\<rparr>) q wl1 q'"
    and q': "cq_capacity q' = cq_capacity q" "cq_inflight q' = cq_inflight q"
    and wl': "wl' = wl1\<lparr>if_remaining_tasks := length (if_tasks wl1)\<rparr>"
    and zs: "zs = filter (zero_pos (wl_batches wl)) (positions wl)"
    and w': "cw_queue w' = Some q'" "ow_reader (cw_state w') = Some b" "ow_chunk_bytesize (cw_state w') = chunk"
      "ow_inflight (cw_state w') = mput base wl' (ow_inflight (cw_state w))"
      "ow_counter (cw_state w') = base + of_nat n"
      "ow_world (cw_state w') = object_run (zero_events (wl_batches wl) zs) (ow_world (cw_state w))"
  shows "up_inv outst got chunk heap w0 (T + open_keys (wl_batches wl)) q' b w'"
proof -
  note parts = up_inv_parts [OF up] note cparts = core_parts [OF parts(7)]
  let ?m = "ow_inflight (cw_state w)" and ?D = "dom (outst b)" and ?P = "set (pending_handles q)"
  let ?bs = "wl_batches wl"
  let ?gs = "concat (map (task_pieces chunk heap (wl_batches wl)) (filter (\<lambda>p. \<not> zero_pos (wl_batches wl) p) (positions wl)))"
  let ?L = "?P \<union> ?D \<union> block base wl'"
  note new = new_flight [OF ready cparts(1) n added wl', of ?L]
  have len: "length (if_chunk_task wl') = n" "length ?gs = n"
    using new(1) chunk_count_pieces [OF cparts(1), of heap wl] n(1) by simp_all
  have c: "unat (base + of_nat n) = unat base + n" by (rule counter_add [OF n(3)])
  have blocks: "blocks_ok ?m base" using cparts(2) base by simp
  note ins = blocks_ok_insert [OF blocks, of wl' "base + of_nat n"]
  have m': "mput base wl' ?m = ?m @ [(base, wl')]" and blocks': "blocks_ok (?m @ [(base, wl')]) (base + of_nat n)"
    using ins len c n(2) by simp_all
  note inm = w'(4) [unfolded m']
  have pend: "cq_pending q' = cq_pending q @ chunks_of base 0 ?gs"
    using added unfolding tasks_added_def Let_def by (simp add: inflight_of_def)
  then have handles: "pending_handles q' = pending_handles q @ map (\<lambda>j. base + of_nat j) [0..<n]"
    unfolding pending_handles_def using chunks_of_handles [of base 0 ?gs] len(2) by simp
  have blk: "set (map (\<lambda>j. base + of_nat j) [0..<n]) = block base wl'" using len(1) by (auto simp: block_def)
  have P': "set (pending_handles q') = ?P \<union> block base wl'" unfolding handles using blk by simp
  have below: "h < base" if "h \<in> ?P \<union> ?D" for h using parts(6) that base by simp
  have le: "unat base + length (if_chunk_task wl') \<le> unat (base + of_nat n)" using c len by simp
  have above: "\<not> h < base" "h < base + of_nat n" if "h \<in> block base wl'" for h
    using block_interval [OF le, of h] that c len by (auto simp: word_less_nat_alt)
  have old: "read_of chunk heap (?m @ [(base, wl')]) h = read_of chunk heap ?m h" if "h \<in> ?P \<union> ?D" for h
    by (rule read_of_insert [OF blocks blocks' below [OF that]])
  have cred: "credited ?D (?m @ [(base, wl')]) = credited ?D ?m"
    using old by (intro credited_same [OF blocks blocks']) blast
  have fresh: "(base, wl') \<notin> set ?m"
  proof
    assume "(base, wl') \<in> set ?m"
    then have "unat base + n \<le> unat base" using blocks len(1) by (auto simp: blocks_ok_def)
    then show False using n(2) by simp
  qed
  have flights: "\<forall>p\<in>set (?m @ [(base, wl')]). flight_ok chunk heap ?L (got b) (fst p) (snd p) \<and> if_remaining_tasks (snd p) \<noteq> 0"
  proof
    fix p assume p: "p \<in> set (?m @ [(base, wl')])"
    obtain b1 wl1 where bw: "p = (b1, wl1)" by (cases p)
    show "flight_ok chunk heap ?L (got b) (fst p) (snd p) \<and> if_remaining_tasks (snd p) \<noteq> 0"
    proof (cases "p = (base, wl')")
      case True
      then show ?thesis using new(2,3) by simp
    next
      case False
      then have in_m: "(b1, wl1) \<in> set ?m" using p bw by auto
      then have "b1 \<noteq> base" using blocks n(2) unfolding blocks_ok_def by fastforce
      then have "block b1 wl1 \<inter> block base wl' = {}"
        using in_m by (intro blocks_disjoint [OF blocks']) auto
      then have "(?P \<union> ?D) \<inter> block b1 wl1 = ?L \<inter> block b1 wl1" by blast
      then show ?thesis using cparts(3) [OF in_m] flight_ok_live bw by fastforce
    qed
  qed
  have log: "log_ok heap w0 (T + open_keys ?bs) (got b) (?m @ [(base, wl')]) (ow_world (cw_state w'))"
    unfolding w'(6) using added zs
    by (intro log_ok_insert [OF cparts(4) ready cparts(1) _ _ _ fresh])
      (auto simp: distinct_positions wl' tasks_added_def Let_def inflight_of_def)
  have locs: "\<forall>h\<in>credited ?D ?m. locate h (?m @ [(base, wl')]) \<noteq> None"
    unfolding cred [symmetric] by (simp add: credited_def)
  obtain cap: "cq_capacity q' \<noteq> 0" "unat (cq_inflight q') = card (credited ?D ?m)"
    using cparts(5) q q' by auto
  have core: "core chunk heap w0 (T + open_keys ?bs) ?L (got b) (credited ?D ?m) w'"
    using cparts(1,6,7) blocks' flights log locs cap w'(1) unfolding core_def Let_def inm w'(5) by auto
  show ?thesis
  proof (rule up_invI)
    show "ow_reader (cw_state w') = Some b" "ow_chunk_bytesize (cw_state w') = chunk" "finite ?D"
      using w'(2,3) parts(3) by simp_all
    have "set (pending_handles q) \<inter> set (map (\<lambda>j. base + of_nat j) [0..<n]) = {}"
      unfolding blk using below above(1) by blast
    then show "distinct (pending_handles q')"
      unfolding handles using parts(4) distinct_handles [of base n "base + of_nat n"] c by simp
    show "set (pending_handles q') \<inter> ?D = {}" unfolding P' using parts(5) below above(1) by blast
    show "\<forall>h\<in>set (pending_handles q') \<union> ?D. h < ow_counter (cw_state w')"
    proof
      fix h assume "h \<in> set (pending_handles q') \<union> ?D"
      then have "h < base \<or> h \<in> block base wl'" using below P' by blast
      then show "h < ow_counter (cw_state w')"
        unfolding w'(5) using above(2) [of h] c by (auto simp: word_less_nat_alt)
    qed
    show "core chunk heap w0 (T + open_keys ?bs) (set (pending_handles q') \<union> ?D) (got b)
        (credited ?D (ow_inflight (cw_state w'))) w'"
      using core unfolding P' inm cred by (simp add: Un_ac)
    show "\<forall>(c, n)\<in>set (cq_pending q'). n = 1 \<and>
        (\<exists>ps. read_of chunk heap (ow_inflight (cw_state w')) (ch_handle c) = Some (ps, chunk_seg c))"
    proof
      fix y assume "y \<in> set (cq_pending q')"
      then consider "y \<in> set (cq_pending q)" | "y \<in> set (chunks_of base 0 ?gs)" using pend by auto
      then show "case y of (c, n) \<Rightarrow> n = 1 \<and>
          (\<exists>ps. read_of chunk heap (ow_inflight (cw_state w')) (ch_handle c) = Some (ps, chunk_seg c))"
      proof cases
        case 1
        then have "ch_handle (fst y) \<in> ?P" by (force simp: pending_handles_def case_prod_unfold)
        then show ?thesis using parts(8) old 1 unfolding inm by (auto simp: case_prod_unfold)
      next
        case 2
        from chunks_of_nth [OF 2] obtain j where j: "j < n" "y = (chunk_of base j (?gs ! j), 1)"
          using len(2) by auto
        have "(base, wl') \<in> set (?m @ [(base, wl')])" by simp
        from read_of_at [OF blocks' this, of j chunk heap] show ?thesis
          unfolding inm using j len(1) new(4) by simp
      qed
    qed
    show "\<forall>h\<in>?D. \<forall>x. read_of chunk heap (ow_inflight (cw_state w')) h = Some x \<longrightarrow> outst b h = Some x"
      using parts(9) old unfolding inm by auto
  qed
qed

lemma blocks_below: "blocks_ok m counter \<Longrightarrow> \<forall>p\<in>set m. fst p < counter"
proof
  fix p assume "blocks_ok m counter" and "p \<in> set m"
  then have "0 < length (if_chunk_task (snd p))" "unat (fst p) + length (if_chunk_task (snd p)) \<le> unat counter"
    by (auto simp: blocks_ok_def)
  then show "fst p < counter" unfolding word_less_nat_alt by linarith
qed

text \<open>A registration that is given up after the workload was moved into its entry.\<close>

lemma registration_aborted:
  fixes w :: "'b object_worker"
  assumes up: "up_inv outst got chunk heap w0 T q b w" and q: "cw_queue w = Some q"
    and ready: "workload_ready chunk heap wl"
    and n: "unat (ow_counter (cw_state w)) + n < 18446744073709551616"
    and q1: "cq_capacity q1 = cq_capacity q"
    and bs1: "wl_batches (if_workload wl1) = finish_positions zs (wl_batches wl)"
    and zs: "distinct zs" "set zs \<subseteq> {p \<in> set (positions wl). zero_pos (wl_batches wl) p}"
    and w2: "w2 = set_inflight (ow_counter (cw_state w)) wl1
      (object_run (zero_events (wl_batches wl) zs) (ow_world (cw_state w)))
      ((set_state (\<lambda>s. s\<lparr>ow_counter := ow_counter (cw_state w) + of_nat n\<rparr>) w)\<lparr>cw_queue := Some q1\<rparr>)"
  shows "cw_queue (abort_all UnknownError w2) = Some (cq_clear q1) \<and>
    up_inv outst got chunk heap w0 (T + open_keys (wl_batches wl)) (cq_clear q1) b (abort_all UnknownError w2) \<and>
    ow_counter (cw_state (abort_all UnknownError w2)) = ow_counter (cw_state w) + of_nat n"
proof -
  note parts = up_inv_parts [OF up] note cparts = core_parts [OF parts(7)]
  let ?m = "ow_inflight (cw_state w)" and ?base = "ow_counter (cw_state w)"
  have below: "\<forall>p\<in>set ?m. fst p < ?base" by (rule blocks_below [OF cparts(2)])
  then have fresh: "(?base, x) \<notin> set ?m" for x by auto
  have m': "mput ?base wl1 ?m = ?m @ [(?base, wl1)]" by (rule mput_last [OF below])
  have log2: "log_ok heap w0 (T + open_keys (wl_batches wl)) (got b) (?m @ [(?base, wl1)])
      (object_run (zero_events (wl_batches wl) zs) (ow_world (cw_state w)))"
    by (rule log_ok_insert [OF cparts(4) ready cparts(1) zs bs1 fresh])
  have sorted: "msorted ?m" using cparts(2) by (simp add: blocks_ok_def)
  then have "msorted (mput ?base wl1 ?m)" by simp
  then have log: "loggable chunk heap w0 (T + open_keys (wl_batches wl)) (got b) w2"
    using log2 cparts(1,5) q q1 by (simp add: w2 loggable_def m')
  have "\<forall>h\<in>dom (outst b). h < ow_counter (cw_state w2)"
  proof
    fix h assume "h \<in> dom (outst b)"
    then have "h < ?base" using parts(6) by blast
    then show "h < ow_counter (cw_state w2)"
      using counter_add [OF n] by (simp add: w2 word_less_nat_alt)
  qed
  note ab = aborted_inv [where outst = outst and got = got, OF log _ subset_refl _ _ _ parts(3) this,
      of UnknownError q1]
  show ?thesis using ab(1-3) parts(1,2) by (simp add: w2)
qed

text \<open>
  A registration without memory for its node: what was in flight is aborted, and the workload is not
  among it.
\<close>

lemma registration_lost:
  fixes w :: "'b object_worker"
  assumes up: "up_inv outst got chunk heap w0 T q b w" and q: "cw_queue w = Some q"
    and n: "unat (ow_counter (cw_state w)) + n < 18446744073709551616"
    and w2: "w2 = set_state (\<lambda>s. s\<lparr>ow_counter := ow_counter (cw_state w) + of_nat n\<rparr>) w"
  shows "cw_queue (abort_all UnknownError w2) = Some (cq_clear q) \<and>
    up_inv outst got chunk heap w0 T (cq_clear q) b (abort_all UnknownError w2) \<and>
    ow_counter (cw_state (abort_all UnknownError w2)) = ow_counter (cw_state w) + of_nat n"
proof -
  note parts = up_inv_parts [OF up]
  have log: "loggable chunk heap w0 T (got b) w2"
    using core_loggable [OF parts(7)] by (simp add: w2 loggable_def)
  have "\<forall>h\<in>dom (outst b). h < ow_counter (cw_state w2)"
  proof
    fix h assume "h \<in> dom (outst b)"
    then have "h < ow_counter (cw_state w)" using parts(6) by blast
    then show "h < ow_counter (cw_state w2)"
      using counter_add [OF n] by (simp add: w2 word_less_nat_alt)
  qed
  note ab = aborted_inv [where outst = outst and got = got, OF log _ subset_refl _ _ _ parts(3) this,
      of UnknownError q]
  show ?thesis using ab(1-3) parts(1,2) q by (simp add: w2)
qed

lemma enqueue_block:
  fixes w :: "'b object_worker"
  assumes up: "up_inv outst got chunk heap w0 T q b w" and q: "cw_queue w = Some q"
    and ready: "workload_ready chunk heap wl"
    and n: "n = chunk_count chunk heap wl" "0 < n" "unat (ow_counter (cw_state w)) + n < 18446744073709551616"
  shows "\<exists>w' q' T'. object_enqueue oom wl w = Some (Inr (), w') \<and> cw_queue w' = Some q' \<and>
    up_inv outst got chunk heap w0 T' q' b w' \<and>
    ow_counter (cw_state w') = ow_counter (cw_state w) + of_nat n \<and>
    T' = (if oom (AllocNode (ow_counter (cw_state w))) then T else T + open_keys (wl_batches wl))"
proof -
  note parts = up_inv_parts [OF up] note cparts = core_parts [OF parts(7)]
  let ?bs = "wl_batches wl" and ?m = "ow_inflight (cw_state w)" and ?base = "ow_counter (cw_state w)"
  let ?wl0 = "(inflight_of wl)\<lparr>if_chunk_task := replicate n 0\<rparr>"
  let ?w0 = "set_state (\<lambda>s. s\<lparr>ow_counter := ?base + of_nat n\<rparr>) w"
  have n64: "n < 18446744073709551616" using n(3) by linarith
  have u: "unat (total_chunks chunk wl) = n" using unat_total_chunks [OF ready] n n64 by simp
  then have total: "total_chunks chunk wl = of_nat n" "total_chunks chunk wl \<noteq> 0"
    using n(2) by auto
  have below: "\<forall>p\<in>set ?m. fst p < ?base" by (rule blocks_below [OF cparts(2)])
  have fresh: "map_of ?m ?base = None" "(?base, x) \<notin> set ?m" for x
    using below by (auto simp: map_of_eq_None_iff)
  note aborted = registration_aborted [OF up q ready n(3)]
  show ?thesis
  proof (cases "oom (AllocNode ?base) \<or> oom (AllocIndex ?base)")
    case True
    show ?thesis
    proof (cases "oom (AllocNode ?base)")
      case True
      then have "object_enqueue oom wl w = Some (Inr (), abort_all UnknownError ?w0)"
        using total parts(2) q by (simp add: object_enqueue_def Let_def)
      then show ?thesis
        using registration_lost [OF up q n(3) refl] True by (intro exI [of _ "abort_all UnknownError ?w0"]) simp
    next
      case False
      let ?w1 = "set_inflight ?base (inflight_of wl) (ow_world (cw_state w)) ?w0"
      have run: "object_enqueue oom wl w = Some (Inr (), abort_all UnknownError ?w1)"
        using False True total parts(2) q fresh(1) by (simp add: object_enqueue_def Let_def)
      have "?w1 = set_inflight ?base (inflight_of wl)
          (object_run (zero_events ?bs []) (ow_world (cw_state w))) (?w0\<lparr>cw_queue := Some q\<rparr>)"
        using q by (simp add: zero_events_def set_inflight_def set_state_def)
      from aborted [OF refl _ _ _ this] run False show ?thesis
        by (simp add: inflight_of_def)
    qed
  next
    case mem: False
    have ready_at: "\<forall>p\<in>set (positions wl). ready_pos heap (wl_batches (if_workload ?wl0)) p"
      using ready unfolding workload_ready_def by (simp add: inflight_of_def)
    have fits: "0 + sum_list (map (\<lambda>p. length (task_pieces chunk heap (wl_batches (if_workload ?wl0)) p)) (positions wl))
        \<le> length (if_chunk_task ?wl0)"
      using n(1) by (simp add: chunk_count_def inflight_of_def)
    obtain r wl1 q1 world zs where
      et: "enqueue_tasks oom chunk ?base (positions wl) 0 ?wl0 q (ow_world (cw_state w)) = Some (r, wl1, q1, world)"
      and q1: "cq_capacity q1 = cq_capacity q" "cq_inflight q1 = cq_inflight q"
      and bs1: "wl_batches (if_workload wl1) = finish_positions zs ?bs"
      and world: "world = object_run (zero_events ?bs zs) (ow_world (cw_state w))"
      and zs: "distinct zs" "set zs \<subseteq> {p \<in> set (positions wl). zero_pos ?bs p}"
      and res: "r = Inr () \<longrightarrow> tasks_added chunk heap ?base (positions wl) 0 ?wl0 q wl1 q1 \<and> zs = filter (zero_pos ?bs) (positions wl)"
      using enqueue_tasks_spec [OF cparts(1) ready_at distinct_positions log_ok_heap [OF cparts(4)] fits, of oom ?base q]
      by (auto simp: inflight_of_def)
    let ?w1 = "?w0\<lparr>cw_queue := Some q1\<rparr>"
    have run: "object_enqueue oom wl w = (case r of
        Inl e \<Rightarrow> Some (Inr (), abort_all UnknownError (set_inflight ?base wl1 world ?w1))
      | Inr u \<Rightarrow> Some (Inr (), set_inflight ?base (wl1\<lparr>if_remaining_tasks := length (if_tasks wl1)\<rparr>) world ?w1))"
      using mem total parts(2) q fresh(1) et u by (simp add: object_enqueue_def Let_def set_state_def split: sum.splits)
    show ?thesis
    proof (cases r)
      case (Inl e)
      from aborted [OF q1(1) bs1 zs refl] show ?thesis
        using run Inl mem by (simp add: world)
    next
      case (Inr u)
      let ?w2 = "set_inflight ?base (wl1\<lparr>if_remaining_tasks := length (if_tasks wl1)\<rparr>) world ?w1"
      have added: "tasks_added chunk heap ?base (positions wl) 0 ?wl0 q wl1 q1"
        and zs': "zs = filter (zero_pos ?bs) (positions wl)"
        using res Inr by simp_all
      have "up_inv outst got chunk heap w0 (T + open_keys ?bs) q1 b ?w2"
        by (rule inserted_inv [OF up q ready n refl added q1 refl zs']) (simp_all add: parts(1,2) world)
      then show ?thesis using run Inr mem by simp
    qed
  qed
qed

text \<open>
  What \<open>enqueue\<close> keeps: the keys of the workload are owed from then on, unless there was no memory for
  its node.
\<close>

lemma object_enqueue_law:
  fixes w :: "'b object_worker"
  assumes "up_inv outst got chunk heap w0 T q b w" and "cw_queue w = Some q" and "workload_ready chunk heap wl"
    and "unat (ow_counter (cw_state w)) + chunk_count chunk heap wl < 18446744073709551616"
  shows "\<exists>w' q' T'. object_enqueue oom wl w = Some (Inr (), w') \<and> cw_queue w' = Some q' \<and>
    up_inv outst got chunk heap w0 T' q' b w' \<and>
    ow_counter (cw_state w') = ow_counter (cw_state w) + of_nat (chunk_count chunk heap wl) \<and>
    (T' = T + open_keys (wl_batches wl) \<or> T' = T \<and> oom (AllocNode (ow_counter (cw_state w))))"
proof (cases "chunk_count chunk heap wl = 0")
  case True
  then show ?thesis using enqueue_empty [OF assms(1-3) True, of oom] by (simp del: ex_simps) blast
next
  case False
  then show ?thesis using enqueue_block [OF assms(1-3) refl _ assms(4), of oom]
    by (cases "oom (AllocNode (ow_counter (cw_state w)))") auto
qed

end
