(* ===== verification/ObjectStorage.thy ===== *)
theory ObjectStorage
  imports ObjectAdmitting
begin

text \<open>
  The object-storage worker as a whole: its hooks are an instance of the interface of the base
  class, and so the worker serves any schedule of workloads: it always comes to rest, and then
  every task of every workload has been finished exactly once.
\<close>

section \<open>Creating the client\<close>

lemma window_chunks_nonzero: "window_chunks n chunk \<noteq> 0"
proof -
  have "max 1 m \<noteq> (0 :: size_t)" for m
    by (metis linorder_not_le max.cobounded1 word_coorder.extremum_unique zero_neq_one)
  then show ?thesis by (simp add: window_chunks_def)
qed

text \<open>What creating the client changes of a worker, and how it fails.\<close>

lemma build_reader_cases:
  assumes client: "client_ok chunk limit client okb outst got" and run: "build_reader env cred client wl w = (r, w1)"
    and chunk: "max 1 (s3_block_bytesize (batch_config (wl_batches wl ! 0))) = chunk"
  shows "cw_queue w1 = cw_queue w \<and> ow_inflight (cw_state w1) = ow_inflight (cw_state w) \<and>
    ow_counter (cw_state w1) = ow_counter (cw_state w) \<and> ow_world (cw_state w1) = ow_world (cw_state w) \<and>
    ow_chunk_bytesize (cw_state w1) = max 1 (s3_block_bytesize (batch_config (wl_batches wl ! 0))) \<and>
    (case r of
       Inl e \<Rightarrow> e \<noteq> Trap \<and> ow_reader (cw_state w1) = ow_reader (cw_state w)
     | Inr b \<Rightarrow> ow_reader (cw_state w1) = Some b \<and> okb b \<and> outst b = Map.empty)"
proof -
  have create: "case oc_create client ps of Inl e \<Rightarrow> e \<noteq> Trap | Inr b \<Rightarrow> okb b \<and> outst b = Map.empty"
    if "params_chunk_bytesize ps = chunk" for ps
    using client that unfolding client_ok_def by blast
  let ?chunk = "max 1 (s3_block_bytesize (batch_config (wl_batches wl ! 0)))"
  show ?thesis
  proof (cases "getenv_ulong_or env ''RUNAI_STREAMER_INTERNAL_MAX_RESPONSES'' 1")
    case (Inl e)
    then show ?thesis
      using run getenv_ulong_or_error [OF Inl] by (auto simp: build_reader_def Let_def)
  next
    case (Inr n)
    show ?thesis
    proof (cases "params_make env (params_uri (batch_params (wl_batches wl ! 0))) cred ?chunk")
      case (Inl e)
      have "e \<noteq> Trap" using params_make_error [OF Inl] by simp
      then show ?thesis
        using run Inr Inl by (auto simp: build_reader_def Let_def split: exn.splits)
    next
      case (Inr ps)
      then show ?thesis
        using run \<open>getenv_ulong_or _ _ _ = _\<close> create [of ps] params_make_chunk [OF Inr] chunk
        by (auto simp: build_reader_def Let_def split: sum.splits exn.splits)
    qed
  qed
qed

lemma object_capacity_law:
  fixes w :: "'b object_worker"
  assumes inv: "object_inv client okb outst got limit chunk heap w0 g w" and none: "cw_queue w = None"
    and ready: "workload_ready chunk heap wl"
  shows "\<exists>r w1. object_capacity env cred client wl w = (r, w1) \<and> ow_counter (cw_state w1) = snd g \<and>
    (case r of
       Inl e \<Rightarrow> e \<noteq> Trap \<and> cw_queue w1 = None \<and> object_inv client okb outst got limit chunk heap w0 g w1
     | Inr n \<Rightarrow> \<exists>b. okb b \<and> up_inv outst got chunk heap w0 (fst g) (cq_make n) b (w1\<lparr>cw_queue := Some (cq_make n)\<rparr>))"
proof -
  have client: "client_ok chunk limit client okb outst got"
    and counter: "ow_counter (cw_state w) = snd g" "snd g \<le> limit"
    and down: "ow_reader (cw_state w) = None" "ow_inflight (cw_state w) = []"
      "log_ok heap w0 (fst g) {} [] (ow_world (cw_state w))"
    using inv none by (simp_all add: object_inv_def)
  have first: "wl_batches wl \<noteq> []" and chunk: "max 1 (s3_block_bytesize (batch_config (wl_batches wl ! 0))) = chunk"
    using ready by (simp_all add: workload_ready_def)
  obtain r w1 where br: "build_reader env cred client wl w = (r, w1)" by fastforce
  note same = build_reader_cases [OF client br chunk]
  show ?thesis
  proof (cases r)
    case (Inl e)
    have "object_capacity env cred client wl w = (Inl e, w1)"
      using first down(1) br Inl by (simp add: object_capacity_def)
    moreover have "object_inv client okb outst got limit chunk heap w0 g w1"
      using same Inl down none client counter by (simp add: object_inv_def)
    ultimately show ?thesis using same Inl none counter by auto
  next
    case (Inr b)
    let ?n = "window_chunks (max_inflight_bytes (oc_window client b)) (ow_chunk_bytesize (cw_state w1))"
    let ?w2 = "w1\<lparr>cw_queue := Some (cq_make ?n)\<rparr>"
    have cap: "object_capacity env cred client wl w = (Inr ?n, w1)"
      using first down(1) br Inr by (simp add: object_capacity_def)
    have empty: "pending_handles (cq_make ?n) = []" "dom (outst b) = {}"
      using same Inr by (simp_all add: pending_handles_def cq_make_def)
    have "chunk \<noteq> 0"
      using chunk by (metis linorder_not_le max.cobounded1 word_coorder.extremum_unique zero_neq_one)
    moreover have "log_ok heap w0 (fst g) (got b) [] (ow_world (cw_state ?w2))"
      using log_ok_mono [OF down(3), of "got b"] same by simp
    ultimately have "core chunk heap w0 (fst g) {} (got b) {} ?w2"
      using same down window_chunks_nonzero
      by (intro coreI) (simp_all add: blocks_ok_def cq_make_def)
    then have "up_inv outst got chunk heap w0 (fst g) (cq_make ?n) b ?w2"
      using same Inr empty chunk by (intro up_invI) (auto simp: credited_def cq_make_def)
    then show ?thesis using cap same Inr counter by auto
  qed
qed

text \<open>A workload for which there is no client: every task fails.\<close>

lemma object_discard_law:
  fixes w :: "'b object_worker"
  assumes inv: "object_inv client okb outst got limit chunk heap w0 g w" and none: "cw_queue w = None"
    and "wl_batches wl \<noteq> []"
  shows "\<exists>w'. object_discard wl w = (Inr (), w') \<and>
    object_inv client okb outst got limit chunk heap w0 (fst g + open_keys (wl_batches wl), snd g) w'"
proof -
  let ?code = "if ow_reader_error (cw_state w) \<noteq> Success then ow_reader_error (cw_state w) else UnknownError"
  let ?es = "report_events ?code [] (wl_batches wl)"
  let ?w' = "set_state (\<lambda>s. s\<lparr>ow_world := object_run ?es (ow_world s), ow_reader_error := Success\<rparr>) w"
  have run: "object_discard wl w = (Inr (), ?w')"
    using assms(3) by (simp add: object_discard_def report_workload_def report_batches_run inflight_of_def Let_def)
  have client: "client_ok chunk limit client okb outst got"
    and counter: "ow_counter (cw_state w) = snd g" "snd g \<le> limit"
    and down: "ow_reader (cw_state w) = None" "ow_inflight (cw_state w) = []"
      "log_ok heap w0 (fst g) {} [] (ow_world (cw_state w))"
    using inv none by (simp_all add: object_inv_def)
  have "mset (map fst ?es) = open_keys (wl_batches wl)"
    by (rule report_events_keys) (simp add: batch_code_def)
  moreover have "\<forall>e\<in>set ?es. event_read heap {} e"
    using report_events_codes [of ?code "[]" "wl_batches wl"] by (fastforce simp: event_read_def split: prod.splits)
  ultimately have "log_ok heap w0 (fst g + open_keys (wl_batches wl)) {} [] (object_run ?es (ow_world (cw_state w)))"
    using log_ok_extend [OF down(3), of ?es "[]" "{#}" "open_keys (wl_batches wl)"] by (simp add: ac_simps)
  then have "object_inv client okb outst got limit chunk heap w0 (fst g + open_keys (wl_batches wl), snd g) ?w'"
    using client counter down none by (simp add: object_inv_def)
  then show ?thesis using run by blast
qed

section \<open>The interface of the base class\<close>

lemma object_inv_capacity:
  assumes "object_inv client okb outst got limit chunk heap w0 g w" and "cw_queue w = Some q"
  shows "cq_capacity q \<noteq> 0"
proof -
  obtain b where "up_inv outst got chunk heap w0 (fst g) q b w" using assms by (auto simp: object_inv_def)
  from core_parts(5) [OF up_inv_parts(7) [OF this]] assms(2) show ?thesis by auto
qed

interpretation objects: windowed "object_submit client" "object_drain_batch stopped client"
    "object_inv client okb outst got limit chunk heap w0" "object_weight outst"
  for client :: "'b object_client" and stopped okb outst got limit chunk heap w0
proof
  fix g and w :: "'b object_worker" and q c q'
  assume "object_inv client okb outst got limit chunk heap w0 g w" "cw_queue w = Some q" "cq_try_take q = (Some c, q')"
  then show "\<exists>w' q''. object_submit client c (w\<lparr>cw_queue := Some q'\<rparr>) = (Inr (), w') \<and>
      object_inv client okb outst got limit chunk heap w0 g w' \<and> cw_queue w' = Some q'' \<and> cq_pending q'' = cq_pending q' \<and>
      object_weight outst w' \<le> object_weight outst w"
    by (rule object_submit_law)
next
  fix g and w :: "'b object_worker" and q
  assume "object_inv client okb outst got limit chunk heap w0 g w" "cw_queue w = Some q" "\<not> cq_idle q"
  then show "\<exists>w' q'. object_drain_batch stopped client w = (Inr (), w') \<and>
      object_inv client okb outst got limit chunk heap w0 g w' \<and> cw_queue w' = Some q' \<and>
      length (cq_pending q') \<le> length (cq_pending q) \<and> object_weight outst w' < object_weight outst w"
    by (rule object_drain_law)
next
  fix g and w :: "'b object_worker" and q
  assume "object_inv client okb outst got limit chunk heap w0 g w" "cw_queue w = Some q"
  then show "cq_capacity q \<noteq> 0" by (rule object_inv_capacity)
qed

section \<open>Executing a workload\<close>

text \<open>
  The workloads to come, \<open>rs\<close>, out of all, when those accepted so far have the keys and the counter \<open>g\<close>:
  all of them can be addressed, their chunks get handles up to \<open>limit\<close>, and those accepted are the
  workloads that came before, without those whose node found no memory (\<open>nodes\<close>: every one did).
\<close>

definition requests_ready ::
  "object_handle \<Rightarrow> size_t \<Rightarrow> request_heap \<Rightarrow> bool \<Rightarrow> workload list \<Rightarrow> workload list \<Rightarrow>
    task_key multiset \<times> object_handle \<Rightarrow> bool" where
  "requests_ready limit chunk heap nodes all rs g \<longleftrightarrow> (\<forall>wl\<in>set rs. workload_ready chunk heap wl) \<and>
     (\<exists>seen served. all = seen @ rs \<and> served \<subseteq> {..<length seen} \<and>
        (nodes \<longrightarrow> served = {..<length seen}) \<and> fst g = open_keys (concat (map wl_batches (nths seen served)))) \<and>
     unat (snd g) + sum_list (map (chunk_count chunk heap) rs) \<le> unat limit"

lemma open_keys_append: "open_keys (xs @ ys) = open_keys xs + open_keys ys"
  by (simp add: open_keys_def)

lemma requests_ready_start:
  "\<forall>wl\<in>set rs. workload_ready chunk heap wl \<Longrightarrow>
    1 + sum_list (map (chunk_count chunk heap) rs) \<le> unat limit \<Longrightarrow>
    requests_ready limit chunk heap nodes rs rs ({#}, 1)"
  by (auto simp: requests_ready_def open_keys_def intro!: exI [of _ "[]"])

lemma requests_ready_end:
  "requests_ready limit chunk heap nodes all [] g \<Longrightarrow>
    \<exists>served \<subseteq> {..<length all}. (nodes \<longrightarrow> served = {..<length all}) \<and>
      fst g = open_keys (concat (map wl_batches (nths all served)))"
  by (auto simp: requests_ready_def)

lemma requests_ready_step:
  assumes "requests_ready limit chunk heap nodes all (wl # rs) g"
  shows "workload_ready chunk heap wl" and "unat (snd g) + chunk_count chunk heap wl < 18446744073709551616"
    and "requests_ready limit chunk heap nodes all rs (fst g + open_keys (wl_batches wl), snd g)"
    and "requests_ready limit chunk heap nodes all rs
      (fst g + open_keys (wl_batches wl), snd g + of_nat (chunk_count chunk heap wl))"
    and "\<not> nodes \<Longrightarrow> requests_ready limit chunk heap nodes all rs
      (fst g, snd g + of_nat (chunk_count chunk heap wl))"
    and "snd g + of_nat (chunk_count chunk heap wl) \<le> limit"
proof -
  show "workload_ready chunk heap wl"
    using assms by (simp add: requests_ready_def)
  have le: "unat (snd g) + chunk_count chunk heap wl \<le> unat limit"
    using assms by (simp add: requests_ready_def)
  then show small: "unat (snd g) + chunk_count chunk heap wl < 18446744073709551616"
    using unat_lt64 [of limit] by linarith
  show "snd g + of_nat (chunk_count chunk heap wl) \<le> limit"
    using le counter_add [OF small] by (simp add: word_le_nat_alt)
  obtain seen served where seen: "all = (seen @ [wl]) @ rs" "served \<subseteq> {..<length seen}"
    "nodes \<longrightarrow> served = {..<length seen}" "fst g = open_keys (concat (map wl_batches (nths seen served)))"
    and all: "\<forall>wl\<in>set rs. workload_ready chunk heap wl"
    using assms by (auto simp: requests_ready_def)
  have out: "length seen \<notin> served" using seen(2) by auto
  have old: "nths seen (insert (length seen) served) = nths seen served"
    unfolding nths_def by (intro arg_cong [where f = "map fst"] filter_cong) (auto simp: set_zip)
  have served: "\<exists>seen served. all = seen @ rs \<and> served \<subseteq> {..<length seen} \<and>
      (nodes \<longrightarrow> served = {..<length seen}) \<and>
      fst g + open_keys (wl_batches wl) = open_keys (concat (map wl_batches (nths seen served)))"
    by (rule exI [of _ "seen @ [wl]"], rule exI [of _ "insert (length seen) served"])
      (use seen in \<open>auto simp: nths_append open_keys_append old\<close>)
  have lost: "\<exists>seen served. all = seen @ rs \<and> served \<subseteq> {..<length seen} \<and>
      (nodes \<longrightarrow> served = {..<length seen}) \<and> fst g = open_keys (concat (map wl_batches (nths seen served)))"
    if "\<not> nodes"
    by (rule exI [of _ "seen @ [wl]"], rule exI [of _ served])
      (use seen out that in \<open>auto simp: nths_append\<close>)
  show "requests_ready limit chunk heap nodes all rs (fst g + open_keys (wl_batches wl), snd g)"
    using assms served by (simp add: requests_ready_def)
  have fits: "unat (snd g + of_nat (chunk_count chunk heap wl)) + sum_list (map (chunk_count chunk heap) rs) \<le> unat limit"
    using assms counter_add [OF small] by (simp add: requests_ready_def)
  then show "requests_ready limit chunk heap nodes all rs
      (fst g + open_keys (wl_batches wl), snd g + of_nat (chunk_count chunk heap wl))"
    using served all unfolding requests_ready_def fst_conv snd_conv by blast
  show "requests_ready limit chunk heap nodes all rs (fst g, snd g + of_nat (chunk_count chunk heap wl))"
    if "\<not> nodes"
    using lost [OF that] fits all unfolding requests_ready_def fst_conv snd_conv by blast
qed

abbreviation nodes_found :: "(allocation \<Rightarrow> bool) \<Rightarrow> bool" where
  "nodes_found oom \<equiv> \<forall>base. \<not> oom (AllocNode base)"

lemma object_admit_law:
  fixes w :: "'b object_worker"
  assumes up: "up_inv outst got chunk heap w0 (fst g) q b w" and okb: "okb b" and q: "cw_queue w = Some q"
    and client: "client_ok chunk limit client okb outst got" and counter: "ow_counter (cw_state w) = snd g"
    and ready: "requests_ready limit chunk heap (nodes_found oom) all (wl # rs) g"
  shows "\<exists>w' g'. cw_admit (object_enqueue oom) (object_submit client) (object_drain_batch stopped client) wl w =
      Some (Inr (), w') \<and> object_inv client okb outst got limit chunk heap w0 g' w' \<and> requests_ready limit chunk heap (nodes_found oom) all rs g'"
proof -
  note step = requests_ready_step [OF ready]
  obtain w1 q1 T where en: "object_enqueue oom wl w = Some (Inr (), w1)" "cw_queue w1 = Some q1"
    and up1: "up_inv outst got chunk heap w0 T q1 b w1"
    and c1: "ow_counter (cw_state w1) = ow_counter (cw_state w) + of_nat (chunk_count chunk heap wl)"
    and T: "T = fst g + open_keys (wl_batches wl) \<or> T = fst g \<and> oom (AllocNode (ow_counter (cw_state w)))"
    using object_enqueue_law [OF up q step(1), of oom] step(2) counter by auto
  let ?g = "(T, snd g + of_nat (chunk_count chunk heap wl))"
  have rest: "requests_ready limit chunk heap (nodes_found oom) all rs ?g"
    using T step(4,5) by auto
  have "object_inv client okb outst got limit chunk heap w0 ?g w1"
    using up1 en(2) client c1 counter okb step(6) by (auto simp: object_inv_def)
  from objects.admit_returns [where enqueue = "object_enqueue oom" and stopped = stopped, OF en(1) this en(2)] rest show ?thesis
    by (auto simp: objects.after_def)
qed

lemma object_execute_law:
  fixes w :: "'b object_worker"
  assumes inv: "object_inv client okb outst got limit chunk heap w0 g w" and ready: "requests_ready limit chunk heap (nodes_found oom) all (wl # rs) g"
  shows "\<exists>w' g'. object_execute env cred oom stopped client wl w = Some (Inr (), w') \<and>
    object_inv client okb outst got limit chunk heap w0 g' w' \<and> requests_ready limit chunk heap (nodes_found oom) all rs g'"
proof -
  note step = requests_ready_step [OF ready]
  have client: "client_ok chunk limit client okb outst got" and counter: "ow_counter (cw_state w) = snd g"
    using inv by (simp_all add: object_inv_def)
  show ?thesis
  proof (cases "cw_queue w")
    case (Some q)
    then obtain b where "up_inv outst got chunk heap w0 (fst g) q b w" "okb b"
      using inv by (auto simp: object_inv_def)
    from object_admit_law [OF this Some client counter ready] Some show ?thesis
      by (simp add: object_execute_def cw_execute_def)
  next
    case None
    obtain r w1 where cap: "object_capacity env cred client wl w = (r, w1)" "ow_counter (cw_state w1) = snd g"
      and res: "case r of
         Inl e \<Rightarrow> e \<noteq> Trap \<and> cw_queue w1 = None \<and> object_inv client okb outst got limit chunk heap w0 g w1
       | Inr n \<Rightarrow> \<exists>b. okb b \<and> up_inv outst got chunk heap w0 (fst g) (cq_make n) b (w1\<lparr>cw_queue := Some (cq_make n)\<rparr>)"
      using object_capacity_law [OF inv None step(1), of env cred] by blast
    show ?thesis
    proof (cases r)
      case (Inl e)
      then have down: "e \<noteq> Trap" "cw_queue w1 = None" "object_inv client okb outst got limit chunk heap w0 g w1"
        using res by simp_all
      have "wl_batches wl \<noteq> []" using step(1) by (simp add: workload_ready_def)
      from object_discard_law [OF down(3,2) this] obtain w2 where
        "object_discard wl w1 = (Inr (), w2)"
        "object_inv client okb outst got limit chunk heap w0 (fst g + open_keys (wl_batches wl), snd g) w2" by blast
      then show ?thesis
        using None cap Inl down(1) step(3) by (auto simp: object_execute_def cw_execute_def)
    next
      case (Inr n)
      then obtain b where "up_inv outst got chunk heap w0 (fst g) (cq_make n) b (w1\<lparr>cw_queue := Some (cq_make n)\<rparr>)"
        and "okb b"
        using res by auto
      from object_admit_law [OF this _ client _ ready] cap None Inr show ?thesis
        by (simp add: object_execute_def cw_execute_def)
    qed
  qed
qed

section \<open>The worker at rest\<close>

definition client_reads :: "('b \<Rightarrow> (params \<times> segment) set) \<Rightarrow> 'b object_worker \<Rightarrow> (params \<times> segment) set" where
  "client_reads got w = (case ow_reader (cw_state w) of None \<Rightarrow> {} | Some b \<Rightarrow> got b)"

text \<open>An idle worker has no workload in flight.\<close>

lemma idle_empty:
  fixes w :: "'b object_worker"
  assumes inv: "object_inv client okb outst got limit chunk heap w0 g w" and idle: "cw_idle w"
  shows "ow_inflight (cw_state w) = []" and "log_ok heap w0 (fst g) (client_reads got w) [] (ow_world (cw_state w))"
proof -
  have "ow_inflight (cw_state w) = [] \<and>
    log_ok heap w0 (fst g) (client_reads got w) (ow_inflight (cw_state w)) (ow_world (cw_state w))"
  proof (cases "cw_queue w")
    case None
    then show ?thesis using inv by (simp add: object_inv_def client_reads_def)
  next
    case (Some q)
    then obtain b where up: "up_inv outst got chunk heap w0 (fst g) q b w" using inv by (auto simp: object_inv_def)
    note parts = up_inv_parts [OF up] note cparts = core_parts [OF parts(7)]
    let ?m = "ow_inflight (cw_state w)" and ?D = "dom (outst b)"
    have rest: "cq_pending q = []" "cq_inflight q = 0" using idle Some by (simp_all add: cw_idle_def cq_idle_def)
    have P: "set (pending_handles q) = {}" by (simp add: pending_handles_def rest)
    have "card (credited ?D ?m) = 0" using cparts(5) Some rest(2) by auto
    then have none: "credited ?D ?m = {}" using cparts(6) by simp
    have "False" if p: "(base, wl) \<in> set ?m" for base wl
    proof -
      note ok = cparts(3) [OF p, unfolded P]
      then have "filter (\<lambda>x. ts_remaining_chunks x \<noteq> 0) (if_tasks wl) \<noteq> []" by (auto simp: flight_ok_def)
      then obtain x where "x \<in> set (if_tasks wl)" "ts_remaining_chunks x \<noteq> 0" by (auto simp: filter_empty_conv)
      then obtain k where k: "k < length (if_tasks wl)" "ts_remaining_chunks (if_tasks wl ! k) \<noteq> 0"
        by (auto simp: in_set_conv_nth)
      moreover have "\<forall>k<length (if_tasks wl).
          unat (ts_remaining_chunks (if_tasks wl ! k)) = card (live_chunks ({} \<union> ?D) base (if_chunk_task wl) k)"
        using ok unfolding flight_ok_def flight_tasks_def Let_def by blast
      ultimately have "card (live_chunks ?D base (if_chunk_task wl) k) \<noteq> 0" by (metis Un_empty_left unat_eq_0)
      then have "live_chunks ?D base (if_chunk_task wl) k \<noteq> {}" by auto
      then obtain i where i: "i < length (if_chunk_task wl)" "base + of_nat i \<in> ?D"
        unfolding live_chunks_def by blast
      then have "locate (base + of_nat i) ?m \<noteq> None"
        using p located_block [OF cparts(2)] by (auto simp: block_def)
      then show False using i none unfolding credited_def by blast
    qed
    then have "?m = []" by (cases ?m) auto
    then show ?thesis using cparts(4) parts(1) by (simp add: client_reads_def)
  qed
  then show "ow_inflight (cw_state w) = []"
    and "log_ok heap w0 (fst g) (client_reads got w) [] (ow_world (cw_state w))" by auto
qed

abbreviation requests_of :: "'r option list \<Rightarrow> 'r list" where
  "requests_of arrivals \<equiv> concat (map (case_option [] (\<lambda>r. [r])) arrivals)"

lemma object_worker_served:
  fixes client :: "'b object_client"
  assumes "client_ok chunk limit client okb outst got"
    and "\<forall>wl\<in>set (requests_of arrivals). workload_ready chunk (fst world) wl"
    and "1 + sum_list (map (chunk_count chunk (fst world)) (requests_of arrivals)) \<le> unat limit"
  shows "\<exists>w es served. object_serve env cred oom stopped client arrivals (object_worker_make world) = Some (Inr (), w) \<and>
    cw_idle w \<and> ow_inflight (cw_state w) = [] \<and> ow_world (cw_state w) = object_run es world \<and>
    served \<subseteq> {..<length (requests_of arrivals)} \<and>
    (nodes_found oom \<longrightarrow> served = {..<length (requests_of arrivals)}) \<and>
    mset (map fst es) = open_keys (concat (map wl_batches (nths (requests_of arrivals) served))) \<and>
    (\<forall>e\<in>set es. event_read (fst world) (client_reads got w) e)"
proof -
  let ?all = "requests_of arrivals"
  let ?ready = "requests_ready limit chunk (fst world) (nodes_found oom) ?all"
  have inv: "object_inv client okb outst got limit chunk (fst world) world ({#}, 1) (object_worker_make world)"
    using assms(1,3) by (auto simp: object_inv_def object_worker_make_def log_ok_def open_all_def word_le_nat_alt
        intro: exI [of _ "[]"])
  have "\<exists>w g. cw_serve (object_execute env cred oom stopped client)
      (cw_drain (object_submit client) (object_drain_batch stopped client)) arrivals (object_worker_make world) =
      Some (Inr (), w) \<and> object_inv client okb outst got limit chunk (fst world) world g w \<and>
      ?ready [] g \<and> cw_idle w"
  proof (rule objects.serve_returns [where ready = ?ready, OF _ inv])
    show "?ready ?all ({#}, 1)" by (rule requests_ready_start [OF assms(2,3)])
    fix r rs g and w :: "'b object_worker"
    assume "object_inv client okb outst got limit chunk (fst world) world g w" and "?ready (r # rs) g"
    then show "\<exists>w' g'. object_execute env cred oom stopped client r w = Some (Inr (), w') \<and>
        object_inv client okb outst got limit chunk (fst world) world g' w' \<and> ?ready rs g'"
      by (rule object_execute_law)
  qed
  then obtain w g where
    run: "object_serve env cred oom stopped client arrivals (object_worker_make world) = Some (Inr (), w)"
    and inv': "object_inv client okb outst got limit chunk (fst world) world g w"
    and last: "?ready [] g" and idle: "cw_idle w"
    unfolding object_serve_def object_drain_def by blast
  note rest = idle_empty [OF inv' idle]
  obtain served where served: "served \<subseteq> {..<length ?all}" "nodes_found oom \<longrightarrow> served = {..<length ?all}"
    "fst g = open_keys (concat (map wl_batches (nths ?all served)))"
    using requests_ready_end [OF last] by blast
  obtain es where "ow_world (cw_state w) = object_run es world" "mset (map fst es) = fst g"
    "\<forall>e\<in>set es. event_read (fst world) (client_reads got w) e"
    using rest(2) by (auto simp: log_ok_def open_all_def)
  then show ?thesis using run idle rest(1) served by (metis (no_types, lifting))
qed

text \<open>
  Property C4: the object-storage worker serves every schedule of workloads, whenever the stop
  flag is raised, whichever of the allocations of a registration (\<open>allocation\<close>: the node of the map,
  the index, the tasks and the entries of the chunks; the responses themselves find memory) fail,
  and whatever a client that keeps its contract (\<open>client_ok\<close>) answers, as long as the handles stay below the limit of the
  contract. The thread's loop ends, nothing is in flight, and the requests were notified by exactly
  one completion for every task of every workload served, where a success means that pieces that
  tile the task's range were read, with the parameters of its batch, to its destination. The
  workloads served (\<open>served\<close> are their positions) are all of them when every registration finds memory for its node of the map;
  otherwise some may be lost, and then as a whole: nothing is notified for any of their tasks.
\<close>

theorem object_worker_serves:
  fixes client :: "'b object_client"
  assumes "client_ok chunk limit client okb outst got"
    and "\<forall>wl\<in>set (requests_of arrivals). workload_ready chunk (fst world) wl"
    and "1 + sum_list (map (chunk_count chunk (fst world)) (requests_of arrivals)) \<le> unat limit"
  shows "\<exists>w es served. object_serve env cred oom stopped client arrivals (object_worker_make world) = Some (Inr (), w) \<and>
    cw_idle w \<and> ow_inflight (cw_state w) = [] \<and> ow_world (cw_state w) = object_run es world \<and>
    served \<subseteq> {..<length (requests_of arrivals)} \<and>
    (nodes_found oom \<longrightarrow> served = {..<length (requests_of arrivals)}) \<and>
    mset (map fst es) = open_keys (concat (map wl_batches (nths (requests_of arrivals) served))) \<and>
    (\<forall>e\<in>set es. event_read (fst world) (client_reads got w) e)"
  by (rule object_worker_served [OF assms])

text \<open>
  The loss itself: without memory for its node, a workload with chunks is taken by a worker that has
  nothing in flight, and the requests of its tasks are left as they were.
\<close>

lemma enqueue_drops:
  assumes "cw_queue w \<noteq> None" and "ow_inflight (cw_state w) = []" and "oom (AllocNode (ow_counter (cw_state w)))"
    and "total_chunks (ow_chunk_bytesize (cw_state w)) wl \<noteq> 0"
  shows "\<exists>w'. object_enqueue oom wl w = Some (Inr (), w') \<and> ow_world (cw_state w') = ow_world (cw_state w) \<and>
    ow_inflight (cw_state w') = []"
  using assms by (auto simp: object_enqueue_def Let_def abort_all_def set_state_def)

section \<open>An example\<close>

text \<open>A client that keeps the outstanding reads in a list and completes the first of them.\<close>

type_synonym sample_reads = "(object_handle \<times> params \<times> segment) list \<times> (params \<times> segment) list"

definition sample_client :: "sample_reads object_client" where
  "sample_client = \<lparr>
     oc_create = (\<lambda>ps. Inr ([], [])),
     oc_window = (\<lambda>b. (Success, ''9'')),
     oc_read = (\<lambda>ps (off, n) buf h (out, g). (Success, ((h, ps, off, n, buf) # out, g))),
     oc_wait = (\<lambda>k (out, g). case out of
         [] \<Rightarrow> ((Success, 0, []), (out, g))
       | (h, x) # rest \<Rightarrow>
           if k = 0 then ((Success, 0, []), (out, g))
           else ((Success, 1, [\<lparr>br_handle = h, br_ret = Success\<rparr>]), (filter (\<lambda>p. fst p \<noteq> h) rest, x # g)))\<rparr>"

lemma sample_client_ok:
  "client_ok chunk limit sample_client (\<lambda>b. True) (\<lambda>(out, g). map_of out) (\<lambda>(out, g). set g)"
  unfolding client_ok_def
proof (intro conjI allI impI TrueI)
  fix ps
  show "case oc_create sample_client ps of Inl e \<Rightarrow> e \<noteq> Trap
      | Inr b \<Rightarrow> True \<and> (case b of (out, g) \<Rightarrow> map_of out) = Map.empty"
    by (simp add: sample_client_def)
next
  fix ps off n buf h b c b'
  assume "oc_read sample_client ps (off, n) buf h b = (c, b')"
  then show "(case b of (out, g) \<Rightarrow> set g) \<subseteq> (case b' of (out, g) \<Rightarrow> set g)"
    "(case b' of (out, g) \<Rightarrow> map_of out) = (if c = Success then (case b of (out, g) \<Rightarrow> map_of out)(h \<mapsto> (ps, off, n, buf))
      else case b of (out, g) \<Rightarrow> map_of out)"
    by (auto simp: sample_client_def split: prod.splits)
next
  fix k :: nat and b answer b'
  assume run: "oc_wait sample_client k b = (answer, b')"
  have "map_of (filter (\<lambda>p. fst p \<noteq> h) xs) = map_of xs |` (- {h})" for h :: object_handle and xs :: "(object_handle \<times> params \<times> segment) list"
    by (induction xs) (auto simp: restrict_map_def)
  then show "round_ok (\<lambda>(out, g). map_of out) (\<lambda>(out, g). set g) k b answer b'"
    using run by (cases b; cases "fst b"; cases "k = 0")
      (auto simp: sample_client_def round_ok_def restrict_map_def map_le_def)
qed

text \<open>Two workloads: eleven bytes and nothing for the first request, five bytes for the second.\<close>

definition sample_objects :: request_heap where
  "sample_objects = [request_make 0 0 0 1 11 100, request_make 11 0 1 1 0 111, request_make 0 0 0 1 5 200]"

definition sample_object_batch :: "submission_id \<Rightarrow> task list \<Rightarrow> batch" where
  "sample_object_batch sid ts = \<lparr>batch_submission_id = sid, batch_workload_index = 0, batch_file_index = 0,
     batch_path = ''s3://b/a'', batch_params = sample_params ''s3'', batch_tasks = ts,
     batch_range = (let n = sum_list (map (\<lambda>t. ti_bytesize (task_info t)) ts) in \<lparr>bra_start = 0, bra_size = n, bra_end = n\<rparr>),
     batch_config = \<lparr>concurrency = 1, s3_concurrency = 1, s3_block_bytesize = 4, fs_block_bytesize = 4\<rparr>,
     batch_unfinished = 0\<rparr>"

definition sample_workloads :: "workload list" where
  "sample_workloads =
     [\<lparr>wl_batches = [sample_object_batch 7 [make_task 0 (make_info 0 11 0), make_task 1 (make_info 11 0 0)]],
       wl_is_object_storage = True\<rparr>,
      \<lparr>wl_batches = [sample_object_batch 8 [make_task 2 (make_info 0 5 0)]], wl_is_object_storage = True\<rparr>]"

lemma sample_positions: "positions (sample_workloads ! 0) = [(0, 0), (0, 1)]" "positions (sample_workloads ! 1) = [(0, 0)]"
  by (simp_all add: positions_def sample_workloads_def sample_object_batch_def)

lemma sample_ready: "\<forall>wl\<in>set sample_workloads. workload_ready 4 sample_objects wl"
proof -
  have two: "sample_workloads = [sample_workloads ! 0, sample_workloads ! 1]" by (simp add: sample_workloads_def)
  have "workload_ready 4 sample_objects (sample_workloads ! 0)" "workload_ready 4 sample_objects (sample_workloads ! 1)"
    using sample_positions
    by (auto simp: workload_ready_def sample_workloads_def sample_object_batch_def ready_pos_def
        valid_pos_def task_of_def make_task_def make_info_def sample_objects_def request_make_def length_task_pieces
        addressed_def sample_params_def params_none_def make_storage_uri_def Let_def schemes_def line_terminator_def)
  then show ?thesis by (subst two) simp
qed

lemma sample_counts: "sum_list (map (chunk_count 4 sample_objects) sample_workloads) = 5"
proof -
  have two: "sample_workloads = [sample_workloads ! 0, sample_workloads ! 1]" by (simp add: sample_workloads_def)
  have "chunk_count 4 sample_objects (sample_workloads ! 0) = 3" "chunk_count 4 sample_objects (sample_workloads ! 1) = 2"
    unfolding chunk_count_def sample_positions
    by (simp_all add: sample_workloads_def sample_object_batch_def task_of_def make_task_def make_info_def
        length_task_pieces)
  then show ?thesis by (subst two) simp
qed

theorem object_worker_serves_witness:
  "\<exists>w es. object_serve (\<lambda>v. None) [] (\<lambda>a. False) (\<lambda>i. False) sample_client
      [Some (sample_workloads ! 0), None, Some (sample_workloads ! 1), None]
      (object_worker_make (sample_objects, [])) = Some (Inr (), w) \<and>
    cw_idle w \<and> ow_world (cw_state w) = object_run es (sample_objects, []) \<and> length es = 3"
proof -
  let ?arrivals = "[Some (sample_workloads ! 0), None, Some (sample_workloads ! 1), None]"
  have two: "requests_of ?arrivals = sample_workloads" by (simp add: sample_workloads_def)
  have "size (open_keys (concat (map wl_batches sample_workloads))) = 3"
    by (simp add: sample_workloads_def sample_object_batch_def open_tasks_def make_task_def)
  moreover have "length es = 3" if "mset (map fst es) = open_keys (concat (map wl_batches sample_workloads))"
    for es :: "object_event list"
    using arg_cong [OF that, of size] calculation by simp
  moreover note object_worker_serves [OF sample_client_ok, where arrivals = ?arrivals and chunk = 4 and limit = 9
      and world = "(sample_objects, [])" and env = "\<lambda>v. None" and cred = "[]" and oom = "\<lambda>a. False"
      and stopped = "\<lambda>i. False", unfolded two fst_conv, OF sample_ready]
  ultimately show ?thesis unfolding sample_counts by (simp del: object_run.simps) blast
qed

end
