(* ===== verification/CApi.thy ===== *)
theory CApi
  imports Answering
begin

text \<open>
  The C interface of the library (\<open>streamer/streamer.cc\<close>): arrays of the caller become a submission,
  exceptions become codes. A pointer of the caller is null or an array; reading an array beyond its
  end, or a null string where the code requires one, is undefined and traps. Every function returns
  the integer of a code and what it wrote through the pointers it was given.
\<close>

section \<open>Codes and arrays\<close>

text \<open>The handlers at the boundary. Undefined behaviour is not an exception.\<close>

definition c_code :: "exn + response_code \<Rightarrow> exn + int" where
  "c_code r =
     (case r of
        Inr c \<Rightarrow> Inr (code_value c)
      | Inl e \<Rightarrow> if e = Trap then Inl Trap else Inr (code_value (caught_code e)))"

definition deref :: "'a list option \<Rightarrow> 'a list" where
  "deref p = (case p of None \<Rightarrow> [] | Some xs \<Rightarrow> xs)"

fun c_strings :: "string option list \<Rightarrow> nat \<Rightarrow> exn + string list" where
  "c_strings xs 0 = Inr []"
| "c_strings (Some x # xs) (Suc n) = map_sum id (Cons x) (c_strings xs n)"
| "c_strings _ (Suc n) = Inl Trap"

section \<open>Marshalling a submission\<close>

text \<open>The ranges of one file, from index \<open>base\<close> of the flat arrays on.\<close>

fun read_triples ::
  "size_t list \<Rightarrow> size_t list \<Rightarrow> ptr list \<Rightarrow> size_t \<Rightarrow> nat \<Rightarrow> exn + read_range list" where
  "read_triples offsets sizes dsts base 0 = Inr []"
| "read_triples offsets sizes dsts base (Suc n) =
     (let i = unat base in
      if i < length offsets \<and> i < length sizes \<and> i < length dsts then
        map_sum id (Cons \<lparr>rng_offset = offsets ! i, rng_size = sizes ! i, rng_dst = dsts ! i\<rparr>)
          (read_triples offsets sizes dsts (base + 1) n)
      else Inl Trap)"

text \<open>The files in their order; \<open>None\<close> once a path is null.\<close>

fun marshal_files ::
  "size_t list \<Rightarrow> size_t list \<Rightarrow> ptr list \<Rightarrow> string option list \<Rightarrow> uint list \<Rightarrow> size_t \<Rightarrow>
    exn + file_ranges list option" where
  "marshal_files offsets sizes dsts paths [] base = Inr (Some [])"
| "marshal_files offsets sizes dsts [] (n # ns) base = Inl Trap"
| "marshal_files offsets sizes dsts (None # paths) (n # ns) base = Inr None"
| "marshal_files offsets sizes dsts (Some p # paths) (n # ns) base =
     (case read_triples offsets sizes dsts base (unat n) of
        Inl e \<Rightarrow> Inl e
      | Inr rs \<Rightarrow> map_sum id (map_option (Cons \<lparr>fr_path = p, fr_ranges = rs\<rparr>))
          (marshal_files offsets sizes dsts paths ns (base + ucast n)))"

definition submit_request ::
  "os_world \<Rightarrow> uint \<Rightarrow> string option list option \<Rightarrow> uint list option \<Rightarrow> size_t list option \<Rightarrow>
    size_t list option \<Rightarrow> ptr list option \<Rightarrow> streamer \<Rightarrow>
    ((exn + response_code) \<times> submission_id \<times> streamer) option" where
  "submit_request os num_files paths num_ranges offsets sizes dsts s =
     (let n = unat num_files in
      if 0 < n \<and> (paths = None \<or> num_ranges = None) then Some (Inr InvalidParameterError, 0, s)
      else if length (deref num_ranges) < n then Some (Inl Trap, 0, s)
      else
        let counts = take n (deref num_ranges); total = sum_list (map ucast counts) :: size_t in
        if 0 < total \<and> (offsets = None \<or> sizes = None \<or> dsts = None)
        then Some (Inr InvalidParameterError, 0, s)
        else case marshal_files (deref offsets) (deref sizes) (deref dsts) (deref paths) counts 0 of
          Inl e \<Rightarrow> Some (Inl e, 0, s)
        | Inr None \<Rightarrow> Some (Inr InvalidParameterError, 0, s)
        | Inr (Some request) \<Rightarrow> async_request os request s)"

text \<open>
  \<open>runai_request\<close>: the code, and what is at \<open>out_submission_id\<close> afterwards, when it is given.
\<close>

definition runai_request ::
  "os_world \<Rightarrow> streamer option \<Rightarrow> bool \<Rightarrow> uint \<Rightarrow> string option list option \<Rightarrow> uint list option \<Rightarrow>
    size_t list option \<Rightarrow> size_t list option \<Rightarrow> ptr list option \<Rightarrow>
    ((exn + int) \<times> submission_id option \<times> streamer option) option" where
  "runai_request os handle wants_id num_files paths num_ranges offsets sizes dsts =
     (case handle of
        None \<Rightarrow> Some (c_code (Inr InvalidParameterError), if wants_id then Some 0 else None, None)
      | Some s \<Rightarrow>
          map_option (\<lambda>(r, sid, s'). (c_code r, if wants_id then Some sid else None, Some s'))
            (submit_request os num_files paths num_ranges offsets sizes dsts s))"

section \<open>The other functions\<close>

definition runai_start :: "environment \<Rightarrow> rlimit option \<Rightarrow> int \<times> streamer option" where
  "runai_start env l =
     (case config_from_env env True of
        Inl e \<Rightarrow> (code_value InvalidParameterError, None)
      | Inr cfg \<Rightarrow> (code_value Success, Some (streamer_make cfg l)))"

definition runai_set_credentials ::
  "streamer option \<Rightarrow> string option list option \<Rightarrow> string option list option \<Rightarrow> uint \<Rightarrow>
    int \<times> streamer option" where
  "runai_set_credentials handle keys vals num_params =
     (case handle of
        None \<Rightarrow> (code_value InvalidParameterError, None)
      | Some s \<Rightarrow>
          (case set_credentials (credentials_from_arrays keys vals (unat num_params)) s of
             (c, s') \<Rightarrow> (code_value c, Some s')))"

text \<open>What \<open>runai_response\<close> writes: the range, the submission and whether it is complete.\<close>

record c_answer =
  ca_file_index :: nat
  ca_index :: nat
  ca_submission_id :: "submission_id option"
  ca_done :: "bool option"

definition runai_response ::
  "os_world \<Rightarrow> streamer option \<Rightarrow> bool \<Rightarrow> bool \<Rightarrow> bool \<Rightarrow> bool \<Rightarrow> uint \<Rightarrow>
    ((exn + int) \<times> c_answer option \<times> streamer option) option" where
  "runai_response os handle wants_id has_file_index has_index wants_done timeout_ms =
     (case handle of
        None \<Rightarrow> Some (c_code (Inr InvalidParameterError), None, None)
      | Some s \<Rightarrow>
          if \<not> has_file_index \<or> \<not> has_index then Some (c_code (Inr InvalidParameterError), None, Some s)
          else case get_response os timeout_ms s of
            None \<Rightarrow> None
          | Some (Inl e, s') \<Rightarrow> Some (c_code (Inl e), None, Some s')
          | Some (Inr (r, completed), s') \<Rightarrow>
              Some (c_code (Inr (resp_ret r)),
                Some \<lparr>ca_file_index = resp_file_index r, ca_index = resp_index r,
                  ca_submission_id = (if wants_id then Some (resp_submission_id r) else None),
                  ca_done = (if wants_done then Some completed else None)\<rparr>, Some s'))"

definition runai_response_str :: "int \<Rightarrow> string" where
  "runai_response_str code = description code"

text \<open>\<open>runai_list_files\<close>: the code and the calls of the callback.\<close>

definition runai_list_files ::
  "os_world \<Rightarrow> (string \<Rightarrow> string \<Rightarrow> bool) \<Rightarrow> (params \<Rightarrow> string \<Rightarrow> bool \<Rightarrow> exn + (string \<times> size_t) list) \<Rightarrow>
    (string \<Rightarrow> bool \<Rightarrow> (string \<times> bool \<times> size_t) list option) \<Rightarrow> streamer option \<Rightarrow> string option \<Rightarrow> int \<Rightarrow>
    string option list option \<Rightarrow> uint \<Rightarrow> string option list option \<Rightarrow> uint \<Rightarrow> bool \<Rightarrow>
    (exn + int) \<times> (string \<times> size_t) list \<times> streamer option" where
  "runai_list_files os fnmatch plugin_list directory handle prefix is_recursive
      allow num_allow ignore num_ignore has_callback =
     (case (handle, prefix) of
        (Some s, Some p) \<Rightarrow>
          if \<not> has_callback then (c_code (Inr InvalidParameterError), [], handle)
          else (case (case allow of None \<Rightarrow> Inr [] | Some xs \<Rightarrow> c_strings xs (unat num_allow)) of
             Inl e \<Rightarrow> (c_code (Inl e), [], handle)
           | Inr allowed \<Rightarrow>
               (case (case ignore of None \<Rightarrow> Inr [] | Some xs \<Rightarrow> c_strings xs (unat num_ignore)) of
                  Inl e \<Rightarrow> (c_code (Inl e), [], handle)
                | Inr ignored \<Rightarrow>
                    (case list_files os fnmatch plugin_list directory p (is_recursive \<noteq> 0) allowed ignored s of
                       (Inl e, s') \<Rightarrow> (c_code (Inl e), [], Some s')
                     | (Inr files, s') \<Rightarrow> (c_code (Inr Success), files, Some s'))))
      | _ \<Rightarrow> (c_code (Inr InvalidParameterError), [], handle))"

text \<open>
  The destructor of the streamer, which \<open>runai_end\<close> runs, wakes a consumer that waits; what the
  members do at their end (the pools join their threads) is not part of it.
\<close>

definition streamer_shutdown :: "streamer \<Rightarrow> streamer" where
  "streamer_shutdown s = s\<lparr>st_responder := sq_stop (st_responder s)\<rparr>"

section \<open>Marshalling is faithful\<close>

text \<open>The flat arrays of a request, as a caller lays them out.\<close>

definition flat_ranges :: "file_ranges list \<Rightarrow> read_range list" where
  "flat_ranges request = concat (map fr_ranges request)"

definition c_request ::
  "os_world \<Rightarrow> streamer \<Rightarrow> file_ranges list \<Rightarrow> ((exn + int) \<times> submission_id option \<times> streamer option) option" where
  "c_request os s request = runai_request os (Some s) True (of_nat (length request))
     (Some (map (Some \<circ> fr_path) request)) (Some (map (of_nat \<circ> length \<circ> fr_ranges) request))
     (Some (map rng_offset (flat_ranges request))) (Some (map rng_size (flat_ranges request)))
     (Some (map rng_dst (flat_ranges request)))"

definition c_sized :: "file_ranges list \<Rightarrow> bool" where
  "c_sized request \<longleftrightarrow> length request < 4294967296 \<and>
     (\<forall>f\<in>set request. length (fr_ranges f) < 4294967296)"

lemma read_triples_flat:
  assumes "unat base + length rs \<le> length R" and "length R < 18446744073709551616"
    and "take (length rs) (drop (unat base) R) = rs"
  shows "read_triples (map rng_offset R) (map rng_size R) (map rng_dst R) base (length rs) = Inr rs"
  using assms
proof (induction rs arbitrary: base)
  case (Cons r rs)
  let ?i = "unat base"
  have i: "?i < length R" using Cons.prems(1) by simp
  then have split: "drop ?i R = R ! ?i # drop (Suc ?i) R" by (simp add: Cons_nth_drop_Suc)
  have one: "unat (base + 1) = Suc ?i" using i Cons.prems(2) by (simp add: unat_add_small)
  have r: "R ! ?i = r" "take (length rs) (drop (unat (base + 1)) R) = rs"
    using Cons.prems(3) unfolding split one by simp_all
  have "unat (base + 1) + length rs \<le> length R" using Cons.prems(1) one by simp
  from Cons.IH [OF this Cons.prems(2) r(2)] show ?case using i r(1) by (simp add: Let_def)
qed simp

lemma marshal_files_flat:
  assumes "\<forall>f\<in>set request. length (fr_ranges f) < 4294967296" and "length R < 18446744073709551616"
    and "drop (unat base) R = flat_ranges request" and "unat base \<le> length R"
  shows "marshal_files (map rng_offset R) (map rng_size R) (map rng_dst R) (map (Some \<circ> fr_path) request)
    (map (of_nat \<circ> length \<circ> fr_ranges) request) base = Inr (Some request)"
  using assms
proof (induction request arbitrary: base)
  case (Cons f request)
  let ?n = "length (fr_ranges f)"
  have small: "?n < 4294967296" using Cons.prems(1) by simp
  then have n: "unat (of_nat ?n :: uint) = ?n" by (simp add: unat_of_nat)
  have all: "drop (unat base) R = fr_ranges f @ flat_ranges request" using Cons.prems(3) by (simp add: flat_ranges_def)
  then have len: "length R = unat base + ?n + length (flat_ranges request)"
    using Cons.prems(4) by (metis add.assoc le_add_diff_inverse length_append length_drop)
  have read: "read_triples (map rng_offset R) (map rng_size R) (map rng_dst R) base ?n = Inr (fr_ranges f)"
    by (rule read_triples_flat) (use len all Cons.prems(2) in simp_all)
  have "unat (ucast (of_nat ?n :: uint) :: size_t) = ?n" using n using small by (simp add: unsigned_ucast_eq take_bit_nat_eq_self_iff)
  then have base: "unat (base + ucast (of_nat ?n :: uint)) = unat base + ?n"
    using len Cons.prems(2) by (simp add: unat_add_small)
  have "drop (unat base + ?n) R = drop ?n (drop (unat base) R)" by (simp add: add.commute)
  then have "drop (unat (base + ucast (of_nat ?n :: uint))) R = flat_ranges request"
    unfolding base all by simp
  moreover have "\<forall>f\<in>set request. length (fr_ranges f) < 4294967296"
    "unat (base + ucast (of_nat ?n :: uint)) \<le> length R" using Cons.prems(1) base len by simp_all
  ultimately show ?case using Cons.IH Cons.prems(2) read n by simp
qed simp

lemma sum_list_bound: "\<forall>x\<in>set xs. f x < b \<Longrightarrow> sum_list (map f xs) \<le> length xs * (b - 1 :: nat)"
  by (induction xs) fastforce+

lemma length_flat_ranges: "length (flat_ranges request) = sum_list (map (length \<circ> fr_ranges) request)"
  by (simp add: flat_ranges_def length_concat comp_def)

lemma flat_ranges_fit:
  assumes "c_sized request"
  shows "length (flat_ranges request) < 18446744073709551616"
proof -
  have "length (flat_ranges request) \<le> length request * 4294967295"
    using sum_list_bound [of request "length \<circ> fr_ranges" 4294967296] assms
    by (simp add: c_sized_def length_flat_ranges)
  also have "\<dots> \<le> 4294967295 * 4294967295" using assms by (intro mult_le_mono1) (simp add: c_sized_def)
  finally show ?thesis by simp
qed

lemma request_call:
  assumes "c_sized request"
  shows "c_request os s request =
    map_option (\<lambda>(r, sid, s'). (c_code r, Some sid, Some s')) (async_request os request s)"
proof -
  let ?R = "flat_ranges request"
  have n: "unat (of_nat (length request) :: uint) = length request"
    using assms by (simp add: c_sized_def unat_of_nat)
  have "marshal_files (map rng_offset ?R) (map rng_size ?R) (map rng_dst ?R) (map (Some \<circ> fr_path) request)
      (map (of_nat \<circ> length \<circ> fr_ranges) request) 0 = Inr (Some request)"
    by (rule marshal_files_flat) (use assms flat_ranges_fit [OF assms] in \<open>simp_all add: c_sized_def\<close>)
  then show ?thesis
    unfolding c_request_def runai_request_def submit_request_def
    by (simp add: n deref_def Let_def)
qed

text \<open>
  Property C22: a request that is laid out in flat arrays arrives as it was. A call of
  \<open>runai_request\<close> with the arrays of a request is the streamer's \<open>async_request\<close> of that request, for
  any number of files and of ranges that the arguments can state: no range is lost, split or given
  to another file.
\<close>

theorem request_marshalled:
  assumes "c_sized request"
  shows "c_request os s request =
    map_option (\<lambda>(r, sid, s'). (c_code r, Some sid, Some s')) (async_request os request s)"
  by (rule request_call [OF assms])

theorem request_marshalled_witness:
  "\<exists>sid s'. c_request sample_os sample_streamer sample_request = Some (Inr 0, Some sid, Some s')"
proof -
  have "c_sized sample_request" by (simp add: c_sized_def sample_request_def)
  from request_marshalled [OF this, of sample_os sample_streamer] sample_accepted show ?thesis
    by (auto simp: c_code_def)
qed

section \<open>What is refused\<close>

definition c_total :: "uint \<Rightarrow> uint list option \<Rightarrow> nat" where
  "c_total num_files num_ranges = sum_list (map unat (take (unat num_files) (deref num_ranges)))"

text \<open>The arrays that are given are long enough.\<close>

definition c_long ::
  "uint \<Rightarrow> string option list option \<Rightarrow> uint list option \<Rightarrow> size_t list option \<Rightarrow> size_t list option \<Rightarrow>
    ptr list option \<Rightarrow> bool" where
  "c_long num_files paths num_ranges offsets sizes dsts \<longleftrightarrow>
     (paths \<noteq> None \<longrightarrow> unat num_files \<le> length (deref paths)) \<and>
     (num_ranges \<noteq> None \<longrightarrow> unat num_files \<le> length (deref num_ranges)) \<and>
     (offsets \<noteq> None \<longrightarrow> c_total num_files num_ranges \<le> length (deref offsets)) \<and>
     (sizes \<noteq> None \<longrightarrow> c_total num_files num_ranges \<le> length (deref sizes)) \<and>
     (dsts \<noteq> None \<longrightarrow> c_total num_files num_ranges \<le> length (deref dsts))"

text \<open>An argument that is needed is null.\<close>

definition c_missing ::
  "uint \<Rightarrow> string option list option \<Rightarrow> uint list option \<Rightarrow> size_t list option \<Rightarrow> size_t list option \<Rightarrow>
    ptr list option \<Rightarrow> bool" where
  "c_missing num_files paths num_ranges offsets sizes dsts \<longleftrightarrow>
     0 < num_files \<and> (paths = None \<or> num_ranges = None) \<or>
     0 < c_total num_files num_ranges \<and> (offsets = None \<or> sizes = None \<or> dsts = None) \<or>
     None \<in> set (take (unat num_files) (deref paths))"

lemma c_total_bound: "c_total num_files num_ranges < 18446744073709551616"
proof -
  let ?xs = "take (unat num_files) (deref num_ranges)"
  have "c_total num_files num_ranges \<le> length ?xs * 4294967295"
    using sum_list_bound [of ?xs unat 4294967296] by (simp add: c_total_def)
  also have "\<dots> \<le> unat num_files * 4294967295" by simp
  also have "\<dots> \<le> 4294967295 * 4294967295"
    using unat_lt32 [of num_files] by (intro mult_le_mono1) linarith
  finally show ?thesis by simp
qed

lemma unat_c_total:
  "unat (sum_list (map ucast (take (unat num_files) (deref num_ranges))) :: size_t) = c_total num_files num_ranges"
proof -
  let ?xs = "take (unat num_files) (deref num_ranges)"
  have "unat (ucast x :: size_t) = unat x" for x :: uint
    by (simp add: unsigned_ucast_eq take_bit_nat_eq_self_iff less_le_trans [OF unat_lt32])
  then have "sum_list (map unat (map (ucast :: uint \<Rightarrow> size_t) ?xs)) = c_total num_files num_ranges"
    by (simp add: c_total_def comp_def)
  then show ?thesis using c_total_bound [of num_files num_ranges] unat_sum_list by metis
qed

lemma read_triples_long:
  assumes "unat base + n \<le> length offsets" and "unat base + n \<le> length sizes" and "unat base + n \<le> length dsts"
    and "unat base + n < 18446744073709551616"
  shows "\<exists>rs. read_triples offsets sizes dsts base n = Inr rs"
  using assms
proof (induction n arbitrary: base)
  case (Suc n)
  have one: "unat (base + 1) = Suc (unat base)" using Suc.prems(4) by (simp add: unat_add_small)
  with Suc.IH [of "base + 1"] Suc.prems show ?case by (auto simp: Let_def)
qed simp

lemma marshal_files_null:
  assumes "length ns \<le> length paths" and "None \<in> set (take (length ns) paths)"
    and "unat base + sum_list (map unat ns) \<le> length offsets" and "unat base + sum_list (map unat ns) \<le> length sizes"
    and "unat base + sum_list (map unat ns) \<le> length dsts" and "unat base + sum_list (map unat ns) < 18446744073709551616"
  shows "marshal_files offsets sizes dsts paths ns base = Inr None"
  using assms
proof (induction ns arbitrary: paths base)
  case (Cons n ns)
  obtain p paths' where p: "paths = p # paths'" using Cons.prems(1) by (cases paths) auto
  show ?case
  proof (cases p)
    case None
    then show ?thesis using p by simp
  next
    case (Some path)
    obtain rs where rs: "read_triples offsets sizes dsts base (unat n) = Inr rs"
      using read_triples_long [of base "unat n" offsets sizes dsts] Cons.prems by auto
    have "unat (ucast n :: size_t) = unat n"
      by (simp add: unsigned_ucast_eq take_bit_nat_eq_self_iff less_le_trans [OF unat_lt32])
    then have "unat (base + ucast n) = unat base + unat n" using Cons.prems(6) by (simp add: unat_add_small)
    then have "marshal_files offsets sizes dsts paths' ns (base + ucast n) = Inr None"
      using Cons.prems p Some by (intro Cons.IH) simp_all
    then show ?thesis using p Some rs by simp
  qed
qed simp

text \<open>
  Property C23: an argument that is needed and null is refused before it is used. Whichever of the
  arrays or of the paths is missing, and whatever the others hold, \<open>runai_request\<close> returns
  \<open>InvalidParameterError\<close> with the id 0 and leaves the streamer alone.
\<close>

theorem request_refused:
  assumes "c_long num_files paths num_ranges offsets sizes dsts"
    and "c_missing num_files paths num_ranges offsets sizes dsts"
  shows "runai_request os (Some s) wants_id num_files paths num_ranges offsets sizes dsts =
    Some (Inr 7, if wants_id then Some 0 else None, Some s)"
proof -
  let ?n = "unat num_files" and ?total = "c_total num_files num_ranges"
  let ?counts = "take (unat num_files) (deref num_ranges)"
  have "submit_request os num_files paths num_ranges offsets sizes dsts s = Some (Inr InvalidParameterError, 0, s)"
  proof (cases "0 < ?n \<and> (paths = None \<or> num_ranges = None)")
    case True
    then show ?thesis by (simp add: submit_request_def)
  next
    case there: False
    have len: "\<not> length (deref num_ranges) < ?n" using there assms(1) by (auto simp: c_long_def)
    have pos: "0 < (sum_list (map ucast ?counts) :: size_t) \<longleftrightarrow> 0 < ?total"
      using unat_c_total [of num_files num_ranges] by (metis unat_gt_0 word_gt_0)
    show ?thesis
    proof (cases "0 < ?total \<and> (offsets = None \<or> sizes = None \<or> dsts = None)")
      case True
      then show ?thesis using there len unfolding submit_request_def Let_def pos by simp
    next
      case arrays: False
      have null: "None \<in> set (take ?n (deref paths))"
        using assms(2) there arrays by (auto simp: c_missing_def unat_gt_0)
      then have "0 < ?n" by (cases ?n) auto
      then have "?n \<le> length (deref paths)" using there assms(1) by (auto simp: c_long_def)
      moreover have "?total \<le> length (deref offsets)" "?total \<le> length (deref sizes)" "?total \<le> length (deref dsts)"
        using assms(1) arrays by (auto simp: c_long_def)
      moreover have "length ?counts = ?n" "sum_list (map unat ?counts) = ?total" using len by (simp_all add: c_total_def)
      ultimately have "marshal_files (deref offsets) (deref sizes) (deref dsts) (deref paths) ?counts 0 = Inr None"
        using null c_total_bound [of num_files num_ranges] by (intro marshal_files_null) simp_all
      then show ?thesis
        using there len arrays unfolding submit_request_def Let_def pos by simp
    qed
  qed
  then show ?thesis by (simp add: runai_request_def c_code_def)
qed

theorem request_refused_witness:
  "runai_request sample_os (Some sample_streamer) True 2 (Some [Some ''a'', None]) (Some [1, 1])
    (Some [0, 0]) (Some [5, 5]) (Some [100, 200]) = Some (Inr 7, Some 0, Some sample_streamer)"
  by (subst request_refused) (simp_all add: c_long_def c_missing_def c_total_def deref_def take_Cons')

text \<open>
  Property C11: the code of \<open>runai_request\<close> is accountable. The call returns whenever the pools that
  are still to be made start all their threads or not even the first, and when it returns, it
  returns a code and never an exception. Success for a request with ranges means that it is
  registered under the returned id, with as many responses to come as it has ranges; a code other
  than \<open>Success\<close> and \<open>UnknownError\<close> means that nothing was committed: no response is owed, the
  registry and the queues are as before.
\<close>

theorem request_code_accountable:
  assumes "streamer_ok s" and "request_ok_input request" and "c_sized request"
  shows "(pools_start_cleanly os (st_pools s) \<longrightarrow> c_request os s request \<noteq> None) \<and>
    (\<forall>res. c_request os s request = Some res \<longrightarrow>
      (\<exists>code sid s'. res = (Inr code, Some sid, Some s') \<and>
        (code = 0 \<and> range_count request \<noteq> 0 \<longrightarrow> registered os request sid s s') \<and>
        (code \<noteq> 0 \<and> code \<noteq> 11 \<longrightarrow> nothing_committed s s')))"
proof (intro conjI allI impI)
  assume "pools_start_cleanly os (st_pools s)"
  from async_request_returns [OF assms(1,2) this] show "c_request os s request \<noteq> None"
    unfolding request_call [OF assms(3)] by simp
next
  fix res assume res: "c_request os s request = Some res"
  then obtain r sid s' where run: "async_request os request s = Some (r, sid, s')"
    and call: "res = (c_code r, Some sid, Some s')"
    unfolding request_call [OF assms(3)] by auto
  from async_request_outcome [OF assms(1,2) run]
  have out: "if r = Inr Success \<and> range_count request \<noteq> 0 \<or> r = Inr UnknownError
     then registered os request sid s s' else nothing_committed s s' \<and> (\<forall>e. r = Inl e \<longrightarrow> thrown e)"
    by (auto split: if_splits)
  have zero: "code_value c = 0 \<longleftrightarrow> c = Success" "code_value UnknownError = 11" for c by (cases c) simp_all
  show "\<exists>code sid s'. res = (Inr code, Some sid, Some s') \<and>
      (code = 0 \<and> range_count request \<noteq> 0 \<longrightarrow> registered os request sid s s') \<and>
      (code \<noteq> 0 \<and> code \<noteq> 11 \<longrightarrow> nothing_committed s s')"
  proof (cases r)
    case (Inl e)
    then have e: "thrown e" "nothing_committed s s'" using out by simp_all
    then have "c_code r = Inr (code_value (caught_code e))" "code_value (caught_code e) \<noteq> 0"
      using Inl zero(1) [of "caught_code e"] by (simp_all add: c_code_def thrown_def)
    then show ?thesis using call e(2) by auto
  next
    case (Inr c)
    have call': "res = (Inr (code_value c), Some sid, Some s')"
      using call Inr by (simp add: c_code_def)
    have "code_value c = 0 \<and> range_count request \<noteq> 0 \<longrightarrow> registered os request sid s s'"
      using out Inr zero(1) [of c] by auto
    moreover have "code_value c \<noteq> 0 \<and> code_value c \<noteq> 11 \<longrightarrow> nothing_committed s s'"
      using out Inr zero(1) [of c] zero(2) by (cases "c = UnknownError") auto
    ultimately show ?thesis using call' by blast
  qed
qed

theorem request_code_accountable_witness:
  "\<exists>code sid s'. c_request sample_os sample_streamer sample_request = Some (Inr code, Some sid, Some s') \<and>
    (code = 0 \<and> registered sample_os sample_request sid sample_streamer s' \<or> code = 11 \<or>
     nothing_committed sample_streamer s')"
proof -
  have "c_sized sample_request" by (simp add: c_sized_def sample_request_def)
  note accountable = request_code_accountable [OF sample_streamer_ok sample_request_input this, of sample_os]
  have "pools_start_cleanly sample_os (st_pools sample_streamer)"
    by (simp add: pools_start_cleanly_def starts_cleanly_def sample_os_def list_all_iff)
  with accountable obtain res where res: "c_request sample_os sample_streamer sample_request = Some res"
    by blast
  have "range_count sample_request \<noteq> 0"
    by (simp add: range_count_def sample_request_def)
  then show ?thesis
    using conjunct2 [OF accountable, rule_format, OF res] res by auto
qed

end
