(* ===== verification/PluginClient.thy ===== *)
theory PluginClient
  imports ObjectServing SharedQueue
begin

text \<open>
  What the clients of the three storage plugins share: a responder that expects one response for
  each read, reads handed to the provider's SDK, whose callbacks push the responses, and \<open>pop\<close>,
  which blocks until one of them has. The SDK is a parameter: the client's callback function runs
  one callback of its choice. From these the worker's client is assembled.
\<close>

section \<open>The state of a client\<close>

text \<open>
  \<open>sd_tick\<close> counts the callbacks that have run. Of the reads there are two logs: \<open>sd_issued\<close>, those
  handed to the SDK, latest first, and \<open>sd_fetched\<close>, those the SDK reported as read.
\<close>

type_synonym object_get = "object_handle \<times> string \<times> segment"

record sdk_state =
  sd_stop :: bool
  sd_responder :: "backend_response shared_queue option"
  sd_tick :: nat
  sd_issued :: "object_get list"
  sd_fetched :: "(string \<times> segment) list"

text \<open>The start of \<open>async_read\<close>: one more response is expected.\<close>

definition expect_response :: "'a sdk_state_scheme \<Rightarrow> 'a sdk_state_scheme" where
  "expect_response s = s\<lparr>sd_responder := Some (case sd_responder s of
     None \<Rightarrow> sq_make 1 FinishOnDrain | Some q \<Rightarrow> sq_increment 1 q)\<rparr>"

definition push_response :: "object_handle \<Rightarrow> response_code \<Rightarrow> 'a sdk_state_scheme \<Rightarrow> 'a sdk_state_scheme" where
  "push_response h c s = s\<lparr>sd_responder := map_option (sq_push br_ret \<lparr>br_handle = h, br_ret = c\<rparr>) (sd_responder s)\<rparr>"

text \<open>\<open>stop\<close>.\<close>

definition sdk_stop :: "'a sdk_state_scheme \<Rightarrow> 'a sdk_state_scheme" where
  "sdk_stop s = s\<lparr>sd_stop := True, sd_responder := map_option sq_stop (sd_responder s)\<rparr>"

text \<open>
  \<open>async_read_response\<close>. The \<open>pop\<close> blocks as long as nothing is ready; meanwhile the SDK runs the
  callbacks of the \<open>n\<close> reads in flight, one after the other. Without any it blocks forever.
\<close>

fun async_response ::
  "('a sdk_state_scheme \<Rightarrow> 'a sdk_state_scheme) \<Rightarrow> nat \<Rightarrow> 'a sdk_state_scheme \<Rightarrow>
    ((exn + backend_response) \<times> 'a sdk_state_scheme) option" where
  "async_response callback n s =
     (case sd_responder s of
        None \<Rightarrow> Some (Inr (sentinel_backend_response FinishedError), s)
      | Some q \<Rightarrow>
          (case sq_pop sentinel_backend_response 0 q of
             Some (Inl e) \<Rightarrow> Some (Inl e, s)
           | Some (Inr (r, q')) \<Rightarrow> Some (Inr r, s\<lparr>sd_responder := Some q'\<rparr>)
           | None \<Rightarrow>
               (case n of
                  0 \<Rightarrow> None
                | Suc m \<Rightarrow> async_response callback m (callback s))))"

declare async_response.simps [simp del]

section \<open>The invariant of a client\<close>

definition responses_of :: "'a sdk_state_scheme \<Rightarrow> backend_response list" where
  "responses_of s = (case sd_responder s of None \<Rightarrow> [] | Some q \<Rightarrow> q_responses q)"

text \<open>The handles in use: those of the reads in flight, \<open>gs\<close>, and those of the responses queued.\<close>

definition handles_of :: "object_get list \<Rightarrow> 'a sdk_state_scheme \<Rightarrow> object_handle list" where
  "handles_of gs s = map fst gs @ map br_handle (responses_of s)"

definition responder_ok :: "nat \<Rightarrow> 'a sdk_state_scheme \<Rightarrow> bool" where
  "responder_ok owed s \<longleftrightarrow>
     (case sd_responder s of
        None \<Rightarrow> owed = 0
      | Some q \<Rightarrow> sq_ok q \<and> q_mode q = FinishOnDrain \<and> unat (q_running q) = owed)"

definition response_ok :: "'a sdk_state_scheme \<Rightarrow> backend_response \<Rightarrow> bool" where
  "response_ok s r \<longleftrightarrow> br_ret r \<noteq> FinishedError \<and>
     (\<exists>x. map_of (sd_issued s) (br_handle r) = Some x \<and> (br_ret r = Success \<longrightarrow> x \<in> set (sd_fetched s)))"

definition client_inv :: "object_handle \<Rightarrow> object_get list \<Rightarrow> 'a sdk_state_scheme \<Rightarrow> bool" where
  "client_inv limit gs s \<longleftrightarrow> \<not> sd_stop s \<and> responder_ok (length gs) s \<and> distinct (handles_of gs s) \<and>
     (\<forall>h\<in>set (handles_of gs s). h < limit) \<and>
     (\<forall>(h, x)\<in>set gs. map_of (sd_issued s) h = Some x) \<and> (\<forall>r\<in>set (responses_of s). response_ok s r)"

text \<open>The reads that were accepted and not yet completed.\<close>

definition pending_reads :: "object_get list \<Rightarrow> 'a sdk_state_scheme \<Rightarrow> object_handle \<rightharpoonup> string \<times> segment" where
  "pending_reads gs s h = (if h \<in> set (handles_of gs s) then map_of (sd_issued s) h else None)"

definition log_get :: "object_get \<Rightarrow> 'a sdk_state_scheme \<Rightarrow> 'a sdk_state_scheme" where
  "log_get g s = s\<lparr>sd_issued := g # sd_issued s\<rparr>"

definition log_fetched :: "string \<times> segment \<Rightarrow> 'a sdk_state_scheme \<Rightarrow> 'a sdk_state_scheme" where
  "log_fetched x s = s\<lparr>sd_fetched := x # sd_fetched s\<rparr>"

lemma client_inv_parts:
  assumes "client_inv limit gs s"
  shows "\<not> sd_stop s" and "responder_ok (length gs) s" and "distinct (handles_of gs s)"
    and "h \<in> set (handles_of gs s) \<Longrightarrow> h < limit"
    and "(h, x) \<in> set gs \<Longrightarrow> map_of (sd_issued s) h = Some x"
    and "r \<in> set (responses_of s) \<Longrightarrow> response_ok s r"
  using assms unfolding client_inv_def by blast+

lemma unat_suc32: "unat (x :: uint) + 1 < 4294967296 \<Longrightarrow> unat (x + 1) = Suc (unat x)"
  using unat_add_lem [of x 1] by simp

lemma client_inv_dom:
  assumes inv: "client_inv limit gs s"
  shows "dom (pending_reads gs s) = set (handles_of gs s)"
proof -
  have "map_of (sd_issued s) h \<noteq> None" if here: "h \<in> set (handles_of gs s)" for h
  proof (cases "h \<in> fst ` set gs")
    case True
    then show ?thesis using client_inv_parts(5) [OF inv] by fastforce
  next
    case False
    then obtain r where "r \<in> set (responses_of s)" "h = br_handle r" using here by (auto simp: handles_of_def)
    then show ?thesis using client_inv_parts(6) [OF inv, of r] by (auto simp: response_ok_def)
  qed
  then show ?thesis by (auto simp: pending_reads_def split: if_splits)
qed

lemma client_inv_count:
  assumes "client_inv limit gs s" and "h \<notin> set (handles_of gs s)" and "h < limit"
  shows "Suc (length gs) \<le> unat limit"
proof -
  have "insert h (set (map fst gs)) \<subseteq> {..<limit}"
    using assms by (auto simp: client_inv_def handles_of_def)
  then have "card (insert h (set (map fst gs))) \<le> unat limit" by (intro card_below) blast
  moreover have "distinct (map fst gs)" using client_inv_parts(3) [OF assms(1)] by (simp add: handles_of_def)
  from distinct_card [OF this] have "card (insert h (set (map fst gs))) = Suc (length gs)"
    using assms(2) by (simp add: handles_of_def)
  ultimately show ?thesis by simp
qed

text \<open>A read: it is in flight, the others stay.\<close>

lemma client_inv_read:
  assumes inv: "client_inv limit gs s" and h: "h \<notin> set (handles_of gs s)" "h < limit"
    and limit: "unat limit < 4294967296"
    and s': "sd_responder s' = sd_responder (expect_response s)" "sd_stop s' = sd_stop s"
      "sd_issued s' = (h, x) # sd_issued s" "sd_fetched s' = sd_fetched s"
    and gs': "set gs' = insert (h, x) (set gs)" "distinct (map fst gs')"
  shows "client_inv limit gs' s'" and "pending_reads gs' s' = (pending_reads gs s)(h \<mapsto> x)"
proof -
  have resp: "responses_of s' = responses_of s"
    using s'(1) by (auto simp: responses_of_def expect_response_def sq_make_def sq_increment_def split: option.splits)
  have hs: "set (handles_of gs' s') = insert h (set (handles_of gs s))"
    using gs'(1) by (auto simp: handles_of_def resp)
  have "fst ` set gs' = insert h (fst ` set gs)" using gs'(1) by auto
  then have "card (set (map fst gs')) = Suc (card (set (map fst gs)))"
    using h(1) by (simp add: handles_of_def)
  moreover have "distinct (map fst gs)" using inv by (simp add: client_inv_def handles_of_def)
  ultimately have len: "length gs' = Suc (length gs)"
    using distinct_card [OF gs'(2)] distinct_card [of "map fst gs"] by simp
  have "Suc (length gs) < 4294967296" using client_inv_count [OF inv h] limit by linarith
  then have "responder_ok (length gs') s'"
    using client_inv_parts(2) [OF inv] s'(1) len unat_suc32
    by (auto simp: responder_ok_def expect_response_def sq_make_def sq_increment_def sq_ok_def split: option.splits)
  moreover have "distinct (handles_of gs' s')"
    using inv h(1) gs' by (auto simp: client_inv_def handles_of_def resp)
  moreover have "\<forall>k\<in>set (handles_of gs' s'). k < limit" using inv h(2) by (simp add: hs client_inv_def)
  moreover have "\<forall>(k, y)\<in>set gs'. map_of (sd_issued s') k = Some y"
  proof -
    have "k \<noteq> h" if "(k, y) \<in> set gs" for k y using that h(1) by (force simp: handles_of_def)
    then show ?thesis using inv gs'(1) s'(3) by (fastforce simp: client_inv_def)
  qed
  moreover have "response_ok s' r" if "r \<in> set (responses_of s)" for r
  proof -
    have "br_handle r \<noteq> h" using that h(1) by (force simp: handles_of_def)
    then show ?thesis using inv that s'(3,4) by (simp add: client_inv_def response_ok_def)
  qed
  ultimately show "client_inv limit gs' s'" using inv s'(2) by (simp add: client_inv_def resp)
  show "pending_reads gs' s' = (pending_reads gs s)(h \<mapsto> x)"
    using h(1) by (auto simp: pending_reads_def hs s'(3))
qed

text \<open>A callback: the response of one read in flight is queued.\<close>

lemma client_inv_answer:
  assumes inv: "client_inv limit (xs @ (h, x) # ys) s" and c: "c \<noteq> FinishedError"
    and s': "sd_responder s' = sd_responder (push_response h c s)" "sd_stop s' = sd_stop s"
      "sd_issued s' = sd_issued s" "set (sd_fetched s) \<subseteq> set (sd_fetched s')"
      "c = Success \<longrightarrow> x \<in> set (sd_fetched s')"
  shows "client_inv limit (xs @ ys) s'" and "pending_reads (xs @ ys) s' = pending_reads (xs @ (h, x) # ys) s"
proof -
  note parts = client_inv_parts [OF inv]
  obtain q where q: "sd_responder s = Some q" "sq_ok q" "q_mode q = FinishOnDrain"
    "unat (q_running q) = Suc (length (xs @ ys))"
    using parts(2) by (auto simp: responder_ok_def split: option.splits)
  let ?q = "sq_push br_ret \<lparr>br_handle = h, br_ret = c\<rparr> q"
  have pos: "0 < q_running q" using q(4) by (simp add: word_less_nat_alt)
  note push = sq_push_ok [OF q(2), of br_ret "\<lparr>br_handle = h, br_ret = c\<rparr>"]
  have q': "sd_responder s' = Some ?q" using s'(1) q(1) by (simp add: push_response_def)
  have resp: "responses_of s' = responses_of s @ [\<lparr>br_handle = h, br_ret = c\<rparr>]"
    using push(2) pos q(1) q' by (simp add: responses_of_def)
  have mode: "q_mode ?q = FinishOnDrain"
    using q(3) by (simp add: sq_push_def push_locked_def sq_post_def Let_def split: prod.splits if_splits)
  have run: "unat (q_running ?q) = length (xs @ ys)"
    using push(2) pos q(4) by (simp add: unat_sub word_le_nat_alt)
  have hs: "set (handles_of (xs @ ys) s') = set (handles_of (xs @ (h, x) # ys) s)"
    by (auto simp: handles_of_def resp)
  show "client_inv limit (xs @ ys) s'"
    unfolding client_inv_def
  proof (intro conjI ballI)
    show "\<not> sd_stop s'" using parts(1) s'(2) by simp
    show "responder_ok (length (xs @ ys)) s'" using push(1) mode run q' by (simp add: responder_ok_def)
    show "distinct (handles_of (xs @ ys) s')" using parts(3) by (auto simp: handles_of_def resp)
  next
    fix k assume "k \<in> set (handles_of (xs @ ys) s')"
    then show "k < limit" using parts(4) hs by blast
  next
    fix g assume g: "g \<in> set (xs @ ys)"
    obtain k y where "g = (k, y)" by (cases g)
    then show "case g of (h, x) \<Rightarrow> map_of (sd_issued s') h = Some x" using parts(5) [of k y] g s'(3) by auto
  next
    fix r assume "r \<in> set (responses_of s')"
    then consider "r \<in> set (responses_of s)" | "r = \<lparr>br_handle = h, br_ret = c\<rparr>" using resp by auto
    then show "response_ok s' r"
    proof cases
      case 1
      then show ?thesis using parts(6) s'(3,4) by (fastforce simp: response_ok_def)
    next
      case 2
      have "map_of (sd_issued s') h = Some x" using parts(5) [of h x] s'(3) by simp
      then show ?thesis using 2 c s'(5) by (simp add: response_ok_def)
    qed
  qed
  show "pending_reads (xs @ ys) s' = pending_reads (xs @ (h, x) # ys) s"
    unfolding pending_reads_def hs s'(3) by (rule refl)
qed

text \<open>A response that is popped.\<close>

lemma client_inv_pop:
  assumes inv: "client_inv limit gs s" and q: "sd_responder s = Some q" "q_responses q = r # rs"
    and q': "q_responses q' = rs" "q_running q' = q_running q" "q_mode q' = q_mode q" "sq_ok q'"
    and s': "s' = s\<lparr>sd_responder := Some q'\<rparr>"
  shows "client_inv limit gs s'" and "br_ret r \<noteq> FinishedError"
    and "br_handle r \<in> dom (pending_reads gs s)"
    and "pending_reads gs s' = (pending_reads gs s)(br_handle r := None)"
    and "br_ret r = Success \<Longrightarrow> the (pending_reads gs s (br_handle r)) \<in> set (sd_fetched s)"
proof -
  note parts = client_inv_parts [OF inv]
  have resp: "responses_of s = r # rs" "responses_of s' = rs" using q q' by (simp_all add: responses_of_def s')
  have r: "response_ok s r" using parts(6) resp by simp
  then show "br_ret r \<noteq> FinishedError" by (simp add: response_ok_def)
  have here: "br_handle r \<in> set (handles_of gs s)" by (simp add: handles_of_def resp)
  then show "br_handle r \<in> dom (pending_reads gs s)" using client_inv_dom [OF inv] by simp
  show "the (pending_reads gs s (br_handle r)) \<in> set (sd_fetched s)" if "br_ret r = Success"
    using r that here by (auto simp: pending_reads_def response_ok_def)
  have hs: "set (handles_of gs s') = set (handles_of gs s) - {br_handle r}"
    using parts(3) by (auto simp: handles_of_def resp)
  have "sd_issued s' = sd_issued s" by (simp add: s')
  with hs show "pending_reads gs s' = (pending_reads gs s)(br_handle r := None)"
    by (intro ext) (simp add: pending_reads_def)
  have "distinct (handles_of gs s')" using parts(3) by (simp add: handles_of_def resp)
  moreover have "responder_ok (length gs) s'" using parts(2) q q' by (simp add: responder_ok_def s')
  moreover have "\<forall>k\<in>set (handles_of gs s'). k < limit" using parts(4) hs by blast
  moreover have "\<forall>r\<in>set (responses_of s'). response_ok s' r"
    using parts(6) resp by (simp add: response_ok_def s')
  moreover have "\<forall>(h, x)\<in>set gs. map_of (sd_issued s') h = Some x" "\<not> sd_stop s'"
    using parts(1,5) by (auto simp: s')
  ultimately show "client_inv limit gs s'" unfolding client_inv_def by blast
qed

section \<open>The interface of a client's callbacks\<close>

text \<open>
  \<open>gets\<close> are the reads in flight. As long as there is one, the SDK runs the callback of one of them,
  which answers it; a success is answered only of a read that was fetched.
\<close>

locale sdk_client =
  fixes gets :: "'a sdk_state_scheme \<Rightarrow> object_get list"
    and callback :: "'a sdk_state_scheme \<Rightarrow> 'a sdk_state_scheme"
    and ok :: "'a sdk_state_scheme \<Rightarrow> bool"
  assumes callback: "ok s \<Longrightarrow> gets s \<noteq> [] \<Longrightarrow> \<exists>xs h x ys c. gets s = xs @ (h, x) # ys \<and>
      gets (callback s) = xs @ ys \<and> ok (callback s) \<and> c \<noteq> FinishedError \<and>
      sd_responder (callback s) = sd_responder (push_response h c s) \<and> sd_stop (callback s) = sd_stop s \<and>
      sd_issued (callback s) = sd_issued s \<and> set (sd_fetched s) \<subseteq> set (sd_fetched (callback s)) \<and>
      (c = Success \<longrightarrow> x \<in> set (sd_fetched (callback s)))"
    and responder: "gets (s\<lparr>sd_responder := q\<rparr>) = gets s" "ok (s\<lparr>sd_responder := q\<rparr>) \<longleftrightarrow> ok s"
begin

definition invar :: "object_handle \<Rightarrow> 'a sdk_state_scheme \<Rightarrow> bool" where
  "invar limit s \<longleftrightarrow> client_inv limit (gets s) s \<and> ok s"

definition pending :: "'a sdk_state_scheme \<Rightarrow> object_handle \<rightharpoonup> string \<times> segment" where
  "pending s = pending_reads (gets s) s"

definition fetched_reads :: "'a sdk_state_scheme \<Rightarrow> (string \<times> segment) set" where
  "fetched_reads s = set (sd_fetched s)"

lemma callback_invar:
  assumes inv: "invar limit s" and "gets s \<noteq> []"
  shows "invar limit (callback s)" and "Suc (length (gets (callback s))) = length (gets s)"
    and "pending (callback s) = pending s" and "fetched_reads s \<subseteq> fetched_reads (callback s)"
proof -
  obtain xs h x ys c where g: "gets s = xs @ (h, x) # ys" "gets (callback s) = xs @ ys"
    and rest: "ok (callback s)" "c \<noteq> FinishedError"
      "sd_responder (callback s) = sd_responder (push_response h c s)" "sd_stop (callback s) = sd_stop s"
      "sd_issued (callback s) = sd_issued s" "set (sd_fetched s) \<subseteq> set (sd_fetched (callback s))"
      "c = Success \<longrightarrow> x \<in> set (sd_fetched (callback s))"
    using callback [of s] assms by (auto simp: invar_def)
  have "client_inv limit (xs @ (h, x) # ys) s" using inv g(1) by (simp add: invar_def)
  note ans = client_inv_answer [OF this rest(2-7)]
  show "invar limit (callback s)" using ans(1) g(2) rest(1) by (simp add: invar_def)
  show "pending (callback s) = pending s" using ans(2) g by (simp add: pending_def)
  show "Suc (length (gets (callback s))) = length (gets s)" using g by simp
  show "fetched_reads s \<subseteq> fetched_reads (callback s)" using rest(6) by (simp add: fetched_reads_def)
qed

text \<open>
  Every wait returns: the end of the round when nothing is outstanding, and otherwise the response
  of one outstanding read.
\<close>

lemma same_responder: "sd_responder s = q \<Longrightarrow> s\<lparr>sd_responder := q\<rparr> = s"
  by (cases s) simp

definition answered :: "object_handle \<Rightarrow> 'a sdk_state_scheme \<Rightarrow> backend_response \<Rightarrow> 'a sdk_state_scheme \<Rightarrow> bool" where
  "answered limit s r s' \<longleftrightarrow> invar limit s' \<and> fetched_reads s \<subseteq> fetched_reads s' \<and>
     (if br_ret r = FinishedError then pending s' = pending s \<and> pending s = Map.empty
      else br_handle r \<in> dom (pending s) \<and> pending s' = (pending s)(br_handle r := None) \<and>
        (br_ret r = Success \<longrightarrow> the (pending s (br_handle r)) \<in> fetched_reads s'))"

lemma pop_ready:
  assumes inv: "invar limit s" and q: "sd_responder s = Some q" "q_responses q = r # rs"
  shows "\<exists>s'. async_response callback n s = Some (Inr r, s') \<and> answered limit s r s'"
proof -
  have cinv: "client_inv limit (gets s) s" and ok: "ok s" using inv by (simp_all add: invar_def)
  have sq: "sq_ok q" using client_inv_parts(2) [OF cinv] q(1) by (simp add: responder_ok_def)
  obtain q' where p: "sq_pop sentinel_backend_response 0 q = Some (Inr (r, q'))" "q_responses q' = rs"
      "q_running q' = q_running q" "sq_ok q'"
    using sq_pop_ok [OF sq q(2)] by blast
  have mode: "q_mode q' = q_mode q"
    using p(1) by (auto simp: sq_pop_def pop_locked_def split: option.splits if_splits list.splits)
  let ?s = "s\<lparr>sd_responder := Some q'\<rparr>"
  note pop = client_inv_pop [OF cinv q p(2,3) mode p(4) refl]
  have "async_response callback n s = Some (Inr r, ?s)" using q(1) p(1) by (subst async_response.simps) simp
  moreover have "answered limit s r ?s"
    using pop responder ok by (simp add: answered_def invar_def pending_def fetched_reads_def)
  ultimately show ?thesis by blast
qed

lemma pop_finished:
  assumes inv: "invar limit s" and "gets s = []" and "responses_of s = []"
  shows "async_response callback n s = Some (Inr (sentinel_backend_response FinishedError), s)"
    and "answered limit s (sentinel_backend_response FinishedError) s"
proof -
  have cinv: "client_inv limit [] s" using inv assms(2) by (simp add: invar_def)
  show "async_response callback n s = Some (Inr (sentinel_backend_response FinishedError), s)"
  proof (cases "sd_responder s")
    case None
    then show ?thesis by (subst async_response.simps) simp
  next
    case (Some q)
    then have "q_running q = 0" "q_responses q = []" "sq_ok q" "q_mode q = FinishOnDrain"
      using client_inv_parts(2) [OF cinv] assms(3) by (simp_all add: responder_ok_def responses_of_def unat_eq_0)
    then have "sq_pop sentinel_backend_response 0 q = Some (Inr (sentinel_backend_response FinishedError, q))"
      by (simp add: sq_pop_def pop_entry_def sq_finished_def sq_ok_def)
    then show ?thesis using Some same_responder [OF Some] by (subst async_response.simps) simp
  qed
  have "pending s = Map.empty"
    using assms(2,3) by (simp add: pending_def pending_reads_def handles_of_def fun_eq_iff)
  then show "answered limit s (sentinel_backend_response FinishedError) s"
    using inv by (simp add: answered_def sentinel_backend_response_def)
qed

lemma async_response_returns:
  assumes "invar limit s"
  shows "\<exists>r s'. async_response callback (length (gets s)) s = Some (Inr r, s') \<and> answered limit s r s'"
  using assms
proof (induction "length (gets s)" arbitrary: s rule: less_induct)
  case (less s)
  have cinv: "client_inv limit (gets s) s" using less.prems by (simp add: invar_def)
  show ?case
  proof (cases "responses_of s")
    case (Cons r rs)
    then obtain q where "sd_responder s = Some q" "q_responses q = r # rs"
      by (auto simp: responses_of_def split: option.splits)
    from pop_ready [OF less.prems this] show ?thesis by blast
  next
    case Nil
    show ?thesis
    proof (cases "gets s")
      case none: Nil
      show ?thesis using pop_finished [OF less.prems none Nil] by blast
    next
      case (Cons g gs)
      then have some: "gets s \<noteq> []" by simp
      note step = callback_invar [OF less.prems some]
      obtain q where q: "sd_responder s = Some q" "sq_ok q" "unat (q_running q) \<noteq> 0" "q_responses q = []"
        using client_inv_parts(2) [OF cinv] Cons Nil
        by (auto simp: responder_ok_def responses_of_def split: option.splits)
      then have "q_running q \<noteq> 0" by auto
      then have "sq_pop sentinel_backend_response 0 q = None"
        using q by (simp add: sq_pop_def pop_entry_def sq_finished_def sq_ok_def)
      then have run: "async_response callback (length (gets s)) s =
          async_response callback (length (gets (callback s))) (callback s)"
        using q(1) step(2) by (subst async_response.simps) (simp flip: step(2))
      obtain r s' where r: "async_response callback (length (gets (callback s))) (callback s) = Some (Inr r, s')"
          "answered limit (callback s) r s'"
        using less.hyps [OF _ step(1)] step(2) by auto
      have "answered limit s r s'" using r(2) step(3,4) by (auto simp: answered_def split: if_splits)
      then show ?thesis using run r(1) by auto
    qed
  qed
qed

text \<open>A round of responses, up to the end of the round if that is among them.\<close>

fun answered_all :: "object_handle \<Rightarrow> 'a sdk_state_scheme \<Rightarrow> backend_response list \<Rightarrow> 'a sdk_state_scheme \<Rightarrow> bool" where
  "answered_all limit s [] s' \<longleftrightarrow> s' = s"
| "answered_all limit s (r # rs) s' \<longleftrightarrow> (\<exists>s1. answered limit s r s1 \<and>
     (if br_ret r = FinishedError then rs = [] \<and> s' = s1 else answered_all limit s1 rs s'))"

lemma answered_all_round:
  assumes "invar limit s" and "answered_all limit s rs s'"
  shows "invar limit s' \<and> fetched_reads s \<subseteq> fetched_reads s' \<and>
    (let hs = map br_handle (real_events rs) in
     distinct hs \<and> set hs \<subseteq> dom (pending s) \<and> pending s' = pending s |` (- set hs) \<and>
     (\<forall>r\<in>set (real_events rs). br_ret r = Success \<longrightarrow> the (pending s (br_handle r)) \<in> fetched_reads s'))"
  using assms
proof (induction rs arbitrary: s)
  case (Cons r rs)
  then obtain s1 where a: "answered limit s r s1"
    and rest: "if br_ret r = FinishedError then rs = [] \<and> s' = s1 else answered_all limit s1 rs s'" by auto
  show ?case
  proof (cases "br_ret r = FinishedError")
    case True
    then show ?thesis using a rest by (simp add: answered_def)
  next
    case False
    let ?hs = "map br_handle (real_events rs)"
    have s1: "invar limit s1" "fetched_reads s \<subseteq> fetched_reads s1" "br_handle r \<in> dom (pending s)"
      "pending s1 = (pending s)(br_handle r := None)"
      "br_ret r = Success \<longrightarrow> the (pending s (br_handle r)) \<in> fetched_reads s1"
      using a False by (simp_all add: answered_def)
    have all: "answered_all limit s1 rs s'" using rest False by simp
    have IH: "invar limit s'" "fetched_reads s1 \<subseteq> fetched_reads s'" "distinct ?hs" "set ?hs \<subseteq> dom (pending s1)"
      "pending s' = pending s1 |` (- set ?hs)"
      "\<forall>r\<in>set (real_events rs). br_ret r = Success \<longrightarrow> the (pending s1 (br_handle r)) \<in> fetched_reads s'"
      using Cons.IH [OF s1(1) all] by (simp_all add: Let_def)
    have fresh: "br_handle r \<notin> set ?hs" using IH(4) s1(4) by auto
    have "pending s' = pending s |` (- set (br_handle r # ?hs))"
      unfolding IH(5) s1(4) by (auto simp: restrict_map_def fun_eq_iff)
    moreover have "the (pending s1 (br_handle q)) = the (pending s (br_handle q))" if "q \<in> set (real_events rs)" for q
    proof -
      have "br_handle q \<noteq> br_handle r" using that fresh by (metis image_eqI list.set_map)
      then show ?thesis by (simp add: s1(4))
    qed
    ultimately show ?thesis
      using IH s1 False fresh by (auto simp: Let_def)
  qed
qed (simp add: restrict_map_def)

lemma answered_round:
  assumes "invar limit s" and "answered_all limit s rs s'" and "length rs \<le> k"
  shows "round_ok pending fetched_reads k s (Success, length rs, rs) s'"
proof -
  note r = answered_all_round [OF assms(1,2)]
  then have "pending s' \<subseteq>\<^sub>m pending s" by (auto simp: Let_def map_le_def restrict_map_def)
  then show ?thesis using r assms(3) by (simp add: round_ok_def)
qed

end

section \<open>The worker's client\<close>

text \<open>
  The worker's reader calls the plugin by the address of the batch. \<open>pr_reads\<close> remembers the
  parameters of the reads that were accepted.
\<close>

record 's plugin_reads =
  pr_client :: 's
  pr_reads :: "(object_handle \<times> params \<times> segment) list"

definition plugin_client ::
  "(params \<Rightarrow> exn + 's) \<Rightarrow> ('s \<Rightarrow> response_code \<times> string) \<Rightarrow>
    (string \<Rightarrow> size_t \<times> size_t \<Rightarrow> ptr \<Rightarrow> object_handle \<Rightarrow> 's \<Rightarrow> response_code \<times> 's) \<Rightarrow>
    (nat \<Rightarrow> 's \<Rightarrow> (response_code \<times> nat \<times> backend_response list) \<times> 's) \<Rightarrow> 's plugin_reads object_client" where
  "plugin_client create window read wait = \<lparr>
     oc_create = (\<lambda>ps. case create ps of Inl e \<Rightarrow> Inl e | Inr s \<Rightarrow> Inr \<lparr>pr_client = s, pr_reads = []\<rparr>),
     oc_window = (\<lambda>b. window (pr_client b)),
     oc_read = (\<lambda>ps rng buf h b.
       case read (uri_uri (the (params_uri ps))) rng buf h (pr_client b) of
         (c, s) \<Rightarrow> (c, \<lparr>pr_client = s, pr_reads =
           (if c = Success then (h, ps, fst rng, snd rng, buf) # pr_reads b else pr_reads b)\<rparr>)),
     oc_wait = (\<lambda>k b. case wait k (pr_client b) of (answer, s) \<Rightarrow> (answer, b\<lparr>pr_client := s\<rparr>))\<rparr>"

definition plugin_outst ::
  "('s \<Rightarrow> object_handle \<rightharpoonup> string \<times> segment) \<Rightarrow> 's plugin_reads \<Rightarrow> object_handle \<rightharpoonup> params \<times> segment" where
  "plugin_outst pend b h = (if pend (pr_client b) h = None then None else map_of (pr_reads b) h)"

text \<open>A read of a segment with parameters is done when that segment of the object they name was read.\<close>

definition plugin_got :: "('s \<Rightarrow> (string \<times> segment) set) \<Rightarrow> 's plugin_reads \<Rightarrow> (params \<times> segment) set" where
  "plugin_got done_reads b = {(ps, g). (uri_uri (the (params_uri ps)), g) \<in> done_reads (pr_client b)}"

definition plugin_ok ::
  "('s \<Rightarrow> bool) \<Rightarrow> ('s \<Rightarrow> object_handle \<rightharpoonup> string \<times> segment) \<Rightarrow> 's plugin_reads \<Rightarrow> bool" where
  "plugin_ok ok pend b \<longleftrightarrow> ok (pr_client b) \<and>
     (\<forall>h path g. pend (pr_client b) h = Some (path, g) \<longrightarrow>
        (\<exists>ps. map_of (pr_reads b) h = Some (ps, g) \<and> uri_uri (the (params_uri ps)) = path))"

lemma plugin_okD:
  "plugin_ok ok pend b \<Longrightarrow> pend (pr_client b) h = Some (path, g) \<Longrightarrow>
    \<exists>ps. map_of (pr_reads b) h = Some (ps, g) \<and> uri_uri (the (params_uri ps)) = path"
  unfolding plugin_ok_def by blast

text \<open>What a plugin promises.\<close>

locale storage_plugin =
  fixes chunk :: size_t and limit :: object_handle
    and create :: "params \<Rightarrow> exn + 's"
    and window :: "'s \<Rightarrow> response_code \<times> string"
    and read :: "string \<Rightarrow> size_t \<times> size_t \<Rightarrow> ptr \<Rightarrow> object_handle \<Rightarrow> 's \<Rightarrow> response_code \<times> 's"
    and wait :: "nat \<Rightarrow> 's \<Rightarrow> (response_code \<times> nat \<times> backend_response list) \<times> 's"
    and ok :: "'s \<Rightarrow> bool"
    and pend :: "'s \<Rightarrow> object_handle \<rightharpoonup> string \<times> segment"
    and done_reads :: "'s \<Rightarrow> (string \<times> segment) set"
  assumes create_error: "params_chunk_bytesize ps = chunk \<Longrightarrow> create ps = Inl e \<Longrightarrow> e \<noteq> Trap"
    and create_ok: "params_chunk_bytesize ps = chunk \<Longrightarrow> create ps = Inr s \<Longrightarrow> ok s \<and> pend s = Map.empty"
    and read_ok: "ok s \<Longrightarrow> make_storage_uri path = Inr u \<Longrightarrow> 0 < n \<Longrightarrow> n \<le> chunk \<Longrightarrow> h \<notin> dom (pend s) \<Longrightarrow>
      h < limit \<Longrightarrow> read path (off, n) buf h s = (c, s') \<Longrightarrow> ok s' \<and> done_reads s \<subseteq> done_reads s' \<and>
        pend s' = (if c = Success then (pend s)(h \<mapsto> (path, off, n, buf)) else pend s)"
    and wait_ok: "ok s \<Longrightarrow> 0 < k \<Longrightarrow> wait k s = (answer, s') \<Longrightarrow>
      ok s' \<and> round_ok pend done_reads k s answer s'"
begin

lemma outst_simps:
  "plugin_ok ok pend b \<Longrightarrow> dom (plugin_outst pend b) = dom (pend (pr_client b))"
  by (force simp: plugin_ok_def plugin_outst_def split: if_splits)

lemma reads_client: "client_ok chunk limit (plugin_client create window read wait)
    (plugin_ok ok pend) (plugin_outst pend) (plugin_got done_reads)"
  unfolding client_ok_def
proof (intro conjI allI impI)
  fix ps :: params assume "params_chunk_bytesize ps = chunk"
  then show "case oc_create (plugin_client create window read wait) ps of
      Inl e \<Rightarrow> e \<noteq> Trap | Inr b \<Rightarrow> plugin_ok ok pend b \<and> plugin_outst pend b = Map.empty"
    using create_error [of ps] create_ok [of ps]
    by (auto simp: plugin_client_def plugin_ok_def plugin_outst_def split: sum.splits)
next
  fix ps off n buf h b c b'
  assume okb: "plugin_ok ok pend b" and rd: "readable chunk ps n" and h: "h \<notin> dom (plugin_outst pend b)" "h < limit"
    and run: "oc_read (plugin_client create window read wait) ps (off, n) buf h b = (c, b')"
  obtain u v where u: "params_uri ps = Some u" "make_storage_uri (uri_uri u) = Inr v" "0 < n" "n \<le> chunk"
    using rd by (auto simp: readable_def addressed_def)
  obtain s' where s': "read (uri_uri u) (off, n) buf h (pr_client b) = (c, s')"
    and b': "b' = \<lparr>pr_client = s', pr_reads = (if c = Success then (h, ps, off, n, buf) # pr_reads b else pr_reads b)\<rparr>"
    using run u(1) by (auto simp: plugin_client_def split: prod.splits)
  have ok: "ok (pr_client b)" using okb by (simp add: plugin_ok_def)
  have "h \<notin> dom (pend (pr_client b))" using h(1) outst_simps [OF okb] by simp
  note law = read_ok [OF ok u(2-4) this h(2) s']
  show "plugin_ok ok pend b'"
    using law okb u(1) by (auto simp: plugin_ok_def b')
  show "plugin_got done_reads b \<subseteq> plugin_got done_reads b'"
    using law by (auto simp: plugin_got_def b')
  show "plugin_outst pend b' = (if c = Success then (plugin_outst pend b)(h \<mapsto> (ps, off, n, buf)) else plugin_outst pend b)"
    using law by (auto simp: plugin_outst_def b' fun_eq_iff)
next
  fix k :: nat and b answer b'
  assume okb: "plugin_ok ok pend b" and k: "0 < k"
    and run: "oc_wait (plugin_client create window read wait) k b = (answer, b')"
  obtain s' where s': "wait k (pr_client b) = (answer, s')" and b': "b' = b\<lparr>pr_client := s'\<rparr>"
    using run by (auto simp: plugin_client_def split: prod.splits)
  have ok: "ok (pr_client b)" using okb by (simp add: plugin_ok_def)
  note law = wait_ok [OF ok k s']
  have le: "pend s' \<subseteq>\<^sub>m pend (pr_client b)" using law by (simp add: round_ok_def)
  have old: "pend (pr_client b) h = Some x" if "pend s' h = Some x" for h x
  proof -
    have "h \<in> dom (pend s')" using that by blast
    with le have "pend s' h = pend (pr_client b) h" by (simp add: map_le_def)
    with that show ?thesis by simp
  qed
  show "plugin_ok ok pend b'"
    unfolding plugin_ok_def
  proof (intro conjI allI impI)
    show "ok (pr_client b')" using law by (simp add: b')
    fix h path g assume "pend (pr_client b') h = Some (path, g)"
    then have "pend (pr_client b) h = Some (path, g)" using old by (simp add: b')
    then show "\<exists>ps. map_of (pr_reads b') h = Some (ps, g) \<and> uri_uri (the (params_uri ps)) = path"
      using plugin_okD [OF okb] by (simp add: b')
  qed
  show "round_ok (plugin_outst pend) (plugin_got done_reads) k b answer b'"
  proof -
    obtain code n events where answer: "answer = (code, n, events)" by (metis prod_cases3)
    let ?hs = "map br_handle (real_events (take n events))"
    have "plugin_got done_reads b \<subseteq> plugin_got done_reads b'"
      using law by (auto simp: plugin_got_def b' round_ok_def)
    moreover have "plugin_outst pend b' \<subseteq>\<^sub>m plugin_outst pend b"
      unfolding map_le_def
    proof
      fix h assume "h \<in> dom (plugin_outst pend b')"
      then obtain x where "pend s' h = Some x" "plugin_outst pend b' h = map_of (pr_reads b) h"
        by (auto simp: plugin_outst_def b' split: if_splits)
      then show "plugin_outst pend b' h = plugin_outst pend b h"
        using old [of h x] by (simp add: plugin_outst_def)
    qed
    moreover have "n \<le> k \<and> (distinct ?hs \<and> set ?hs \<subseteq> dom (plugin_outst pend b) \<and>
        plugin_outst pend b' = plugin_outst pend b |` (- set ?hs) \<and>
        (\<forall>r\<in>set (real_events (take n events)). br_ret r = Success \<longrightarrow>
          the (plugin_outst pend b (br_handle r)) \<in> plugin_got done_reads b'))" if "code = Success"
    proof -
      have r: "n \<le> k" "distinct ?hs" "set ?hs \<subseteq> dom (pend (pr_client b))"
        "pend s' = pend (pr_client b) |` (- set ?hs)"
        and got: "\<forall>r\<in>set (real_events (take n events)). br_ret r = Success \<longrightarrow>
          the (pend (pr_client b) (br_handle r)) \<in> done_reads s'"
        using law that by (simp_all add: answer round_ok_def Let_def)
      have "plugin_outst pend b' = plugin_outst pend b |` (- set ?hs)"
        using r(4) by (auto simp: plugin_outst_def b' restrict_map_def fun_eq_iff)
      moreover have "the (plugin_outst pend b (br_handle r)) \<in> plugin_got done_reads b'"
        if "r \<in> set (real_events (take n events))" "br_ret r = Success" for r
      proof -
        have "br_handle r \<in> set ?hs" using that(1) by simp
        then obtain path g where p: "pend (pr_client b) (br_handle r) = Some (path, g)" using r(3) by auto
        then obtain ps where "map_of (pr_reads b) (br_handle r) = Some (ps, g)" "uri_uri (the (params_uri ps)) = path"
          using plugin_okD [OF okb p] by blast
        then show ?thesis using got that p by (force simp: plugin_outst_def plugin_got_def b')
      qed
      ultimately show ?thesis using r outst_simps [OF okb] by simp
    qed
    ultimately show ?thesis by (simp add: round_ok_def answer Let_def)
  qed
qed

end

end
