(* ===== verification/ClientMgr.thy ===== *)
theory ClientMgr
  imports ResponseCodes StdMap
begin

text \<open>
  \<open>ClientMgr\<close> (\<open>common/client_mgr\<close>): the clients of a storage plugin, kept by their addresses and
  reused. A caller takes a client with \<open>pop\<close> and returns it with \<open>push\<close>; between its two critical
  sections \<open>pop\<close> constructs a client without the mutex, so other callers interleave there.
\<close>

section \<open>The manager\<close>

text \<open>The \<open>std::set\<close> of unused clients iterates in the order of the addresses.\<close>

record 'c client_mgr =
  cm_unused :: "ptr list"
  cm_clients :: "(ptr \<times> 'c) list"

definition cm_make :: "'c client_mgr" where
  "cm_make = \<lparr>cm_unused = [], cm_clients = []\<rparr>"

definition cm_size :: "'c client_mgr \<Rightarrow> uint" where
  "cm_size m = of_nat (length (cm_clients m))"

definition cm_unused_size :: "'c client_mgr \<Rightarrow> uint" where
  "cm_unused_size m = of_nat (length (cm_unused m))"

text \<open>
  The loop of \<open>pop\<close>: the first unused client that verifies; those that do not are released. An
  unused client that is no longer there would be a dangling pointer.
\<close>

fun take_unused ::
  "('c \<Rightarrow> bool) \<Rightarrow> ptr list \<Rightarrow> (ptr \<times> 'c) list \<Rightarrow> exn + ptr option \<times> 'c client_mgr" where
  "take_unused verify [] clients = Inr (None, \<lparr>cm_unused = [], cm_clients = clients\<rparr>)"
| "take_unused verify (p # ps) clients =
     (case map_of clients p of
        None \<Rightarrow> Inl Trap
      | Some c \<Rightarrow>
          if verify c then Inr (Some p, \<lparr>cm_unused = ps, cm_clients = clients\<rparr>)
          else take_unused verify ps (merase p clients))"

definition cm_take :: "('c \<Rightarrow> bool) \<Rightarrow> 'c client_mgr \<Rightarrow> exn + ptr option \<times> 'c client_mgr" where
  "cm_take verify m = take_unused verify (cm_unused m) (cm_clients m)"

text \<open>The second critical section of \<open>pop\<close>.\<close>

definition cm_register :: "ptr \<Rightarrow> 'c \<Rightarrow> 'c client_mgr \<Rightarrow> 'c client_mgr" where
  "cm_register p c m = m\<lparr>cm_clients := mput p c (cm_clients m)\<rparr>"

definition cm_push :: "ptr \<Rightarrow> 'c client_mgr \<Rightarrow> 'c client_mgr" where
  "cm_push p m = m\<lparr>cm_unused := insort_insert p (cm_unused m)\<rparr>"

definition cm_clear :: "'c client_mgr \<Rightarrow> 'c client_mgr" where
  "cm_clear m =
     (let count = of_nat (length (cm_unused m)) :: uint in
      if unat count \<noteq> length (cm_clients m) then m else \<lparr>cm_unused = [], cm_clients = []\<rparr>)"

definition cm_stop :: "('c \<Rightarrow> 'c) \<Rightarrow> 'c client_mgr \<Rightarrow> 'c client_mgr" where
  "cm_stop stop m = m\<lparr>cm_clients := map (\<lambda>(p, c). (p, stop c)) (cm_clients m)\<rparr>"

section \<open>Callers\<close>

text \<open>
  A \<open>pop\<close> that no other caller interrupts: the client is constructed, by \<open>build\<close>, at the address
  \<open>p\<close>, which is null when there is no memory for it.
\<close>

definition cm_pop ::
  "('k \<Rightarrow> exn + 'c) \<Rightarrow> ('k \<Rightarrow> 'c \<Rightarrow> bool) \<Rightarrow> ptr \<Rightarrow> 'k \<Rightarrow> 'c client_mgr \<Rightarrow> (exn + ptr) \<times> 'c client_mgr" where
  "cm_pop build verify p config m =
     (case cm_take (verify config) m of
        Inl e \<Rightarrow> (Inl e, m)
      | Inr (Some q, m') \<Rightarrow> (Inr q, m')
      | Inr (None, m') \<Rightarrow>
          if p = nullptr then (Inl StdException, m')
          else (case build config of
             Inl e \<Rightarrow> (Inl e, m')
           | Inr c \<Rightarrow> (Inr p, cm_register p c m')))"

text \<open>
  Callers interleave at the critical sections. \<open>ps_building\<close> are the clients constructed and not
  yet registered, \<open>ps_held\<close> those that callers hold, with the configuration they asked for. The
  holder of a client uses it, which changes it within \<open>keeps\<close>.
\<close>

record ('k, 'c) pop_system =
  ps_mgr :: "'c client_mgr"
  ps_building :: "(ptr \<times> 'k \<times> 'c) list"
  ps_held :: "(ptr \<times> 'k) list"

inductive client_step ::
  "('k \<Rightarrow> exn + 'c) \<Rightarrow> ('k \<Rightarrow> 'c \<Rightarrow> bool) \<Rightarrow> ('c \<Rightarrow> 'c) \<Rightarrow> ('c \<Rightarrow> 'c \<Rightarrow> bool) \<Rightarrow>
    ('k, 'c) pop_system \<Rightarrow> ('k, 'c) pop_system \<Rightarrow> bool"
  for build verify stop keeps where
  reuse: "cm_take (verify k) (ps_mgr s) = Inr (Some p, m) \<Longrightarrow>
    client_step build verify stop keeps s (s\<lparr>ps_mgr := m, ps_held := (p, k) # ps_held s\<rparr>)"
| construct: "cm_take (verify k) (ps_mgr s) = Inr (None, m) \<Longrightarrow> build k = Inr c \<Longrightarrow>
    p \<notin> fst ` set (cm_clients m) \<Longrightarrow> p \<notin> fst ` set (ps_building s) \<Longrightarrow>
    client_step build verify stop keeps s (s\<lparr>ps_mgr := m, ps_building := (p, k, c) # ps_building s\<rparr>)"
| throw: "cm_take (verify k) (ps_mgr s) = Inr (None, m) \<Longrightarrow> build k = Inl e \<Longrightarrow>
    client_step build verify stop keeps s (s\<lparr>ps_mgr := m\<rparr>)"
| register: "ps_building s = xs @ (p, k, c) # ys \<Longrightarrow>
    client_step build verify stop keeps s (s\<lparr>ps_mgr := cm_register p c (ps_mgr s),
      ps_building := xs @ ys, ps_held := (p, k) # ps_held s\<rparr>)"
| release: "ps_held s = xs @ (p, k) # ys \<Longrightarrow>
    client_step build verify stop keeps s (s\<lparr>ps_mgr := cm_push p (ps_mgr s), ps_held := xs @ ys\<rparr>)"
| clear: "client_step build verify stop keeps s (s\<lparr>ps_mgr := cm_clear (ps_mgr s)\<rparr>)"
| halt: "client_step build verify stop keeps s (s\<lparr>ps_mgr := cm_stop stop (ps_mgr s)\<rparr>)"
| work: "(p, k) \<in> set (ps_held s) \<Longrightarrow> map_of (cm_clients (ps_mgr s)) p = Some c \<Longrightarrow> keeps c c' \<Longrightarrow>
    client_step build verify stop keeps s (s\<lparr>ps_mgr := (ps_mgr s)\<lparr>cm_clients :=
      mput p c' (cm_clients (ps_mgr s))\<rparr>\<rparr>)"

definition pop_start :: "('k, 'c) pop_system" where
  "pop_start = \<lparr>ps_mgr = cm_make, ps_building = [], ps_held = []\<rparr>"

section \<open>Who holds which client\<close>

text \<open>
  Every client is unused or held by exactly one caller, none is both, and a held client fits the
  configuration its caller asked for.
\<close>

definition pop_inv :: "('k \<Rightarrow> 'c \<Rightarrow> bool) \<Rightarrow> ('k, 'c) pop_system \<Rightarrow> bool" where
  "pop_inv fits s \<longleftrightarrow>
     (let m = ps_mgr s; held = map fst (ps_held s) in
      msorted (cm_clients m) \<and> distinct (map fst (ps_building s)) \<and>
      fst ` set (ps_building s) \<inter> dom (map_of (cm_clients m)) = {} \<and>
      distinct held \<and> distinct (cm_unused m) \<and> sorted (cm_unused m) \<and>
      set held \<inter> set (cm_unused m) = {} \<and> set held \<union> set (cm_unused m) = dom (map_of (cm_clients m)) \<and>
      (\<forall>(p, k)\<in>set (ps_held s). \<exists>c. map_of (cm_clients m) p = Some c \<and> fits k c) \<and>
      (\<forall>(p, k, c)\<in>set (ps_building s). fits k c))"

text \<open>What \<open>take_unused\<close> leaves: it only releases unused clients, and takes one that verifies.\<close>

lemma take_unused_cases:
  assumes "set ps \<subseteq> dom (map_of clients)" and "distinct ps"
  shows "\<exists>q m gone. take_unused verify ps clients = Inr (q, m) \<and>
    map_of (cm_clients m) = map_of clients |` (- set gone) \<and>
    (msorted clients \<longrightarrow> msorted (cm_clients m)) \<and>
    (case q of
       None \<Rightarrow> ps = gone \<and> cm_unused m = []
     | Some p \<Rightarrow> ps = gone @ p # cm_unused m \<and> (\<exists>c. map_of clients p = Some c \<and> verify c))"
  using assms
proof (induction ps arbitrary: clients)
  case Nil
  show ?case by (rule exI [of _ None], rule exI, rule exI [of _ "[]"]) (auto simp: restrict_map_def)
next
  case (Cons p ps)
  then obtain c where c: "map_of clients p = Some c" by auto
  show ?case
  proof (cases "verify c")
    case True
    then show ?thesis
      using c by (intro exI [of _ "Some p"] exI [of _ "\<lparr>cm_unused = ps, cm_clients = clients\<rparr>"] exI [of _ "[]"])
        (simp add: restrict_map_def)
  next
    case False
    have "set ps \<subseteq> dom (map_of (merase p clients))" "distinct ps" using Cons.prems by auto
    from Cons.IH [OF this] obtain q m gone where
      r: "take_unused verify ps (merase p clients) = Inr (q, m)"
        "map_of (cm_clients m) = map_of (merase p clients) |` (- set gone)"
        "msorted (merase p clients) \<longrightarrow> msorted (cm_clients m)"
        "case q of
           None \<Rightarrow> ps = gone \<and> cm_unused m = []
         | Some p' \<Rightarrow> ps = gone @ p' # cm_unused m \<and> (\<exists>c. map_of (merase p clients) p' = Some c \<and> verify c)"
      by blast
    have "map_of (cm_clients m) = map_of clients |` (- set (p # gone))"
      using r(2) by (auto simp: restrict_map_def fun_eq_iff)
    moreover have "take_unused verify (p # ps) clients = Inr (q, m)" using r(1) c False by simp
    moreover have "case q of
           None \<Rightarrow> p # ps = p # gone \<and> cm_unused m = []
         | Some p' \<Rightarrow> p # ps = (p # gone) @ p' # cm_unused m \<and> (\<exists>c. map_of clients p' = Some c \<and> verify c)"
      using r(4) by (auto split: option.splits if_splits)
    moreover have "msorted clients \<longrightarrow> msorted (cm_clients m)" using r(3) by simp
    ultimately show ?thesis by blast
  qed
qed

lemma pop_inv_parts:
  assumes "pop_inv fits s"
  shows "msorted (cm_clients (ps_mgr s))" and "distinct (map fst (ps_building s))"
    and "fst ` set (ps_building s) \<inter> dom (map_of (cm_clients (ps_mgr s))) = {}"
    and "distinct (map fst (ps_held s))" and "distinct (cm_unused (ps_mgr s))" and "sorted (cm_unused (ps_mgr s))"
    and "fst ` set (ps_held s) \<inter> set (cm_unused (ps_mgr s)) = {}"
    and "fst ` set (ps_held s) \<union> set (cm_unused (ps_mgr s)) = dom (map_of (cm_clients (ps_mgr s)))"
    and "(p, k) \<in> set (ps_held s) \<Longrightarrow> \<exists>c. map_of (cm_clients (ps_mgr s)) p = Some c \<and> fits k c"
    and "(p, k, c) \<in> set (ps_building s) \<Longrightarrow> fits k c"
  using assms unfolding pop_inv_def Let_def by auto

lemma pop_invI:
  assumes "msorted (cm_clients (ps_mgr s))" and "distinct (map fst (ps_building s))"
    and "fst ` set (ps_building s) \<inter> dom (map_of (cm_clients (ps_mgr s))) = {}"
    and "distinct (map fst (ps_held s))" and "distinct (cm_unused (ps_mgr s))" and "sorted (cm_unused (ps_mgr s))"
    and "fst ` set (ps_held s) \<inter> set (cm_unused (ps_mgr s)) = {}"
    and "fst ` set (ps_held s) \<union> set (cm_unused (ps_mgr s)) = dom (map_of (cm_clients (ps_mgr s)))"
    and "\<And>p k. (p, k) \<in> set (ps_held s) \<Longrightarrow> \<exists>c. map_of (cm_clients (ps_mgr s)) p = Some c \<and> fits k c"
    and "\<And>p k c. (p, k, c) \<in> set (ps_building s) \<Longrightarrow> fits k c"
  shows "pop_inv fits s"
  using assms unfolding pop_inv_def Let_def by auto

text \<open>What a caller finds: never a dangling pointer, and a client of its own or none.\<close>

lemma cm_take_inv:
  assumes inv: "pop_inv fits s"
  shows "\<exists>q m. cm_take (verify k) (ps_mgr s) = Inr (q, m)"
    and "cm_take (verify k) (ps_mgr s) = Inr (None, m) \<Longrightarrow> pop_inv fits (s\<lparr>ps_mgr := m\<rparr>)"
    and "cm_take (verify k) (ps_mgr s) = Inr (Some p, m) \<Longrightarrow> (\<And>c. verify k c \<Longrightarrow> fits k c) \<Longrightarrow>
      pop_inv fits (s\<lparr>ps_mgr := m, ps_held := (p, k) # ps_held s\<rparr>)"
proof -
  note parts = pop_inv_parts [OF inv]
  let ?cs = "cm_clients (ps_mgr s)" and ?us = "cm_unused (ps_mgr s)"
  have us: "set ?us \<subseteq> dom (map_of ?cs)" using parts(8) by blast
  note taken = take_unused_cases [OF us parts(5)]
  show "\<exists>q m. cm_take (verify k) (ps_mgr s) = Inr (q, m)"
    using taken [of "verify k"] unfolding cm_take_def by blast
  have held: "\<exists>c. (map_of ?cs |` (- set gone)) p = Some c \<and> fits k c"
    if "(p, k) \<in> set (ps_held s)" "set gone \<subseteq> set ?us" for p k gone
  proof -
    have "p \<notin> set gone" using that parts(7) by force
    then show ?thesis using parts(9) [OF that(1)] by simp
  qed
  show "pop_inv fits (s\<lparr>ps_mgr := m\<rparr>)" if run: "cm_take (verify k) (ps_mgr s) = Inr (None, m)"
  proof -
    obtain gone where g: "map_of (cm_clients m) = map_of ?cs |` (- set gone)" "msorted (cm_clients m)"
        "?us = gone" "cm_unused m = []"
      using taken [of "verify k"] run parts(1) unfolding cm_take_def by auto
    show ?thesis
    proof (rule pop_invI)
      fix p k assume "(p, k) \<in> set (ps_held (s\<lparr>ps_mgr := m\<rparr>))"
      then show "\<exists>c. map_of (cm_clients (ps_mgr (s\<lparr>ps_mgr := m\<rparr>))) p = Some c \<and> fits k c"
        using held [of p k gone] g(1,3) by simp
    qed (use parts g in auto)
  qed
  show "pop_inv fits (s\<lparr>ps_mgr := m, ps_held := (p, k) # ps_held s\<rparr>)"
    if run: "cm_take (verify k) (ps_mgr s) = Inr (Some p, m)" and fits: "\<And>c. verify k c \<Longrightarrow> fits k c"
  proof -
    obtain gone c where g: "map_of (cm_clients m) = map_of ?cs |` (- set gone)" "msorted (cm_clients m)"
        "?us = gone @ p # cm_unused m" "map_of ?cs p = Some c" "verify k c"
      using taken [of "verify k"] run parts(1) unfolding cm_take_def by auto
    have p: "p \<notin> set gone" "p \<notin> fst ` set (ps_held s)" using g(3) parts(5,7) by auto
    show ?thesis
    proof (rule pop_invI)
      fix q l assume "(q, l) \<in> set (ps_held (s\<lparr>ps_mgr := m, ps_held := (p, k) # ps_held s\<rparr>))"
      then show "\<exists>c. map_of (cm_clients (ps_mgr (s\<lparr>ps_mgr := m, ps_held := (p, k) # ps_held s\<rparr>))) q = Some c \<and> fits l c"
        using held [of q l gone] g p fits by auto
    next
      have "dom (map_of (cm_clients m)) = dom (map_of ?cs) - set gone" using g(1) by auto
      also have "\<dots> = insert p (fst ` set (ps_held s) \<union> set (cm_unused m))"
        unfolding parts(8) [symmetric] using g(3) parts(5,7) by auto
      finally show "fst ` set (ps_held (s\<lparr>ps_mgr := m, ps_held := (p, k) # ps_held s\<rparr>)) \<union>
          set (cm_unused (ps_mgr (s\<lparr>ps_mgr := m, ps_held := (p, k) # ps_held s\<rparr>))) =
          dom (map_of (cm_clients (ps_mgr (s\<lparr>ps_mgr := m, ps_held := (p, k) # ps_held s\<rparr>))))"
        by simp
    qed (use parts g p in \<open>auto simp: sorted_append\<close>)
  qed
qed

text \<open>The clients are only dropped when no caller holds one.\<close>

lemma cm_clear_cases:
  assumes inv: "pop_inv fits s"
  shows "cm_clear (ps_mgr s) = ps_mgr s \<or> cm_clear (ps_mgr s) = cm_make \<and> ps_held s = []"
proof (cases "unat (of_nat (length (cm_unused (ps_mgr s))) :: uint) = length (cm_clients (ps_mgr s))")
  case True
  note parts = pop_inv_parts [OF inv]
  have "unat (of_nat (length (cm_unused (ps_mgr s))) :: uint) \<le> length (cm_unused (ps_mgr s))"
    by (simp add: unat_of_nat)
  then have "card (dom (map_of (cm_clients (ps_mgr s)))) \<le> card (set (cm_unused (ps_mgr s)))"
    using True parts(1,5) by (simp add: msorted_length distinct_card)
  moreover have "set (cm_unused (ps_mgr s)) \<subseteq> dom (map_of (cm_clients (ps_mgr s)))"
    unfolding parts(8) [symmetric] by (rule Un_upper2)
  ultimately have all: "set (cm_unused (ps_mgr s)) = dom (map_of (cm_clients (ps_mgr s)))"
    by (intro card_seteq finite_dom_map_of)
  have "fst ` set (ps_held s) \<subseteq> dom (map_of (cm_clients (ps_mgr s)))"
    unfolding parts(8) [symmetric] by (rule Un_upper1)
  then have "fst ` set (ps_held s) \<subseteq> set (cm_unused (ps_mgr s))" unfolding all .
  then have "fst ` set (ps_held s) = {}" using parts(7) by (simp add: Int_absorb2)
  then have "ps_held s = []" by simp
  then show ?thesis unfolding cm_clear_def cm_make_def Let_def using True by presburger
next
  case False
  then show ?thesis unfolding cm_clear_def Let_def by presburger
qed

lemma cm_clear_inv:
  assumes "pop_inv fits s"
  shows "pop_inv fits (s\<lparr>ps_mgr := cm_clear (ps_mgr s)\<rparr>)"
  using cm_clear_cases [OF assms]
proof
  assume "cm_clear (ps_mgr s) = cm_make \<and> ps_held s = []"
  then show ?thesis
    using pop_inv_parts(2) [OF assms] pop_inv_parts(10) [OF assms] by (simp add: pop_inv_def cm_make_def) blast
qed (use assms in simp)

section \<open>The interface to a plugin's client\<close>

text \<open>
  What the manager needs of a client: one that was constructed for a configuration, or that
  verified it, fits it, and neither stopping nor using a client changes what it fits.
\<close>

locale managed_client =
  fixes build :: "'k \<Rightarrow> exn + 'c" and verify :: "'k \<Rightarrow> 'c \<Rightarrow> bool" and stop :: "'c \<Rightarrow> 'c"
    and keeps :: "'c \<Rightarrow> 'c \<Rightarrow> bool" and fits :: "'k \<Rightarrow> 'c \<Rightarrow> bool"
  assumes build_fits: "build k = Inr c \<Longrightarrow> fits k c"
    and verify_fits: "verify k c \<Longrightarrow> fits k c"
    and stop_fits: "fits k c \<Longrightarrow> fits k (stop c)"
    and keeps_fits: "keeps c c' \<Longrightarrow> fits k c \<Longrightarrow> fits k c'"
begin

lemma pop_inv_step:
  assumes "client_step build verify stop keeps s s'" and "pop_inv fits s"
  shows "pop_inv fits s'"
  using assms
proof (cases rule: client_step.cases)
  case (reuse k p m)
  then show ?thesis using cm_take_inv(3) [OF assms(2), of verify k p m] verify_fits by simp
next
  case (construct k m c p)
  have inv: "pop_inv fits (s\<lparr>ps_mgr := m\<rparr>)" using cm_take_inv(2) [OF assms(2), of verify k m] construct(2) by simp
  note parts = pop_inv_parts [OF inv]
  have "p \<notin> dom (map_of (cm_clients m))" using construct(4) by (simp add: dom_map_of_conv_image_fst)
  then show ?thesis
    unfolding construct(1)
  proof (intro pop_invI)
    fix q l d assume "(q, l, d) \<in> set (ps_building (s\<lparr>ps_mgr := m, ps_building := (p, k, c) # ps_building s\<rparr>))"
    then show "fits l d" using parts(10) [of q l d] build_fits [OF construct(3)] by auto
  next
    fix q l assume "(q, l) \<in> set (ps_held (s\<lparr>ps_mgr := m, ps_building := (p, k, c) # ps_building s\<rparr>))"
    then show "\<exists>c'. map_of (cm_clients (ps_mgr (s\<lparr>ps_mgr := m, ps_building := (p, k, c) # ps_building s\<rparr>))) q = Some c' \<and>
        fits l c'"
      using parts(9) [of q l] by simp
  qed (use parts(1-8) construct(5) in simp_all)
next
  case (throw k m e)
  then show ?thesis using cm_take_inv(2) [OF assms(2), of verify k m] throw(2) by simp
next
  case (register xs p k c ys)
  note parts = pop_inv_parts [OF assms(2)]
  have p: "p \<notin> dom (map_of (cm_clients (ps_mgr s)))" "p \<notin> fst ` set xs" "p \<notin> fst ` set ys"
    using parts(2,3) register(2) by auto
  then have "p \<notin> fst ` set (ps_held s)" "p \<notin> set (cm_unused (ps_mgr s))" using parts(8) by auto
  then show ?thesis
    unfolding register(1)
  proof (intro pop_invI)
    let ?s = "s\<lparr>ps_mgr := cm_register p c (ps_mgr s), ps_building := xs @ ys, ps_held := (p, k) # ps_held s\<rparr>"
    fix q l d assume "(q, l, d) \<in> set (ps_building ?s)"
    then show "fits l d" using parts(10) [of q l d] register(2) by auto
  next
    let ?s = "s\<lparr>ps_mgr := cm_register p c (ps_mgr s), ps_building := xs @ ys, ps_held := (p, k) # ps_held s\<rparr>"
    fix q l assume q: "(q, l) \<in> set (ps_held ?s)"
    show "\<exists>c'. map_of (cm_clients (ps_mgr ?s)) q = Some c' \<and> fits l c'"
    proof (cases "(q, l) = (p, k)")
      case True
      then show ?thesis using parts(10) [of p k c] register(2) by (simp add: cm_register_def)
    next
      case False
      then have "(q, l) \<in> set (ps_held s)" using q by auto
      then show ?thesis using parts(9) [of q l] p(1) by (auto simp: cm_register_def)
    qed
  qed (use parts(1-8) p register(2) in \<open>auto simp: cm_register_def\<close>)
next
  case (release xs p k ys)
  note parts = pop_inv_parts [OF assms(2)]
  have "p \<notin> fst ` set xs" "p \<notin> fst ` set ys" using parts(4) release(2) by auto
  then show ?thesis
    unfolding release(1)
  proof (intro pop_invI)
    fix q l assume "(q, l) \<in> set (ps_held (s\<lparr>ps_mgr := cm_push p (ps_mgr s), ps_held := xs @ ys\<rparr>))"
    then show "\<exists>c. map_of (cm_clients (ps_mgr (s\<lparr>ps_mgr := cm_push p (ps_mgr s), ps_held := xs @ ys\<rparr>))) q = Some c \<and>
        fits l c"
      using parts(9) [of q l] release(2) by (simp add: cm_push_def)
  next
    fix q l d assume "(q, l, d) \<in> set (ps_building (s\<lparr>ps_mgr := cm_push p (ps_mgr s), ps_held := xs @ ys\<rparr>))"
    then show "fits l d" using parts(10) [of q l d] by simp
  qed (use parts(1-8) release(2) in
      \<open>auto simp: cm_push_def set_insort_insert distinct_insort_insert sorted_insort_insert\<close>)
next
  case clear
  then show ?thesis using cm_clear_inv [OF assms(2)] by simp
next
  case halt
  note parts = pop_inv_parts [OF assms(2)]
  let ?m = "cm_stop stop (ps_mgr s)"
  have lookup: "map_of (cm_clients ?m) p = map_option stop (map_of (cm_clients (ps_mgr s)) p)" for p
    by (simp add: cm_stop_def map_of_map)
  have dom: "dom (map_of (cm_clients ?m)) = dom (map_of (cm_clients (ps_mgr s)))" by (auto simp: lookup)
  have "msorted (cm_clients ?m)" using parts(1) by (simp add: cm_stop_def msorted_def comp_def case_prod_unfold)
  moreover have "cm_unused ?m = cm_unused (ps_mgr s)" by (simp add: cm_stop_def)
  moreover have "\<exists>c. map_of (cm_clients ?m) p = Some c \<and> fits k c" if "(p, k) \<in> set (ps_held s)" for p k
    using parts(9) [OF that] stop_fits by (auto simp: lookup)
  ultimately show ?thesis unfolding halt using parts(1-8) parts(10) by (intro pop_invI) (simp_all add: dom)
next
  case (work p k c c')
  note parts = pop_inv_parts [OF assms(2)]
  have "l = k" if "(p, l) \<in> set (ps_held s)" for l
    using that work(2) parts(4) by (meson eq_key_imp_eq_value)
  moreover have "fits k c'" using parts(9) [OF work(2)] work(3,4) keeps_fits by auto
  ultimately have "\<exists>d. ((map_of (cm_clients (ps_mgr s)))(p \<mapsto> c')) q = Some d \<and> fits l d"
    if "(q, l) \<in> set (ps_held s)" for q l
    using parts(9) [OF that] that by auto
  then show ?thesis
    unfolding work(1) using parts(1-8) parts(10) work(3) by (intro pop_invI) (simp_all add: insert_absorb domI)
qed

lemma pop_inv_reachable:
  "(client_step build verify stop keeps)\<^sup>*\<^sup>* pop_start s \<Longrightarrow> pop_inv fits s"
proof (induction rule: rtranclp_induct)
  case base
  show ?case by (rule pop_invI) (simp_all add: pop_start_def cm_make_def)
qed (rule pop_inv_step)

end

end
