(* ===== verification/ListFiles.thy ===== *)
theory ListFiles
  imports StorageUri ResponseCodes
begin

text \<open>
  Listing the files below an address (\<open>common/backend_api/object_storage/list_files_impl.h\<close>): what
  the plugins collect, the one allocation in which the entries and their paths are returned, and
  how the caller reads it back.
\<close>

type_synonym listing = "(string \<times> size_t) list"

section \<open>What is collected\<close>

text \<open>
  Full addresses and sizes; names that end with a slash are markers of directories. The sizes of
  the SDKs are 64-bit numbers.
\<close>

definition uri_prefix :: "storage_uri \<Rightarrow> string" where
  "uri_prefix u = uri_scheme u @ ''://'' @ uri_bucket u @ ''/''"

definition listed :: "string \<Rightarrow> (string \<times> size_t) list \<Rightarrow> listing" where
  "listed prefix objects =
     map (\<lambda>(name, n). (prefix @ name, n))
       (filter (\<lambda>(name, n). name = [] \<or> last name \<noteq> CHR ''/'') objects)"

lemma listed_append [simp]: "listed prefix (xs @ ys) = listed prefix xs @ listed prefix ys"
  by (simp add: listed_def)

lemma listed_Nil [simp]: "listed prefix [] = []"
  by (simp add: listed_def)

section \<open>The allocation\<close>

text \<open>An entry takes 16 bytes. The paths follow the entries, each with its terminator.\<close>

record file_entry =
  fe_path :: ptr
  fe_size :: size_t

record entry_block =
  eb_entries :: "file_entry list"
  eb_paths :: string

abbreviation (input) NUL :: char where
  "NUL \<equiv> CHR 0x00"

definition path_bytes :: "listing \<Rightarrow> nat" where
  "path_bytes results = sum_list (map (\<lambda>r. length (fst r) + 1) results)"

definition entries_bytes :: "listing \<Rightarrow> nat" where
  "entries_bytes results = 16 * length results"

fun write_entries :: "ptr \<Rightarrow> listing \<Rightarrow> entry_block" where
  "write_entries path_area [] = \<lparr>eb_entries = [], eb_paths = []\<rparr>"
| "write_entries path_area ((path, n) # results) =
     (let b = write_entries (path_area + of_nat (length path) + 1) results in
      \<lparr>eb_entries = \<lparr>fe_path = path_area, fe_size = n\<rparr> # eb_entries b, eb_paths = path @ NUL # eb_paths b\<rparr>)"

definition make_entries :: "ptr \<Rightarrow> listing \<Rightarrow> entry_block" where
  "make_entries buf results = write_entries (buf + of_nat (entries_bytes results)) results"

text \<open>The C string at an address of the paths, which start at \<open>path_area\<close>.\<close>

definition c_string_at :: "ptr \<Rightarrow> string \<Rightarrow> ptr \<Rightarrow> string" where
  "c_string_at path_area bytes p = takeWhile (\<lambda>c. c \<noteq> NUL) (drop (unat (p - path_area)) bytes)"

text \<open>The loop over the entries in \<open>Streamer::list_files\<close>, without its filter.\<close>

definition read_entries :: "ptr \<Rightarrow> entry_block \<Rightarrow> uint \<Rightarrow> listing" where
  "read_entries buf b num_entries =
     map (\<lambda>e. (c_string_at (buf + of_nat (16 * length (eb_entries b))) (eb_paths b) (fe_path e), fe_size e))
       (take (unat num_entries) (eb_entries b))"

section \<open>The call\<close>

text \<open>
  \<open>impl_obj_list_files\<close>: the client's own listing may throw or never return. The outputs are the
  entries, none for an empty listing, and their number; on an error they are left untouched.
\<close>

definition impl_obj_list_files ::
  "('c \<Rightarrow> string \<Rightarrow> bool \<Rightarrow> (exn + response_code \<times> listing) option) \<Rightarrow> ptr \<Rightarrow> 'c option \<Rightarrow> string option \<Rightarrow>
    int \<Rightarrow> bool \<Rightarrow> bool \<Rightarrow> (response_code \<times> (entry_block option \<times> uint) option) option" where
  "impl_obj_list_files client_list buf client_handle prefix is_recursive out_entries out_num_entries =
     (case (client_handle, prefix) of
        (Some client, Some p) \<Rightarrow>
          if \<not> out_entries \<or> \<not> out_num_entries then Some (InvalidParameterError, None)
          else (case client_list client p (is_recursive \<noteq> 0) of
             None \<Rightarrow> None
           | Some (Inl e) \<Rightarrow> Some (UnknownError, None)
           | Some (Inr (ret, results)) \<Rightarrow>
               Some (if ret \<noteq> Success then (ret, None)
                     else (Success, Some (if results = [] then None else Some (make_entries buf results),
                                          of_nat (length results)))))
      | _ \<Rightarrow> Some (InvalidParameterError, None))"

text \<open>\<open>Streamer::list_files\<close> up to its filter: a code other than success is thrown.\<close>

definition entries_of_listing ::
  "ptr \<Rightarrow> response_code \<times> (entry_block option \<times> uint) option \<Rightarrow> exn + listing" where
  "entries_of_listing buf answer =
     (case answer of
        (ret, outputs) \<Rightarrow>
          if ret \<noteq> Success then Inl (CommonException ret)
          else case outputs of
            Some (Some b, num_entries) \<Rightarrow> Inr (read_entries buf b num_entries)
          | _ \<Rightarrow> Inr [])"

section \<open>The layout\<close>

lemma write_entries_props [simp]:
  "length (eb_entries (write_entries p results)) = length results"
  "map fe_size (eb_entries (write_entries p results)) = map snd results"
  "length (eb_paths (write_entries p results)) = path_bytes results"
  by (induction p results rule: write_entries.induct) (auto simp: Let_def path_bytes_def)

text \<open>
  The entries of a rest of the results, whose paths come after \<open>bytes\<close>, point into the paths at
  \<open>path_area\<close>.
\<close>

lemma write_entries_read:
  assumes "\<forall>(path, n)\<in>set results. NUL \<notin> set path"
    and "length bytes + path_bytes results < 18446744073709551616"
  shows "map (\<lambda>e. c_string_at path_area (bytes @ eb_paths (write_entries (path_area + of_nat (length bytes)) results)) (fe_path e))
      (eb_entries (write_entries (path_area + of_nat (length bytes)) results)) = map fst results"
  using assms
proof (induction results arbitrary: bytes)
  case (Cons r results)
  obtain path n where r: "r = (path, n)" by (cases r)
  have nul: "NUL \<notin> set path" using Cons.prems(1) r by simp
  let ?bytes = "bytes @ path @ [NUL]"
  have len: "length ?bytes + path_bytes results < 18446744073709551616"
    using Cons.prems(2) by (simp add: path_bytes_def r)
  have next_area: "path_area + of_nat (length bytes) + of_nat (length path) + 1 = path_area + of_nat (length ?bytes)"
    by simp
  have "unat (path_area + of_nat (length bytes) - path_area :: ptr) = length bytes"
    using Cons.prems(2) by (simp add: unsigned_of_nat take_bit_nat_eq_self_iff)
  moreover have "takeWhile (\<lambda>c. c \<noteq> NUL) (path @ NUL # rest) = path" for rest
    using nul by (simp add: takeWhile_append)
  ultimately show ?case
    using Cons.IH [OF _ len] Cons.prems(1) next_area
    by (simp add: r Let_def c_string_at_def ac_simps)
qed simp

text \<open>
  The reader of the allocation finds the listing in it, and the terminator of the last path is the
  last byte allocated.
\<close>

lemma read_make_entries:
  assumes "\<forall>(path, n)\<in>set results. NUL \<notin> set path"
    and "path_bytes results < 18446744073709551616" and "length results < 4294967296"
  shows "read_entries buf (make_entries buf results) (of_nat (length results)) = results"
proof -
  let ?area = "buf + of_nat (entries_bytes results)"
  let ?b = "write_entries ?area results"
  have paths: "map (\<lambda>e. c_string_at ?area (eb_paths ?b) (fe_path e)) (eb_entries ?b) = map fst results"
    using write_entries_read [of results "[]" ?area] assms by simp
  have "unat (of_nat (length results) :: uint) = length results"
    using assms(3) by (simp add: unsigned_of_nat take_bit_nat_eq_self_iff)
  then have "read_entries buf (make_entries buf results) (of_nat (length results)) =
      zip (map (\<lambda>e. c_string_at ?area (eb_paths ?b) (fe_path e)) (eb_entries ?b)) (map fe_size (eb_entries ?b))"
    by (simp add: read_entries_def make_entries_def entries_bytes_def zip_map_map zip_same_conv_map
        del: write_entries_props(2))
  also have "\<dots> = results" unfolding paths by (simp add: zip_map_fst_snd)
  finally show ?thesis .
qed

lemma listed_entries:
  assumes "client_list client prefix (is_recursive \<noteq> 0) = Some (Inr (Success, results))"
    and "\<forall>(path, n)\<in>set results. NUL \<notin> set path"
    and "path_bytes results < 18446744073709551616" and "length results < 4294967296"
  shows "\<exists>answer. impl_obj_list_files client_list buf (Some client) (Some prefix) is_recursive True True = Some answer \<and>
    entries_of_listing buf answer = Inr results"
  using assms read_make_entries [OF assms(2-4)]
  by (cases "results = []") (simp_all add: impl_obj_list_files_def entries_of_listing_def)

end
