(* ===== verification/S3Client.thy ===== *)
theory S3Client
  imports PluginClient ClientMgr ListFiles
begin

text \<open>
  The S3 client (\<open>s3/client\<close>, \<open>s3/client_configuration\<close>). The AWS SDK is a parameter: its default
  configuration, the shared profile, and, for every callback, which of the requests in flight it
  is for and how the request ended.
\<close>

section \<open>Endpoints\<close>

text \<open>\<open>std::tolower\<close> in the C locale.\<close>

definition to_lower :: "char \<Rightarrow> char" where
  "to_lower c = (let n = of_char c :: nat in if 65 \<le> n \<and> n \<le> 90 then char_of (n + 32) else c)"

fun starts_with_ci :: "string \<Rightarrow> string \<Rightarrow> bool" where
  "starts_with_ci str [] \<longleftrightarrow> True"
| "starts_with_ci [] (p # ps) \<longleftrightarrow> False"
| "starts_with_ci (c # cs) (p # ps) \<longleftrightarrow> to_lower c = to_lower p \<and> starts_with_ci cs ps"

datatype http_scheme = HTTP | HTTPS

definition parse_endpoint_scheme :: "string \<Rightarrow> string \<times> http_scheme option" where
  "parse_endpoint_scheme endpoint =
     (if starts_with_ci endpoint ''https://'' then (drop (length ''https://'') endpoint, Some HTTPS)
      else if starts_with_ci endpoint ''http://'' then (drop (length ''http://'') endpoint, Some HTTP)
      else (endpoint, None))"

section \<open>Credentials of a client\<close>

record s3_base =
  sb_key :: "string option"
  sb_secret :: "string option"
  sb_token :: "string option"
  sb_region :: "string option"
  sb_endpoint :: "string option"
  sb_credentials :: "(string \<times> string \<times> string) option"
  sb_chunk_bytesize :: size_t

definition s3_set_param :: "string \<times> string \<Rightarrow> s3_base \<Rightarrow> s3_base" where
  "s3_set_param param b =
     (case param of (key, v) \<Rightarrow>
        if key = access_key_id_key then b\<lparr>sb_key := Some v\<rparr>
        else if key = secret_access_key_key then b\<lparr>sb_secret := Some v\<rparr>
        else if key = session_token_key then b\<lparr>sb_token := Some v\<rparr>
        else if key = region_key then b\<lparr>sb_region := Some v\<rparr>
        else b)"

definition s3_base_make :: "client_config \<Rightarrow> s3_base" where
  "s3_base_make config =
     (let b = fold s3_set_param (take (num_initial_params config) (initial_params config))
            \<lparr>sb_key = None, sb_secret = None, sb_token = None, sb_region = None,
             sb_endpoint = endpoint_url config, sb_credentials = None,
             sb_chunk_bytesize = default_storage_chunk_size config\<rparr>
      in b\<lparr>sb_credentials :=
           (case (sb_key b, sb_secret b) of
              (Some key, Some secret) \<Rightarrow>
                Some (key, secret, case sb_token b of None \<Rightarrow> [] | Some token \<Rightarrow> token)
            | _ \<Rightarrow> None)\<rparr>)"

definition verify_credentials_member :: "string option \<Rightarrow> string option \<Rightarrow> bool" where
  "verify_credentials_member member v =
     (case member of
        Some m \<Rightarrow> (case v of None \<Rightarrow> False | Some x \<Rightarrow> m = x)
      | None \<Rightarrow> v = None)"

definition s3_verify_credentials :: "client_config \<Rightarrow> s3_base \<Rightarrow> bool" where
  "s3_verify_credentials config b =
     (let other = s3_base_make config in
      verify_credentials_member (sb_key b) (sb_key other) \<and>
      verify_credentials_member (sb_secret b) (sb_secret other) \<and>
      verify_credentials_member (sb_token b) (sb_token other) \<and>
      verify_credentials_member (sb_region b) (sb_region other) \<and>
      verify_credentials_member (sb_endpoint b) (sb_endpoint other))"

section \<open>Configuration\<close>

record aws_config =
  aws_endpoint_override :: string
  aws_scheme :: http_scheme
  aws_use_virtual_addressing :: bool
  aws_region :: string
  aws_ca_file :: string
  aws_max_connections :: size_t
  aws_target_gbps :: size_t
  aws_request_timeout_ms :: size_t
  aws_low_speed_limit :: size_t

text \<open>
  The defaults of the SDK, the \<open>ca_bundle\<close> of the shared profile (empty without one), the file
  system, and the bandwidth-delay product for a target throughput, which the code computes in
  floating point, with the margin of \<open>inflight_window_margin\<close>.
\<close>

record aws_world =
  aw_default :: aws_config
  aw_ca_bundle :: string
  aw_exists :: "string \<Rightarrow> bool"
  aw_bandwidth :: "size_t \<Rightarrow> size_t"

definition set_unless_zero :: "size_t \<Rightarrow> (size_t \<Rightarrow> 'c \<Rightarrow> 'c) \<Rightarrow> 'c \<Rightarrow> 'c" where
  "set_unless_zero n put c = (if n \<noteq> 0 then put n c else c)"

definition s3_configuration :: "environment \<Rightarrow> aws_world \<Rightarrow> exn + aws_config" where
  "s3_configuration env aws =
     (case getenv_ulong_or env ''RUNAI_STREAMER_S3_MAX_CONNECTIONS'' 0 of Inl e \<Rightarrow> Inl e | Inr max_connections \<Rightarrow>
      case getenv_ulong_or env ''RUNAI_STREAMER_S3_TARGET_GBPS'' 0 of Inl e \<Rightarrow> Inl e | Inr target_gbps \<Rightarrow>
      case getenv_ulong_or env ''RUNAI_STREAMER_S3_REQUEST_TIMEOUT_MS'' 1000 of Inl e \<Rightarrow> Inl e | Inr timeout \<Rightarrow>
      case getenv_ulong_or env ''RUNAI_STREAMER_S3_LOW_SPEED_LIMIT'' 0 of Inl e \<Rightarrow> Inl e | Inr low_speed \<Rightarrow>
      Inr (set_unless_zero low_speed (\<lambda>n c. c\<lparr>aws_low_speed_limit := n\<rparr>)
        (set_unless_zero timeout (\<lambda>n c. c\<lparr>aws_request_timeout_ms := n\<rparr>)
          (set_unless_zero target_gbps (\<lambda>n c. c\<lparr>aws_target_gbps := n\<rparr>)
            (set_unless_zero max_connections (\<lambda>n c. c\<lparr>aws_max_connections := n\<rparr>)
              (aw_default aws))))))"

definition inflight_window_bytes :: "environment \<Rightarrow> aws_world \<Rightarrow> size_t \<Rightarrow> size_t \<Rightarrow> exn + size_t" where
  "inflight_window_bytes env aws chunk_bytesize target_gbps =
     (case getenv_ulong_or env ''RUNAI_STREAMER_S3_MAX_INFLIGHT_MIB'' 0 of
        Inl e \<Rightarrow> Inl e
      | Inr mib \<Rightarrow>
          Inr (if mib \<noteq> 0 then mib * 1024 * 1024
               else max (aw_bandwidth aws target_gbps) (2 * chunk_bytesize)))"

text \<open>The endpoint of the credentials; one without a host is refused.\<close>

definition s3_set_endpoint :: "string option \<Rightarrow> aws_config \<Rightarrow> exn + aws_config" where
  "s3_set_endpoint endpoint c =
     (case endpoint of
        None \<Rightarrow> Inr c
      | Some ep \<Rightarrow>
          (case parse_endpoint_scheme ep of (host, scheme) \<Rightarrow>
             if host = [] \<or> hd host = CHR '':'' then Inl (CommonException FileAccessError)
             else
               let c1 = c\<lparr>aws_endpoint_override := host\<rparr> in
               Inr (case scheme of Some sch \<Rightarrow> c1\<lparr>aws_scheme := sch\<rparr> | None \<Rightarrow> c1)))"

text \<open>The certificate authorities: the environment first, then the profile; the file must exist.\<close>

definition s3_set_ca_file :: "environment \<Rightarrow> aws_world \<Rightarrow> aws_config \<Rightarrow> exn + aws_config" where
  "s3_set_ca_file env aws c =
     (let c1 = (case try_getenv_string env ''AWS_CA_BUNDLE'' of
                  Some f \<Rightarrow> c\<lparr>aws_ca_file := f\<rparr>
                | None \<Rightarrow> if aw_ca_bundle aws \<noteq> [] then c\<lparr>aws_ca_file := aw_ca_bundle aws\<rparr> else c)
      in if aws_ca_file c1 \<noteq> [] \<and> \<not> aw_exists aws (aws_ca_file c1) then Inl (CommonException CaFileNotFound)
         else Inr c1)"

section \<open>The client\<close>

text \<open>A request in flight; \<open>sg_scheme\<close> is the scheme of the address, which the request does not have.\<close>

record s3_get =
  sg_request_id :: object_handle
  sg_scheme :: string
  sg_bucket :: string
  sg_key :: string
  sg_range :: string
  sg_buffer :: ptr
  sg_bytesize :: size_t

record s3_client = sdk_state +
  sc_base :: s3_base
  sc_config :: aws_config
  sc_max_inflight_bytes :: size_t
  sc_gets :: "s3_get list"

definition s3_client_make :: "environment \<Rightarrow> aws_world \<Rightarrow> client_config \<Rightarrow> exn + s3_client" where
  "s3_client_make env aws config =
     (let b = s3_base_make config in
      case s3_configuration env aws of Inl e \<Rightarrow> Inl e | Inr c0 \<Rightarrow>
      case s3_set_endpoint (sb_endpoint b) c0 of Inl e \<Rightarrow> Inl e | Inr c1 \<Rightarrow>
      case try_getenv_bool env ''RUNAI_STREAMER_S3_USE_VIRTUAL_ADDRESSING'' of Inl e \<Rightarrow> Inl e | Inr virt \<Rightarrow>
      let c2 = (case virt of None \<Rightarrow> c1 | Some v \<Rightarrow> c1\<lparr>aws_use_virtual_addressing := v\<rparr>);
          c3 = (case sb_region b of None \<Rightarrow> c2 | Some r \<Rightarrow> c2\<lparr>aws_region := r\<rparr>) in
      case s3_set_ca_file env aws c3 of Inl e \<Rightarrow> Inl e | Inr c4 \<Rightarrow>
      case inflight_window_bytes env aws (sb_chunk_bytesize b) (aws_target_gbps c4) of Inl e \<Rightarrow> Inl e | Inr window \<Rightarrow>
      Inr \<lparr>sd_stop = False, sd_responder = None, sd_tick = 0, sd_issued = [], sd_fetched = [],
           sc_base = b, sc_config = c4, sc_max_inflight_bytes = window, sc_gets = []\<rparr>)"

text \<open>
  \<open>async_read\<close>. The response is expected before the address is parsed; the parse may throw.
\<close>

definition range_header :: "size_t \<Rightarrow> size_t \<Rightarrow> string" where
  "range_header offset bytesize =
     ''bytes='' @ to_string (unat offset) @ ''-'' @ to_string (unat (offset + bytesize - 1))"

definition s3_get_make :: "storage_uri \<Rightarrow> size_t \<times> size_t \<Rightarrow> ptr \<Rightarrow> object_handle \<Rightarrow> s3_get" where
  "s3_get_make uri rng destination_buffer request_id =
     (case rng of (offset, bytesize) \<Rightarrow>
        \<lparr>sg_request_id = request_id, sg_scheme = uri_scheme uri, sg_bucket = uri_bucket uri,
         sg_key = uri_path uri, sg_range = range_header offset bytesize,
         sg_buffer = destination_buffer, sg_bytesize = bytesize\<rparr>)"

text \<open>What a request reads, and to where: the bytes its range names.\<close>

definition range_bounds :: "string \<Rightarrow> nat \<times> nat" where
  "range_bounds header =
     (let rest = drop 6 header in
      (digits_value (takeWhile is_digit rest), digits_value (drop 1 (dropWhile is_digit rest))))"

definition get_view :: "s3_get \<Rightarrow> object_get" where
  "get_view g =
     (case range_bounds (sg_range g) of (first, last_byte) \<Rightarrow>
        (sg_request_id g, sg_scheme g @ ''://'' @ sg_bucket g @ ''/'' @ sg_key g,
         (of_nat first, of_nat last_byte - of_nat first + 1, sg_buffer g)))"

definition s3_client_async_read ::
  "string \<Rightarrow> size_t \<times> size_t \<Rightarrow> ptr \<Rightarrow> object_handle \<Rightarrow> s3_client \<Rightarrow> (exn + response_code) \<times> s3_client" where
  "s3_client_async_read path rng destination_buffer request_id s =
     (let s1 = expect_response s in
      case make_storage_uri path of
        Inl e \<Rightarrow> (Inl e, s1)
      | Inr uri \<Rightarrow>
          let g = s3_get_make uri rng destination_buffer request_id;
              s2 = log_get (get_view g) (s1\<lparr>sc_gets := sc_gets s1 @ [g]\<rparr>) in
          (Inr (if sd_stop s2 then FinishedError else Success), s2))"

text \<open>How a request ended: with the length the response reports, or not at all.\<close>

datatype get_outcome = GetSucceeded int | GetFailed

definition get_code :: "s3_get \<Rightarrow> get_outcome \<Rightarrow> response_code" where
  "get_code g outcome =
     (case outcome of
        GetSucceeded content_length \<Rightarrow>
          if content_length \<noteq> sint (sg_bytesize g) then FileTruncatedError else Success
      | GetFailed \<Rightarrow> FileAccessError)"

definition s3_get_callback :: "s3_get \<Rightarrow> get_outcome \<Rightarrow> s3_client \<Rightarrow> s3_client" where
  "s3_get_callback g outcome s =
     (let s1 = (if get_code g outcome = Success then log_fetched (snd (get_view g)) s else s) in
      push_response (sg_request_id g) (get_code g outcome) s1)"

text \<open>The SDK runs one callback.\<close>

definition s3_callback :: "(nat \<Rightarrow> nat \<times> get_outcome) \<Rightarrow> s3_client \<Rightarrow> s3_client" where
  "s3_callback sdk s =
     (if sc_gets s = [] then s
      else case sdk (sd_tick s) of (i, outcome) \<Rightarrow>
        let j = i mod length (sc_gets s) in
        s3_get_callback (sc_gets s ! j) outcome
          (s\<lparr>sd_tick := Suc (sd_tick s), sc_gets := take j (sc_gets s) @ drop (Suc j) (sc_gets s)\<rparr>))"

definition s3_async_read_response ::
  "(nat \<Rightarrow> nat \<times> get_outcome) \<Rightarrow> s3_client \<Rightarrow> ((exn + backend_response) \<times> s3_client) option" where
  "s3_async_read_response sdk s = async_response (s3_callback sdk) (length (sc_gets s)) s"

text \<open>
  \<open>list_files\<close>: one request per page. The SDK answers the \<open>i\<close>-th request of the call, or it fails; a
  store that never ends its listing keeps the loop running.
\<close>

record s3_list_request =
  lr_bucket :: string
  lr_prefix :: string
  lr_delimiter :: "string option"
  lr_token :: "string option"

record s3_page =
  pg_contents :: "(string \<times> size_t) list"
  pg_truncated :: bool
  pg_next_token :: string

partial_function (option) s3_list_pages ::
  "(nat \<Rightarrow> s3_list_request \<Rightarrow> s3_page option) \<Rightarrow> string \<Rightarrow> nat \<Rightarrow> s3_list_request \<Rightarrow> listing \<Rightarrow>
    (response_code \<times> listing) option" where
  "s3_list_pages sdk prefix i request results =
     (case sdk i request of
        None \<Rightarrow> Some (FileAccessError, results)
      | Some page \<Rightarrow>
          if pg_truncated page
          then s3_list_pages sdk prefix (Suc i) (request\<lparr>lr_token := Some (pg_next_token page)\<rparr>)
            (results @ listed prefix (pg_contents page))
          else Some (Success, results @ listed prefix (pg_contents page)))"

declare s3_list_pages.simps [code, simp del]

definition s3_list_files ::
  "(nat \<Rightarrow> s3_list_request \<Rightarrow> s3_page option) \<Rightarrow> string \<Rightarrow> bool \<Rightarrow> (exn + response_code \<times> listing) option" where
  "s3_list_files sdk prefix is_recursive =
     (case make_storage_uri prefix of
        Inl e \<Rightarrow> Some (Inl e)
      | Inr uri \<Rightarrow>
          map_option Inr (s3_list_pages sdk (uri_prefix uri) 0
            \<lparr>lr_bucket = uri_bucket uri, lr_prefix = uri_path uri,
             lr_delimiter = (if is_recursive then None else Some ''/''), lr_token = None\<rparr> []))"

text \<open>The pages of a listing that ends.\<close>

fun s3_pages_of :: "(nat \<Rightarrow> s3_list_request \<Rightarrow> s3_page option) \<Rightarrow> nat \<Rightarrow> s3_list_request \<Rightarrow> s3_page list \<Rightarrow> bool" where
  "s3_pages_of sdk i request [] \<longleftrightarrow> False"
| "s3_pages_of sdk i request (page # pages) \<longleftrightarrow> sdk i request = Some page \<and>
     (if pg_truncated page
      then s3_pages_of sdk (Suc i) (request\<lparr>lr_token := Some (pg_next_token page)\<rparr>) pages
      else pages = [])"

lemma s3_list_pages_all:
  "s3_pages_of sdk i request pages \<Longrightarrow> s3_list_pages sdk prefix i request results =
    Some (Success, results @ listed prefix (concat (map pg_contents pages)))"
proof (induction pages arbitrary: i request results)
  case (Cons page pages)
  then show ?case by (subst s3_list_pages.simps) (auto split: if_splits)
qed simp

section \<open>The interfaces\<close>

text \<open>What a client was made for: the credentials, the region and the endpoint.\<close>

definition s3_identity :: "s3_base \<Rightarrow> string option list" where
  "s3_identity b = [sb_key b, sb_secret b, sb_token b, sb_region b, sb_endpoint b]"

lemma s3_set_params_chunk:
  "sb_chunk_bytesize (fold s3_set_param ps b) = sb_chunk_bytesize b \<and> sb_endpoint (fold s3_set_param ps b) = sb_endpoint b"
  by (induction ps arbitrary: b) (auto simp: s3_set_param_def)

lemma s3_base_make_chunk [simp]:
  "sb_chunk_bytesize (s3_base_make config) = default_storage_chunk_size config"
  "sb_endpoint (s3_base_make config) = endpoint_url config"
  by (simp_all add: s3_base_make_def Let_def s3_set_params_chunk)

lemma s3_verify_credentials_iff:
  "s3_verify_credentials config b \<longleftrightarrow> s3_identity b = s3_identity (s3_base_make config)"
  by (auto simp: s3_verify_credentials_def verify_credentials_member_def s3_identity_def Let_def split: option.splits)

lemma s3_client_make_Inr:
  assumes "s3_client_make env aws config = Inr s"
  shows "sc_base s = s3_base_make config" and "\<not> sd_stop s" and "sd_responder s = None" and "sc_gets s = []"
    and "sd_issued s = []" and "sd_fetched s = []"
  using assms by (auto simp: s3_client_make_def Let_def split: sum.splits)

lemma stoi_error: "stoi s = Inl e \<Longrightarrow> e = StdException"
  by (auto simp: stoi_def Let_def split: prod.splits if_splits)

lemma try_getenv_bool_error: "try_getenv_bool env v = Inl e \<Longrightarrow> e = StdException"
  using stoi_error by (auto simp: try_getenv_bool_def try_getenv_int_def split: option.splits sum.splits if_splits)

lemma s3_client_make_error:
  assumes "s3_client_make env aws config = Inl e"
  shows "e = StdException \<or> e = CommonException FileAccessError \<or> e = CommonException CaFileNotFound"
  using assms getenv_ulong_or_error [of env] try_getenv_bool_error [of env]
  by (auto simp: s3_client_make_def s3_configuration_def s3_set_endpoint_def s3_set_ca_file_def
      inflight_window_bytes_def Let_def
      split: sum.splits option.splits if_splits prod.splits)

interpretation s3_managed: managed_client "s3_client_make env aws" "\<lambda>config s. s3_verify_credentials config (sc_base s)"
    sdk_stop "\<lambda>s s'. sc_base s' = sc_base s" "\<lambda>config s. s3_identity (sc_base s) = s3_identity (s3_base_make config)"
  for env aws
proof
  fix config s assume "s3_client_make env aws config = Inr s"
  then show "s3_identity (sc_base s) = s3_identity (s3_base_make config)" by (simp add: s3_client_make_Inr)
next
  fix config and s :: s3_client assume "s3_verify_credentials config (sc_base s)"
  then show "s3_identity (sc_base s) = s3_identity (s3_base_make config)" by (simp add: s3_verify_credentials_iff)
qed (simp_all add: sdk_stop_def)

text \<open>
  Property C14: however the callers of the S3 plugin's clients interleave, no two hold the same
  client, no client is both held and unused and none is lost, and a held client has the
  credentials, the region and the endpoint that its caller asked for; and no caller ever finds
  a client that is gone.
\<close>

theorem s3_clients_exclusive:
  assumes "(client_step (s3_client_make env aws) (\<lambda>config s. s3_verify_credentials config (sc_base s))
      sdk_stop (\<lambda>s s'. sc_base s' = sc_base s))\<^sup>*\<^sup>* pop_start s"
  shows "distinct (map fst (ps_held s)) \<and>
    fst ` set (ps_held s) \<inter> set (cm_unused (ps_mgr s)) = {} \<and>
    fst ` set (ps_held s) \<union> set (cm_unused (ps_mgr s)) = dom (map_of (cm_clients (ps_mgr s))) \<and>
    ((p, config) \<in> set (ps_held s) \<longrightarrow> (\<exists>c. map_of (cm_clients (ps_mgr s)) p = Some c \<and>
      s3_identity (sc_base c) = s3_identity (s3_base_make config))) \<and>
    cm_take (\<lambda>c. s3_verify_credentials config (sc_base c)) (ps_mgr s) \<noteq> Inl e"
proof -
  note inv = s3_managed.pop_inv_reachable [OF assms]
  note parts = pop_inv_parts [OF inv]
  have "cm_take (\<lambda>c. s3_verify_credentials config (sc_base c)) (ps_mgr s) \<noteq> Inl e"
    using cm_take_inv(1) [OF inv, of "\<lambda>config s. s3_verify_credentials config (sc_base s)" config] by auto
  then show ?thesis using parts(4,7,8) parts(9) [of p config] by simp
qed

text \<open>The range of a request is the segment it was made for, even where its end wraps around.\<close>

lemma range_bounds_header: "range_bounds (range_header off n) = (unat off, unat (off + n - 1))"
proof -
  let ?a = "to_string (unat off)" and ?b = "to_string (unat (off + n - 1))"
  have "drop 6 (range_header off n) = ?a @ ''-'' @ ?b" by (simp add: range_header_def)
  moreover have "takeWhile is_digit (?a @ ''-'' @ ?b) = ?a" "dropWhile is_digit (?a @ ''-'' @ ?b) = ''-'' @ ?b"
    using to_string_props [of "unat off"] by (simp_all add: list_all_iff is_digit_def)
  ultimately show ?thesis
    using to_string_props by (simp add: range_bounds_def Let_def)
qed

lemma get_view_make:
  assumes "make_storage_uri path = Inr u"
  shows "get_view (s3_get_make u (off, n) buf h) = (h, path, off, n, buf)"
  using make_storage_uri_sound [OF assms]
  by (simp add: get_view_def s3_get_make_def range_bounds_header uri_matches_def)

lemma id_take_drop: "j < length xs \<Longrightarrow> xs = take j xs @ xs ! j # drop (Suc j) xs"
  by (rule id_take_nth_drop)

interpretation s3_sdk: sdk_client "\<lambda>s. map get_view (sc_gets s)" "s3_callback sdk" "\<lambda>s. True"
  for sdk
proof
  fix s :: s3_client
  let ?gs = "sc_gets s"
  assume "map get_view ?gs \<noteq> []"
  then have some: "?gs \<noteq> []" by simp
  obtain i outcome where sdk: "sdk (sd_tick s) = (i, outcome)" by fastforce
  let ?j = "i mod length ?gs"
  let ?g = "?gs ! ?j" and ?xs = "take ?j ?gs" and ?ys = "drop (Suc ?j) ?gs"
  let ?c = "get_code ?g outcome"
  obtain h x where view: "get_view ?g = (h, x)" by (metis surj_pair)
  then have h: "h = sg_request_id ?g" by (simp add: get_view_def split: prod.splits)
  have "?j < length ?gs" using some by simp
  from arg_cong [OF id_take_drop [OF this], of "map get_view"]
  have "map get_view ?gs = map get_view ?xs @ (h, x) # map get_view ?ys" using view by simp
  moreover have run: "s3_callback sdk s =
      s3_get_callback ?g outcome (s\<lparr>sd_tick := Suc (sd_tick s), sc_gets := ?xs @ ?ys\<rparr>)"
    using some sdk by (simp add: s3_callback_def Let_def)
  then have "map get_view (sc_gets (s3_callback sdk s)) = map get_view ?xs @ map get_view ?ys"
    by (simp add: s3_get_callback_def Let_def push_response_def log_fetched_def)
  moreover have "?c \<noteq> FinishedError" by (simp add: get_code_def split: get_outcome.split)
  moreover have "sd_responder (s3_callback sdk s) = sd_responder (push_response h ?c s)"
    "sd_stop (s3_callback sdk s) = sd_stop s" "sd_issued (s3_callback sdk s) = sd_issued s"
    "set (sd_fetched s) \<subseteq> set (sd_fetched (s3_callback sdk s))"
    "?c = Success \<longrightarrow> x \<in> set (sd_fetched (s3_callback sdk s))"
    using view unfolding run
    by (auto simp: s3_get_callback_def Let_def push_response_def log_fetched_def h)
  ultimately show "\<exists>xs h x ys c. map get_view (sc_gets s) = xs @ (h, x) # ys \<and>
      map get_view (sc_gets (s3_callback sdk s)) = xs @ ys \<and> True \<and> c \<noteq> FinishedError \<and>
      sd_responder (s3_callback sdk s) = sd_responder (push_response h c s) \<and>
      sd_stop (s3_callback sdk s) = sd_stop s \<and> sd_issued (s3_callback sdk s) = sd_issued s \<and>
      set (sd_fetched s) \<subseteq> set (sd_fetched (s3_callback sdk s)) \<and>
      (c = Success \<longrightarrow> x \<in> set (sd_fetched (s3_callback sdk s)))"
    by blast
qed simp_all

lemma s3_async_read_ok:
  assumes inv: "s3_sdk.invar limit s" and limit: "unat limit < 4294967296"
    and uri: "make_storage_uri path = Inr u" and h: "h \<notin> dom (s3_sdk.pending s)" "h < limit"
  shows "\<exists>s'. s3_client_async_read path (off, n) buf h s = (Inr Success, s') \<and> s3_sdk.invar limit s' \<and>
    s3_sdk.fetched_reads s' = s3_sdk.fetched_reads s \<and>
    s3_sdk.pending s' = (s3_sdk.pending s)(h \<mapsto> (path, off, n, buf))"
proof -
  let ?g = "s3_get_make u (off, n) buf h"
  let ?s = "log_get (get_view ?g) ((expect_response s)\<lparr>sc_gets := sc_gets s @ [?g]\<rparr>)"
  have view: "get_view ?g = (h, path, off, n, buf)" by (rule get_view_make [OF uri])
  have cinv: "client_inv limit (map get_view (sc_gets s)) s" using inv by (simp add: s3_sdk.invar_def)
  have nh: "h \<notin> set (handles_of (map get_view (sc_gets s)) s)"
    using h(1) client_inv_dom [OF cinv] by (simp add: s3_sdk.pending_def)
  have gs: "set (map get_view (sc_gets ?s)) = insert (h, path, off, n, buf) (set (map get_view (sc_gets s)))"
    "distinct (map fst (map get_view (sc_gets ?s)))"
    using view nh client_inv_parts(3) [OF cinv] by (auto simp: log_get_def handles_of_def)
  note read = client_inv_read [OF cinv nh h(2) limit _ _ _ _ gs]
  have run: "s3_client_async_read path (off, n) buf h s = (Inr Success, ?s)"
    using uri client_inv_parts(1) [OF cinv]
    by (simp add: s3_client_async_read_def Let_def log_get_def expect_response_def)
  have same: "sd_responder ?s = sd_responder (expect_response s)" "sd_stop ?s = sd_stop s"
    "sd_issued ?s = (h, path, off, n, buf) # sd_issued s" "sd_fetched ?s = sd_fetched s"
    using view by (simp_all add: log_get_def expect_response_def)
  show ?thesis
    using run read [OF same] same(4)
    by (auto simp: s3_sdk.invar_def s3_sdk.pending_def s3_sdk.fetched_reads_def)
qed

section \<open>A client of its own\<close>

definition sample_aws :: aws_world where
  "sample_aws = \<lparr>aw_default = \<lparr>aws_endpoint_override = [], aws_scheme = HTTPS, aws_use_virtual_addressing = True,
       aws_region = ''us-east-1'', aws_ca_file = [], aws_max_connections = 25, aws_target_gbps = 10,
       aws_request_timeout_ms = 0, aws_low_speed_limit = 1\<rparr>,
     aw_ca_bundle = [], aw_exists = (\<lambda>f. False), aw_bandwidth = (\<lambda>gbps. gbps * 12500000)\<rparr>"

definition sample_s3_config :: "size_t \<Rightarrow> client_config" where
  "sample_s3_config chunk = \<lparr>endpoint_url = Some ''http://minio:9000'', default_storage_chunk_size = chunk,
     initial_params = [(access_key_id_key, ''key''), (secret_access_key_key, ''secret'')], num_initial_params = 2\<rparr>"

lemma sample_s3_client:
  assumes "endpoint_url config = None \<or> endpoint_url config = Some ''http://minio:9000''"
  shows "\<exists>c. s3_client_make (\<lambda>v. None) sample_aws config = Inr c"
  using assms
  by (auto simp: s3_client_make_def s3_configuration_def s3_set_endpoint_def s3_set_ca_file_def
      inflight_window_bytes_def Let_def getenv_ulong_or_def try_getenv_bool_def try_getenv_int_def
      try_getenv_ulong_def try_getenv_string_def sample_aws_def parse_endpoint_scheme_def
      to_lower_def set_unless_zero_def split: option.split)

theorem s3_clients_exclusive_witness:
  "\<exists>(s :: (client_config, s3_client) pop_system) c. ps_held s = [(4096, sample_s3_config 8)] \<and>
    map_of (cm_clients (ps_mgr s)) 4096 = Some c \<and>
    s3_identity (sc_base c) = [Some ''key'', Some ''secret'', None, None, Some ''http://minio:9000'']"
proof -
  let ?step = "client_step (s3_client_make (\<lambda>v. None) sample_aws)
    (\<lambda>config s. s3_verify_credentials config (sc_base s)) sdk_stop (\<lambda>s s'. sc_base s' = sc_base s)"
  obtain c where c: "s3_client_make (\<lambda>v. None) sample_aws (sample_s3_config 8) = Inr c"
    using sample_s3_client [of "sample_s3_config 8"] by (auto simp: sample_s3_config_def)
  let ?s1 = "pop_start\<lparr>ps_mgr := cm_make, ps_building := [(4096, sample_s3_config 8, c)]\<rparr>"
  let ?s2 = "?s1\<lparr>ps_mgr := cm_register 4096 c (ps_mgr ?s1), ps_building := [] @ [],
    ps_held := (4096, sample_s3_config 8) # ps_held ?s1\<rparr>"
  have "?step pop_start (pop_start\<lparr>ps_mgr := cm_make,
      ps_building := (4096, sample_s3_config 8, c) # ps_building pop_start\<rparr>)"
    by (rule client_step.construct [where k = "sample_s3_config 8" and m = cm_make])
      (simp_all add: c, simp_all add: pop_start_def cm_take_def cm_make_def)
  then have "?step pop_start ?s1" by (simp add: pop_start_def)
  note first = r_into_rtranclp [where r = ?step, OF this]
  have "?step ?s1 ?s2"
    by (rule client_step.register) simp
  note run = rtranclp.rtrancl_into_rtrancl [where r = ?step, OF first this]
  have "s3_identity (s3_base_make (sample_s3_config 8)) =
      [Some ''key'', Some ''secret'', None, None, Some ''http://minio:9000'']"
    by (simp add: s3_identity_def s3_base_make_def sample_s3_config_def Let_def s3_set_param_def
        access_key_id_key_def secret_access_key_key_def)
  moreover have held: "ps_held ?s2 = [(4096, sample_s3_config 8)]" by (simp add: pop_start_def)
  then have "(4096, sample_s3_config 8) \<in> set (ps_held ?s2)" by simp
  then have "\<exists>c. map_of (cm_clients (ps_mgr ?s2)) 4096 = Some c \<and>
      s3_identity (sc_base c) = s3_identity (s3_base_make (sample_s3_config 8))"
    using s3_clients_exclusive [OF run, of 4096 "sample_s3_config 8"] by blast
  ultimately show ?thesis using held by metis
qed

end
