(* ===== verification/Semver.thy ===== *)
theory Semver
  imports Env
begin

text \<open>
  Version numbers (\<open>utils/semver\<close>): parsed from the first run of digits and dots of a string, and
  compared number by number. The numbers are \<open>unsigned short\<close>; a larger one is narrowed.
\<close>

type_synonym ushort = "16 word"

datatype semver = Semver (sv_major: ushort) (sv_minor: ushort) (sv_patch: ushort)

section \<open>Parsing\<close>

text \<open>What \<open>std::getline\<close> yields with a dot as the delimiter: nothing after a final one.\<close>

fun getline_dots :: "string \<Rightarrow> string \<Rightarrow> string list" where
  "getline_dots acc [] = (if acc = [] then [] else [acc])"
| "getline_dots acc (c # cs) =
     (if c = CHR ''.'' then acc # getline_dots [] cs else getline_dots (acc @ [c]) cs)"

text \<open>\<open>Semver::stoul\<close>.\<close>

definition semver_stoul :: "string \<Rightarrow> exn + size_t" where
  "semver_stoul s =
     (case stoul s of Inl e \<Rightarrow> Inl e | Inr (value, idx) \<Rightarrow> if idx = length s then Inr value else Inl StdException)"

definition semver_number :: "string list \<Rightarrow> nat \<Rightarrow> exn + ushort" where
  "semver_number split i =
     (if i < length split
      then case semver_stoul (split ! i) of Inl e \<Rightarrow> Inl e | Inr v \<Rightarrow> Inr (ucast v)
      else Inr 0)"

definition semver_make :: "string \<Rightarrow> exn + semver" where
  "semver_make str =
     (let rest = dropWhile (\<lambda>c. \<not> is_digit c) str in
      if rest = [] then Inl StdException
      else
        let split = getline_dots [] (takeWhile (\<lambda>c. is_digit c \<or> c = CHR ''.'') rest) in
        if split = [] \<or> 3 < length split then Inl StdException
        else case semver_number split 0 of
          Inl e \<Rightarrow> Inl e
        | Inr major \<Rightarrow>
            (case semver_number split 1 of
               Inl e \<Rightarrow> Inl e
             | Inr minor \<Rightarrow>
                 (case semver_number split 2 of
                    Inl e \<Rightarrow> Inl e
                  | Inr patch \<Rightarrow> Inr (Semver major minor patch))))"

text \<open>\<open>operator<<\<close>.\<close>

definition semver_print :: "semver \<Rightarrow> string" where
  "semver_print v =
     to_string (unat (sv_major v)) @ ''.'' @ to_string (unat (sv_minor v)) @ ''.'' @ to_string (unat (sv_patch v))"

text \<open>\<open>get_glibc_version\<close>: what \<open>confstr\<close> writes to a buffer of 256 bytes.\<close>

definition get_glibc_version :: "string \<Rightarrow> exn + semver" where
  "get_glibc_version version = semver_make (take 255 version)"

section \<open>Comparison\<close>

definition semver_gt :: "semver \<Rightarrow> semver \<Rightarrow> bool" where
  "semver_gt lhs rhs \<longleftrightarrow>
     (if sv_major lhs \<noteq> sv_major rhs then sv_major rhs < sv_major lhs
      else if sv_minor lhs \<noteq> sv_minor rhs then sv_minor rhs < sv_minor lhs
      else sv_patch rhs < sv_patch lhs)"

definition semver_le :: "semver \<Rightarrow> semver \<Rightarrow> bool" where
  "semver_le lhs rhs \<longleftrightarrow> \<not> semver_gt lhs rhs"

definition semver_ge :: "semver \<Rightarrow> semver \<Rightarrow> bool" where
  "semver_ge lhs rhs \<longleftrightarrow> lhs = rhs \<or> semver_gt lhs rhs"

instantiation semver :: linorder
begin

definition less_eq_semver :: "semver \<Rightarrow> semver \<Rightarrow> bool" where
  "less_eq_semver v w = semver_le v w"

definition less_semver :: "semver \<Rightarrow> semver \<Rightarrow> bool" where
  "less_semver v w = semver_gt w v"

instance
  by intro_classes
    (auto simp: less_eq_semver_def less_semver_def semver_le_def semver_gt_def semver.expand split: if_splits)

end

section \<open>Round trip\<close>

lemma getline_digits: "list_all is_digit ds \<Longrightarrow> getline_dots acc (ds @ rest) = getline_dots (acc @ ds) rest"
proof (induction ds arbitrary: acc)
  case (Cons c ds)
  then have "c \<noteq> CHR ''.''" by (auto simp: is_digit_def)
  then show ?case using Cons by simp
qed simp

lemma semver_number_print:
  assumes "i < length split" and "split ! i = to_string (unat (x :: ushort))"
  shows "semver_number split i = Inr x"
proof -
  have small: "unat x < 65536" using unsigned_less [of x] by simp
  then have "stoul (to_string (unat x)) = Inr (of_nat (unat x), length (to_string (unat x)))"
    by (intro stoul_to_string) simp
  moreover have "ucast (of_nat (unat x) :: size_t) = x"
    using small by (simp add: unsigned_ucast_eq word_unat_eq_iff unat_of_nat take_bit_nat_eq_self_iff take_bit_word_eq_self)
  ultimately show ?thesis using assms by (simp add: semver_number_def semver_stoul_def)
qed

text \<open>A version that is printed, whatever text without digits stands before it and
  whatever text that does not go on with a digit or a dot after it, parses to itself.\<close>

theorem semver_roundtrip:
  assumes "list_all (\<lambda>c. \<not> is_digit c) before"
    and "after \<noteq> [] \<Longrightarrow> \<not> is_digit (hd after) \<and> hd after \<noteq> CHR ''.''"
  shows "semver_make (before @ semver_print v @ after) = Inr v"
proof -
  let ?a = "to_string (unat (sv_major v))" and ?b = "to_string (unat (sv_minor v))"
    and ?c = "to_string (unat (sv_patch v))"
  have digits: "list_all is_digit ?a" "list_all is_digit ?b" "list_all is_digit ?c" "?a \<noteq> []" "?b \<noteq> []" "?c \<noteq> []"
    using to_string_props by blast+
  have print: "semver_print v = ?a @ ''.'' @ ?b @ ''.'' @ ?c" by (simp add: semver_print_def)
  have rest: "dropWhile (\<lambda>c. \<not> is_digit c) (before @ semver_print v @ after) = semver_print v @ after"
  proof -
    have "dropWhile (\<lambda>c. \<not> is_digit c) (before @ xs) = dropWhile (\<lambda>c. \<not> is_digit c) xs" for xs
      using assms(1) by (simp add: list_all_iff dropWhile_append1 dropWhile_append2)
    moreover have "dropWhile (\<lambda>c. \<not> is_digit c) (?a @ xs) = ?a @ xs" for xs
      using digits(1,4) by (cases ?a) auto
    ultimately show ?thesis by (simp add: print)
  qed
  have whole: "takeWhile (\<lambda>c. is_digit c \<or> c = CHR ''.'') (semver_print v @ after) = semver_print v"
  proof -
    have "\<forall>c\<in>set (semver_print v). is_digit c \<or> c = CHR ''.''" using digits by (auto simp: print list_all_iff)
    moreover have "takeWhile (\<lambda>c. is_digit c \<or> c = CHR ''.'') after = []"
      using assms(2) by (cases after) auto
    ultimately show ?thesis by (simp add: takeWhile_append2)
  qed
  have split: "getline_dots [] (semver_print v) = [?a, ?b, ?c]"
    using digits getline_digits [OF digits(3), where rest = "[]"] by (simp add: print getline_digits)
  have "semver_number [?a, ?b, ?c] 0 = Inr (sv_major v)" "semver_number [?a, ?b, ?c] 1 = Inr (sv_minor v)"
    "semver_number [?a, ?b, ?c] 2 = Inr (sv_patch v)"
    by (rule semver_number_print; simp)+
  moreover have "semver_print v \<noteq> []" using digits by (simp add: print)
  ultimately show ?thesis
    unfolding semver_make_def Let_def rest whole split by simp
qed

theorem semver_roundtrip_witness:
  "semver_make (''glibc '' @ semver_print (Semver 2 31 0) @ ''-7'') = Inr (Semver 2 31 0)"
  by (rule semver_roundtrip) (simp_all add: is_digit_def)

end
