(* ===== verification/PluginApi.thy ===== *)
theory PluginApi
  imports PluginClient ClientMgr ListFiles Semver
begin

text \<open>
  What the entry points of the three storage plugins share (\<open>s3/s3.cc\<close>, \<open>gcs/gcs.cc\<close>,
  \<open>azure/azure.cc\<close>): the clients of the plugin, the window it advertises, and the session of one
  wrapper (\<open>common/s3_wrapper\<close>) with a plugin, which is the client the worker uses.
\<close>

section \<open>The state of a plugin\<close>

text \<open>\<open>g_max_inflight_bytes\<close> is unbounded until the first client is made. A null handle is 0.\<close>

record 'c plugin_state =
  pl_clients :: "'c client_mgr"
  pl_window :: size_t

definition plugin_start :: "'c plugin_state" where
  "plugin_start = \<lparr>pl_clients = cm_make, pl_window = size_max\<rparr>"

definition plugin_lookup :: "ptr \<Rightarrow> 'c plugin_state \<Rightarrow> 'c option" where
  "plugin_lookup h st = (if h = nullptr then None else map_of (cm_clients (pl_clients st)) h)"

definition plugin_update :: "ptr \<Rightarrow> 'c \<Rightarrow> 'c plugin_state \<Rightarrow> 'c plugin_state" where
  "plugin_update h c st = st\<lparr>pl_clients := (pl_clients st)\<lparr>cm_clients := mput h c (cm_clients (pl_clients st))\<rparr>\<rparr>"

lemma plugin_lookup_update [simp]:
  "plugin_lookup h st = Some c0 \<Longrightarrow>
    plugin_lookup h' (plugin_update h c st) = (if h' = h then Some c else plugin_lookup h' st)"
  by (auto simp: plugin_lookup_def plugin_update_def split: if_splits)

lemma plugin_lookup_simps [simp]:
  "plugin_lookup nullptr st = None"
  "plugin_lookup h (st\<lparr>pl_window := n\<rparr>) = plugin_lookup h st"
  by (simp_all add: plugin_lookup_def)

text \<open>A call on a client; a handle that is not a client's would be a dangling pointer.\<close>

definition on_client :: "ptr \<Rightarrow> ('c \<Rightarrow> (exn + 'r) \<times> 'c) \<Rightarrow> 'c plugin_state \<Rightarrow> (exn + 'r) \<times> 'c plugin_state" where
  "on_client h call st =
     (case plugin_lookup h st of
        None \<Rightarrow> (Inl Trap, st)
      | Some c \<Rightarrow> (case call c of (r, c') \<Rightarrow> (r, plugin_update h c' st)))"

text \<open>A call that may block.\<close>

definition wait_client ::
  "ptr \<Rightarrow> ('c \<Rightarrow> ((exn + 'r) \<times> 'c) option) \<Rightarrow> 'c plugin_state \<Rightarrow> ((exn + 'r) \<times> 'c plugin_state) option" where
  "wait_client h call st =
     (case plugin_lookup h st of
        None \<Rightarrow> Some (Inl Trap, st)
      | Some c \<Rightarrow> (case call c of None \<Rightarrow> None | Some (r, c') \<Rightarrow> Some (r, plugin_update h c' st)))"

text \<open>The \<open>catch\<close> clause around a call: a trap is no exception.\<close>

definition catch_unknown :: "(exn + response_code) \<Rightarrow> exn + response_code" where
  "catch_unknown r = (case r of Inl e \<Rightarrow> if e = Trap then Inl Trap else Inr UnknownError | Inr c \<Rightarrow> Inr c)"

text \<open>
  The \<open>catch\<close> clauses of \<open>obj_create_client\<close> in the GCS and the Azure plugin, which reset the handle.
\<close>

definition create_failed :: "exn \<Rightarrow> exn + response_code \<times> ptr" where
  "create_failed e =
     (case e of
        CommonException code \<Rightarrow> Inr (code, nullptr)
      | StdException \<Rightarrow> Inr (FileAccessError, nullptr)
      | Trap \<Rightarrow> Inl Trap)"

text \<open>The S3 and the GCS plugin report one event, whatever the capacity for them.\<close>

definition one_event :: "exn + backend_response \<Rightarrow> exn + response_code \<times> nat \<times> backend_response list" where
  "one_event r =
     (case r of
        Inl e \<Rightarrow> if e = Trap then Inl Trap else Inr (UnknownError, 0, [])
      | Inr response \<Rightarrow> Inr (Success, 1, [response]))"

text \<open>
  \<open>obj_remove_client\<close>, \<open>obj_remove_all_clients\<close> and \<open>obj_cancel_all_reads\<close>, the same in the three
  plugins; nothing they call throws.
\<close>

definition release_client :: "ptr \<Rightarrow> 'c plugin_state \<Rightarrow> response_code \<times> 'c plugin_state" where
  "release_client h st =
     (Success, if h \<noteq> nullptr then st\<lparr>pl_clients := cm_push h (pl_clients st)\<rparr> else st)"

definition release_all :: "'c plugin_state \<Rightarrow> response_code \<times> 'c plugin_state" where
  "release_all st = (Success, st\<lparr>pl_clients := cm_clear (pl_clients st)\<rparr>)"

definition cancel_all :: "('c \<Rightarrow> 'c) \<Rightarrow> 'c plugin_state \<Rightarrow> response_code \<times> 'c plugin_state" where
  "cancel_all stop st = (Success, st\<lparr>pl_clients := cm_stop stop (pl_clients st)\<rparr>)"

text \<open>\<open>obj_list_files\<close> of a plugin whose clients list with \<open>client_list\<close>.\<close>

definition plugin_list_files ::
  "('c \<Rightarrow> string \<Rightarrow> bool \<Rightarrow> (exn + response_code \<times> listing) option) \<Rightarrow> ptr \<Rightarrow> ptr \<Rightarrow> string option \<Rightarrow> int \<Rightarrow>
    bool \<Rightarrow> bool \<Rightarrow> 'c plugin_state \<Rightarrow> (exn + response_code \<times> (entry_block option \<times> uint) option) option" where
  "plugin_list_files client_list buf h prefix is_recursive out_entries out_num_entries st =
     (if h \<noteq> nullptr \<and> plugin_lookup h st = None then Some (Inl Trap)
      else map_option Inr (impl_obj_list_files client_list buf (plugin_lookup h st) prefix is_recursive
             out_entries out_num_entries))"

section \<open>The window\<close>

text \<open>
  \<open>obj_get_backend_config\<close>, the same text in the three plugins: the code, what is written to the
  buffer (its terminator left out) and the length.
\<close>

definition backend_config ::
  "size_t \<Rightarrow> string option \<Rightarrow> bool \<Rightarrow> uint option \<Rightarrow> response_code \<times> string option \<times> uint option" where
  "backend_config window key out_value_buffer in_out_buffer_len =
     (case (key, in_out_buffer_len) of
        (Some k, Some len) \<Rightarrow>
          if \<not> out_value_buffer then (UnknownError, None, Some len)
          else if k = ''max_inflight_bytes'' then
            (let tmp = to_string (unat window); needed = of_nat (length tmp) + 1 :: uint in
             if 32 \<le> length tmp then (UnknownError, None, Some len)
             else if len < needed then (UnknownError, None, Some needed)
             else (Success, Some tmp, Some (of_nat (length tmp))))
          else (UnknownError, None, Some len)
      | _ \<Rightarrow> (UnknownError, None, in_out_buffer_len))"

lemma length_to_string: "n < 10 ^ k \<Longrightarrow> 0 < k \<Longrightarrow> length (to_string n) \<le> k"
proof (induction n arbitrary: k rule: to_string.induct)
  case (1 n)
  show ?case
  proof (cases "n < 10")
    case True
    then show ?thesis using 1 by (simp add: to_string.simps [of n])
  next
    case False
    then obtain j where k: "k = Suc j" "0 < j" using 1(2,3) by (cases k; cases "k - 1") auto
    have "n div 10 < 10 ^ j" using 1(2) by (simp add: k(1) less_mult_imp_div_less)
    with 1(1) [OF False this k(2)] show ?thesis using False by (simp add: to_string.simps [of n] k(1))
  qed
qed

lemma length_to_string_64: "length (to_string (unat (w :: size_t))) \<le> 20"
proof -
  have "unat w < 10 ^ 20" using unat_lt64 [of w] by (rule order_less_trans) simp
  then show ?thesis by (rule length_to_string) simp
qed

section \<open>The session of a wrapper\<close>

text \<open>
  \<open>S3ClientWrapper\<close>: its client's handle and the state of the plugin. \<open>create\<close>, \<open>request\<close> and \<open>wait\<close>
  are the plugin's entry points; those that return are asked for their result.
\<close>

type_synonym 'c session = "ptr \<times> 'c plugin_state"

definition session_create ::
  "(client_config \<Rightarrow> 'c plugin_state \<Rightarrow> (exn + response_code \<times> ptr) \<times> 'c plugin_state) \<Rightarrow>
    'c plugin_state \<Rightarrow> params \<Rightarrow> exn + 'c session" where
  "session_create create st ps =
     (case create (to_config ps) st of
        (Inl e, st') \<Rightarrow> Inl e
      | (Inr (ret, client), st') \<Rightarrow> if ret \<noteq> Success then Inl (CommonException ret) else Inr (client, st'))"

definition session_window :: "'c session \<Rightarrow> response_code \<times> string" where
  "session_window s =
     (case backend_config (pl_window (snd s)) (Some ''max_inflight_bytes'') True (Some 32) of
        (ret, written, len) \<Rightarrow> (ret, case written of None \<Rightarrow> [] | Some v \<Rightarrow> v))"

definition session_read ::
  "(ptr \<Rightarrow> string \<Rightarrow> size_t \<times> size_t \<Rightarrow> ptr \<Rightarrow> object_handle \<Rightarrow> 'c plugin_state \<Rightarrow>
      (exn + response_code) \<times> 'c plugin_state) \<Rightarrow>
    string \<Rightarrow> size_t \<times> size_t \<Rightarrow> ptr \<Rightarrow> object_handle \<Rightarrow> 'c session \<Rightarrow> response_code \<times> 'c session" where
  "session_read request path rng buf request_id s =
     (case request (fst s) path rng buf request_id (snd s) of (r, st) \<Rightarrow> (projr r, (fst s, st)))"

definition session_wait ::
  "(ptr \<Rightarrow> nat \<Rightarrow> 'c plugin_state \<Rightarrow>
      ((exn + response_code \<times> nat \<times> backend_response list) \<times> 'c plugin_state) option) \<Rightarrow>
    nat \<Rightarrow> 'c session \<Rightarrow> (response_code \<times> nat \<times> backend_response list) \<times> 'c session" where
  "session_wait wait k s = (case the (wait (fst s) k (snd s)) of (r, st) \<Rightarrow> (projr r, (fst s, st)))"

text \<open>The wrapper that \<open>Streamer::list_files\<close> makes for one listing.\<close>

definition session_list ::
  "(client_config \<Rightarrow> 'c plugin_state \<Rightarrow> (exn + response_code \<times> ptr) \<times> 'c plugin_state) \<Rightarrow>
    (ptr \<Rightarrow> string option \<Rightarrow> int \<Rightarrow> bool \<Rightarrow> bool \<Rightarrow> 'c plugin_state \<Rightarrow>
      (exn + response_code \<times> (entry_block option \<times> uint) option) option) \<Rightarrow>
    ptr \<Rightarrow> 'c plugin_state \<Rightarrow> params \<Rightarrow> string \<Rightarrow> bool \<Rightarrow> exn + listing" where
  "session_list create list buf st ps prefix is_recursive =
     (case session_create create st ps of
        Inl e \<Rightarrow> Inl e
      | Inr (h, st') \<Rightarrow>
          (case the (list h (Some prefix) (if is_recursive then 1 else 0) True True st') of
             Inl e \<Rightarrow> Inl e
           | Inr answer \<Rightarrow> entries_of_listing buf answer))"

section \<open>A client for a caller\<close>

text \<open>Unused clients, and those that will be made, satisfy the invariant and owe nothing.\<close>

definition plugin_ready ::
  "('c \<Rightarrow> bool) \<Rightarrow> ('c \<Rightarrow> object_handle \<rightharpoonup> string \<times> segment) \<Rightarrow> 'c plugin_state \<Rightarrow> bool" where
  "plugin_ready cok cpend st \<longleftrightarrow> distinct (cm_unused (pl_clients st)) \<and>
     (\<forall>h\<in>set (cm_unused (pl_clients st)). \<exists>c. plugin_lookup h st = Some c \<and> cok c \<and> cpend c = Map.empty)"

lemma plugin_ready_start [simp]: "plugin_ready cok cpend plugin_start"
  by (simp add: plugin_ready_def plugin_start_def cm_make_def)

lemma cm_pop_ready:
  assumes ready: "plugin_ready cok cpend st"
    and build: "\<And>c. build config = Inr c \<Longrightarrow> cok c \<and> cpend c = Map.empty"
  shows "case cm_pop build verify p config (pl_clients st) of
      (Inl e, m) \<Rightarrow> e = StdException \<or> build config = Inl e
    | (Inr h, m) \<Rightarrow> \<exists>c. plugin_lookup h (st\<lparr>pl_clients := m\<rparr>) = Some c \<and> cok c \<and> cpend c = Map.empty"
proof -
  let ?m = "pl_clients st"
  have "set (cm_unused ?m) \<subseteq> dom (map_of (cm_clients ?m))"
    using ready by (force simp: plugin_ready_def plugin_lookup_def split: if_splits)
  moreover have "distinct (cm_unused ?m)" using ready by (simp add: plugin_ready_def)
  ultimately obtain q m gone where taken: "cm_take (verify config) ?m = Inr (q, m)"
      "map_of (cm_clients m) = map_of (cm_clients ?m) |` (- set gone)"
      "case q of None \<Rightarrow> cm_unused ?m = gone \<and> cm_unused m = []
       | Some h \<Rightarrow> cm_unused ?m = gone @ h # cm_unused m \<and> (\<exists>c. map_of (cm_clients ?m) h = Some c \<and> verify config c)"
    using take_unused_cases [of "cm_unused ?m" "cm_clients ?m" "verify config"] unfolding cm_take_def by blast
  show ?thesis
  proof (cases q)
    case None
    show ?thesis
      using taken(1) build by (cases "build config") (auto simp: None cm_pop_def cm_register_def plugin_lookup_def)
  next
    case (Some h)
    have here: "h \<in> set (cm_unused ?m)" "h \<notin> set gone"
      using taken(3) \<open>distinct (cm_unused ?m)\<close> by (auto simp: Some)
    obtain c where "plugin_lookup h st = Some c" "cok c" "cpend c = Map.empty"
      using ready here(1) by (auto simp: plugin_ready_def)
    moreover have "plugin_lookup h (st\<lparr>pl_clients := m\<rparr>) = plugin_lookup h st"
      using taken(2) here(2) by (simp add: plugin_lookup_def)
    ultimately show ?thesis using taken(1) by (simp add: Some cm_pop_def)
  qed
qed

text \<open>
  \<open>obj_create_client\<close> of the GCS and the Azure plugin: the code of an exception is passed on. The new
  client, if one is made, is at \<open>p\<close>. The constructor of a client (\<open>build\<close>) starts a pool of threads,
  and \<open>None\<close> is one that never returns; the call then does not either.
\<close>

definition build_needed ::
  "(client_config \<Rightarrow> 'c \<Rightarrow> bool) \<Rightarrow> ptr \<Rightarrow> client_config \<Rightarrow> 'c client_mgr \<Rightarrow> bool" where
  "build_needed verify p config m \<longleftrightarrow>
     (case cm_take (verify config) m of Inr (None, m') \<Rightarrow> p \<noteq> nullptr | _ \<Rightarrow> False)"

definition create_or_fail ::
  "(client_config \<Rightarrow> (exn + 'c) option) \<Rightarrow> (client_config \<Rightarrow> 'c \<Rightarrow> bool) \<Rightarrow> ('c \<Rightarrow> size_t) \<Rightarrow> ptr \<Rightarrow>
    client_config \<Rightarrow> 'c plugin_state \<Rightarrow> ((exn + response_code \<times> ptr) \<times> 'c plugin_state) option" where
  "create_or_fail build verify window p config st =
     (if build_needed verify p config (pl_clients st) \<and> Option.is_none (build config) then None
      else Some (case cm_pop (\<lambda>config. the (build config)) verify p config (pl_clients st) of
        (Inl e, m) \<Rightarrow> (create_failed e, st\<lparr>pl_clients := m\<rparr>)
      | (Inr h, m) \<Rightarrow>
          (let st' = st\<lparr>pl_clients := m\<rparr> in
           case plugin_lookup h st' of
             None \<Rightarrow> (Inl Trap, st')
           | Some c \<Rightarrow> (Inr (Success, h), st'\<lparr>pl_window := window c\<rparr>))))"

lemma create_or_fail_creates:
  assumes ready: "plugin_ready cok cpend st"
    and build: "\<And>c. build config = Some (Inr c) \<Longrightarrow> cok c \<and> cpend c = Map.empty"
    and returns: "build config \<noteq> None"
    and fails: "build config \<noteq> Some (Inl Trap)" "build config \<noteq> Some (Inl (CommonException Success))"
  shows "\<exists>ret h st'. create_or_fail build verify window p config st = Some (Inr (ret, h), st') \<and>
    (ret = Success \<longrightarrow> (\<exists>c. plugin_lookup h st' = Some c \<and> cok c \<and> cpend c = Map.empty))"
proof -
  let ?build = "\<lambda>config. the (build config)"
  obtain b where b: "build config = Some b" using returns by blast
  obtain r m where pop: "cm_pop ?build verify p config (pl_clients st) = (r, m)" by (metis surj_pair)
  have "\<And>c. ?build config = Inr c \<Longrightarrow> cok c \<and> cpend c = Map.empty" using build b by simp
  note popped = cm_pop_ready [where build = ?build and config = config and verify = verify and p = p, OF ready this]
  show ?thesis
  proof (cases r)
    case (Inl e)
    then have "e \<noteq> Trap" "e \<noteq> CommonException Success" using popped fails b by (auto simp: pop)
    then show ?thesis by (cases e) (simp_all add: create_or_fail_def b pop Inl create_failed_def)
  next
    case (Inr h)
    then show ?thesis using popped by (auto simp: create_or_fail_def b pop Let_def)
  qed
qed

section \<open>Entry points that keep their word\<close>

text \<open>The handles stay below 32 bits, which the responder counts with.\<close>

lemma unat_ucast_limit [simp]: "unat (ucast (limit :: uint) :: object_handle) = unat limit"
  using unat_lt32 [of limit] by (simp add: unsigned_ucast_eq take_bit_nat_eq_self_iff less_trans [of _ 4294967296])


text \<open>
  What the entry points of a plugin promise, one client at a time: \<open>cok\<close> is the invariant of a
  client, \<open>cpend\<close> the reads it owes an answer for and \<open>cdone\<close> those that were read.
\<close>

definition session_ok :: "('c \<Rightarrow> bool) \<Rightarrow> 'c session \<Rightarrow> bool" where
  "session_ok cok s \<longleftrightarrow> (\<exists>c. plugin_lookup (fst s) (snd s) = Some c \<and> cok c)"

definition session_client :: "('c \<Rightarrow> 'r) \<Rightarrow> 'c session \<Rightarrow> 'r" where
  "session_client f s = f (the (plugin_lookup (fst s) (snd s)))"

locale plugin_entry_points =
  fixes chunk :: size_t and limit :: object_handle
    and create :: "client_config \<Rightarrow> 'c plugin_state \<Rightarrow> (exn + response_code \<times> ptr) \<times> 'c plugin_state"
    and request :: "ptr \<Rightarrow> string \<Rightarrow> size_t \<times> size_t \<Rightarrow> ptr \<Rightarrow> object_handle \<Rightarrow> 'c plugin_state \<Rightarrow>
      (exn + response_code) \<times> 'c plugin_state"
    and wait :: "ptr \<Rightarrow> nat \<Rightarrow> 'c plugin_state \<Rightarrow>
      ((exn + response_code \<times> nat \<times> backend_response list) \<times> 'c plugin_state) option"
    and cok :: "'c \<Rightarrow> bool"
    and cpend :: "'c \<Rightarrow> object_handle \<rightharpoonup> string \<times> segment"
    and cdone :: "'c \<Rightarrow> (string \<times> segment) set"
  assumes creates: "plugin_ready cok cpend st \<Longrightarrow> default_storage_chunk_size config = chunk \<Longrightarrow>
      \<exists>ret h st'. create config st = (Inr (ret, h), st') \<and>
        (ret = Success \<longrightarrow> (\<exists>c. plugin_lookup h st' = Some c \<and> cok c \<and> cpend c = Map.empty))"
    and requests: "plugin_lookup p st = Some c \<Longrightarrow> cok c \<Longrightarrow> make_storage_uri path = Inr u \<Longrightarrow> 0 < n \<Longrightarrow> n \<le> chunk \<Longrightarrow>
      h \<notin> dom (cpend c) \<Longrightarrow> h < limit \<Longrightarrow>
      \<exists>ret c'. request p path (off, n) buf h st = (Inr ret, plugin_update p c' st) \<and> cok c' \<and> cdone c \<subseteq> cdone c' \<and>
        cpend c' = (if ret = Success then (cpend c)(h \<mapsto> (path, off, n, buf)) else cpend c)"
    and waits: "plugin_lookup p st = Some c \<Longrightarrow> cok c \<Longrightarrow> 0 < k \<Longrightarrow>
      \<exists>answer c'. wait p k st = Some (Inr answer, plugin_update p c' st) \<and> cok c' \<and> round_ok cpend cdone k c answer c'"
begin

lemma session_round:
  assumes "plugin_lookup p st = Some c" and "round_ok cpend cdone k c answer c'"
  shows "round_ok (session_client cpend) (session_client cdone) k (p, st) answer (p, plugin_update p c' st)"
  using assms by (auto simp: round_ok_def session_client_def)

lemma session_plugin:
  assumes ready: "plugin_ready cok cpend start"
  shows "storage_plugin chunk limit (session_create create start) (session_read request) (session_wait wait)
    (session_ok cok) (session_client cpend) (session_client cdone)"
proof
  fix ps :: params and e
  assume ps: "params_chunk_bytesize ps = chunk"
  then obtain ret h st where c: "create (to_config ps) start = (Inr (ret, h), st)"
    "ret = Success \<longrightarrow> (\<exists>c. plugin_lookup h st = Some c \<and> cok c \<and> cpend c = Map.empty)"
    using creates [OF ready, of "to_config ps"] by (auto simp: to_config_def Let_def)
  show "e \<noteq> Trap" if "session_create create start ps = Inl e"
    using that c(1) by (auto simp: session_create_def split: if_splits)
  show "session_ok cok s \<and> session_client cpend s = Map.empty" if "session_create create start ps = Inr s" for s
    using that c by (auto simp: session_create_def session_ok_def session_client_def split: if_splits)
next
  fix s s' :: "'c session" and path u n h off buf c
  assume ok: "session_ok cok s" and uri: "make_storage_uri path = Inr u" "0 < n" "n \<le> chunk"
    and h: "h \<notin> dom (session_client cpend s)" "h < limit"
    and run: "session_read request path (off, n) buf h s = (c, s')"
  obtain p st where s: "s = (p, st)" by (cases s)
  obtain cl where cl: "plugin_lookup p st = Some cl" "cok cl" using ok by (auto simp: session_ok_def s)
  have "h \<notin> dom (cpend cl)" using h(1) cl(1) by (simp add: session_client_def s)
  from requests [OF cl uri this h(2)] obtain ret cl' where
    r: "request p path (off, n) buf h st = (Inr ret, plugin_update p cl' st)" "cok cl'" "cdone cl \<subseteq> cdone cl'"
      "cpend cl' = (if ret = Success then (cpend cl)(h \<mapsto> (path, off, n, buf)) else cpend cl)"
    by blast
  have "c = ret" "s' = (p, plugin_update p cl' st)" using run r(1) by (simp_all add: session_read_def s)
  then show "session_ok cok s' \<and> session_client cdone s \<subseteq> session_client cdone s' \<and>
      session_client cpend s' =
        (if c = Success then (session_client cpend s)(h \<mapsto> (path, off, n, buf)) else session_client cpend s)"
    using r(2-4) cl(1) by (simp add: session_ok_def session_client_def s)
next
  fix s s' :: "'c session" and k answer
  assume ok: "session_ok cok s" and k: "0 < k" and run: "session_wait wait k s = (answer, s')"
  obtain p st where s: "s = (p, st)" by (cases s)
  obtain cl where cl: "plugin_lookup p st = Some cl" "cok cl" using ok by (auto simp: session_ok_def s)
  from waits [OF cl k] obtain a cl' where
    r: "wait p k st = Some (Inr a, plugin_update p cl' st)" "cok cl'" "round_ok cpend cdone k cl a cl'" by blast
  have "answer = a" "s' = (p, plugin_update p cl' st)" using run r(1) by (simp_all add: session_wait_def s)
  then show "session_ok cok s' \<and> round_ok (session_client cpend) (session_client cdone) k s answer s'"
    using r(2) cl(1) session_round [OF cl(1) r(3)] by (simp add: session_ok_def s)
qed

text \<open>The worker's client, for a plugin that other wrappers may have used before.\<close>

lemma session_reads_client:
  assumes "plugin_ready cok cpend start"
  shows "client_ok chunk limit
      (plugin_client (session_create create start) session_window (session_read request) (session_wait wait))
      (plugin_ok (session_ok cok) (session_client cpend)) (plugin_outst (session_client cpend))
      (plugin_got (session_client cdone))"
  by (rule storage_plugin.reads_client [OF session_plugin [OF assms]])

end

sublocale plugin_entry_points \<subseteq> fresh: storage_plugin chunk limit "session_create create plugin_start"
    session_window "session_read request" "session_wait wait" "session_ok cok" "session_client cpend" "session_client cdone"
  by (rule session_plugin [OF plugin_ready_start])

section \<open>The window comes back\<close>

lemma session_window_reads: "max_inflight_bytes (session_window (p, st)) = pl_window st"
proof -
  let ?tmp = "to_string (unat (pl_window st))"
  have len: "length ?tmp \<le> 20" by (rule length_to_string_64)
  then have "take_bit 32 (length ?tmp) = length ?tmp" by (intro take_bit_nat_eq_self) simp
  then have "unat (of_nat (length ?tmp) + 1 :: uint) = length ?tmp + 1"
    using len by (simp add: unat_word_ariths unsigned_of_nat)
  then have "\<not> (32 :: uint) < of_nat (length ?tmp) + 1" using len by (simp add: word_less_nat_alt)
  then have "session_window (p, st) = (Success, ?tmp)"
    using len by (simp add: session_window_def backend_config_def Let_def)
  moreover have "take 31 ?tmp = ?tmp" using len by simp
  moreover have "scan_number ?tmp = (False, 0, ?tmp)" "?tmp \<noteq> []" "digits_value ?tmp = unat (pl_window st)"
    using to_string_props [of "unat (pl_window st)"] scan_number_digits [of ?tmp] by simp_all
  ultimately show ?thesis
    using unat_lt64 [of "pl_window st", THEN linorder_not_le [THEN iffD2]]
    by (simp add: max_inflight_bytes_def strtoull_def)
qed

end
