(* ===== verification/S3Plugin.thy ===== *)
theory S3Plugin
  imports S3Client PluginApi ObjectStorage Answering
begin

text \<open>
  The entry points of the S3 plugin (\<open>s3/s3.cc\<close>, \<open>s3/s3_init\<close>), and the object-storage worker run
  on them.
\<close>

section \<open>The backend\<close>

definition min_glibc_semver :: "exn + semver" where
  "min_glibc_semver = semver_make (description (code_value GlibcPrerequisite))"

text \<open>
  \<open>obj_open_backend\<close>; \<open>glibc\<close> is what the C library reports, and the last argument whether the SDK
  is initialised, by a static that an exception leaves for the next call. The minimal version is
  read when the library is loaded, where nothing catches an exception.
\<close>

definition s3_init_make :: "environment \<Rightarrow> exn + unit" where
  "s3_init_make env =
     (case getenv_bool_or env ''RUNAI_STREAMER_S3_TRACE'' False of Inl e \<Rightarrow> Inl e | Inr trace_aws \<Rightarrow> Inr ())"

definition s3_obj_open_backend :: "environment \<Rightarrow> string \<Rightarrow> bool \<Rightarrow> (exn + response_code) \<times> bool" where
  "s3_obj_open_backend env glibc s3_init =
     (case min_glibc_semver of
        Inl e \<Rightarrow> (Inl Trap, s3_init)
      | Inr min_version \<Rightarrow>
          (case get_glibc_version glibc of
             Inl e \<Rightarrow> (Inr S3NotSupported, s3_init)
           | Inr glibc_version \<Rightarrow>
               if semver_gt min_version glibc_version then (Inr GlibcPrerequisite, s3_init)
               else (case try_getenv_ulong env ''RUNAI_STREAMER_CHUNK_BYTESIZE'' of
                  Inl e \<Rightarrow> (Inr S3NotSupported, s3_init)
                | Inr chunk_size \<Rightarrow>
                    if s3_init then (Inr Success, True)
                    else (case s3_init_make env of
                       Inl e \<Rightarrow> (Inr S3NotSupported, False)
                     | Inr u \<Rightarrow> (Inr Success, True)))))"

definition s3_obj_close_backend :: response_code where
  "s3_obj_close_backend = Success"

definition s3_obj_get_backend_shutdown_policy :: shutdown_policy where
  "s3_obj_get_backend_shutdown_policy = OnProcessExit"

definition s3_obj_get_backend_config ::
  "string option \<Rightarrow> bool \<Rightarrow> uint option \<Rightarrow> s3_client plugin_state \<Rightarrow> response_code \<times> string option \<times> uint option" where
  "s3_obj_get_backend_config key out_value_buffer in_out_buffer_len st =
     backend_config (pl_window st) key out_value_buffer in_out_buffer_len"

section \<open>The clients\<close>

text \<open>The allocation of a new client is at \<open>p\<close>. On an error the handle of the caller stays as it is.\<close>

definition s3_obj_create_client ::
  "environment \<Rightarrow> aws_world \<Rightarrow> ptr \<Rightarrow> client_config \<Rightarrow> s3_client plugin_state \<Rightarrow>
    (exn + response_code \<times> ptr) \<times> s3_client plugin_state" where
  "s3_obj_create_client env aws p config st =
     (case cm_pop (s3_client_make env aws) (\<lambda>k c. s3_verify_credentials k (sc_base c)) p config (pl_clients st) of
        (Inl e, m) \<Rightarrow> (if e = Trap then Inl Trap else Inr (UnknownError, nullptr), st\<lparr>pl_clients := m\<rparr>)
      | (Inr h, m) \<Rightarrow>
          (let st' = st\<lparr>pl_clients := m\<rparr> in
           case plugin_lookup h st' of
             None \<Rightarrow> (Inl Trap, st')
           | Some c \<Rightarrow> (Inr (Success, h), st'\<lparr>pl_window := sc_max_inflight_bytes c\<rparr>)))"

definition s3_obj_remove_client :: "ptr \<Rightarrow> s3_client plugin_state \<Rightarrow> response_code \<times> s3_client plugin_state" where
  "s3_obj_remove_client = release_client"

definition s3_obj_remove_all_clients :: "s3_client plugin_state \<Rightarrow> response_code \<times> s3_client plugin_state" where
  "s3_obj_remove_all_clients = release_all"

definition s3_obj_cancel_all_reads :: "s3_client plugin_state \<Rightarrow> response_code \<times> s3_client plugin_state" where
  "s3_obj_cancel_all_reads = cancel_all sdk_stop"

section \<open>Reading\<close>

definition s3_obj_request_read ::
  "ptr \<Rightarrow> string \<Rightarrow> size_t \<times> size_t \<Rightarrow> ptr \<Rightarrow> object_handle \<Rightarrow> s3_client plugin_state \<Rightarrow>
    (exn + response_code) \<times> s3_client plugin_state" where
  "s3_obj_request_read h path rng destination_buffer request_id st =
     (if h = nullptr then (Inr UnknownError, st)
      else case on_client h (s3_client_async_read path rng destination_buffer request_id) st of
        (r, st') \<Rightarrow> (catch_unknown r, st'))"

definition s3_obj_wait_for_completions ::
  "(nat \<Rightarrow> nat \<times> get_outcome) \<Rightarrow> ptr \<Rightarrow> bool \<Rightarrow> nat \<Rightarrow> bool \<Rightarrow> s3_client plugin_state \<Rightarrow>
    ((exn + response_code \<times> nat \<times> backend_response list) \<times> s3_client plugin_state) option" where
  "s3_obj_wait_for_completions sdk h event_buffer max_events out_num_events st =
     (if h = nullptr \<or> max_events = 0 \<or> \<not> event_buffer \<or> \<not> out_num_events then Some (Inr (UnknownError, 0, []), st)
      else map_option (\<lambda>(r, st'). (one_event r, st')) (wait_client h (s3_async_read_response sdk) st))"

definition s3_obj_list_files ::
  "(nat \<Rightarrow> s3_list_request \<Rightarrow> s3_page option) \<Rightarrow> ptr \<Rightarrow> ptr \<Rightarrow> string option \<Rightarrow> int \<Rightarrow> bool \<Rightarrow> bool \<Rightarrow>
    s3_client plugin_state \<Rightarrow> (exn + response_code \<times> (entry_block option \<times> uint) option) option" where
  "s3_obj_list_files sdk = plugin_list_files (\<lambda>c. s3_list_files sdk)"

section \<open>The plugin keeps its word\<close>

definition s3_cok :: "uint \<Rightarrow> s3_client \<Rightarrow> bool" where
  "s3_cok limit = s3_sdk.invar (ucast limit)"

lemma s3_client_make_fresh:
  assumes "s3_client_make env aws config = Inr c"
  shows "s3_cok limit c \<and> s3_sdk.pending c = Map.empty"
  using s3_client_make_Inr [OF assms]
  by (simp add: s3_cok_def s3_sdk.invar_def s3_sdk.pending_def client_inv_def responder_ok_def handles_of_def
      responses_of_def pending_reads_def fun_eq_iff)

lemma s3_creates:
  assumes ready: "plugin_ready (s3_cok limit) s3_sdk.pending st"
  shows "\<exists>ret h st'. s3_obj_create_client env aws p config st = (Inr (ret, h), st') \<and>
    (ret = Success \<longrightarrow> (\<exists>c. plugin_lookup h st' = Some c \<and> s3_cok limit c \<and> s3_sdk.pending c = Map.empty))"
proof -
  let ?verify = "\<lambda>k c. s3_verify_credentials k (sc_base c)"
  obtain r m where pop: "cm_pop (s3_client_make env aws) ?verify p config (pl_clients st) = (r, m)"
    by (metis surj_pair)
  note popped = cm_pop_ready [OF ready, of "s3_client_make env aws" config ?verify p,
    OF s3_client_make_fresh [of env aws config]]
  show ?thesis
  proof (cases r)
    case (Inl e)
    then have "e = StdException \<or> s3_client_make env aws config = Inl e"
      using popped by (simp add: pop)
    then have "e \<noteq> Trap" using s3_client_make_error by blast
    then show ?thesis by (simp add: s3_obj_create_client_def pop Inl)
  next
    case (Inr h)
    then show ?thesis
      using popped
      by (auto simp: s3_obj_create_client_def pop Let_def)
  qed
qed

interpretation s3_plugin: plugin_entry_points chunk "ucast (limit :: uint)" "s3_obj_create_client env aws p"
    s3_obj_request_read "\<lambda>h k. s3_obj_wait_for_completions sdk h True k True" "s3_cok limit" s3_sdk.pending
    s3_sdk.fetched_reads
  for chunk limit env aws p sdk
proof
  fix st config
  assume "plugin_ready (s3_cok limit) s3_sdk.pending st"
  then show "\<exists>ret h st'. s3_obj_create_client env aws p config st = (Inr (ret, h), st') \<and>
      (ret = Success \<longrightarrow> (\<exists>c. plugin_lookup h st' = Some c \<and> s3_cok limit c \<and> s3_sdk.pending c = Map.empty))"
    by (rule s3_creates)
next
  fix p st c path u n h off buf
  assume c: "plugin_lookup p st = Some c" "s3_cok limit c" and uri: "make_storage_uri path = Inr u"
    and h: "h \<notin> dom (s3_sdk.pending c)" "h < ucast limit"
  have "s3_sdk.invar (ucast limit) c" "unat (ucast limit :: object_handle) < 4294967296"
    using c(2) by (simp_all add: s3_cok_def)
  from s3_async_read_ok [OF this uri h] obtain c' where
    "s3_client_async_read path (off, n) buf h c = (Inr Success, c')" "s3_sdk.invar (ucast limit) c'"
    "s3_sdk.fetched_reads c' = s3_sdk.fetched_reads c" "s3_sdk.pending c' = (s3_sdk.pending c)(h \<mapsto> (path, off, n, buf))"
    by blast
  then show "\<exists>ret c'. s3_obj_request_read p path (off, n) buf h st = (Inr ret, plugin_update p c' st) \<and>
      s3_cok limit c' \<and> s3_sdk.fetched_reads c \<subseteq> s3_sdk.fetched_reads c' \<and>
      s3_sdk.pending c' = (if ret = Success then (s3_sdk.pending c)(h \<mapsto> (path, off, n, buf)) else s3_sdk.pending c)"
    using c by (auto simp: s3_obj_request_read_def on_client_def catch_unknown_def s3_cok_def)
next
  fix p st c and k :: nat
  assume c: "plugin_lookup p st = Some c" "s3_cok limit c" and k: "0 < k"
  have inv: "s3_sdk.invar (ucast limit) c" using c(2) by (simp add: s3_cok_def)
  from s3_sdk.async_response_returns [OF inv, of sdk] obtain r c' where
    r: "async_response (s3_callback sdk) (length (sc_gets c)) c = Some (Inr r, c')" "s3_sdk.answered (ucast limit) c r c'"
    by auto
  have "s3_sdk.answered_all (ucast limit) c [r] c'" using r(2) by auto
  then have "round_ok s3_sdk.pending s3_sdk.fetched_reads k c (Success, length [r], [r]) c'"
    using k by (intro s3_sdk.answered_round [OF inv]) auto
  moreover have "s3_cok limit c'" using r(2) c(2) by (simp add: s3_cok_def s3_sdk.answered_def)
  ultimately show "\<exists>answer c'. s3_obj_wait_for_completions sdk p True k True st = Some (Inr answer, plugin_update p c' st) \<and>
      s3_cok limit c' \<and> round_ok s3_sdk.pending s3_sdk.fetched_reads k c answer c'"
    using c r(1) k
    by (auto simp: s3_obj_wait_for_completions_def wait_client_def s3_async_read_response_def one_event_def)
qed

section \<open>The worker on S3\<close>

definition s3_object_client ::
  "environment \<Rightarrow> aws_world \<Rightarrow> (nat \<Rightarrow> nat \<times> get_outcome) \<Rightarrow> ptr \<Rightarrow> s3_client plugin_state \<Rightarrow>
    s3_client session plugin_reads object_client" where
  "s3_object_client env aws sdk p st =
     plugin_client (session_create (s3_obj_create_client env aws p) st) session_window
       (session_read s3_obj_request_read) (session_wait (\<lambda>h k. s3_obj_wait_for_completions sdk h True k True))"

text \<open>The reads the SDK reported as done through the client of a worker.\<close>

definition s3_reads_done :: "s3_client session plugin_reads \<Rightarrow> (params \<times> segment) set" where
  "s3_reads_done = plugin_got (session_client s3_sdk.fetched_reads)"

text \<open>A plugin whose unused clients are idle.\<close>

definition s3_idle :: "uint \<Rightarrow> s3_client plugin_state \<Rightarrow> bool" where
  "s3_idle limit st = plugin_ready (s3_cok limit) s3_sdk.pending st"

definition sample_arrivals :: "workload option list" where
  "sample_arrivals = [Some (sample_workloads ! 0), None, Some (sample_workloads ! 1), None]"

lemma sample_arrivals_requests: "requests_of sample_arrivals = sample_workloads"
  by (simp add: sample_arrivals_def sample_workloads_def)

lemma sample_event_count:
  assumes "mset (map fst es) = open_keys (concat (map wl_batches sample_workloads))"
  shows "length es = 3"
proof -
  have "size (open_keys (concat (map wl_batches sample_workloads))) = 3"
    by (simp add: sample_workloads_def sample_object_batch_def open_tasks_def make_task_def)
  then show ?thesis using arg_cong [OF assms, of size] by simp
qed

lemma s3_client_ok:
  "s3_idle limit st \<Longrightarrow> client_ok chunk (ucast limit) (s3_object_client env aws sdk p st)
    (plugin_ok (session_ok (s3_cok limit)) (session_client s3_sdk.pending))
    (plugin_outst (session_client s3_sdk.pending)) s3_reads_done"
  using s3_plugin.session_reads_client unfolding s3_object_client_def s3_reads_done_def s3_idle_def .

text \<open>
  Property C6: the object-storage worker on the S3 plugin serves every schedule of workloads,
  whichever callbacks the SDK runs in which order and however its requests end, for as many chunks
  as fit 32 bits: every task of a workload served is notified exactly once, and a success means that
  the SDK reported pieces that tile the task's range as read, from the object of its batch to its
  destination. Every workload is served unless its registration finds no memory for a node.
\<close>

theorem s3_worker_serves:
  assumes "s3_idle limit st"
    and "\<forall>wl\<in>set (requests_of arrivals). workload_ready chunk (fst world) wl"
    and "1 + sum_list (map (chunk_count chunk (fst world)) (requests_of arrivals)) \<le> unat limit"
  shows "\<exists>w es served. object_serve env cred oom stopped (s3_object_client env aws sdk p st) arrivals
      (object_worker_make world) = Some (Inr (), w) \<and>
    cw_idle w \<and> ow_inflight (cw_state w) = [] \<and> ow_world (cw_state w) = object_run es world \<and>
    served \<subseteq> {..<length (requests_of arrivals)} \<and>
    (nodes_found oom \<longrightarrow> served = {..<length (requests_of arrivals)}) \<and>
    mset (map fst es) = open_keys (concat (map wl_batches (nths (requests_of arrivals) served))) \<and>
    (\<forall>e\<in>set es. event_read (fst world) (client_reads s3_reads_done w) e)"
  by (rule object_worker_served [OF s3_client_ok [OF assms(1)] assms(2)]) (use assms(3) in simp)

theorem s3_worker_serves_witness:
  "\<exists>w es. object_serve (\<lambda>v. None) [] (\<lambda>a. False) (\<lambda>i. False)
      (s3_object_client (\<lambda>v. None) sample_aws (\<lambda>i. (7 * i, if i = 2 then GetFailed else GetSucceeded 4)) 4096 plugin_start)
      sample_arrivals (object_worker_make (sample_objects, [])) = Some (Inr (), w) \<and>
    cw_idle w \<and> ow_world (cw_state w) = object_run es (sample_objects, []) \<and> length es = 3"
proof -
  have idle: "s3_idle 9 plugin_start" by (simp add: s3_idle_def)
  note s3_worker_serves [OF idle, where arrivals = sample_arrivals and chunk = 4
      and world = "(sample_objects, [])" and env = "\<lambda>v. None" and cred = "[]" and oom = "\<lambda>a. False"
      and stopped = "\<lambda>i. False" and aws = sample_aws and p = 4096
      and sdk = "\<lambda>i. (7 * i, if i = 2 then GetFailed else GetSucceeded 4)",
      unfolded sample_arrivals_requests fst_conv, OF sample_ready]
  then show ?thesis unfolding sample_counts using sample_event_count by (simp del: object_run.simps) blast
qed

section \<open>The window\<close>

text \<open>
  Property C35: what a new client of the S3 plugin computed as its window is what the worker reads
  back through the text that \<open>obj_get_backend_config\<close> writes to a buffer of 32 bytes; a buffer that
  is too small is refused, and with the size that the call then reports it succeeds.
\<close>

theorem s3_window_advertised:
  assumes "s3_obj_create_client env aws p config st = (Inr (Success, h), st')"
    and "plugin_lookup h st' = Some c"
  shows "max_inflight_bytes (session_window (h, st')) = sc_max_inflight_bytes c \<and>
    (case s3_obj_get_backend_config (Some ''max_inflight_bytes'') True (Some len) st' of
       (ret, written, len') \<Rightarrow>
         if ret = Success
         then written = Some (to_string (unat (sc_max_inflight_bytes c))) \<and> len' \<noteq> None \<and> the len' < len
         else written = None \<and> len' \<noteq> None \<and> len < the len' \<and>
           fst (s3_obj_get_backend_config (Some ''max_inflight_bytes'') True len' st') = Success)"
proof -
  obtain st0 where st': "st' = st0\<lparr>pl_window := sc_max_inflight_bytes c\<rparr>"
    using assms by (auto simp: s3_obj_create_client_def Let_def split: prod.splits sum.splits option.splits if_splits)
  let ?n = "length (to_string (unat (sc_max_inflight_bytes c)))"
  have n: "?n \<le> 20" by (rule length_to_string_64)
  then have "take_bit 32 ?n = ?n" by (intro take_bit_nat_eq_self) simp
  then have "(of_nat ?n :: uint) < of_nat ?n + 1"
    using n by (simp add: word_less_nat_alt unat_word_ariths unsigned_of_nat)
  then show ?thesis
    using n session_window_reads [of h st'] by (auto simp: s3_obj_get_backend_config_def backend_config_def Let_def st')
qed

text \<open>The client that a new plugin makes.\<close>

lemma s3_create_fresh:
  "s3_client_make env aws config = Inr c \<Longrightarrow> p \<noteq> nullptr \<Longrightarrow>
    s3_obj_create_client env aws p config plugin_start = (Inr (Success, p),
      \<lparr>pl_clients = \<lparr>cm_unused = [], cm_clients = [(p, c)]\<rparr>, pl_window = sc_max_inflight_bytes c\<rparr>)"
  by (simp add: s3_obj_create_client_def cm_pop_def cm_take_def plugin_start_def cm_make_def cm_register_def
      plugin_lookup_def Let_def)

lemma s3_creates_sample:
  "\<exists>c st. s3_client_make (\<lambda>v. None) sample_aws (sample_s3_config chunk) = Inr c \<and> plugin_lookup 4096 st = Some c \<and>
    cm_unused (pl_clients st) = [] \<and>
    s3_obj_create_client (\<lambda>v. None) sample_aws 4096 (sample_s3_config chunk) plugin_start = (Inr (Success, 4096), st)"
proof -
  obtain c where "s3_client_make (\<lambda>v. None) sample_aws (sample_s3_config chunk) = Inr c"
    using sample_s3_client [of "sample_s3_config chunk"] by (auto simp: sample_s3_config_def)
  from s3_create_fresh [OF this, of 4096] this show ?thesis by (simp add: plugin_lookup_def)
qed

theorem s3_window_advertised_witness:
  "\<exists>c st. s3_obj_create_client (\<lambda>v. None) sample_aws 4096 (sample_s3_config 8) plugin_start = (Inr (Success, 4096), st) \<and>
    plugin_lookup 4096 st = Some c \<and> max_inflight_bytes (session_window (4096, st)) = sc_max_inflight_bytes c"
proof -
  obtain c st where c: "plugin_lookup 4096 st = Some c"
    "s3_obj_create_client (\<lambda>v. None) sample_aws 4096 (sample_s3_config 8) plugin_start = (Inr (Success, 4096), st)"
    using s3_creates_sample by blast
  with s3_window_advertised [OF c(2,1)] show ?thesis by blast
qed

section \<open>Stopping\<close>

text \<open>
  Property C36: cancelling all reads stops the clients for good. A client that is then returned is
  handed to the next caller with the same credentials, and every read of that caller is refused
  with \<open>FinishedError\<close>, although the read was handed to the SDK and may still write to its
  destination.
\<close>

theorem s3_stopped_client_reused:
  assumes "plugin_lookup h st = Some c" and "cm_unused (pl_clients st) = []"
    and "s3_verify_credentials config (sc_base c)" and "make_storage_uri path = Inr u"
  shows "case s3_obj_create_client env aws p config
      (snd (s3_obj_remove_client h (snd (s3_obj_cancel_all_reads st)))) of
      (r, st') \<Rightarrow> r = Inr (Success, h) \<and>
        (case s3_obj_request_read h path (off, n) buf request_id st' of
           (r', st'') \<Rightarrow> r' = Inr FinishedError \<and>
             (\<exists>c'. plugin_lookup h st'' = Some c' \<and> (request_id, path, off, n, buf) \<in> get_view ` set (sc_gets c')))"
proof -
  let ?stop = "\<lambda>(p, c). (p, sdk_stop c)"
  have h: "h \<noteq> nullptr" "map_of (cm_clients (pl_clients st)) h = Some c"
    using assms(1) by (auto simp: plugin_lookup_def split: if_splits)
  have stopped: "map_of (map ?stop (cm_clients (pl_clients st))) h = Some (sdk_stop c)"
    using h(2) by (simp add: map_of_map)
  have verify: "s3_verify_credentials config (sc_base (sdk_stop c))" using assms(3) by (simp add: sdk_stop_def)
  obtain m where create: "s3_obj_create_client env aws p config
      (snd (s3_obj_remove_client h (snd (s3_obj_cancel_all_reads st)))) = (Inr (Success, h), m)"
      "plugin_lookup h m = Some (sdk_stop c)"
    using h(1) stopped verify assms(2)
    by (simp add: s3_obj_create_client_def s3_obj_remove_client_def s3_obj_cancel_all_reads_def release_client_def
        cancel_all_def cm_pop_def cm_take_def cm_push_def cm_stop_def insort_insert_key_def plugin_lookup_def Let_def)
  have "sd_stop (sdk_stop c)" by (simp add: sdk_stop_def)
  then show ?thesis
    using create assms(4) h(1) get_view_make [OF assms(4)]
    by (simp add: s3_obj_request_read_def on_client_def s3_client_async_read_def Let_def log_get_def expect_response_def
        catch_unknown_def)
qed

theorem s3_stopped_client_reused_witness:
  "\<exists>c st. plugin_lookup 4096 st = Some c \<and>
    (case s3_obj_create_client (\<lambda>v. None) sample_aws 8192 (sample_s3_config 8)
       (snd (s3_obj_remove_client 4096 (snd (s3_obj_cancel_all_reads st)))) of
       (r, st') \<Rightarrow> r = Inr (Success, 4096) \<and> fst (s3_obj_request_read 4096 ''s3://b/k'' (0, 4) 100 1 st') = Inr FinishedError)"
proof -
  obtain c st where c: "s3_client_make (\<lambda>v. None) sample_aws (sample_s3_config 8) = Inr c"
    "plugin_lookup 4096 st = Some c" "cm_unused (pl_clients st) = []"
    using s3_creates_sample by blast
  have "s3_verify_credentials (sample_s3_config 8) (sc_base c)"
    by (simp add: s3_verify_credentials_iff s3_client_make_Inr(1) [OF c(1)])
  moreover obtain u where "make_storage_uri ''s3://b/k'' = Inr u"
    by (simp add: make_storage_uri_def Let_def schemes_def line_terminator_def)
  ultimately show ?thesis
    using s3_stopped_client_reused [OF c(2,3), where config = "sample_s3_config 8" and path = "''s3://b/k''" and u = u
        and env = "\<lambda>v. None" and aws = sample_aws and p = 8192 and off = 0 and n = 4 and buf = 100 and request_id = 1]
      c(2)
    by (intro exI [of _ c] exI [of _ st]) (auto split: prod.splits)
qed

section \<open>Listing\<close>

text \<open>
  Property C34: \<open>Streamer::list_files\<close> on S3 returns what the store's pages hold, in their order, as
  full addresses with their sizes: every object that is not the marker of a directory and that the
  patterns keep, once, whatever went through the allocation of the plugin on the way.
\<close>

theorem s3_listing_complete:
  assumes "try_parse_uri prefix = Some uri"
    and "params_make (os_env os) (Some uri) (get_credentials s) (s3_block_bytesize (st_config s)) = Inr ps"
    and "s3_client_make env aws (to_config ps) = Inr c" and "p \<noteq> nullptr"
    and "s3_pages_of sdk 0 \<lparr>lr_bucket = uri_bucket uri, lr_prefix = uri_path uri,
      lr_delimiter = (if is_recursive then None else Some ''/''), lr_token = None\<rparr> pages"
    and "objects = listed (uri_prefix uri) (concat (map pg_contents pages))"
    and "\<forall>(path, n)\<in>set objects. NUL \<notin> set path"
    and "path_bytes objects < 18446744073709551616" and "length objects < 4294967296"
  shows "fst (list_files os fnmatch
      (session_list (s3_obj_create_client env aws p) (s3_obj_list_files sdk buf) buf plugin_start)
      directory prefix is_recursive allow ignore s) =
    Inr (filter (\<lambda>(path, n). keep fnmatch allow ignore path) objects)"
proof -
  have uri: "make_storage_uri prefix = Inr uri"
    using assms(1) by (auto simp: try_parse_uri_def split: sum.splits)
  note create = s3_create_fresh [OF assms(3,4)]
  have "s3_list_files sdk prefix is_recursive = Some (Inr (Success, objects))"
    using s3_list_pages_all [OF assms(5), of "uri_prefix uri" "[]"] uri assms(6) by (simp add: s3_list_files_def)
  then obtain answer where answer:
    "impl_obj_list_files (\<lambda>c. s3_list_files sdk) buf (Some c) (Some prefix) (if is_recursive then 1 else 0) True True =
      Some answer" "entries_of_listing buf answer = Inr objects"
    using listed_entries [of "\<lambda>c. s3_list_files sdk" c prefix "if is_recursive then 1 else 0", OF _ assms(7-9), of buf]
    by (cases is_recursive) auto
  have "session_list (s3_obj_create_client env aws p) (s3_obj_list_files sdk buf) buf plugin_start ps prefix is_recursive =
      Inr objects"
    using create answer assms(4)
    by (simp add: plugin_lookup_def session_list_def session_create_def s3_obj_list_files_def plugin_list_files_def)
  then show ?thesis using assms(1,2) by (simp add: list_files_def Let_def)
qed

text \<open>Three objects and the marker of their directory on two pages.\<close>

definition sample_pages :: "nat \<Rightarrow> s3_list_request \<Rightarrow> s3_page option" where
  "sample_pages i request =
     (if lr_bucket request \<noteq> ''b'' \<or> lr_prefix request \<noteq> ''m/'' then None
      else case lr_token request of
        None \<Rightarrow> Some \<lparr>pg_contents = [(''m/'', 0), (''m/a'', 3)], pg_truncated = True, pg_next_token = ''t''\<rparr>
      | Some t \<Rightarrow> if t = ''t'' then Some \<lparr>pg_contents = [(''m/b'', 5), (''m/c'', 7)], pg_truncated = False, pg_next_token = []\<rparr>
          else None)"

theorem s3_listing_complete_witness:
  "fst (list_files sample_os (\<lambda>pattern path. path = pattern)
      (session_list (s3_obj_create_client (\<lambda>v. None) sample_aws 4096) (s3_obj_list_files sample_pages 65536) 65536 plugin_start)
      (\<lambda>p r. None) ''s3://b/m/'' True [] [''s3://b/m/b''] sample_streamer) =
    Inr [(''s3://b/m/a'', 3), (''s3://b/m/c'', 7)]"
proof -
  let ?uri = "\<lparr>uri_scheme = ''s3'', uri_uri = ''s3://b/m/'', uri_bucket = ''b'', uri_path = ''m/''\<rparr>"
  have uri: "try_parse_uri ''s3://b/m/'' = Some ?uri"
    by (simp add: try_parse_uri_def make_storage_uri_def Let_def schemes_def line_terminator_def)
  obtain ps where ps: "params_make (os_env sample_os) (Some ?uri) (get_credentials sample_streamer)
      (s3_block_bytesize (st_config sample_streamer)) = Inr ps" "params_endpoint ps = []"
    by (simp add: params_make_def sample_os_def try_getenv_string_def getenv_bool_or_def try_getenv_bool_def
        try_getenv_int_def sample_streamer_def streamer_make_def get_credentials_def credentials_endpoint_def
        credentials_get_def getenv_int_or_def Let_def)
  obtain c where c: "s3_client_make (\<lambda>v. None) sample_aws (to_config ps) = Inr c"
    using sample_s3_client [of "to_config ps"] ps(2) by (auto simp: to_config_def Let_def)
  let ?pages = "[\<lparr>pg_contents = [(''m/'', 0), (''m/a'', 3)], pg_truncated = True, pg_next_token = ''t''\<rparr>,
    \<lparr>pg_contents = [(''m/b'', 5), (''m/c'', 7)], pg_truncated = False, pg_next_token = []\<rparr>]"
  have pages: "s3_pages_of sample_pages 0 \<lparr>lr_bucket = uri_bucket ?uri, lr_prefix = uri_path ?uri,
      lr_delimiter = (if True then None else Some ''/''), lr_token = None\<rparr> ?pages"
    by (simp add: sample_pages_def)
  have objects: "listed (uri_prefix ?uri) (concat (map pg_contents ?pages)) =
      [(''s3://b/m/a'', 3), (''s3://b/m/b'', 5), (''s3://b/m/c'', 7)]"
    by (simp add: listed_def uri_prefix_def)
  show ?thesis
    using s3_listing_complete [OF uri ps(1) c _ pages objects [symmetric], of 4096 "\<lambda>pattern path. path = pattern" 65536
        "\<lambda>p r. None" "[]" "[''s3://b/m/b'']"]
    by (simp add: path_bytes_def keep_def)
qed

end
