(* ===== verification/ObjectSubmission.thy ===== *)
theory ObjectSubmission
  imports S3Plugin
begin

text \<open>
  A submission of objects from the call to the reads of the plugin: the workloads it dispatches are
  fit for the object-storage worker, and however the workers of the pool share and interleave them,
  every range has one response, which is a success only when the range was read.
\<close>

section \<open>Ranges that were read\<close>

text \<open>Reads of one address that tile a segment, through clients with whatever parameters.\<close>

definition range_fetched :: "(params \<times> segment) set \<Rightarrow> storage_uri option \<Rightarrow> segment \<Rightarrow> bool" where
  "range_fetched G u g \<longleftrightarrow> (case g of (off, n, dst) \<Rightarrow>
     \<exists>ns. sum_list (map unat ns) = unat n \<and> (\<forall>s\<in>set (lay off dst ns). \<exists>ps. params_uri ps = u \<and> (ps, s) \<in> G))"

lemma fetched_range: "fetched G ps g \<Longrightarrow> G \<subseteq> G' \<Longrightarrow> params_uri ps = u \<Longrightarrow> range_fetched G' u g"
  unfolding fetched_def range_fetched_def by (auto split: prod.splits)

lemma range_fetched_lay:
  assumes "\<forall>g\<in>set (lay off dst ns). range_fetched G u g"
  shows "\<exists>ms. sum_list (map unat ms) = sum_list (map unat ns) \<and>
    (\<forall>s\<in>set (lay off dst ms). \<exists>ps. params_uri ps = u \<and> (ps, s) \<in> G)"
  using assms
proof (induction ns arbitrary: off dst)
  case (Cons n ns)
  then have "\<forall>g\<in>set (lay (off + n) (dst + n) ns). range_fetched G u g" by simp
  from Cons.IH [OF this] obtain ms where ms: "sum_list (map unat ms) = sum_list (map unat ns)"
    "\<forall>s\<in>set (lay (off + n) (dst + n) ms). \<exists>ps. params_uri ps = u \<and> (ps, s) \<in> G" by blast
  obtain ks where ks: "sum_list (map unat ks) = unat n"
    "\<forall>s\<in>set (lay off dst ks). \<exists>ps. params_uri ps = u \<and> (ps, s) \<in> G"
    using Cons.prems by (auto simp: range_fetched_def)
  have "sum_list ks = n" using ks(1) word_sum_list [of ks] by simp
  then show ?case using ms ks by (intro exI [of _ "ks @ ms"]) (auto simp: lay_append)
qed (auto intro: exI [of _ "[]"])

lemma request_ok_fetched:
  assumes req: "request_ok heap v r" and read: "\<forall>t\<in>set (tasks_of r v). range_fetched G u (task_seg heap t)"
  shows "range_fetched G u (req_offset (heap ! r), req_bytesize (heap ! r), req_dst (heap ! r))"
proof -
  let ?ts = "tasks_of r v" and ?q = "heap ! r"
  have lay: "map (task_seg heap) ?ts = lay (req_offset ?q) (req_dst ?q) (map (\<lambda>t. ti_bytesize (task_info t)) ?ts)"
    and sum: "sum_list (task_sizes ?ts) = unat (req_bytesize ?q)"
    using req by (simp_all add: request_ok_def Let_def task_seg_dest)
  have "\<forall>g\<in>set (lay (req_offset ?q) (req_dst ?q) (map (\<lambda>t. ti_bytesize (task_info t)) ?ts)). range_fetched G u g"
    unfolding lay [symmetric] using read by simp
  from range_fetched_lay [OF this] show ?thesis
    using sum by (simp add: range_fetched_def task_sizes_def comp_def)
qed

section \<open>Events of several workers\<close>

definition event_of :: "object_event \<Rightarrow> event" where
  "event_of e = (case e of ((sid, f, ps, t), c) \<Rightarrow> (f, t, c))"

lemma object_run_deliver:
  "\<forall>e\<in>set es. fst (fst e) = sid \<Longrightarrow> object_run es w = deliver sid (map event_of es) w"
  by (induction es w rule: object_run.induct) (auto simp: event_of_def)

lemma open_keys_fresh:
  "\<forall>b\<in>set bs. batch_fresh b \<Longrightarrow> open_keys bs = mset (concat (map (\<lambda>b. map (key_of b) (batch_tasks b)) bs))"
  by (induction bs) (auto simp: open_tasks_def batch_fresh_def)

lemma open_keys_origin:
  assumes "k \<in># open_keys bs" and "\<forall>b\<in>set bs. batch_fresh b"
  shows "\<exists>b\<in>set bs. \<exists>t\<in>set (batch_tasks b). k = key_of b t"
  using assms by (auto simp: open_keys_fresh)

lemma events_workload_tasks:
  assumes "\<forall>b\<in>set (all_batches ws). batch_fresh b" and "mset (map fst es) = open_keys (all_batches ws)"
  shows "mset (map (\<lambda>(f, t, c). (f, t)) (map event_of es)) = mset (workload_tasks ws)"
proof -
  have "map (\<lambda>(f, t, c). (f, t)) (map event_of es) = map (\<lambda>(sid, f, ps, t). (f, t)) (map fst es)"
    by (simp add: event_of_def case_prod_unfold)
  moreover have "mset (map fst es) = mset (concat (map (\<lambda>b. map (key_of b) (batch_tasks b)) (all_batches ws)))"
    using assms open_keys_fresh [of "all_batches ws"] by simp
  ultimately have "mset (map (\<lambda>(f, t, c). (f, t)) (map event_of es)) =
      mset (map (\<lambda>(sid, f, ps, t). (f, t)) (concat (map (\<lambda>b. map (key_of b) (batch_tasks b)) (all_batches ws))))"
    by (simp only: mset_map)
  then show ?thesis by (simp add: workload_tasks_def map_concat comp_def key_of_def)
qed

section \<open>The workloads are ready\<close>

text \<open>No range is so large that adding a chunk to its size wraps.\<close>

definition chunk_fits :: "size_t \<Rightarrow> file_ranges list \<Rightarrow> bool" where
  "chunk_fits chunk request \<longleftrightarrow> list_all (\<lambda>file. list_all (\<lambda>r.
     unat (rng_size r) + unat chunk \<le> 18446744073709551616) (fr_ranges file)) request"

lemma request_ranges_origin:
  "(f, i, g) \<in> set (request_ranges f0 request) \<Longrightarrow> \<exists>file\<in>set request. \<exists>r\<in>set (fr_ranges file). g = range_segment r"
proof (induction request arbitrary: f0)
  case (Cons fl request)
  then consider "(f, i, g) \<in> set (number f0 0 (map range_segment (fr_ranges fl)))"
    | "(f, i, g) \<in> set (request_ranges (Suc f0) request)" by auto
  then show ?case
  proof cases
    case 1
    from number_in [OF this] show ?thesis by auto
  next
    case 2
    from Cons.IH [OF this] show ?thesis by auto
  qed
qed simp

lemma request_ranges_chunk:
  "chunk_fits chunk request \<Longrightarrow> (f, i, off, n, dst) \<in> set (request_ranges f0 request) \<Longrightarrow>
    unat n + unat chunk \<le> 18446744073709551616"
  using request_ranges_origin [of f i "(off, n, dst)" f0 request]
  by (auto simp: chunk_fits_def list_all_iff range_segment_def)

lemma own_task:
  assumes b: "built sid cfg request heap0 ts bs heap" and ts: "concat (map transfer_ranges ts) = request_ranges 0 request"
    and t: "b \<in> set bs" "t \<in> set (batch_tasks b)"
  shows "\<exists>f i off n dst. (f, i, off, n, dst) \<in> set (request_ranges 0 request) \<and> unat (ti_bytesize (task_info t)) \<le> unat n"
proof -
  let ?r = "task_request t" and ?v = "map batch_tasks bs"
  have ranges: "map request_range (drop (length heap0) heap) = request_ranges 0 request"
    and "own_batch sid cfg request (length heap0) heap b"
    and reqs: "\<forall>r. length heap0 \<le> r \<and> r < length heap \<longrightarrow> request_ok heap ?v r"
    using b t(1) ts by (simp_all add: built_def)
  then have r: "length heap0 \<le> ?r" "?r < length heap" using t(2) by (simp_all add: own_batch_def)
  then have req: "request_ok heap ?v ?r" using reqs by blast
  have "t \<in> set (tasks_of ?r ?v)" using t by (auto simp: tasks_of_def)
  then have "unat (ti_bytesize (task_info t)) \<in> set (task_sizes (tasks_of ?r ?v))" by (simp add: task_sizes_def)
  then have "unat (ti_bytesize (task_info t)) \<le> unat (req_bytesize (heap ! ?r))"
    using member_le_sum_list [of _ "task_sizes (tasks_of ?r ?v)"] req by (simp add: request_ok_def Let_def)
  moreover have "request_range (heap ! ?r) \<in> set (request_ranges 0 request)"
  proof -
    have "heap ! ?r = drop (length heap0) heap ! (?r - length heap0)" "?r - length heap0 < length (drop (length heap0) heap)"
      using r by (auto intro: diff_less_mono)
    then have "heap ! ?r \<in> set (drop (length heap0) heap)" by (metis nth_mem)
    then show ?thesis unfolding ranges [symmetric] by simp
  qed
  ultimately show ?thesis unfolding request_range_def by blast
qed

lemma complete_ready:
  assumes cw: "complete_workloads sid request True s s1 ws" and fits: "chunk_fits chunk request"
    and chunk: "chunk = max 1 (s3_block_bytesize (st_config s))"
    and w: "w \<in> set (busy ws)" and count: "chunk_count chunk (st_heap s1) w < 4294967296"
  shows "workload_ready chunk (st_heap s1) w"
proof -
  let ?bs = "wl_batches w" and ?heap = "st_heap s1"
  obtain bs ts where bs: "mset (all_batches ws) = mset bs" and ts: "concat (map transfer_ranges ts) = request_ranges 0 request"
    and b: "built sid (st_config s) request (st_heap s) ts bs ?heap"
    using cw by (auto simp: complete_workloads_def)
  have w: "w \<in> set ws" "?bs \<noteq> []" using w by (simp_all add: busy_def)
  have sub: "x \<in> set bs" if "x \<in> set ?bs" for x
  proof -
    have "x \<in> set (all_batches ws)" using that w(1) by (auto simp: all_batches_def)
    then show ?thesis using bs by (metis set_mset_mset)
  qed
  then have own: "own_batch sid (st_config s) request (length (st_heap s)) ?heap x" if "x \<in> set ?bs" for x
    using that b by (simp add: built_def)
  have valid: "is_object_storage x" if "x \<in> set ?bs" for x
    using that w(1) cw by (auto simp: complete_workloads_def list_all_iff of_kind_def)
  have addr: "addressed (batch_params x)" if x: "x \<in> set ?bs" for x
  proof -
    have uri: "params_uri (batch_params x) = try_parse_uri (batch_path x)" using own [OF x] by (simp add: own_batch_def)
    then obtain u where "make_storage_uri (batch_path x) = Inr u" "params_uri (batch_params x) = Some u"
      using valid [OF x] by (auto simp: is_object_storage_def params_valid_def try_parse_uri_def split: sum.splits)
    moreover have "uri_uri u = batch_path x" using calculation(1) make_storage_uri_sound by blast
    ultimately show ?thesis by (auto simp: addressed_def)
  qed
  have "ready_pos ?heap ?bs p \<and> unat (ti_bytesize (task_info (task_of ?bs p))) + unat chunk \<le> 18446744073709551616 \<and>
      length (task_pieces chunk ?heap ?bs p) < 4294967296" if p: "p \<in> set (positions w)" for p
  proof (intro conjI)
    let ?b = "?bs ! fst p"
    have v: "valid_pos ?bs p" using p by (simp add: set_positions)
    then have in_b: "?b \<in> set ?bs" and in_t: "task_of ?bs p \<in> set (batch_tasks ?b)"
      by (simp_all add: valid_pos_def task_of_def)
    show "ready_pos ?heap ?bs p"
      using own [OF in_b] addr [OF in_b] v in_t by (auto simp: ready_pos_def own_batch_def batch_ok_def batch_fresh_def Let_def)
    show "unat (ti_bytesize (task_info (task_of ?bs p))) + unat chunk \<le> 18446744073709551616"
      using own_task [OF b ts sub [OF in_b] in_t] request_ranges_chunk [OF fits] by fastforce
    have "length (task_pieces chunk ?heap ?bs p) \<le> chunk_count chunk ?heap w"
      unfolding chunk_count_def using p by (intro member_le_sum_list) simp_all
    then show "length (task_pieces chunk ?heap ?bs p) < 4294967296" using count by simp
  qed
  moreover have "batch_config (?bs ! 0) = st_config s"
    using own [of "?bs ! 0"] w(2) by (simp add: own_batch_def)
  ultimately show ?thesis using w(2) chunk by (simp add: workload_ready_def)
qed

section \<open>From events to responses\<close>

text \<open>
  The events of all workers, in any order: one response per range, and a success means that the
  range was read from the object of its file.
\<close>

lemma complete_object_run:
  assumes cw: "complete_workloads sid request True s s1 ws"
    and es: "mset (map fst es) = open_keys (all_batches ws)"
    and read: "\<forall>e\<in>set es. event_read (st_heap s1) G e"
  shows "\<exists>heap' rs. object_run es (st_heap s1, []) = (heap', map (\<lambda>q. response_for sid (heap' ! q)) rs) \<and> distinct rs \<and>
    mset (map (\<lambda>q. request_range (heap' ! q)) rs) = mset (request_ranges 0 request) \<and>
    (\<forall>q\<in>set rs. req_ret (heap' ! q) = Success \<longrightarrow>
       range_fetched G (try_parse_uri (fr_path (request ! req_file_index (heap' ! q)))) (snd (snd (request_range (heap' ! q)))))"
proof -
  let ?heap = "st_heap s1" and ?es = "map event_of es"
  obtain bs ts where bs: "mset (all_batches ws) = mset bs"
    and b: "built sid (st_config s) request (st_heap s) ts bs ?heap"
    using cw by (auto simp: complete_workloads_def)
  note own = complete_own [OF cw]
  have fresh: "\<forall>b\<in>set (all_batches ws). batch_fresh b" using own by (auto simp: own_batch_def batch_ok_def Let_def)
  have origin: "\<exists>b\<in>set (all_batches ws). fst e = key_of b (snd (snd (snd (fst e)))) \<and> snd (snd (snd (fst e))) \<in> set (batch_tasks b)"
    if "e \<in> set es" for e
  proof -
    have "fst e \<in># open_keys (all_batches ws)" using that unfolding es [symmetric] by simp
    from open_keys_origin [OF this fresh] show ?thesis by (auto simp: key_of_def)
  qed
  have "fst (fst e) = sid" if "e \<in> set es" for e
    using origin [OF that] own by (auto simp: key_of_def own_batch_def prod_eq_iff)
  then have run: "object_run es (?heap, []) = deliver sid ?es (?heap, [])" by (simp add: object_run_deliver)
  have pairs: "mset (map (\<lambda>(f, t, c). (f, t)) ?es) = mset (workload_tasks ws)"
    by (rule events_workload_tasks [OF fresh es])
  from complete_run [OF cw pairs] obtain heap' rs where
    d: "deliver sid ?es (?heap, []) = (heap', map (\<lambda>q. response_for sid (heap' ! q)) rs)"
    and rs: "distinct rs" "mset (map (\<lambda>q. request_range (heap' ! q)) rs) = mset (request_ranges 0 request)"
    and out: "\<forall>q\<in>set rs. outcome_ok (codes_of q ?es) (req_ret (heap' ! q))"
    and same: "\<forall>q\<in>set rs. length (st_heap s) \<le> q \<and> q < length ?heap \<and> same_request (heap' ! q) (?heap ! q)"
    by auto
  have "range_fetched G (try_parse_uri (fr_path (request ! req_file_index (heap' ! q)))) (snd (snd (request_range (heap' ! q))))"
    if q: "q \<in> set rs" and ok: "req_ret (heap' ! q) = Success" for q
  proof -
    let ?u = "try_parse_uri (fr_path (request ! req_file_index (?heap ! q)))"
    have "request_ok ?heap (map batch_tasks bs) q" using b same q by (simp add: built_def)
    moreover have "\<forall>t\<in>set (tasks_of q (map batch_tasks bs)). range_fetched G ?u (task_seg ?heap t)"
    proof
      fix t assume "t \<in> set (tasks_of q (map batch_tasks bs))"
      then have tq: "task_request t = q" and "\<exists>b\<in>set bs. t \<in> set (batch_tasks b)" by (auto simp: tasks_of_def)
      then obtain b0 where "b0 \<in> set (all_batches ws)" "t \<in> set (batch_tasks b0)" using bs by (metis set_mset_mset)
      then have "(batch_file_index b0, t) \<in> set (workload_tasks ws)" by (auto simp: workload_tasks_def)
      then have "(batch_file_index b0, t) \<in> set (map (\<lambda>(f, t, c). (f, t)) ?es)" using pairs by (metis set_mset_mset)
      then obtain sid0 f ps c where e: "((sid0, f, ps, t), c) \<in> set es"
        by (auto simp: event_of_def split: prod.splits)
      from origin [OF e] obtain b1 where b1: "b1 \<in> set (all_batches ws)" "t \<in> set (batch_tasks b1)" "ps = batch_params b1"
        by (auto simp: key_of_def)
      have "c \<in> set (codes_of q ?es)" using e tq by (force simp: codes_of_def event_of_def)
      then have "c = Success" using out q ok by (auto simp: outcome_ok_def list_all_iff)
      then have "fetched G ps (task_seg ?heap t)" using read e by (fastforce simp: event_read_def)
      moreover have "params_uri ps = ?u" using own [OF b1(1)] b1(2,3) tq by (auto simp: own_batch_def)
      ultimately show "range_fetched G ?u (task_seg ?heap t)" using fetched_range by blast
    qed
    ultimately have "range_fetched G ?u (req_offset (?heap ! q), req_bytesize (?heap ! q), req_dst (?heap ! q))"
      by (rule request_ok_fetched)
    moreover have "request_range (heap' ! q) = request_range (?heap ! q)" using same q request_range_same by blast
    ultimately show ?thesis by (simp add: request_range_def)
  qed
  then show ?thesis using run d rs by (intro exI conjI) auto
qed

section \<open>Workers on the S3 plugin\<close>

lemma open_keys_workers:
  "\<forall>k<n. mset (map fst (es k)) = open_keys (concat (map wl_batches (W k))) \<Longrightarrow>
    mset (map fst (concat (map es [0..<n]))) = open_keys (all_batches (concat (map W [0..<n])))"
  by (induction n) (auto simp: open_keys_append all_batches_def)

lemma open_keys_mset: "mset xs = mset ys \<Longrightarrow> open_keys xs = open_keys ys"
proof -
  have "open_keys bs = \<Sum>\<^sub># (image_mset (\<lambda>b. mset (map (key_of b) (open_tasks b))) (mset bs))" for bs
    by (simp add: open_keys_def mset_concat comp_def sum_mset_sum_list flip: mset_map)
  then show "mset xs = mset ys \<Longrightarrow> open_keys xs = open_keys ys" by simp
qed

lemma same_kind_unique:
  assumes "range_count request \<noteq> 0" and "same_kind request k" and "same_kind request k'"
  shows "k = k'"
proof -
  have "\<exists>file\<in>set request. fr_ranges file \<noteq> []"
  proof (rule ccontr)
    assume "\<not> (\<exists>file\<in>set request. fr_ranges file \<noteq> [])"
    then have "sum_list (map (\<lambda>f. length (fr_ranges f)) request) = 0" unfolding sum_list_eq_0_iff by simp
    with assms(1) show False by (simp only: range_count_def length_request_ranges)
  qed
  then show ?thesis using assms(2,3) by (auto simp: same_kind_def)
qed

text \<open>What is dispatched of an accepted submission of objects.\<close>

lemma objects_sent:
  assumes ok: "streamer_ok s" and input: "request_ok_input request" and kind: "same_kind request True"
    and run: "async_request os request s = Some (Inr Success, sid, s')"
  shows "request_ranges 0 request = [] \<and> sent_workloads (st_pools s) (st_pools s') = [] \<or>
    (\<exists>ws s1. complete_workloads sid request True s s1 ws \<and> st_heap s' = st_heap s1 \<and>
       sent_workloads (st_pools s) (st_pools s') = busy ws)"
proof (cases "range_count request = 0")
  case True
  then have "nothing_committed s s'" "request_ranges 0 request = []"
    using async_request_runs [OF ok input run] by (auto simp: range_count_def)
  then show ?thesis by (simp add: nothing_committed_def)
next
  case False
  obtain k ws s1 m ps where k: "same_kind request k" and cw: "complete_workloads sid request k s s1 ws"
    and m: "sent_workloads (st_pools s) (st_pools s') = busy (take m ws)" "m = length ws"
    and dr: "drain_workloads (drop m ws) (st_heap s1, []) = (st_heap s', ps)"
    using committed_spec [OF ok input run] False by blast
  have "k = True" by (rule same_kind_unique [OF False k kind])
  then have "complete_workloads sid request True s s1 ws" using cw by simp
  moreover have "st_heap s' = st_heap s1" "sent_workloads (st_pools s) (st_pools s') = busy ws" using m dr by simp_all
  ultimately show ?thesis by blast
qed

text \<open>
  Property C3: an accepted submission of objects is answered through the S3 plugin. However its
  workloads are spread over the workers of the pool and arrive there, and whatever the SDK answers
  in whichever order, every worker comes to rest; and in whichever order the workers finish their
  tasks, every range gets exactly one response, and a \<open>Success\<close> only if the SDK reported reads that
  tile the range as done, each from the address of the range's file to its place at the
  destination. The sizes of the ranges must leave room for a chunk below \<open>2^64\<close>, a worker's chunks be
  fewer than \<open>2^32\<close>, and the registration of a workload must find memory for its node of the map (any
  other allocation of a registration may fail).
\<close>

theorem s3_submission_read:
  assumes "streamer_ok s" and "request_ok_input request" and "same_kind request True"
    and "async_request os request s = Some (Inr Success, sid, s')"
    and chunk: "chunk = max 1 (s3_block_bytesize (st_config s))" and fits: "chunk_fits chunk request"
    and sent: "mset (concat (map (\<lambda>k. requests_of (arrivals k)) [0..<n])) = mset (sent_workloads (st_pools s) (st_pools s'))"
    and idle: "\<forall>k<n. s3_idle limit (st k)" and nodes: "\<forall>k<n. nodes_found (oom k)"
    and count: "\<forall>k<n. 1 + sum_list (map (chunk_count chunk (st_heap s')) (requests_of (arrivals k))) \<le> unat limit"
  shows "\<exists>w es. (\<forall>k<n. object_serve env cred (oom k) (stopped k) (s3_object_client env (aws k) (sdk k) (p k) (st k))
        (arrivals k) (object_worker_make (st_heap s', [])) = Some (Inr (), w k) \<and> cw_idle (w k) \<and>
      ow_world (cw_state (w k)) = object_run (es k) (st_heap s', [])) \<and>
    (\<forall>E. mset E = mset (concat (map es [0..<n])) \<longrightarrow> (\<exists>heap' rs.
      object_run E (st_heap s', []) = (heap', map (\<lambda>q. response_for sid (heap' ! q)) rs) \<and> distinct rs \<and>
      mset (map (\<lambda>q. request_range (heap' ! q)) rs) = mset (request_ranges 0 request) \<and>
      (\<forall>q\<in>set rs. req_ret (heap' ! q) = Success \<longrightarrow>
         range_fetched (\<Union>k<n. client_reads s3_reads_done (w k))
           (try_parse_uri (fr_path (request ! req_file_index (heap' ! q)))) (snd (snd (request_range (heap' ! q)))))))"
  (is "\<exists>w es. ?serves w es \<and> (\<forall>E. mset E = mset (concat (map es [0..<n])) \<longrightarrow> ?answered w E)")
proof -
  let ?W = "\<lambda>k. requests_of (arrivals k)" and ?world = "(st_heap s', [] :: pushes)"
  note cases = objects_sent [OF assms(1-4)]
  have ready: "workload_ready chunk (st_heap s') wl" if k: "k < n" and wl: "wl \<in> set (?W k)" for k wl
  proof -
    have "wl \<in> set (concat (map ?W [0..<n]))" using that by auto
    then have "wl \<in> set (sent_workloads (st_pools s) (st_pools s'))" using sent by (metis set_mset_mset)
    moreover have "chunk_count chunk (st_heap s') wl \<le> sum_list (map (chunk_count chunk (st_heap s')) (?W k))"
      using wl by (intro member_le_sum_list) simp_all
    then have "chunk_count chunk (st_heap s') wl < 4294967296"
      using count [rule_format, OF k] unat_lt32 [of limit] by linarith
    ultimately show ?thesis using cases complete_ready [OF _ fits chunk] by fastforce
  qed
  have "\<exists>w es. object_serve env cred (oom k) (stopped k) (s3_object_client env (aws k) (sdk k) (p k) (st k))
        (arrivals k) (object_worker_make ?world) = Some (Inr (), w) \<and> cw_idle w \<and>
      ow_world (cw_state w) = object_run es ?world \<and> mset (map fst es) = open_keys (concat (map wl_batches (?W k))) \<and>
      (\<forall>e\<in>set es. event_read (st_heap s') (client_reads s3_reads_done w) e)" if "k < n" for k
  proof -
    have fits: "1 + sum_list (map (chunk_count chunk (fst ?world)) (?W k)) \<le> unat (ucast limit :: object_handle)"
      using count that by simp
    have "\<forall>wl\<in>set (?W k). workload_ready chunk (fst ?world) wl" using ready [OF that] by simp
    from object_worker_served [OF s3_client_ok [OF idle [rule_format, OF that]] this fits, of env cred "oom k" "stopped k"]
    obtain w es all where
      run: "object_serve env cred (oom k) (stopped k) (s3_object_client env (aws k) (sdk k) (p k) (st k))
        (arrivals k) (object_worker_make ?world) = Some (Inr (), w)" "cw_idle w"
        "ow_world (cw_state w) = object_run es ?world"
      and all: "nodes_found (oom k) \<longrightarrow> all = {..<length (?W k)}"
      and keys: "mset (map fst es) = open_keys (concat (map wl_batches (nths (?W k) all)))"
      and reads: "\<forall>e\<in>set es. event_read (fst ?world) (client_reads s3_reads_done w) e"
      by blast
    have "nths (?W k) all = ?W k" using all nodes that by simp
    then show ?thesis using run keys reads by auto
  qed
  then obtain w es where served: "?serves w es"
    and keys: "\<forall>k<n. mset (map fst (es k)) = open_keys (concat (map wl_batches (?W k)))"
    and read: "\<forall>k<n. \<forall>e\<in>set (es k). event_read (st_heap s') (client_reads s3_reads_done (w k)) e"
    by metis
  have "?answered w E" if E: "mset E = mset (concat (map es [0..<n]))" for E
  proof -
    have "mset (map fst E) = mset (map fst (concat (map es [0..<n])))" by (rule mset_map_cong [OF E])
    then have "mset (map fst E) = open_keys (all_batches (concat (map ?W [0..<n])))" using open_keys_workers [OF keys] by simp
    also have "\<dots> = open_keys (all_batches (sent_workloads (st_pools s) (st_pools s')))"
      by (rule open_keys_mset [OF mset_all_batches [OF sent]])
    finally have E_keys: "mset (map fst E) = open_keys (all_batches (sent_workloads (st_pools s) (st_pools s')))" .
    show ?thesis
      using cases
    proof
      assume none: "request_ranges 0 request = [] \<and> sent_workloads (st_pools s) (st_pools s') = []"
      then have "E = []" using E_keys by (simp add: all_batches_def)
      then show ?thesis using none by (intro exI [of _ "st_heap s'"] exI [of _ "[]"]) simp
    next
      assume "\<exists>ws s1. complete_workloads sid request True s s1 ws \<and> st_heap s' = st_heap s1 \<and>
        sent_workloads (st_pools s) (st_pools s') = busy ws"
      then obtain ws s1 where cw: "complete_workloads sid request True s s1 ws" and heap: "st_heap s' = st_heap s1"
        and "mset (map fst E) = open_keys (all_batches ws)"
        using E_keys by (auto simp: all_batches_busy)
      moreover have "set E = set (concat (map es [0..<n]))" using E by (metis set_mset_mset)
      then have "\<forall>e\<in>set E. event_read (st_heap s1) (\<Union>k<n. client_reads s3_reads_done (w k)) e"
        using read heap by (auto intro!: event_read_mono [OF _ UN_upper])
      ultimately show ?thesis unfolding heap by (intro complete_object_run)
    qed
  qed
  then show ?thesis using served by blast
qed

definition sample_object_request :: "file_ranges list" where
  "sample_object_request =
     [\<lparr>fr_path = ''s3://b/m'', fr_ranges =
         [\<lparr>rng_offset = 0, rng_size = 9, rng_dst = 100\<rparr>, \<lparr>rng_offset = 9, rng_size = 8, rng_dst = 109\<rparr>]\<rparr>,
      \<lparr>fr_path = ''s3://b/n'', fr_ranges = [\<lparr>rng_offset = 7, rng_size = 5, rng_dst = 200\<rparr>]\<rparr>]"

definition sample_object_streamer :: streamer where
  "sample_object_streamer = streamer_make sample_config (Some (100, 4096))"

lemma sample_objects_accepted:
  "\<exists>sid s' x y. async_request sample_os sample_object_request sample_object_streamer = Some (Inr Success, sid, s') \<and>
     sent_workloads (st_pools sample_object_streamer) (st_pools s') = [x, y] \<and>
     chunk_count 8 (st_heap s') x = 3 \<and> chunk_count 8 (st_heap s') y = 2"
proof -
  have "case async_request sample_os sample_object_request sample_object_streamer of
      Some (Inr Success, sid, s') \<Rightarrow>
        map (chunk_count 8 (st_heap s')) (sent_workloads (st_pools sample_object_streamer) (st_pools s')) = [3, 2]
    | _ \<Rightarrow> False"
    by code_simp
  then show ?thesis
    by (auto split: option.splits prod.splits sum.splits response_code.splits)
qed

lemma sample_object_input:
  "streamer_ok sample_object_streamer" "request_ok_input sample_object_request" "same_kind sample_object_request True"
proof -
  have "st_config sample_object_streamer = sample_config" "st_pools sample_object_streamer = st_pools sample_streamer"
    "st_submissions sample_object_streamer = st_submissions sample_streamer"
    by (simp_all add: sample_object_streamer_def sample_streamer_def streamer_make_def)
  then show "streamer_ok sample_object_streamer"
    using sample_streamer_ok sample_config_ok by (simp add: streamer_ok_def)
  show "request_ok_input sample_object_request"
    by (simp add: request_ok_input_def ranges_fit_def sample_object_request_def range_count_def)
  show "same_kind sample_object_request True"
    unfolding same_kind_def sample_object_request_def file_kind_def try_parse_uri_def by code_simp
qed

theorem s3_submission_read_witness:
  "\<exists>sid s' x y w es heap' rs. async_request sample_os sample_object_request sample_object_streamer = Some (Inr Success, sid, s') \<and>
    sent_workloads (st_pools sample_object_streamer) (st_pools s') = [x, y] \<and>
    (\<forall>k<(2 :: nat). object_serve (\<lambda>v. None) [] (\<lambda>a. False) (\<lambda>i. False)
      (s3_object_client (\<lambda>v. None) sample_aws (\<lambda>i. (7 * i, if i = 2 then GetFailed else GetSucceeded 8)) 4096 plugin_start)
      (if k = 0 then [Some x, None] else [None, Some y]) (object_worker_make (st_heap s', [])) = Some (Inr (), w k)) \<and>
    object_run (es 1 @ es (0 :: nat)) (st_heap s', []) = (heap', map (\<lambda>q. response_for sid (heap' ! q)) rs) \<and> length rs = 3"
proof -
  obtain sid s' x y where run: "async_request sample_os sample_object_request sample_object_streamer = Some (Inr Success, sid, s')"
    and sent: "sent_workloads (st_pools sample_object_streamer) (st_pools s') = [x, y]"
    and n: "chunk_count 8 (st_heap s') x = 3" "chunk_count 8 (st_heap s') y = 2"
    using sample_objects_accepted by blast
  let ?arrivals = "\<lambda>k :: nat. if k = 0 then [Some x, None] else [None, Some y]"
  have two: "[0..<2] = [0, 1 :: nat]" by (simp add: upt_rec)
  have block: "(8 :: size_t) = max 1 (s3_block_bytesize (st_config sample_object_streamer))"
    by (simp add: sample_object_streamer_def streamer_make_def sample_config_def)
  have fits: "chunk_fits 8 sample_object_request" by (simp add: chunk_fits_def sample_object_request_def)
  have spread: "mset (concat (map (\<lambda>k. requests_of (?arrivals k)) [0..<2])) =
      mset (sent_workloads (st_pools sample_object_streamer) (st_pools s'))"
    by (simp add: two sent)
  have idle: "\<forall>k<2 :: nat. s3_idle 9 plugin_start" by (simp add: s3_idle_def)
  have count: "\<forall>k<2. 1 + sum_list (map (chunk_count 8 (st_heap s')) (requests_of (?arrivals k))) \<le> unat (9 :: uint)"
    using n by simp
  from s3_submission_read [OF sample_object_input run block fits spread idle _ count, of "\<lambda>k a. False" "\<lambda>v. None" "[]"
      "\<lambda>k i. False" "\<lambda>k. sample_aws" "\<lambda>k i. (7 * i, if i = 2 then GetFailed else GetSucceeded 8)" "\<lambda>k. 4096"]
  obtain w es where served: "\<forall>k<(2 :: nat). object_serve (\<lambda>v. None) [] (\<lambda>a. False) (\<lambda>i. False)
      (s3_object_client (\<lambda>v. None) sample_aws (\<lambda>i. (7 * i, if i = 2 then GetFailed else GetSucceeded 8)) 4096 plugin_start)
      (?arrivals k) (object_worker_make (st_heap s', [])) = Some (Inr (), w k)"
    and answered: "\<And>E. mset E = mset (concat (map es [0..<2])) \<Longrightarrow> \<exists>heap' rs.
      object_run E (st_heap s', []) = (heap', map (\<lambda>q. response_for sid (heap' ! q)) rs) \<and>
      mset (map (\<lambda>q. request_range (heap' ! q)) rs) = mset (request_ranges 0 sample_object_request)"
    by blast
  have "mset (es 1 @ es 0) = mset (concat (map es [0..<2]))" by (simp add: two)
  from answered [OF this] obtain heap' rs where
    r: "object_run (es 1 @ es 0) (st_heap s', []) = (heap', map (\<lambda>q. response_for sid (heap' ! q)) rs)"
    and m: "mset (map (\<lambda>q. request_range (heap' ! q)) rs) = mset (request_ranges 0 sample_object_request)" by blast
  have "length rs = 3" using arg_cong [OF m, of size] by (simp add: sample_object_request_def)
  then show ?thesis using run sent served r by (intro exI conjI)
qed

end
