(* ===== verification/ChunkedReads.thy ===== *)
theory ChunkedReads
  imports PluginClient
begin

text \<open>
  What the GCS and the Azure clients share (\<open>gcs/client\<close>, \<open>azure/client\<close>): a read is split into
  chunks, each a task of a thread pool of its own, and the chunks of a read share a counter and a
  flag by which exactly one of them pushes the response.
\<close>

section \<open>The callbacks of one read\<close>

record chunked_read =
  rd_counter :: uint
  rd_is_success :: bool

definition read_make :: "size_t \<Rightarrow> chunked_read" where
  "read_make n = \<lparr>rd_counter = ucast n, rd_is_success = True\<rparr>"

text \<open>
  The callback of a chunk: what it pushes, if anything. Each of the two atomics is touched once,
  so the callbacks of a read take effect one after the other.
\<close>

definition finish_chunk :: "response_code \<Rightarrow> chunked_read \<Rightarrow> response_code option \<times> chunked_read" where
  "finish_chunk code r =
     (if code = Success
      then (let running = rd_counter r in
            (if running = 1 then Some Success else None, r\<lparr>rd_counter := running - 1\<rparr>))
      else (let previous = rd_is_success r in
            (if previous then Some code else None, r\<lparr>rd_is_success := False\<rparr>)))"

text \<open>The responses pushed while the chunks of a read finish with these codes in this order.\<close>

fun finish_chunks :: "response_code list \<Rightarrow> chunked_read \<Rightarrow> response_code list" where
  "finish_chunks [] r = []"
| "finish_chunks (code # codes) r =
     (case finish_chunk code r of
        (None, r') \<Rightarrow> finish_chunks codes r'
      | (Some c, r') \<Rightarrow> c # finish_chunks codes r')"

lemma unat_pred: "0 < unat x \<Longrightarrow> unat (x - 1 :: uint) = unat x - 1"
  using unat_sub_le [of 1 x] by (simp add: word_le_nat_alt)

lemma finish_chunks_failed:
  assumes "\<not> rd_is_success r" and "length codes < unat (rd_counter r)"
  shows "finish_chunks codes r = []"
  using assms
proof (induction codes arbitrary: r)
  case (Cons code codes)
  have c: "1 < unat (rd_counter r)" using Cons.prems(2) by simp
  then have "rd_counter r \<noteq> 1" by auto
  moreover have "unat (rd_counter r - 1) = unat (rd_counter r) - 1"
    using c by (intro unat_pred) simp
  ultimately show ?case
    using Cons by (auto simp: finish_chunk_def Let_def)
qed simp

lemma finish_chunks_once:
  assumes "rd_is_success r" and "0 < unat (rd_counter r)" and "length codes \<le> unat (rd_counter r)"
  shows "finish_chunks codes r =
    (case filter (\<lambda>c. c \<noteq> Success) codes of
       [] \<Rightarrow> if length codes = unat (rd_counter r) then [Success] else []
     | c # cs \<Rightarrow> [c])"
  using assms
proof (induction codes arbitrary: r)
  case (Cons code codes)
  show ?case
  proof (cases "code = Success")
    case False
    then have "finish_chunks codes (r\<lparr>rd_is_success := False\<rparr>) = []"
      using Cons.prems(3) by (intro finish_chunks_failed) auto
    then show ?thesis using False Cons.prems(1) by (simp add: finish_chunk_def)
  next
    case True
    show ?thesis
    proof (cases "rd_counter r = 1")
      case one: True
      then have "codes = []" using Cons.prems(3) by simp
      then show ?thesis using one True by (simp add: finish_chunk_def)
    next
      case False
      then have "unat (rd_counter r) \<noteq> 1" by (simp add: unat_word_eq_iff)
      then have c: "1 < unat (rd_counter r)" using Cons.prems(2) by linarith
      have "unat (rd_counter r - 1) = unat (rd_counter r) - 1"
        using c by (intro unat_pred) simp
      then show ?thesis
        using Cons.IH [of "r\<lparr>rd_counter := rd_counter r - 1\<rparr>"] Cons.prems c False True
        by (simp add: finish_chunk_def Let_def le_diff_conv split: list.split)
    qed
  qed
qed (simp split: list.split)

section \<open>The clients\<close>

text \<open>
  A task reads one chunk and then runs the callback of its read, the \<open>ct_read\<close>-th one. \<open>cc_threads\<close> is
  how many threads the pool of the client has.
\<close>

record chunk_task =
  ct_request_id :: object_handle
  ct_read :: nat
  ct_uri :: storage_uri
  ct_offset :: size_t
  ct_bytesize :: size_t
  ct_buffer :: ptr

record chunk_state = sdk_state +
  cc_chunk_bytesize :: size_t
  cc_threads :: nat
  cc_reads :: "chunked_read list"
  cc_tasks :: "chunk_task list"

definition uri_text :: "storage_uri \<Rightarrow> string" where
  "uri_text u = uri_scheme u @ ''://'' @ uri_bucket u @ ''/'' @ uri_path u"

definition task_view :: "chunk_task \<Rightarrow> object_get" where
  "task_view t = (ct_request_id t, uri_text (ct_uri t), (ct_offset t, ct_bytesize t, ct_buffer t))"

definition num_chunks :: "size_t \<Rightarrow> size_t \<Rightarrow> size_t" where
  "num_chunks chunk len = max 1 (len div chunk)"

text \<open>The loop over the chunks, of which \<open>k\<close> are left; the last one takes all that is left.\<close>

fun issue_chunks :: "size_t \<Rightarrow> nat \<Rightarrow> size_t \<Rightarrow> size_t \<Rightarrow> ptr \<Rightarrow> segment list" where
  "issue_chunks chunk 0 len offset buffer = []"
| "issue_chunks chunk (Suc k) len offset buffer =
     (let bytesize = (if k = 0 then len else chunk) in
      (offset, bytesize, buffer) # issue_chunks chunk k (len - bytesize) (offset + bytesize) (buffer + bytesize))"

text \<open>
  The part of \<open>async_read\<close> after the number of chunks is known. The loop's \<open>unsigned\<close> index never
  reaches a number of chunks beyond 32 bits. The flag \<open>_stop\<close> is read once for the whole loop.
\<close>

definition submit_chunks ::
  "size_t \<Rightarrow> string \<Rightarrow> size_t \<times> size_t \<Rightarrow> ptr \<Rightarrow> object_handle \<Rightarrow> 'a chunk_state_scheme \<Rightarrow>
    ((exn + response_code) \<times> 'a chunk_state_scheme) option" where
  "submit_chunks n path rng destination_buffer request_id s =
     (case make_storage_uri path of
        Inl e \<Rightarrow> Some (Inl e, s)
      | Inr uri \<Rightarrow>
          if sd_stop s then Some (Inr FinishedError, s)
          else if 4294967296 \<le> unat n then None
          else (case rng of (offset, len) \<Rightarrow>
            let i = length (cc_reads s);
                tasks = map (\<lambda>(off, bytesize, buf).
                    \<lparr>ct_request_id = request_id, ct_read = i, ct_uri = uri,
                     ct_offset = off, ct_bytesize = bytesize, ct_buffer = buf\<rparr>)
                  (issue_chunks (cc_chunk_bytesize s) (unat n) len offset destination_buffer);
                s' = log_get (request_id, uri_text uri, (offset, len, destination_buffer)) s
            in Some (Inr Success, s'\<lparr>cc_reads := cc_reads s @ [read_make n], cc_tasks := cc_tasks s @ tasks\<rparr>)))"

text \<open>A task finished with a code, or never does.\<close>

definition run_callback :: "chunk_task \<Rightarrow> response_code option \<Rightarrow> 'a chunk_state_scheme \<Rightarrow> 'a chunk_state_scheme" where
  "run_callback t outcome s =
     (case outcome of
        None \<Rightarrow> s
      | Some code \<Rightarrow>
          (case finish_chunk code (cc_reads s ! ct_read t) of
             (pushed, r) \<Rightarrow>
               let s1 = s\<lparr>cc_reads := (cc_reads s)[ct_read t := r]\<rparr>;
                   s2 = (if code = Success then log_fetched (snd (task_view t)) s1 else s1)
               in (case pushed of None \<Rightarrow> s2 | Some c \<Rightarrow> push_response (ct_request_id t) c s2)))"

text \<open>The pool finishes one of its tasks; a pool without threads never does.\<close>

definition chunk_callback ::
  "(chunk_task \<Rightarrow> 'o \<Rightarrow> response_code option) \<Rightarrow> (nat \<Rightarrow> nat \<times> 'o) \<Rightarrow> 'a chunk_state_scheme \<Rightarrow> 'a chunk_state_scheme" where
  "chunk_callback code_of sdk s =
     (if cc_threads s = 0 \<or> cc_tasks s = [] then s
      else case sdk (sd_tick s) of (i, outcome) \<Rightarrow>
        let j = i mod length (cc_tasks s); t = cc_tasks s ! j in
        run_callback t (code_of t outcome)
          (s\<lparr>sd_tick := Suc (sd_tick s), cc_tasks := take j (cc_tasks s) @ drop (Suc j) (cc_tasks s)\<rparr>))"

definition chunk_read_response ::
  "(chunk_task \<Rightarrow> 'o \<Rightarrow> response_code option) \<Rightarrow> (nat \<Rightarrow> nat \<times> 'o) \<Rightarrow> 'a chunk_state_scheme \<Rightarrow>
    ((exn + backend_response) \<times> 'a chunk_state_scheme) option" where
  "chunk_read_response code_of sdk s = async_response (chunk_callback code_of sdk) (length (cc_tasks s)) s"

text \<open>A wait with nothing to hand out never returns when the pool has no threads.\<close>

lemma no_threads_stuck:
  assumes "cc_threads s = 0" and "sd_responder s = Some q" and "sq_pop sentinel_backend_response 0 q = None"
  shows "chunk_read_response code_of sdk s = None"
proof -
  have idle: "chunk_callback code_of sdk s = s" using assms(1) by (simp add: chunk_callback_def)
  have "async_response (chunk_callback code_of sdk) n s = None" for n
    by (induction n) (simp_all add: async_response.simps [of _ _ s] assms(2,3) idle)
  then show ?thesis by (simp add: chunk_read_response_def)
qed

section \<open>The chunks tile the range\<close>

lemma issue_chunks_lay:
  "0 < k \<Longrightarrow> issue_chunks chunk k len offset buffer =
    lay offset buffer (replicate (k - 1) chunk @ [len - of_nat (k - 1) * chunk])"
proof (induction chunk k len offset buffer rule: issue_chunks.induct)
  case (2 chunk k len offset buffer)
  show ?case
  proof (cases "k = 0")
    case False
    then obtain m where k: "k = Suc m" by (cases k) auto
    have "issue_chunks chunk k (len - chunk) (offset + chunk) (buffer + chunk) =
        lay (offset + chunk) (buffer + chunk) (replicate m chunk @ [len - chunk - of_nat m * chunk])"
      using 2 k by simp
    moreover have "len - chunk - of_nat m * chunk = len - of_nat (Suc m) * chunk" by (simp add: algebra_simps)
    ultimately show ?thesis by (simp add: k)
  qed simp
qed simp

lemma chunks_fit:
  assumes "chunk \<noteq> 0"
  shows "unat (of_nat (unat (num_chunks chunk len) - 1) * chunk :: size_t) = (unat (num_chunks chunk len) - 1) * unat chunk"
    and "(unat (num_chunks chunk len) - 1) * unat chunk \<le> unat len" and "0 < unat (num_chunks chunk len)"
proof -
  have n: "unat (num_chunks chunk len) = max 1 (unat len div unat chunk)"
    by (simp add: num_chunks_def unat_max unat_div)
  then show pos: "0 < unat (num_chunks chunk len)" by simp
  have "(unat (num_chunks chunk len) - 1) * unat chunk \<le> unat len div unat chunk * unat chunk"
    unfolding n by (intro mult_right_mono) (auto simp: max_def)
  then show le: "(unat (num_chunks chunk len) - 1) * unat chunk \<le> unat len"
    using div_times_less_eq_dividend [of "unat len" "unat chunk"] by (rule order_trans)
  have "(unat (num_chunks chunk len) - 1) < 18446744073709551616"
    using unat_lt64 [of "num_chunks chunk len"] by linarith
  moreover have "(unat (num_chunks chunk len) - 1) * unat chunk < 18446744073709551616"
    using le unat_lt64 [of len] by (rule order_le_less_trans)
  ultimately show "unat (of_nat (unat (num_chunks chunk len) - 1) * chunk :: size_t) =
      (unat (num_chunks chunk len) - 1) * unat chunk"
    by (simp add: unat_word_ariths unsigned_of_nat take_bit_nat_eq_self)
qed

lemma issue_chunks_tile:
  assumes "chunk \<noteq> 0"
  shows "\<exists>sizes. issue_chunks chunk (unat (num_chunks chunk len)) len offset buffer = lay offset buffer sizes \<and>
    sum_list (map unat sizes) = unat len \<and> length sizes = unat (num_chunks chunk len) \<and>
    (\<forall>n\<in>set (butlast sizes). n = chunk) \<and> (0 < len \<longrightarrow> 0 < last sizes) \<and> unat (last sizes) < 2 * unat chunk"
proof -
  let ?k = "unat (num_chunks chunk len) - 1"
  let ?last = "len - of_nat ?k * chunk"
  note fit = chunks_fit [OF assms, of len]
  have c: "0 < unat chunk" using assms by (simp add: unat_gt_0)
  have last: "unat ?last = unat len - ?k * unat chunk"
    using fit(1,2) by (subst unat_sub_le) (simp_all add: word_le_nat_alt)
  have q: "unat (num_chunks chunk len) = max 1 (unat len div unat chunk)"
    by (simp add: num_chunks_def unat_max unat_div)
  have "unat len < (unat len div unat chunk + 1) * unat chunk"
    using c by (simp add: dividend_less_div_times add.commute)
  also have "\<dots> \<le> (?k + 2) * unat chunk"
    unfolding q by (intro mult_right_mono) auto
  finally have "unat len - ?k * unat chunk < 2 * unat chunk"
    unfolding add_mult_distrib using fit(2) by linarith
  then have "unat ?last < 2 * unat chunk" by (simp only: last)
  moreover have "0 < ?last" if "0 < len"
  proof (cases "unat len div unat chunk \<le> 1")
    case True
    then have "?k = 0" by (simp add: q)
    then show ?thesis using that by simp
  next
    case False
    then have "?k * unat chunk < unat len div unat chunk * unat chunk" using c by (simp add: q)
    also have "\<dots> \<le> unat len" by (rule div_times_less_eq_dividend)
    finally have "0 < unat ?last" unfolding last by linarith
    then show ?thesis by (simp only: unat_pos_iff)
  qed
  ultimately show ?thesis
    using fit(2,3) last issue_chunks_lay [OF fit(3), of chunk len offset buffer]
    by (intro exI [of _ "replicate ?k chunk @ [?last]"]) (auto simp: sum_list_replicate)
qed

section \<open>Reads of one chunk\<close>

text \<open>The worker asks for at most a chunk, so each of its reads is one task, which pushes the response.\<close>

definition chunks_ok :: "size_t \<Rightarrow> 'a chunk_state_scheme \<Rightarrow> bool" where
  "chunks_ok chunk s \<longleftrightarrow> cc_chunk_bytesize s = chunk \<and> 0 < cc_threads s \<and> distinct (map ct_read (cc_tasks s)) \<and>
     (\<forall>t\<in>set (cc_tasks s). ct_read t < length (cc_reads s) \<and> cc_reads s ! ct_read t = read_make 1 \<and> 0 < ct_bytesize t)"

lemma chunk_callback_law:
  assumes ok: "chunks_ok chunk s" and some: "cc_tasks s \<noteq> []"
    and code_of: "\<And>t out. 0 < ct_bytesize t \<Longrightarrow> \<exists>c. code_of t out = Some c \<and> c \<noteq> FinishedError"
  shows "\<exists>xs h x ys c. map task_view (cc_tasks s) = xs @ (h, x) # ys \<and>
      map task_view (cc_tasks (chunk_callback code_of sdk s)) = xs @ ys \<and> chunks_ok chunk (chunk_callback code_of sdk s) \<and>
      c \<noteq> FinishedError \<and>
      sd_responder (chunk_callback code_of sdk s) = sd_responder (push_response h c s) \<and>
      sd_stop (chunk_callback code_of sdk s) = sd_stop s \<and> sd_issued (chunk_callback code_of sdk s) = sd_issued s \<and>
      set (sd_fetched s) \<subseteq> set (sd_fetched (chunk_callback code_of sdk s)) \<and>
      (c = Success \<longrightarrow> x \<in> set (sd_fetched (chunk_callback code_of sdk s)))"
proof -
  let ?ts = "cc_tasks s"
  obtain i out where sdk: "sdk (sd_tick s) = (i, out)" by (metis surj_pair)
  let ?j = "i mod length ?ts"
  let ?t = "?ts ! ?j" and ?xs = "take ?j ?ts" and ?ys = "drop (Suc ?j) ?ts"
  have "?j < length ?ts" using some by simp
  note split = id_take_nth_drop [OF this]
  have t: "?t \<in> set ?ts" using \<open>?j < length ?ts\<close> by simp
  then have rd: "cc_reads s ! ct_read ?t = read_make 1" "0 < ct_bytesize ?t" using ok by (auto simp: chunks_ok_def)
  obtain c where c: "code_of ?t out = Some c" "c \<noteq> FinishedError" using code_of [OF rd(2)] by blast
  let ?s0 = "s\<lparr>sd_tick := Suc (sd_tick s), cc_tasks := ?xs @ ?ys\<rparr>"
  let ?r = "snd (finish_chunk c (read_make 1))"
  let ?s1 = "?s0\<lparr>cc_reads := (cc_reads s)[ct_read ?t := ?r]\<rparr>"
  let ?s2 = "if c = Success then log_fetched (snd (task_view ?t)) ?s1 else ?s1"
  have run: "chunk_callback code_of sdk s = push_response (ct_request_id ?t) c ?s2"
    using some sdk c(1) rd(1) ok
    by (simp add: chunks_ok_def chunk_callback_def Let_def run_callback_def finish_chunk_def read_make_def)
  have "distinct (map ct_read (?xs @ ?t # ?ys))" "\<forall>x\<in>set (?xs @ ?t # ?ys). ct_read x < length (cc_reads s) \<and>
      cc_reads s ! ct_read x = read_make 1 \<and> 0 < ct_bytesize x"
    using ok unfolding chunks_ok_def split [symmetric] by blast+
  then have "chunks_ok chunk (chunk_callback code_of sdk s)"
    using ok unfolding run by (auto simp: chunks_ok_def push_response_def log_fetched_def nth_list_update)
  moreover have "map task_view ?ts = map task_view ?xs @ (ct_request_id ?t, snd (task_view ?t)) # map task_view ?ys"
    using arg_cong [OF split, of "map task_view"] by (simp add: task_view_def)
  moreover have "map task_view (cc_tasks (chunk_callback code_of sdk s)) = map task_view ?xs @ map task_view ?ys"
    "sd_responder (chunk_callback code_of sdk s) = sd_responder (push_response (ct_request_id ?t) c s)"
    "sd_stop (chunk_callback code_of sdk s) = sd_stop s" "sd_issued (chunk_callback code_of sdk s) = sd_issued s"
    "set (sd_fetched s) \<subseteq> set (sd_fetched (chunk_callback code_of sdk s))"
    "c = Success \<longrightarrow> snd (task_view ?t) \<in> set (sd_fetched (chunk_callback code_of sdk s))"
    unfolding run by (auto simp: push_response_def log_fetched_def)
  ultimately show ?thesis using c(2) by blast
qed

text \<open>The read of the worker: one task is queued for it.\<close>

lemma submit_one_chunk:
  assumes "make_storage_uri path = Inr u" and "\<not> sd_stop s"
  shows "submit_chunks 1 path (off, n) buf h s =
    Some (Inr Success, (log_get (h, path, off, n, buf) s)\<lparr>cc_reads := cc_reads s @ [read_make 1],
      cc_tasks := cc_tasks s @ [\<lparr>ct_request_id = h, ct_read = length (cc_reads s), ct_uri = u,
        ct_offset = off, ct_bytesize = n, ct_buffer = buf\<rparr>]\<rparr>)"
proof -
  have "uri_text u = path" using make_storage_uri_sound [OF assms(1)] by (simp add: uri_text_def uri_matches_def)
  moreover have "issue_chunks chunk (unat (1 :: size_t)) n off buf = [(off, n, buf)]" for chunk
    by simp
  ultimately show ?thesis using assms by (simp add: submit_chunks_def Let_def del: unat_1)
qed

lemma num_chunks_one:
  assumes "n \<le> chunk"
  shows "num_chunks chunk n = 1"
proof -
  have "unat n div unat chunk \<le> unat chunk div unat chunk"
    using assms by (intro div_le_mono) (simp add: word_le_nat_alt)
  also have "\<dots> \<le> 1" by (cases "unat chunk = 0") simp_all
  finally have "unat (num_chunks chunk n) = unat (1 :: size_t)"
    unfolding num_chunks_def unat_max unat_div by simp
  then show ?thesis by (simp only: unat_word_eq_iff)
qed

lemma chunk_read_ok:
  assumes inv: "client_inv limit (map task_view (cc_tasks s)) s" and ok: "chunks_ok chunk s"
    and limit: "unat limit < 4294967296" and uri: "make_storage_uri path = Inr u" and n: "0 < n"
    and h: "h \<notin> dom (pending_reads (map task_view (cc_tasks s)) s)" "h < limit"
  shows "\<exists>s'. submit_chunks 1 path (off, n) buf h (expect_response s) = Some (Inr Success, s') \<and>
    client_inv limit (map task_view (cc_tasks s')) s' \<and> chunks_ok chunk s' \<and> sd_fetched s' = sd_fetched s \<and>
    pending_reads (map task_view (cc_tasks s')) s' =
      (pending_reads (map task_view (cc_tasks s)) s)(h \<mapsto> (path, off, n, buf))"
proof -
  let ?t = "\<lparr>ct_request_id = h, ct_read = length (cc_reads s), ct_uri = u, ct_offset = off, ct_bytesize = n, ct_buffer = buf\<rparr>"
  let ?s = "(log_get (h, path, off, n, buf) (expect_response s))\<lparr>cc_reads := cc_reads s @ [read_make 1],
    cc_tasks := cc_tasks s @ [?t]\<rparr>"
  have stop: "\<not> sd_stop (expect_response s)" using client_inv_parts(1) [OF inv] by (simp add: expect_response_def)
  have run: "submit_chunks 1 path (off, n) buf h (expect_response s) = Some (Inr Success, ?s)"
    using submit_one_chunk [OF uri stop] by (simp add: expect_response_def)
  have view: "task_view ?t = (h, path, off, n, buf)"
    using make_storage_uri_sound [OF uri] by (simp add: task_view_def uri_text_def uri_matches_def)
  have nh: "h \<notin> set (handles_of (map task_view (cc_tasks s)) s)"
    using h(1) client_inv_dom [OF inv] by simp
  have gs: "set (map task_view (cc_tasks ?s)) = insert (h, path, off, n, buf) (set (map task_view (cc_tasks s)))"
    "distinct (map fst (map task_view (cc_tasks ?s)))"
    using view nh client_inv_parts(3) [OF inv] by (auto simp: log_get_def handles_of_def)
  have same: "sd_responder ?s = sd_responder (expect_response s)" "sd_stop ?s = sd_stop s"
    "sd_issued ?s = (h, path, off, n, buf) # sd_issued s" "sd_fetched ?s = sd_fetched s"
    by (simp_all add: log_get_def expect_response_def)
  note read = client_inv_read [OF inv nh h(2) limit same gs]
  have "chunks_ok chunk ?s"
    using ok n by (auto simp: chunks_ok_def log_get_def expect_response_def nth_append)
  then show ?thesis
    using run read same(4) by blast
qed

section \<open>Reads of many chunks\<close>

text \<open>
  The callbacks of any reads, interleaved as the pools run them: which read pushed which response.
\<close>

fun callbacks ::
  "(chunk_task \<times> response_code) list \<Rightarrow> 'a chunk_state_scheme \<Rightarrow> (nat \<times> response_code) list \<times> 'a chunk_state_scheme" where
  "callbacks [] s = ([], s)"
| "callbacks ((t, code) # es) s =
     (case callbacks es (run_callback t (Some code) s) of
        (ps, s') \<Rightarrow>
          ((case fst (finish_chunk code (cc_reads s ! ct_read t)) of None \<Rightarrow> ps | Some c \<Rightarrow> (ct_read t, c) # ps), s'))"

definition codes_of_read :: "nat \<Rightarrow> (chunk_task \<times> response_code) list \<Rightarrow> response_code list" where
  "codes_of_read i es = map snd (filter (\<lambda>(t, c). ct_read t = i) es)"

definition answers_of_read :: "nat \<Rightarrow> (nat \<times> response_code) list \<Rightarrow> response_code list" where
  "answers_of_read i ps = map snd (filter (\<lambda>(j, c). j = i) ps)"

lemma run_callback_reads [simp]:
  "cc_reads (run_callback t (Some code) s) =
    (cc_reads s)[ct_read t := snd (finish_chunk code (cc_reads s ! ct_read t))]"
  by (simp add: run_callback_def Let_def push_response_def log_fetched_def split: prod.split option.split)

lemma callbacks_answers:
  "i < length (cc_reads s) \<Longrightarrow>
    answers_of_read i (fst (callbacks es s)) = finish_chunks (codes_of_read i es) (cc_reads s ! i)"
proof (induction es arbitrary: s)
  case (Cons e es)
  obtain t code where e: "e = (t, code)" by (cases e)
  let ?s = "run_callback t (Some code) s"
  have IH: "answers_of_read i (fst (callbacks es ?s)) = finish_chunks (codes_of_read i es) (cc_reads ?s ! i)"
    using Cons by simp
  show ?case
  proof (cases "ct_read t = i")
    case True
    then show ?thesis
      using IH Cons.prems
      by (auto simp: e answers_of_read_def codes_of_read_def split: prod.split option.split)
  next
    case False
    then show ?thesis
      using IH by (auto simp: e answers_of_read_def codes_of_read_def split: prod.split option.split)
  qed
qed (simp add: answers_of_read_def codes_of_read_def)

lemma submitted_chunks:
  assumes run: "submit_chunks n path (offset, len) buf h s = Some (Inr Success, s')" and n: "0 < unat n"
    and es: "mset (filter (\<lambda>t. ct_read t = length (cc_reads s)) (map fst es)) = mset (drop (length (cc_tasks s)) (cc_tasks s'))"
  shows "map (\<lambda>t. (ct_offset t, ct_bytesize t, ct_buffer t)) (drop (length (cc_tasks s)) (cc_tasks s')) =
      issue_chunks (cc_chunk_bytesize s) (unat n) len offset buf"
    and "answers_of_read (length (cc_reads s)) (fst (callbacks es s')) =
      [case filter (\<lambda>c. c \<noteq> Success) (codes_of_read (length (cc_reads s)) es) of [] \<Rightarrow> Success | c # cs \<Rightarrow> c]"
proof -
  let ?i = "length (cc_reads s)" and ?segs = "issue_chunks (cc_chunk_bytesize s) (unat n) len offset buf"
  obtain u where u: "make_storage_uri path = Inr u" using run by (auto simp: submit_chunks_def split: sum.splits)
  then have small: "unat n < 4294967296" and stop: "\<not> sd_stop s"
    using run by (auto simp: submit_chunks_def split: if_splits)
  have s': "cc_reads s' = cc_reads s @ [read_make n]"
      "drop (length (cc_tasks s)) (cc_tasks s') = map (\<lambda>(off, b, p). \<lparr>ct_request_id = h, ct_read = ?i, ct_uri = u,
        ct_offset = off, ct_bytesize = b, ct_buffer = p\<rparr>) ?segs"
    using run u small stop by (auto simp: submit_chunks_def Let_def log_get_def)
  show "map (\<lambda>t. (ct_offset t, ct_bytesize t, ct_buffer t)) (drop (length (cc_tasks s)) (cc_tasks s')) = ?segs"
    unfolding s'(2) by (auto simp: comp_def case_prod_unfold)
  have "length (codes_of_read ?i es) = length (filter (\<lambda>t. ct_read t = ?i) (map fst es))"
    by (simp add: codes_of_read_def filter_map comp_def case_prod_unfold)
  also have "\<dots> = length ?segs"
    using arg_cong [OF es, of size] by (simp only: size_mset s'(2) length_map)
  also have "\<dots> = unat n" using n by (simp add: issue_chunks_lay)
  finally have len: "length (codes_of_read ?i es) = unat n" .
  have counter: "unat (rd_counter (read_make n)) = unat n"
    using small by (simp add: read_make_def unsigned_ucast_eq take_bit_nat_eq_self)
  show "answers_of_read ?i (fst (callbacks es s')) =
      [case filter (\<lambda>c. c \<noteq> Success) (codes_of_read ?i es) of [] \<Rightarrow> Success | c # cs \<Rightarrow> c]"
    using finish_chunks_once [of "read_make n" "codes_of_read ?i es"] len n counter
    by (simp add: callbacks_answers s'(1) read_make_def split: list.split)
qed

end
