(* ===== verification/GcsPlugin.thy ===== *)
theory GcsPlugin
  imports ChunkedReads PluginApi ObjectStorage Answering
begin

text \<open>
  The GCS plugin (\<open>gcs/client_configuration\<close>, \<open>gcs/client\<close>, \<open>gcs/gcs.cc\<close>). The Google SDK is a
  parameter: the stream of each ranged read, and the objects of a listing.
\<close>

section \<open>Configuration\<close>

text \<open>The options of the SDK that are set; the others keep their defaults.\<close>

record gcs_configuration =
  gc_use_grpc :: bool
  gc_max_concurrency :: uint
  gc_stall_timeout :: "int option"
  gc_minimum_rate :: "size_t option"
  gc_logging :: "string list"
  gc_credentials :: "string option"

text \<open>\<open>duration_cast\<close> to seconds truncates towards zero.\<close>

definition seconds_of_ms :: "size_t \<Rightarrow> int" where
  "seconds_of_ms ms = (if sint ms < 0 then - (- sint ms div 1000) else sint ms div 1000)"

text \<open>
  The number of connections is narrowed to 32 bits, where it may become zero; the division by the
  number of workers traps on zero.
\<close>

definition gcs_max_concurrency :: "environment \<Rightarrow> uint \<Rightarrow> exn + uint" where
  "gcs_max_concurrency env nprocs =
     (case getenv_ulong_or env ''RUNAI_STREAMER_S3_MAX_CONNECTIONS'' 0 of
        Inl e \<Rightarrow> Inl e
      | Inr max_connections \<Rightarrow>
          if max_connections \<noteq> 0 then Inr (ucast max_connections)
          else
            let default_max_concurrency = (if nprocs = 0 then 8 else 1) in
            (case getenv_ulong_or env ''RUNAI_STREAMER_CONCURRENCY'' 8 of
               Inl e \<Rightarrow> Inl e
             | Inr workers \<Rightarrow>
                 let worker_concurrency = ucast workers :: uint in
                 if worker_concurrency = 0 then Inl Trap
                 else Inr (max default_max_concurrency (nprocs * 2 div worker_concurrency))))"

text \<open>\<open>contents\<close> are the files of the file system.\<close>

definition gcs_configuration_make ::
  "environment \<Rightarrow> uint \<Rightarrow> (string \<Rightarrow> string option) \<Rightarrow> exn + gcs_configuration" where
  "gcs_configuration_make env nprocs contents =
     (case getenv_bool_or env ''RUNAI_STREAMER_GCS_USE_GRPC'' False of Inl e \<Rightarrow> Inl e | Inr use_grpc \<Rightarrow>
      case gcs_max_concurrency env nprocs of Inl e \<Rightarrow> Inl e | Inr threads \<Rightarrow>
      case getenv_ulong_or env ''RUNAI_STREAMER_S3_REQUEST_TIMEOUT_MS'' 600000 of Inl e \<Rightarrow> Inl e | Inr timeout \<Rightarrow>
      case getenv_ulong_or env ''RUNAI_STREAMER_S3_LOW_SPEED_LIMIT'' 0 of Inl e \<Rightarrow> Inl e | Inr low_speed \<Rightarrow>
      case getenv_bool_or env ''RUNAI_STREAMER_S3_TRACE'' False of Inl e \<Rightarrow> Inl e | Inr trace_gcs \<Rightarrow>
      let config = \<lparr>gc_use_grpc = use_grpc, gc_max_concurrency = threads,
            gc_stall_timeout = (if timeout \<noteq> 0 then Some (seconds_of_ms timeout) else None),
            gc_minimum_rate = (if low_speed \<noteq> 0 then Some low_speed else None),
            gc_logging = (if trace_gcs then [''auth'', ''http'', ''rpc''] else []), gc_credentials = None\<rparr>;
          sa_key_file_name = getenv_string_or env ''RUNAI_STREAMER_GCS_CREDENTIAL_FILE'' []
      in if sa_key_file_name = [] then Inr config
         else (case contents sa_key_file_name of
            None \<Rightarrow> Inl (CommonException InvalidParameterError)
          | Some key \<Rightarrow> Inr (config\<lparr>gc_credentials := Some key\<rparr>)))"

section \<open>The client\<close>

text \<open>
  The window for a number of threads and a chunk size is computed in floating point, with the
  margin of \<open>inflight_window_margin\<close>; \<open>gw_spawns\<close> is whether the \<open>i\<close>-th thread of a pool can be made.
\<close>

record gcs_world =
  gw_nprocs :: uint
  gw_contents :: "string \<Rightarrow> string option"
  gw_window :: "uint \<Rightarrow> size_t \<Rightarrow> size_t"
  gw_spawns :: "nat \<Rightarrow> bool"

record gcs_client = chunk_state +
  gs_config :: gcs_configuration
  gs_max_inflight_bytes :: size_t

text \<open>\<open>None\<close> is a constructor that never returns, from the start of the pool.\<close>

definition gcs_client_make ::
  "environment \<Rightarrow> gcs_world \<Rightarrow> client_config \<Rightarrow> (exn + gcs_client) option" where
  "gcs_client_make env gw config =
     (case gcs_configuration_make env (gw_nprocs gw) (gw_contents gw) of
        Inl e \<Rightarrow> Some (Inl e)
      | Inr gc \<Rightarrow>
          let chunk = default_storage_chunk_size config; threads = unat (gc_max_concurrency gc) in
          (case pool_start (gw_spawns gw) threads of
             None \<Rightarrow> None
           | Some (Inl e) \<Rightarrow> Some (Inl e)
           | Some (Inr u) \<Rightarrow> Some (Inr
               \<lparr>sd_stop = False, sd_responder = None, sd_tick = 0, sd_issued = [], sd_fetched = [],
                cc_chunk_bytesize = chunk, cc_threads = threads, cc_reads = [], cc_tasks = [], gs_config = gc,
                gs_max_inflight_bytes = max (gw_window gw (gc_max_concurrency gc) chunk) (2 * chunk)\<rparr>)))"

definition gcs_verify_credentials :: "client_config \<Rightarrow> gcs_client \<Rightarrow> bool" where
  "gcs_verify_credentials config c = True"

text \<open>
  \<open>write_stream_to_buffer\<close>. A stream holds so many bytes and then ends, well or badly; a read of it
  takes exactly as many as it asks for or fails, so a read of nothing succeeds for ever. A stream
  that did not open holds nothing and is bad from the start.
\<close>

record object_stream =
  os_bytes :: nat
  os_bad :: bool

partial_function (option) stream_loop :: "size_t \<Rightarrow> nat \<Rightarrow> size_t \<Rightarrow> size_t option" where
  "stream_loop bytesize left received =
     (if left < unat bytesize then Some received
      else stream_loop bytesize (left - unat bytesize) (received + bytesize))"

declare stream_loop.simps [code, simp del]

definition write_stream_to_buffer :: "object_stream \<Rightarrow> size_t \<Rightarrow> response_code option" where
  "write_stream_to_buffer stream bytesize =
     (case (if os_bad stream \<and> os_bytes stream = 0 then Some 0 else stream_loop bytesize (os_bytes stream) 0) of
        None \<Rightarrow> None
      | Some bytes_received \<Rightarrow>
          Some (if bytes_received \<noteq> bytesize then FileAccessError
                else if os_bad stream then FileAccessError else Success))"

definition gcs_async_read ::
  "string \<Rightarrow> size_t \<times> size_t \<Rightarrow> ptr \<Rightarrow> object_handle \<Rightarrow> gcs_client \<Rightarrow>
    ((exn + response_code) \<times> gcs_client) option" where
  "gcs_async_read path rng destination_buffer request_id s =
     (let s1 = expect_response s in
      if cc_chunk_bytesize s1 = 0 then Some (Inl Trap, s1)
      else submit_chunks (num_chunks (cc_chunk_bytesize s1) (snd rng)) path rng destination_buffer request_id s1)"

definition gcs_code :: "chunk_task \<Rightarrow> object_stream \<Rightarrow> response_code option" where
  "gcs_code t stream = write_stream_to_buffer stream (ct_bytesize t)"

definition gcs_async_read_response ::
  "(nat \<Rightarrow> nat \<times> object_stream) \<Rightarrow> gcs_client \<Rightarrow> ((exn + backend_response) \<times> gcs_client) option" where
  "gcs_async_read_response = chunk_read_response gcs_code"

text \<open>\<open>list_files\<close>: the SDK yields the objects of a bucket below a prefix one by one, or an error.\<close>

fun gcs_list_objects :: "string \<Rightarrow> (string \<times> size_t) option list \<Rightarrow> listing \<Rightarrow> response_code \<times> listing" where
  "gcs_list_objects prefix [] results = (Success, results)"
| "gcs_list_objects prefix (None # metas) results = (FileAccessError, results)"
| "gcs_list_objects prefix (Some meta # metas) results = gcs_list_objects prefix metas (results @ listed prefix [meta])"

definition gcs_list_files ::
  "(string \<Rightarrow> string \<Rightarrow> string option \<Rightarrow> (string \<times> size_t) option list) \<Rightarrow> string \<Rightarrow> bool \<Rightarrow>
    (exn + response_code \<times> listing) option" where
  "gcs_list_files sdk prefix is_recursive =
     (case make_storage_uri prefix of
        Inl e \<Rightarrow> Some (Inl e)
      | Inr uri \<Rightarrow> Some (Inr (gcs_list_objects (uri_prefix uri)
          (sdk (uri_bucket uri) (uri_path uri) (if is_recursive then None else Some ''/'')) [])))"

section \<open>The entry points\<close>

definition gcs_obj_open_backend :: response_code where
  "gcs_obj_open_backend = Success"

definition gcs_obj_close_backend :: response_code where
  "gcs_obj_close_backend = Success"

definition gcs_obj_get_backend_shutdown_policy :: shutdown_policy where
  "gcs_obj_get_backend_shutdown_policy = OnProcessExit"

definition gcs_obj_get_backend_config ::
  "string option \<Rightarrow> bool \<Rightarrow> uint option \<Rightarrow> gcs_client plugin_state \<Rightarrow> response_code \<times> string option \<times> uint option" where
  "gcs_obj_get_backend_config key out_value_buffer in_out_buffer_len st =
     backend_config (pl_window st) key out_value_buffer in_out_buffer_len"

text \<open>Unlike the S3 plugin, the code of an exception is passed on and the handle is reset.\<close>

definition gcs_obj_create_client ::
  "environment \<Rightarrow> gcs_world \<Rightarrow> ptr \<Rightarrow> client_config \<Rightarrow> gcs_client plugin_state \<Rightarrow>
    ((exn + response_code \<times> ptr) \<times> gcs_client plugin_state) option" where
  "gcs_obj_create_client env gw =
     create_or_fail (gcs_client_make env gw) gcs_verify_credentials gs_max_inflight_bytes"

definition gcs_obj_remove_client :: "ptr \<Rightarrow> gcs_client plugin_state \<Rightarrow> response_code \<times> gcs_client plugin_state" where
  "gcs_obj_remove_client = release_client"

definition gcs_obj_remove_all_clients :: "gcs_client plugin_state \<Rightarrow> response_code \<times> gcs_client plugin_state" where
  "gcs_obj_remove_all_clients = release_all"

definition gcs_obj_cancel_all_reads :: "gcs_client plugin_state \<Rightarrow> response_code \<times> gcs_client plugin_state" where
  "gcs_obj_cancel_all_reads = cancel_all sdk_stop"

definition gcs_obj_request_read ::
  "ptr \<Rightarrow> string \<Rightarrow> size_t \<times> size_t \<Rightarrow> ptr \<Rightarrow> object_handle \<Rightarrow> gcs_client plugin_state \<Rightarrow>
    ((exn + response_code) \<times> gcs_client plugin_state) option" where
  "gcs_obj_request_read h path rng destination_buffer request_id st =
     (if h = nullptr then Some (Inr UnknownError, st)
      else map_option (\<lambda>(r, st'). (catch_unknown r, st'))
        (wait_client h (gcs_async_read path rng destination_buffer request_id) st))"

definition gcs_obj_wait_for_completions ::
  "(nat \<Rightarrow> nat \<times> object_stream) \<Rightarrow> ptr \<Rightarrow> bool \<Rightarrow> nat \<Rightarrow> bool \<Rightarrow> gcs_client plugin_state \<Rightarrow>
    ((exn + response_code \<times> nat \<times> backend_response list) \<times> gcs_client plugin_state) option" where
  "gcs_obj_wait_for_completions sdk h event_buffer max_events out_num_events st =
     (if h = nullptr \<or> max_events = 0 \<or> \<not> event_buffer \<or> \<not> out_num_events then Some (Inr (UnknownError, 0, []), st)
      else map_option (\<lambda>(r, st'). (one_event r, st')) (wait_client h (gcs_async_read_response sdk) st))"

definition gcs_obj_list_files ::
  "(string \<Rightarrow> string \<Rightarrow> string option \<Rightarrow> (string \<times> size_t) option list) \<Rightarrow> ptr \<Rightarrow> ptr \<Rightarrow> string option \<Rightarrow> int \<Rightarrow>
    bool \<Rightarrow> bool \<Rightarrow> gcs_client plugin_state \<Rightarrow> (exn + response_code \<times> (entry_block option \<times> uint) option) option" where
  "gcs_obj_list_files sdk = plugin_list_files (\<lambda>c. gcs_list_files sdk)"

section \<open>What a stream has to hold\<close>

lemma stream_loop_ends: "0 < n \<Longrightarrow> \<exists>r. stream_loop n left received = Some r"
proof (induction left arbitrary: received rule: less_induct)
  case (less left)
  then have "0 < unat n" by (simp add: unat_gt_0 word_neq_0_conv)
  then show ?case
    using less by (subst stream_loop.simps) auto
qed

lemma gcs_code_ends: "0 < ct_bytesize t \<Longrightarrow> \<exists>c. gcs_code t out = Some c \<and> c \<noteq> FinishedError"
  using stream_loop_ends [of "ct_bytesize t" "os_bytes out" 0]
  by (auto simp: gcs_code_def write_stream_to_buffer_def)

text \<open>
  The loop counts whole reads: of a stream longer than the chunk, the bytes that follow overwrite the
  start of the buffer, and unless they make up another whole read the chunk is a success.
\<close>

theorem gcs_overlong_stream_accepted:
  assumes "unat n \<le> k" and "k < 2 * unat n"
  shows "write_stream_to_buffer \<lparr>os_bytes = k, os_bad = False\<rparr> n = Some Success"
proof -
  have "stream_loop n k 0 = stream_loop n (k - unat n) n" using assms(1) by (subst stream_loop.simps) simp
  moreover have "stream_loop n (k - unat n) n = Some n" using assms by (subst stream_loop.simps) auto
  ultimately show ?thesis by (simp add: write_stream_to_buffer_def)
qed

section \<open>The plugin keeps its word\<close>

interpretation gcs_sdk: sdk_client "\<lambda>s :: gcs_client. map task_view (cc_tasks s)" "chunk_callback gcs_code sdk" "chunks_ok chunk"
  for sdk chunk
proof
  fix s :: gcs_client
  assume "chunks_ok chunk s" and "map task_view (cc_tasks s) \<noteq> []"
  then show "\<exists>xs h x ys c. map task_view (cc_tasks s) = xs @ (h, x) # ys \<and>
      map task_view (cc_tasks (chunk_callback gcs_code sdk s)) = xs @ ys \<and> chunks_ok chunk (chunk_callback gcs_code sdk s) \<and>
      c \<noteq> FinishedError \<and>
      sd_responder (chunk_callback gcs_code sdk s) = sd_responder (push_response h c s) \<and>
      sd_stop (chunk_callback gcs_code sdk s) = sd_stop s \<and> sd_issued (chunk_callback gcs_code sdk s) = sd_issued s \<and>
      set (sd_fetched s) \<subseteq> set (sd_fetched (chunk_callback gcs_code sdk s)) \<and>
      (c = Success \<longrightarrow> x \<in> set (sd_fetched (chunk_callback gcs_code sdk s)))"
    by (intro chunk_callback_law gcs_code_ends) simp_all
qed (simp_all add: chunks_ok_def)

text \<open>
  A pool that works: the number of its threads can be computed and is not zero, and either all of
  them can be made or not even the first.
\<close>

definition gcs_pool_ok :: "environment \<Rightarrow> gcs_world \<Rightarrow> bool" where
  "gcs_pool_ok env gw \<longleftrightarrow>
     (case gcs_max_concurrency env (gw_nprocs gw) of
        Inl e \<Rightarrow> e \<noteq> Trap
      | Inr threads \<Rightarrow> threads \<noteq> 0 \<and> starts_cleanly (gw_spawns gw) (unat threads))"

text \<open>One that does not: \<open>2^32\<close> connections are narrowed to no threads.\<close>

lemma gcs_no_threads:
  assumes "env ''RUNAI_STREAMER_S3_MAX_CONNECTIONS'' = Some (to_string 4294967296)"
  shows "gcs_max_concurrency env nprocs = Inr 0" and "\<not> gcs_pool_ok env gw"
proof -
  have "getenv_ulong_or env ''RUNAI_STREAMER_S3_MAX_CONNECTIONS'' 0 = Inr 4294967296"
    using assms by (intro getenv_ulong_or_to_string) simp
  then show "gcs_max_concurrency env nprocs = Inr 0" for nprocs
    by (simp add: gcs_max_concurrency_def)
  then show "\<not> gcs_pool_ok env gw" by (simp add: gcs_pool_ok_def)
qed

lemma gcs_configuration_threads:
  "gcs_configuration_make env nprocs contents = Inr gc \<Longrightarrow>
    gcs_max_concurrency env nprocs = Inr (gc_max_concurrency gc)"
  by (auto simp: gcs_configuration_make_def Let_def split: sum.splits option.splits if_splits)

lemma gcs_client_make_error:
  assumes "gcs_pool_ok env gw"
  shows "gcs_client_make env gw config \<noteq> None" and "gcs_client_make env gw config \<noteq> Some (Inl Trap)"
    and "gcs_client_make env gw config \<noteq> Some (Inl (CommonException Success))"
proof -
  have no: "getenv_ulong_or env v d \<noteq> Inl Trap" "getenv_bool_or env v b \<noteq> Inl Trap"
    "getenv_ulong_or env v d \<noteq> Inl (CommonException Success)" "getenv_bool_or env v b \<noteq> Inl (CommonException Success)" for v d b
    using getenv_ulong_or_error getenv_bool_or_error by fastforce+
  have safe: "gcs_max_concurrency env (gw_nprocs gw) \<noteq> Inl Trap"
    using assms by (auto simp: gcs_pool_ok_def)
  have "gcs_max_concurrency env (gw_nprocs gw) \<noteq> Inl (CommonException Success)"
    using no(3) by (auto simp: gcs_max_concurrency_def Let_def split: sum.splits if_splits)
  then have config: "gcs_configuration_make env (gw_nprocs gw) (gw_contents gw) \<noteq> Inl Trap"
    "gcs_configuration_make env (gw_nprocs gw) (gw_contents gw) \<noteq> Inl (CommonException Success)"
    using no safe by (auto simp: gcs_configuration_make_def Let_def split: sum.splits option.splits if_splits)
  have starts: "pool_start (gw_spawns gw) (unat (gc_max_concurrency gc)) \<noteq> None"
    if "gcs_configuration_make env (gw_nprocs gw) (gw_contents gw) = Inr gc" for gc
    using assms gcs_configuration_threads [OF that]
    by (intro pool_start_returns [THEN iffD2]) (simp add: gcs_pool_ok_def)
  then show "gcs_client_make env gw config \<noteq> None"
    by (auto simp: gcs_client_make_def Let_def split: sum.splits option.splits)
  show "gcs_client_make env gw config \<noteq> Some (Inl Trap)"
    "gcs_client_make env gw config \<noteq> Some (Inl (CommonException Success))"
    using config by (auto simp: gcs_client_make_def Let_def split: sum.splits option.splits dest: pool_start_cases)
qed

lemma gcs_client_make_fresh:
  assumes "gcs_pool_ok env gw" and "gcs_client_make env gw config = Some (Inr c)"
  shows "gcs_sdk.invar (default_storage_chunk_size config) limit c \<and> gcs_sdk.pending c = Map.empty"
proof -
  have "0 < cc_threads c"
    using assms gcs_configuration_threads [of env "gw_nprocs gw" "gw_contents gw"]
    by (auto simp: gcs_client_make_def gcs_pool_ok_def Let_def unat_gt_0 split: sum.splits option.splits)
  then show ?thesis
    using assms(2)
    by (auto simp: gcs_client_make_def Let_def gcs_sdk.invar_def gcs_sdk.pending_def client_inv_def responder_ok_def
        handles_of_def responses_of_def pending_reads_def chunks_ok_def fun_eq_iff split: sum.splits option.splits)
qed

text \<open>An environment and a system in which the pool works.\<close>

definition gcs_safe_env :: "gcs_world \<Rightarrow> environment \<Rightarrow> environment" where
  "gcs_safe_env gw env = (if gcs_pool_ok env gw then env else (\<lambda>v. None))"

definition gcs_safe_world :: "environment \<Rightarrow> gcs_world \<Rightarrow> gcs_world" where
  "gcs_safe_world env gw = (if gcs_pool_ok env gw then gw else gw\<lparr>gw_spawns := \<lambda>i. True\<rparr>)"

lemma gcs_safe: "gcs_pool_ok (gcs_safe_env gw env) (gcs_safe_world env gw)"
proof (cases "gcs_pool_ok env gw")
  case False
  have "gcs_max_concurrency (\<lambda>v. None) n = Inr (max (if n = 0 then 8 else 1) (n * 2 div 8))" for n
    by (simp add: gcs_max_concurrency_def getenv_ulong_or_def try_getenv_string_def Let_def)
  moreover have "max (if n = 0 then 8 else 1) k \<noteq> 0" for n k :: uint
    by (simp add: max_def word_le_nat_alt flip: unat_eq_0)
  ultimately show ?thesis
    using False by (simp add: gcs_safe_env_def gcs_safe_world_def gcs_pool_ok_def starts_cleanly_def list_all_iff)
qed (simp add: gcs_safe_env_def gcs_safe_world_def)

definition gcs_cok :: "size_t \<Rightarrow> uint \<Rightarrow> gcs_client \<Rightarrow> bool" where
  "gcs_cok chunk limit = gcs_sdk.invar chunk (ucast limit)"

lemma gcs_creates:
  assumes ready: "plugin_ready (gcs_cok (default_storage_chunk_size config) limit) gcs_sdk.pending st"
    and pool: "gcs_pool_ok env gw"
  shows "\<exists>ret h st'. gcs_obj_create_client env gw p config st = Some (Inr (ret, h), st') \<and>
    (ret = Success \<longrightarrow> (\<exists>c. plugin_lookup h st' = Some c \<and> gcs_cok (default_storage_chunk_size config) limit c \<and>
      gcs_sdk.pending c = Map.empty))"
  unfolding gcs_obj_create_client_def
  by (rule create_or_fail_creates [OF ready _ gcs_client_make_error [OF pool]])
    (simp add: gcs_client_make_fresh [OF pool] gcs_cok_def)

lemma gcs_async_read_ok:
  assumes inv: "gcs_sdk.invar chunk (ucast (limit :: uint)) c" and uri: "make_storage_uri path = Inr u"
    and n: "0 < n" "n \<le> chunk" and h: "h \<notin> dom (gcs_sdk.pending c)" "h < ucast limit"
  shows "\<exists>c'. gcs_async_read path (off, n) buf h c = Some (Inr Success, c') \<and> gcs_sdk.invar chunk (ucast limit) c' \<and>
    gcs_sdk.fetched_reads c' = gcs_sdk.fetched_reads c \<and> gcs_sdk.pending c' = (gcs_sdk.pending c)(h \<mapsto> (path, off, n, buf))"
proof -
  have chunk: "cc_chunk_bytesize c = chunk" "chunk \<noteq> 0"
    using inv n by (auto simp: gcs_sdk.invar_def chunks_ok_def)
  have "unat (ucast limit :: object_handle) < 4294967296" by simp
  from chunk_read_ok [OF _ _ this uri n(1), of c chunk h off buf] inv h
  obtain c' where "submit_chunks 1 path (off, n) buf h (expect_response c) = Some (Inr Success, c')"
      "client_inv (ucast limit) (map task_view (cc_tasks c')) c'" "chunks_ok chunk c'" "sd_fetched c' = sd_fetched c"
      "pending_reads (map task_view (cc_tasks c')) c' =
        (pending_reads (map task_view (cc_tasks c)) c)(h \<mapsto> (path, off, n, buf))"
    by (auto simp: gcs_sdk.invar_def gcs_sdk.pending_def)
  then show ?thesis
    using chunk num_chunks_one [OF n(2)]
    by (auto simp: gcs_async_read_def Let_def expect_response_def gcs_sdk.invar_def gcs_sdk.pending_def
        gcs_sdk.fetched_reads_def)
qed

interpretation gcs_plugin: plugin_entry_points chunk "ucast (limit :: uint)"
    "\<lambda>config st. the (gcs_obj_create_client (gcs_safe_env gw env) (gcs_safe_world env gw) p config st)" "\<lambda>h path rng buf i st. the (gcs_obj_request_read h path rng buf i st)"
    "\<lambda>h k. gcs_obj_wait_for_completions sdk h True k True" "gcs_cok chunk limit" gcs_sdk.pending gcs_sdk.fetched_reads
  for chunk limit env gw p sdk
proof
  fix st and config :: client_config
  assume "plugin_ready (gcs_cok chunk limit) gcs_sdk.pending st" "default_storage_chunk_size config = chunk"
  then show "\<exists>ret h st'. the (gcs_obj_create_client (gcs_safe_env gw env) (gcs_safe_world env gw) p config st) =
        (Inr (ret, h), st') \<and>
      (ret = Success \<longrightarrow> (\<exists>c. plugin_lookup h st' = Some c \<and> gcs_cok chunk limit c \<and> gcs_sdk.pending c = Map.empty))"
    using gcs_creates [OF _ gcs_safe, of config limit st gw env p] by (metis option.sel)
next
  fix p st c path u n h off buf
  assume c: "plugin_lookup p st = Some c" "gcs_cok chunk limit c" and uri: "make_storage_uri path = Inr u"
    and n: "0 < n" "n \<le> chunk" and h: "h \<notin> dom (gcs_sdk.pending c)" "h < ucast limit"
  from gcs_async_read_ok [OF c(2) [unfolded gcs_cok_def] uri n h, of off buf] obtain c' where
    "gcs_async_read path (off, n) buf h c = Some (Inr Success, c')" "gcs_cok chunk limit c'"
    "gcs_sdk.fetched_reads c' = gcs_sdk.fetched_reads c" "gcs_sdk.pending c' = (gcs_sdk.pending c)(h \<mapsto> (path, off, n, buf))"
    unfolding gcs_cok_def by blast
  then show "\<exists>ret c'. the (gcs_obj_request_read p path (off, n) buf h st) = (Inr ret, plugin_update p c' st) \<and>
      gcs_cok chunk limit c' \<and> gcs_sdk.fetched_reads c \<subseteq> gcs_sdk.fetched_reads c' \<and>
      gcs_sdk.pending c' = (if ret = Success then (gcs_sdk.pending c)(h \<mapsto> (path, off, n, buf)) else gcs_sdk.pending c)"
    using c by (auto simp: gcs_obj_request_read_def wait_client_def catch_unknown_def)
next
  fix p st c and k :: nat
  assume c: "plugin_lookup p st = Some c" "gcs_cok chunk limit c" and k: "0 < k"
  have inv: "gcs_sdk.invar chunk (ucast limit) c" using c(2) by (simp add: gcs_cok_def)
  from gcs_sdk.async_response_returns [OF inv, of sdk] obtain r c' where
    r: "async_response (chunk_callback gcs_code sdk) (length (cc_tasks c)) c = Some (Inr r, c')"
      "gcs_sdk.answered chunk (ucast limit) c r c'"
    by auto
  have "gcs_sdk.answered_all chunk (ucast limit) c [r] c'" using r(2) by auto
  then have "round_ok gcs_sdk.pending gcs_sdk.fetched_reads k c (Success, length [r], [r]) c'"
    using k by (intro gcs_sdk.answered_round [OF inv]) auto
  moreover have "gcs_cok chunk limit c'" using r(2) c(2) by (simp add: gcs_cok_def gcs_sdk.answered_def)
  ultimately show "\<exists>answer c'. gcs_obj_wait_for_completions sdk p True k True st = Some (Inr answer, plugin_update p c' st) \<and>
      gcs_cok chunk limit c' \<and> round_ok gcs_sdk.pending gcs_sdk.fetched_reads k c answer c'"
    using c r(1) k
    by (auto simp: gcs_obj_wait_for_completions_def wait_client_def gcs_async_read_response_def chunk_read_response_def
        one_event_def)
qed

section \<open>The worker on GCS\<close>

definition gcs_object_client ::
  "environment \<Rightarrow> gcs_world \<Rightarrow> (nat \<Rightarrow> nat \<times> object_stream) \<Rightarrow> ptr \<Rightarrow> gcs_client plugin_state \<Rightarrow>
    gcs_client session plugin_reads object_client" where
  "gcs_object_client env gw sdk p st =
     plugin_client (session_create (\<lambda>config st. the (gcs_obj_create_client env gw p config st)) st) session_window
       (session_read (\<lambda>h path rng buf i st. the (gcs_obj_request_read h path rng buf i st)))
       (session_wait (\<lambda>h k. gcs_obj_wait_for_completions sdk h True k True))"

definition gcs_reads_done :: "gcs_client session plugin_reads \<Rightarrow> (params \<times> segment) set" where
  "gcs_reads_done = plugin_got (session_client gcs_sdk.fetched_reads)"

text \<open>Idle unused clients, all made for the same chunk size.\<close>

definition gcs_idle :: "size_t \<Rightarrow> uint \<Rightarrow> gcs_client plugin_state \<Rightarrow> bool" where
  "gcs_idle chunk limit st = plugin_ready (gcs_cok chunk limit) gcs_sdk.pending st"

lemma gcs_client_ok:
  assumes "gcs_idle chunk limit st" and "gcs_pool_ok env gw"
  shows "client_ok chunk (ucast limit) (gcs_object_client env gw sdk p st)
    (plugin_ok (session_ok (gcs_cok chunk limit)) (session_client gcs_sdk.pending))
    (plugin_outst (session_client gcs_sdk.pending)) gcs_reads_done"
proof -
  have "gcs_safe_env gw env = env" "gcs_safe_world env gw = gw"
    using assms(2) by (simp_all add: gcs_safe_env_def gcs_safe_world_def)
  then show ?thesis
    using gcs_plugin.session_reads_client [of chunk limit st gw env p sdk] assms(1)
    by (simp add: gcs_object_client_def gcs_reads_done_def gcs_idle_def)
qed

section \<open>Reads of many chunks\<close>

text \<open>
  Property C15: a read that the GCS client accepts is split into chunks that tile its range, all of
  the chunk size but the last, which is smaller than two of them; and in whatever order the chunks
  of it finish, among those of any other reads, exactly one response is pushed for it: a success
  when all of them succeeded, and otherwise the first failure.
\<close>

theorem gcs_chunked_read_answered:
  assumes "gcs_async_read path (offset, len) buf h s = Some (Inr Success, s')"
    and "mset (filter (\<lambda>t. ct_read t = length (cc_reads s)) (map fst es)) = mset (drop (length (cc_tasks s)) (cc_tasks s'))"
  shows "(\<exists>sizes. map (\<lambda>t. (ct_offset t, ct_bytesize t, ct_buffer t)) (drop (length (cc_tasks s)) (cc_tasks s')) =
        lay offset buf sizes \<and> sum_list (map unat sizes) = unat len \<and> sizes \<noteq> [] \<and>
        set (butlast sizes) \<subseteq> {cc_chunk_bytesize s} \<and> unat (last sizes) < 2 * unat (cc_chunk_bytesize s)) \<and>
    answers_of_read (length (cc_reads s)) (fst (callbacks es s')) =
      [case filter (\<lambda>c. c \<noteq> Success) (codes_of_read (length (cc_reads s)) es) of [] \<Rightarrow> Success | c # cs \<Rightarrow> c]"
proof -
  let ?c = "cc_chunk_bytesize s" and ?s = "expect_response s"
  have same: "cc_chunk_bytesize ?s = ?c" "cc_reads ?s = cc_reads s" "cc_tasks ?s = cc_tasks s"
    by (simp_all add: expect_response_def)
  have c: "?c \<noteq> 0" and run: "submit_chunks (num_chunks ?c len) path (offset, len) buf h ?s = Some (Inr Success, s')"
    using assms(1) by (auto simp: gcs_async_read_def Let_def same split: if_splits)
  obtain sizes where tile: "issue_chunks ?c (unat (num_chunks ?c len)) len offset buf = lay offset buf sizes"
      "sum_list (map unat sizes) = unat len" "length sizes = unat (num_chunks ?c len)"
      "\<forall>n\<in>set (butlast sizes). n = ?c" "unat (last sizes) < 2 * unat ?c"
    using issue_chunks_tile [OF c, of len offset buf] by blast
  have pos: "0 < unat (num_chunks ?c len)" by (rule chunks_fit(3) [OF c])
  then have "sizes \<noteq> []" using tile(3) by auto
  then show ?thesis
    using submitted_chunks [OF run pos, of es] assms(2) tile unfolding same by auto
qed

definition sample_gcs :: gcs_client where
  "sample_gcs = \<lparr>sd_stop = False, sd_responder = None, sd_tick = 0, sd_issued = [], sd_fetched = [],
     cc_chunk_bytesize = 4, cc_threads = 8, cc_reads = [], cc_tasks = [],
     gs_config = \<lparr>gc_use_grpc = False, gc_max_concurrency = 8, gc_stall_timeout = Some 600, gc_minimum_rate = None,
       gc_logging = [], gc_credentials = None\<rparr>, gs_max_inflight_bytes = 48\<rparr>"

definition sample_task :: "size_t \<Rightarrow> size_t \<Rightarrow> chunk_task" where
  "sample_task off n = \<lparr>ct_request_id = 7, ct_read = 0,
     ct_uri = \<lparr>uri_scheme = ''gs'', uri_uri = ''gs://b/k'', uri_bucket = ''b'', uri_path = ''k''\<rparr>,
     ct_offset = off, ct_bytesize = n, ct_buffer = 100 + off\<rparr>"

text \<open>Eleven bytes in chunks of four are read as four and seven.\<close>

lemma sample_gcs_read:
  "\<exists>s'. gcs_async_read ''gs://b/k'' (0, 11) 100 7 sample_gcs = Some (Inr Success, s') \<and>
    cc_tasks s' = [sample_task 0 4, sample_task 4 7]"
proof -
  have uri: "make_storage_uri ''gs://b/k'' =
      Inr \<lparr>uri_scheme = ''gs'', uri_uri = ''gs://b/k'', uri_bucket = ''b'', uri_path = ''k''\<rparr>"
    by (simp add: make_storage_uri_def Let_def schemes_def line_terminator_def)
  have "num_chunks 4 11 = 2" by (simp add: num_chunks_def)
  moreover have "issue_chunks 4 2 11 0 100 = [(0, 4, 100), (4, 7, 104)]" by (simp add: numeral_2_eq_2)
  ultimately show ?thesis
    using uri by (simp add: gcs_async_read_def sample_gcs_def expect_response_def submit_chunks_def Let_def
        sample_task_def log_get_def)
qed

theorem gcs_chunked_read_answered_witness:
  "\<exists>s'. gcs_async_read ''gs://b/k'' (0, 11) 100 7 sample_gcs = Some (Inr Success, s') \<and>
    answers_of_read 0 (fst (callbacks [(sample_task 4 7, EofError), (sample_task 0 4, Success)] s')) = [EofError] \<and>
    answers_of_read 0 (fst (callbacks [(sample_task 4 7, Success), (sample_task 0 4, Success)] s')) = [Success]"
proof -
  obtain s' where s': "gcs_async_read ''gs://b/k'' (0, 11) 100 7 sample_gcs = Some (Inr Success, s')"
    "cc_tasks s' = [sample_task 0 4, sample_task 4 7]"
    using sample_gcs_read by blast
  have new: "length (cc_reads sample_gcs) = 0" "length (cc_tasks sample_gcs) = 0" by (simp_all add: sample_gcs_def)
  have "answers_of_read 0 (fst (callbacks [(sample_task 4 7, c), (sample_task 0 4, Success)] s')) =
      [if c = Success then Success else c]" for c
    using gcs_chunked_read_answered [OF s'(1), of "[(sample_task 4 7, c), (sample_task 0 4, Success)]"] s'(2)
    unfolding new by (simp add: codes_of_read_def sample_task_def add_mset_commute del: callbacks.simps)
  from this [of EofError] this [of Success] show ?thesis using s'(1) by simp
qed

end
