(* ===== verification/AzCache.thy ===== *)
theory AzCache
  imports Env
begin

text \<open>
  The loader of the Azure cache provider (\<open>azure/azcache_provider\<close>): which library it uses, the one
  handle that the loaders of a process share, and its shutdown when the last of them goes. The
  dynamic linker and the file system are parameters.
\<close>

section \<open>Configuration\<close>

datatype cache_mode = CacheDisabled | CacheRequired | CacheAuto

record cache_provider_config =
  cp_lib_path :: string
  cp_mode :: cache_mode

text \<open>\<open>std::tolower\<close> in the C locale.\<close>

definition char_lower :: "char \<Rightarrow> char" where
  "char_lower c = (let n = of_char c :: nat in if 65 \<le> n \<and> n \<le> 90 then char_of (n + 32) else c)"

definition parse_cache_mode :: "string \<Rightarrow> cache_mode" where
  "parse_cache_mode val =
     (let lower = map char_lower val in
      if lower = ''0'' then CacheDisabled else if lower = ''1'' then CacheRequired else CacheAuto)"

text \<open>\<open>parent_path\<close> and \<open>operator/\<close> of \<open>std::filesystem::path\<close>, for a canonical path.\<close>

definition parent_path :: "string \<Rightarrow> string" where
  "parent_path p =
     (let dir = rev (dropWhile (\<lambda>c. c \<noteq> CHR ''/'') (rev p)) in
      if dir = [] then [] else if butlast dir = [] then ''/'' else butlast dir)"

definition path_append :: "string \<Rightarrow> string \<Rightarrow> string" where
  "path_append p q = (if p = [] \<or> last p = CHR ''/'' then p @ q else p @ ''/'' @ q)"

text \<open>The linker: where this library is, canonically, what loads and what it exports.\<close>

record linker =
  dl_self :: "string option"
  dl_exists :: "string \<Rightarrow> bool"
  dl_opens :: "string \<Rightarrow> bool"
  dl_abi_version :: "string \<Rightarrow> uint option"
  dl_has_read :: "string \<Rightarrow> bool"
  dl_has_shutdown :: "string \<Rightarrow> bool"
  dl_closes :: "string \<Rightarrow> bool"

definition autodiscover_cache_lib :: "linker \<Rightarrow> string" where
  "autodiscover_cache_lib dl =
     (case dl_self dl of
        None \<Rightarrow> []
      | Some azure_so \<Rightarrow>
          let site_packages = parent_path (parent_path (parent_path (parent_path azure_so)));
              candidate = path_append (path_append site_packages ''py_tachyon_client'') ''libStorageDirect.so''
          in if dl_exists dl candidate then candidate else [])"

definition cache_config_from_env :: "environment \<Rightarrow> linker \<Rightarrow> cache_provider_config" where
  "cache_config_from_env env dl =
     (let mode = (case try_getenv_string env ''RUNAI_STREAMER_EXPERIMENTAL_AZURE_CACHE_ENABLED'' of
                    None \<Rightarrow> CacheAuto | Some v \<Rightarrow> parse_cache_mode v);
          lib_path = (case try_getenv_string env ''RUNAI_STREAMER_EXPERIMENTAL_AZURE_CACHE_LIB'' of
                        None \<Rightarrow> [] | Some p \<Rightarrow> p)
      in \<lparr>cp_lib_path = (if lib_path = [] \<and> mode \<noteq> CacheDisabled then autodiscover_cache_lib dl else lib_path),
          cp_mode = mode\<rparr>)"

section \<open>The handle\<close>

text \<open>A handle: \<open>cl_loaded\<close> while the library is open, and the entry points it has.\<close>

record cache_lib =
  cl_loaded :: bool
  cl_read :: bool
  cl_close :: bool
  cl_path :: string

datatype link_event = Opened string | Closed string | ShutDown nat

definition cache_lib_none :: "string \<Rightarrow> cache_lib" where
  "cache_lib_none path = \<lparr>cl_loaded = False, cl_read = False, cl_close = False, cl_path = path\<rparr>"

text \<open>What happens when the library is not the one wanted: it is closed, which may throw.\<close>

definition reject_lib :: "linker \<Rightarrow> string \<Rightarrow> cache_mode \<Rightarrow> exn + cache_lib" where
  "reject_lib dl path mode =
     (if \<not> dl_closes dl path then Inl StdException
      else if mode = CacheRequired then Inl (CommonException InvalidParameterError)
      else Inr (cache_lib_none path))"

definition runai_cache_abi_version :: uint where
  "runai_cache_abi_version = 1"

definition cache_lib_make :: "linker \<Rightarrow> string \<Rightarrow> cache_mode \<Rightarrow> (exn + cache_lib) \<times> link_event list" where
  "cache_lib_make dl path mode =
     (if \<not> dl_opens dl path then
        (if mode = CacheRequired then Inl (CommonException InvalidParameterError) else Inr (cache_lib_none path), [])
      else case dl_abi_version dl path of
        None \<Rightarrow> (reject_lib dl path mode, [Opened path, Closed path])
      | Some lib_version \<Rightarrow>
          if lib_version \<noteq> runai_cache_abi_version then (reject_lib dl path mode, [Opened path, Closed path])
          else if \<not> dl_has_read dl path then (reject_lib dl path mode, [Opened path, Closed path])
          else (Inr \<lparr>cl_loaded = True, cl_read = True, cl_close = dl_has_shutdown dl path, cl_path = path\<rparr>,
                [Opened path]))"

section \<open>The loaders\<close>

text \<open>
  The handles made so far with the number of loaders that hold each, the shared weak pointer, and
  what the linker and the provider have seen, latest first. A loader holds the index of a handle.
\<close>

record cache_state =
  cs_handles :: "(cache_lib \<times> nat) list"
  cs_shared :: "nat option"
  cs_events :: "link_event list"

record cache_loader =
  ld_handle :: "nat option"
  ld_enabled :: bool

definition cache_state_start :: cache_state where
  "cache_state_start = \<lparr>cs_handles = [], cs_shared = None, cs_events = []\<rparr>"

definition handle_lib :: "cache_state \<Rightarrow> nat \<Rightarrow> cache_lib" where
  "handle_lib cs i = fst (cs_handles cs ! i)"

definition handle_uses :: "cache_state \<Rightarrow> nat \<Rightarrow> nat" where
  "handle_uses cs i = snd (cs_handles cs ! i)"

definition set_uses :: "nat \<Rightarrow> nat \<Rightarrow> cache_state \<Rightarrow> cache_state" where
  "set_uses i n cs = cs\<lparr>cs_handles := (cs_handles cs)[i := (handle_lib cs i, n)]\<rparr>"

text \<open>\<open>s_shared_handle.lock()\<close>, when the handle is one to reuse for the path.\<close>

definition reusable_handle :: "string \<Rightarrow> cache_state \<Rightarrow> nat option" where
  "reusable_handle path cs =
     (case cs_shared cs of
        None \<Rightarrow> None
      | Some i \<Rightarrow> if 0 < handle_uses cs i \<and> cl_loaded (handle_lib cs i) \<and> cl_path (handle_lib cs i) = path
                  then Some i else None)"

definition loader_make ::
  "linker \<Rightarrow> cache_provider_config \<Rightarrow> cache_state \<Rightarrow> (exn + cache_loader) \<times> cache_state" where
  "loader_make dl config cs =
     (if cp_mode config = CacheDisabled then (Inr \<lparr>ld_handle = None, ld_enabled = False\<rparr>, cs)
      else if cp_lib_path config = [] then
        (if cp_mode config = CacheRequired then Inl (CommonException InvalidParameterError)
         else Inr \<lparr>ld_handle = None, ld_enabled = False\<rparr>, cs)
      else case reusable_handle (cp_lib_path config) cs of
        Some i \<Rightarrow>
          (Inr \<lparr>ld_handle = Some i, ld_enabled = cl_read (handle_lib cs i)\<rparr>, set_uses i (Suc (handle_uses cs i)) cs)
      | None \<Rightarrow>
          (case cache_lib_make dl (cp_lib_path config) (cp_mode config) of
             (r, events) \<Rightarrow>
               let cs' = cs\<lparr>cs_events := rev events @ cs_events cs\<rparr> in
               (case r of
                  Inl e \<Rightarrow> (Inl e, cs')
                | Inr lib \<Rightarrow>
                    (Inr \<lparr>ld_handle = Some (length (cs_handles cs)), ld_enabled = cl_read lib\<rparr>,
                     cs'\<lparr>cs_handles := cs_handles cs @ [(lib, 1)], cs_shared := Some (length (cs_handles cs))\<rparr>))))"

text \<open>The destructor of a handle: the library stays open.\<close>

definition handle_destroy :: "nat \<Rightarrow> cache_state \<Rightarrow> cache_state" where
  "handle_destroy i cs =
     (let lib = handle_lib cs i in
      if \<not> cl_loaded lib then cs
      else if cl_close lib then cs\<lparr>cs_events := ShutDown i # cs_events cs\<rparr> else cs)"

text \<open>The destructor of a loader, with that of the handle when it was the last to hold it.\<close>

definition loader_destroy :: "cache_loader \<Rightarrow> cache_state \<Rightarrow> cache_state" where
  "loader_destroy ld cs =
     (case ld_handle ld of
        None \<Rightarrow> cs
      | Some i \<Rightarrow>
          let cs' = set_uses i (handle_uses cs i - 1) cs in
          if handle_uses cs' i = 0 then handle_destroy i cs' else cs')"

text \<open>
  \<open>read\<close>: the provider's answer is the number of bytes it read, negative for an error; it is asked
  only when the loader is enabled.
\<close>

definition loader_read ::
  "(string \<times> string \<times> string \<Rightarrow> size_t \<Rightarrow> size_t \<Rightarrow> int) \<Rightarrow> cache_state \<Rightarrow> cache_loader \<Rightarrow>
    string \<times> string \<times> string \<Rightarrow> size_t \<Rightarrow> size_t \<Rightarrow> bool" where
  "loader_read read_fn cs ld blob offset len \<longleftrightarrow>
     (case ld_handle ld of
        None \<Rightarrow> False
      | Some i \<Rightarrow>
          if \<not> ld_enabled ld \<or> \<not> cl_read (handle_lib cs i) then False
          else let bytes_read = read_fn blob offset len in
               \<not> (bytes_read < 0 \<or> word_of_int bytes_read \<noteq> len))"

section \<open>Loaders of a process\<close>

text \<open>
  Loaders come and go under the mutex of the handle. Each reads with the handle it holds.
\<close>

inductive cache_step :: "linker \<Rightarrow> cache_loader list \<times> cache_state \<Rightarrow> cache_loader list \<times> cache_state \<Rightarrow> bool"
  for dl where
  load: "loader_make dl config cs = (Inr ld, cs') \<Longrightarrow> cache_step dl (lds, cs) (ld # lds, cs')"
| refuse: "loader_make dl config cs = (Inl e, cs') \<Longrightarrow> cache_step dl (lds, cs) (lds, cs')"
| unload: "cache_step dl (xs @ ld # ys, cs) (xs @ ys, loader_destroy ld cs)"

inductive_cases cache_step_cases: "cache_step dl (lds, cs) (lds', cs')"

definition holders :: "nat \<Rightarrow> cache_loader list \<Rightarrow> nat" where
  "holders i lds = length (filter (\<lambda>ld. ld_handle ld = Some i) lds)"

lemma holders_simps [simp]:
  "holders i [] = 0"
  "holders i (ld # lds) = (if ld_handle ld = Some i then Suc (holders i lds) else holders i lds)"
  "holders i (xs @ ys) = holders i xs + holders i ys"
  by (simp_all add: holders_def)

definition lib_ok :: "linker \<Rightarrow> cache_lib \<Rightarrow> bool" where
  "lib_ok dl lib \<longleftrightarrow> (cl_loaded lib \<longleftrightarrow> cl_read lib) \<and> (cl_loaded lib \<longrightarrow>
     dl_opens dl (cl_path lib) \<and> dl_abi_version dl (cl_path lib) = Some runai_cache_abi_version \<and> dl_has_read dl (cl_path lib))"

text \<open>
  Every handle counts its loaders; a handle was shut down exactly once when its loaders are gone
  and never before, if its library asks for it.
\<close>

definition shutdowns :: "nat \<Rightarrow> link_event list \<Rightarrow> nat" where
  "shutdowns i events = length (filter (\<lambda>e. e = ShutDown i) events)"

lemma shutdowns_simps [simp]:
  "shutdowns i [] = 0"
  "shutdowns i (e # events) = (if e = ShutDown i then Suc (shutdowns i events) else shutdowns i events)"
  "shutdowns i (xs @ ys) = shutdowns i xs + shutdowns i ys"
  by (simp_all add: shutdowns_def)

definition handle_ok :: "linker \<Rightarrow> cache_loader list \<Rightarrow> cache_state \<Rightarrow> nat \<Rightarrow> bool" where
  "handle_ok dl lds cs i \<longleftrightarrow> lib_ok dl (handle_lib cs i) \<and> handle_uses cs i = holders i lds \<and>
     shutdowns i (cs_events cs) =
       (if holders i lds = 0 \<and> cl_loaded (handle_lib cs i) \<and> cl_close (handle_lib cs i) then 1 else 0)"

definition loader_ok :: "cache_state \<Rightarrow> cache_loader \<Rightarrow> bool" where
  "loader_ok cs ld \<longleftrightarrow> (ld_handle ld = None \<longrightarrow> \<not> ld_enabled ld) \<and>
     (\<forall>i. ld_handle ld = Some i \<longrightarrow> i < length (cs_handles cs) \<and> ld_enabled ld = cl_read (handle_lib cs i))"

definition cache_inv :: "linker \<Rightarrow> cache_loader list \<times> cache_state \<Rightarrow> bool" where
  "cache_inv dl s \<longleftrightarrow>
     (case s of (lds, cs) \<Rightarrow>
        (\<forall>i<length (cs_handles cs). handle_ok dl lds cs i) \<and>
        (\<forall>i\<ge>length (cs_handles cs). shutdowns i (cs_events cs) = 0) \<and>
        (\<forall>i. cs_shared cs = Some i \<longrightarrow> i < length (cs_handles cs)) \<and>
        (\<forall>ld\<in>set lds. loader_ok cs ld))"

lemma cache_invI:
  assumes "\<And>i. i < length (cs_handles cs) \<Longrightarrow> handle_ok dl lds cs i"
    and "\<And>i. length (cs_handles cs) \<le> i \<Longrightarrow> shutdowns i (cs_events cs) = 0"
    and "\<And>i. cs_shared cs = Some i \<Longrightarrow> i < length (cs_handles cs)"
    and "\<And>ld. ld \<in> set lds \<Longrightarrow> loader_ok cs ld"
  shows "cache_inv dl (lds, cs)"
  using assms by (simp add: cache_inv_def)

lemma cache_invD:
  assumes "cache_inv dl (lds, cs)"
  shows "i < length (cs_handles cs) \<Longrightarrow> handle_ok dl lds cs i"
    and "length (cs_handles cs) \<le> i \<Longrightarrow> shutdowns i (cs_events cs) = 0"
    and "cs_shared cs = Some i \<Longrightarrow> i < length (cs_handles cs)"
    and "ld \<in> set lds \<Longrightarrow> loader_ok cs ld"
  using assms by (auto simp: cache_inv_def)

lemma handle_lib_set_uses [simp]:
  "i < length (cs_handles cs) \<Longrightarrow> handle_lib (set_uses i n cs) j = handle_lib cs j"
  by (auto simp: set_uses_def handle_lib_def nth_list_update)

lemma handle_uses_set_uses [simp]:
  "i < length (cs_handles cs) \<Longrightarrow> handle_uses (set_uses i n cs) j = (if j = i then n else handle_uses cs j)"
  by (auto simp: set_uses_def handle_uses_def nth_list_update)

lemma set_uses_simps [simp]:
  "length (cs_handles (set_uses i n cs)) = length (cs_handles cs)"
  "cs_events (set_uses i n cs) = cs_events cs" "cs_shared (set_uses i n cs) = cs_shared cs"
  by (simp_all add: set_uses_def)

lemma cache_lib_make_events: "cache_lib_make dl path mode = (r, events) \<Longrightarrow> shutdowns i (rev events) = 0"
  by (auto simp: cache_lib_make_def shutdowns_def split: if_splits option.splits)

lemma cache_lib_make_Inr:
  "cache_lib_make dl path mode = (Inr lib, events) \<Longrightarrow> lib_ok dl lib \<and> cl_path lib = path"
  by (auto simp: cache_lib_make_def lib_ok_def cache_lib_none_def reject_lib_def split: if_splits option.splits)

lemma cache_lib_make_required:
  "cache_lib_make dl path CacheRequired = (Inr lib, events) \<Longrightarrow> cl_read lib"
  by (auto simp: cache_lib_make_def reject_lib_def split: if_splits option.splits)

text \<open>An event that shuts nothing down changes nothing.\<close>

lemma cache_inv_events:
  assumes "cache_inv dl (lds, cs)" and "\<And>i. shutdowns i events = 0"
  shows "cache_inv dl (lds, cs\<lparr>cs_events := events @ cs_events cs\<rparr>)"
  using assms by (simp add: cache_inv_def handle_ok_def loader_ok_def handle_lib_def handle_uses_def)

lemma load_inv:
  assumes inv: "cache_inv dl (lds, cs)" and run: "loader_make dl config cs = (r, cs')"
  shows "case r of Inl e \<Rightarrow> cache_inv dl (lds, cs') | Inr ld \<Rightarrow> cache_inv dl (ld # lds, cs')"
proof (cases "cp_mode config = CacheDisabled \<or> cp_lib_path config = []")
  case True
  then have same: "cs' = cs" "r = Inr ld \<Longrightarrow> ld = \<lparr>ld_handle = None, ld_enabled = False\<rparr>" for ld
    using run by (auto simp: loader_make_def split: if_splits)
  show ?thesis
  proof (cases r)
    case (Inr ld)
    show ?thesis
      unfolding Inr same sum.case
      by (rule cache_invI) (use inv same(2) [OF Inr] in \<open>auto simp: cache_inv_def handle_ok_def loader_ok_def\<close>)
  qed (simp add: inv same(1))
next
  case False
  show ?thesis
  proof (cases "reusable_handle (cp_lib_path config) cs")
    case (Some i)
    then have i: "i < length (cs_handles cs)" "0 < handle_uses cs i"
      using cache_invD(3) [OF inv] by (auto simp: reusable_handle_def split: option.splits if_splits)
    let ?ld = "\<lparr>ld_handle = Some i, ld_enabled = cl_read (handle_lib cs i)\<rparr>"
    have r: "r = Inr ?ld" "cs' = set_uses i (Suc (handle_uses cs i)) cs"
      using run False Some by (auto simp: loader_make_def)
    have "holders i lds \<noteq> 0" using cache_invD(1) [OF inv i(1)] i(2) by (simp add: handle_ok_def)
    then have "cache_inv dl (?ld # lds, set_uses i (Suc (handle_uses cs i)) cs)"
      by (intro cache_invI) (use inv i(1) in \<open>auto simp: cache_inv_def handle_ok_def loader_ok_def\<close>)
    then show ?thesis by (simp add: r)
  next
    case None
    obtain q events where q: "cache_lib_make dl (cp_lib_path config) (cp_mode config) = (q, events)" by (metis surj_pair)
    let ?cs = "cs\<lparr>cs_events := rev events @ cs_events cs\<rparr>" and ?n = "length (cs_handles cs)"
    have inv': "cache_inv dl (lds, ?cs)"
      by (rule cache_inv_events [OF inv cache_lib_make_events [OF q]])
    show ?thesis
    proof (cases q)
      case (Inl e)
      then have "r = Inl e" "cs' = ?cs" using run False None q by (auto simp: loader_make_def Let_def)
      then show ?thesis using inv' by simp
    next
      case (Inr lib)
      let ?ld = "\<lparr>ld_handle = Some ?n, ld_enabled = cl_read lib\<rparr>"
      let ?cs' = "?cs\<lparr>cs_handles := cs_handles cs @ [(lib, 1)], cs_shared := Some ?n\<rparr>"
      have r: "r = Inr ?ld" "cs' = ?cs'" using run False None q Inr by (auto simp: loader_make_def Let_def)
      have old: "handle_lib ?cs' i = handle_lib cs i" "handle_uses ?cs' i = handle_uses cs i" if "i < ?n" for i
        using that by (simp_all add: handle_lib_def handle_uses_def nth_append)
      have new: "handle_lib ?cs' ?n = lib" "handle_uses ?cs' ?n = 1"
        by (simp_all add: handle_lib_def handle_uses_def)
      have none: "holders ?n lds = 0"
        using cache_invD(4) [OF inv] by (auto simp: holders_def filter_empty_conv loader_ok_def)
      have "handle_ok dl (?ld # lds) ?cs' i" if "i < Suc ?n" for i
      proof (cases "i = ?n")
        case True
        then show ?thesis
          using new none cache_lib_make_Inr [OF q [unfolded Inr]] cache_invD(2) [OF inv', of ?n]
          by (simp add: handle_ok_def)
      next
        case False
        then show ?thesis
          using that old [of i] cache_invD(1) [OF inv', of i]
          by (simp add: handle_ok_def handle_lib_def handle_uses_def)
      qed
      moreover have "loader_ok ?cs' ld" if "ld \<in> set (?ld # lds)" for ld
        using that new old cache_invD(4) [OF inv, of ld] by (auto simp: loader_ok_def)
      moreover have "shutdowns i (cs_events ?cs') = 0" if "Suc ?n \<le> i" for i
        using cache_invD(2) [OF inv', of i] that by simp
      ultimately have "cache_inv dl (?ld # lds, ?cs')" by (intro cache_invI) simp_all
      then show ?thesis by (simp add: r)
    qed
  qed
qed

lemma unload_inv:
  assumes inv: "cache_inv dl (xs @ ld # ys, cs)"
  shows "cache_inv dl (xs @ ys, loader_destroy ld cs)"
proof (cases "ld_handle ld")
  case None
  then have "loader_destroy ld cs = cs" by (simp add: loader_destroy_def)
  then show ?thesis
    using None by (intro cache_invI) (use inv in \<open>auto simp: cache_inv_def handle_ok_def\<close>)
next
  case (Some i)
  then have i: "i < length (cs_handles cs)" using cache_invD(4) [OF inv, of ld] by (simp add: loader_ok_def)
  let ?cs = "set_uses i (handle_uses cs i - 1) cs" and ?lds = "xs @ ys"
  have uses: "handle_uses cs i = Suc (holders i ?lds)" and ok: "lib_ok dl (handle_lib cs i)"
    and shut: "shutdowns i (cs_events cs) = 0"
    using cache_invD(1) [OF inv i] Some by (auto simp: handle_ok_def)
  let ?last = "holders i ?lds = 0 \<and> cl_loaded (handle_lib cs i) \<and> cl_close (handle_lib cs i)"
  have run: "loader_destroy ld cs = (if ?last then ?cs\<lparr>cs_events := ShutDown i # cs_events cs\<rparr> else ?cs)"
    using uses i by (simp add: loader_destroy_def handle_destroy_def Some Let_def)
  have same: "cs_handles (loader_destroy ld cs) = cs_handles ?cs" "cs_shared (loader_destroy ld cs) = cs_shared cs"
    "cs_events (loader_destroy ld cs) = (if ?last then ShutDown i # cs_events cs else cs_events cs)"
    unfolding run by auto
  have lib: "handle_lib (loader_destroy ld cs) j = handle_lib cs j" for j
    using i by (simp add: handle_lib_def same(1)) (simp add: handle_lib_def [symmetric])
  have use: "handle_uses (loader_destroy ld cs) j = (if j = i then handle_uses cs i - 1 else handle_uses cs j)" for j
    using i by (simp add: handle_uses_def same(1)) (simp add: handle_uses_def [symmetric])
  have len: "length (cs_handles (loader_destroy ld cs)) = length (cs_handles cs)" by (simp add: same(1))
  have "handle_ok dl ?lds (loader_destroy ld cs) j" if "j < length (cs_handles cs)" for j
    using cache_invD(1) [OF inv that] uses shut ok
    by (auto simp: handle_ok_def lib use same(3) Some)
  moreover have "shutdowns j (cs_events (loader_destroy ld cs)) = 0" if "length (cs_handles cs) \<le> j" for j
    using cache_invD(2) [OF inv that] that i by (auto simp: same(3))
  moreover have "loader_ok (loader_destroy ld cs) l" if "l \<in> set ?lds" for l
    using that cache_invD(4) [OF inv, of l] by (auto simp: loader_ok_def lib len)
  ultimately show ?thesis
    using cache_invD(3) [OF inv] by (intro cache_invI) (simp_all add: len same(2))
qed

lemma cache_reachable:
  assumes "(cache_step dl)\<^sup>*\<^sup>* ([], cache_state_start) s"
  shows "cache_inv dl s"
  using assms
proof induction
  case base
  show ?case by (simp add: cache_inv_def cache_state_start_def)
next
  case (step s s')
  from step.hyps(2) show ?case
  proof (cases rule: cache_step.cases)
    case (load config cs ld cs' lds)
    then show ?thesis using load_inv [of dl lds cs config "Inr ld" cs'] step.IH by simp
  next
    case (refuse config cs e cs' lds)
    then show ?thesis using load_inv [of dl lds cs config "Inl e" cs'] step.IH by simp
  next
    case (unload xs ld ys cs)
    then show ?thesis using unload_inv step.IH by simp
  qed
qed

text \<open>
  Property C16: however the loaders of a process come and go, an enabled loader holds a library that
  opened, has the expected version of the interface and exports the read function, and that was not
  shut down through the loader's handle; each handle is shut down at most once, and only after the
  last of its loaders is gone.
\<close>

theorem cache_library_safe:
  assumes "(cache_step dl)\<^sup>*\<^sup>* ([], cache_state_start) (lds, cs)"
  shows "(ld \<in> set lds \<and> ld_enabled ld \<longrightarrow>
      (\<exists>i. ld_handle ld = Some i \<and> i < length (cs_handles cs) \<and> dl_opens dl (cl_path (handle_lib cs i)) \<and>
        dl_abi_version dl (cl_path (handle_lib cs i)) = Some runai_cache_abi_version \<and>
        dl_has_read dl (cl_path (handle_lib cs i)) \<and> ShutDown i \<notin> set (cs_events cs))) \<and>
    shutdowns i (cs_events cs) \<le> 1 \<and>
    (ShutDown i \<in> set (cs_events cs) \<longrightarrow> (\<forall>ld\<in>set lds. ld_handle ld \<noteq> Some i))"
proof -
  note inv = cache_reachable [OF assms]
  have mem: "ShutDown j \<in> set (cs_events cs) \<longleftrightarrow> shutdowns j (cs_events cs) \<noteq> 0" for j
    by (auto simp: shutdowns_def filter_empty_conv)
  have held: "holders j lds \<noteq> 0" if "ld \<in> set lds" "ld_handle ld = Some j" for ld j
    using that by (auto simp: holders_def filter_empty_conv)
  have once: "shutdowns j (cs_events cs) \<le> 1 \<and> (shutdowns j (cs_events cs) \<noteq> 0 \<longrightarrow> holders j lds = 0)" for j
    using cache_invD(1,2) [OF inv, of j] by (cases "j < length (cs_handles cs)") (auto simp: handle_ok_def split: if_splits)
  have "\<exists>i. ld_handle ld = Some i \<and> i < length (cs_handles cs) \<and> dl_opens dl (cl_path (handle_lib cs i)) \<and>
      dl_abi_version dl (cl_path (handle_lib cs i)) = Some runai_cache_abi_version \<and>
      dl_has_read dl (cl_path (handle_lib cs i)) \<and> ShutDown i \<notin> set (cs_events cs)"
    if ld: "ld \<in> set lds" "ld_enabled ld"
  proof -
    obtain j where j: "ld_handle ld = Some j" using cache_invD(4) [OF inv ld(1)] ld(2) by (cases "ld_handle ld") (auto simp: loader_ok_def)
    then have "j < length (cs_handles cs)" "cl_read (handle_lib cs j)" using cache_invD(4) [OF inv ld(1)] ld(2) j by (auto simp: loader_ok_def)
    moreover have "lib_ok dl (handle_lib cs j)" using cache_invD(1) [OF inv] calculation(1) by (simp add: handle_ok_def)
    moreover have "ShutDown j \<notin> set (cs_events cs)" using once [of j] held [OF ld(1) j] mem by blast
    ultimately show ?thesis using j by (auto simp: lib_ok_def)
  qed
  then show ?thesis using once [of i] held mem by blast
qed

section \<open>An example\<close>

definition sample_linker :: linker where
  "sample_linker = \<lparr>dl_self = None, dl_exists = (\<lambda>p. False), dl_opens = (\<lambda>p. True), dl_abi_version = (\<lambda>p. Some 1),
     dl_has_read = (\<lambda>p. True), dl_has_shutdown = (\<lambda>p. True), dl_closes = (\<lambda>p. True)\<rparr>"

abbreviation (input) sample_lib :: "string \<Rightarrow> cache_lib" where
  "sample_lib path \<equiv> \<lparr>cl_loaded = True, cl_read = True, cl_close = True, cl_path = path\<rparr>"

abbreviation (input) sample_loader :: "nat \<Rightarrow> cache_loader" where
  "sample_loader i \<equiv> \<lparr>ld_handle = Some i, ld_enabled = True\<rparr>"

definition load_path :: "string \<Rightarrow> cache_state \<Rightarrow> (exn + cache_loader) \<times> cache_state" where
  "load_path path = loader_make sample_linker \<lparr>cp_lib_path = path, cp_mode = CacheRequired\<rparr>"

lemmas sample_cache_defs = load_path_def loader_make_def reusable_handle_def cache_lib_make_def sample_linker_def
  runai_cache_abi_version_def handle_lib_def handle_uses_def set_uses_def loader_destroy_def handle_destroy_def

lemma cache_step_load:
  "load_path path cs = (Inr ld, cs') \<Longrightarrow> (cache_step sample_linker)\<^sup>*\<^sup>* ([], cache_state_start) (lds, cs) \<Longrightarrow>
    (cache_step sample_linker)\<^sup>*\<^sup>* ([], cache_state_start) (ld # lds, cs')"
  by (auto simp: load_path_def intro: cache_step.load rtranclp.rtrancl_into_rtrancl)

lemma sample_one_loader:
  "(cache_step sample_linker)\<^sup>*\<^sup>* ([], cache_state_start)
    ([sample_loader 0], \<lparr>cs_handles = [(sample_lib ''a.so'', 1)], cs_shared = Some 0, cs_events = [Opened ''a.so'']\<rparr>)"
  by (rule cache_step_load [of "''a.so''" cache_state_start])
    (simp_all add: sample_cache_defs cache_state_start_def)

theorem cache_library_safe_witness:
  "\<exists>lds cs. (cache_step sample_linker)\<^sup>*\<^sup>* ([], cache_state_start) (lds, cs) \<and> lds = [sample_loader 0, sample_loader 0] \<and>
    ShutDown 0 \<notin> set (cs_events cs)"
proof -
  let ?cs = "\<lparr>cs_handles = [(sample_lib ''a.so'', 2)], cs_shared = Some 0, cs_events = [Opened ''a.so'']\<rparr>"
  have run: "(cache_step sample_linker)\<^sup>*\<^sup>* ([], cache_state_start) ([sample_loader 0, sample_loader 0], ?cs)"
    by (rule cache_step_load [OF _ sample_one_loader, of "''a.so''"]) (simp add: sample_cache_defs)
  then show ?thesis using cache_library_safe [OF run, of "sample_loader 0" 0] by auto
qed

text \<open>
  The promise is per handle, not per library: when loaders of two libraries alternate, a second
  handle is made for the first library, and the end of its first handle shuts down the library that
  the second one still reads with.
\<close>

theorem cache_shut_down_in_use:
  "\<exists>lds cs. (cache_step sample_linker)\<^sup>*\<^sup>* ([], cache_state_start) (lds, cs) \<and> sample_loader 2 \<in> set lds \<and>
    ShutDown 0 \<in> set (cs_events cs) \<and> cl_path (handle_lib cs 0) = cl_path (handle_lib cs 2) \<and>
    cl_loaded (handle_lib cs 2)"
proof -
  let ?cs2 = "\<lparr>cs_handles = [(sample_lib ''a.so'', 1), (sample_lib ''b.so'', 1)], cs_shared = Some 1,
    cs_events = [Opened ''b.so'', Opened ''a.so'']\<rparr>"
  let ?cs3 = "\<lparr>cs_handles = [(sample_lib ''a.so'', 1), (sample_lib ''b.so'', 1), (sample_lib ''a.so'', 1)], cs_shared = Some 2,
    cs_events = [Opened ''a.so'', Opened ''b.so'', Opened ''a.so'']\<rparr>"
  let ?cs4 = "\<lparr>cs_handles = [(sample_lib ''a.so'', 0), (sample_lib ''b.so'', 1), (sample_lib ''a.so'', 1)], cs_shared = Some 2,
    cs_events = [ShutDown 0, Opened ''a.so'', Opened ''b.so'', Opened ''a.so'']\<rparr>"
  have "(cache_step sample_linker)\<^sup>*\<^sup>* ([], cache_state_start) ([sample_loader 1, sample_loader 0], ?cs2)"
    by (rule cache_step_load [OF _ sample_one_loader, of "''b.so''"]) (simp add: sample_cache_defs)
  then have "(cache_step sample_linker)\<^sup>*\<^sup>* ([], cache_state_start) ([sample_loader 2, sample_loader 1, sample_loader 0], ?cs3)"
    by (rule cache_step_load [of "''a.so''", rotated]) (simp add: sample_cache_defs numeral_2_eq_2)
  moreover have "cache_step sample_linker ([sample_loader 2, sample_loader 1, sample_loader 0], ?cs3)
      ([sample_loader 2, sample_loader 1], ?cs4)"
    using cache_step.unload [of sample_linker "[sample_loader 2, sample_loader 1]" "sample_loader 0" "[]" ?cs3]
    by (simp add: sample_cache_defs Let_def)
  ultimately have "(cache_step sample_linker)\<^sup>*\<^sup>* ([], cache_state_start) ([sample_loader 2, sample_loader 1], ?cs4)"
    by (rule rtranclp.rtrancl_into_rtrancl)
  then show ?thesis
    by (intro exI [of _ "[sample_loader 2, sample_loader 1]"] exI [of _ ?cs4])
      (simp add: handle_lib_def numeral_2_eq_2)
qed

end
