(* ===== verification/AzurePlugin.thy ===== *)
theory AzurePlugin
  imports ChunkedReads PluginApi AzCache ObjectStorage Answering
begin

text \<open>
  The Azure plugin (\<open>azure/client_configuration\<close>, \<open>azure/client\<close>, \<open>azure/azure.cc\<close>). The Azure SDK
  is a parameter: which service clients it can make, how each ranged download ends, and the pages
  of a listing. The parts for tests against an emulator (\<open>AZURITE_TESTING\<close>) are left out.
\<close>

section \<open>Configuration\<close>

record azure_credentials =
  ac_account_name :: "string option"
  ac_account_key :: "string option"
  ac_sas_token :: "string option"
  ac_endpoint_suffix :: string

definition nonempty_env :: "environment \<Rightarrow> string \<Rightarrow> string option" where
  "nonempty_env env variable = (let v = getenv_string_or env variable [] in if v \<noteq> [] then Some v else None)"

definition azure_env_credentials :: "environment \<Rightarrow> azure_credentials" where
  "azure_env_credentials env =
     \<lparr>ac_account_name = nonempty_env env ''AZURE_STORAGE_ACCOUNT_NAME'',
      ac_account_key = nonempty_env env ''AZURE_STORAGE_ACCOUNT_KEY'',
      ac_sas_token = nonempty_env env ''AZURE_STORAGE_SAS_TOKEN'',
      ac_endpoint_suffix = (case nonempty_env env ''AZURE_STORAGE_ENDPOINT_SUFFIX'' of
        None \<Rightarrow> ''blob.core.windows.net'' | Some suffix \<Rightarrow> suffix)\<rparr>"

text \<open>The division by the number of workers of the process group traps on zero; the product wraps.\<close>

definition azure_max_concurrency :: "environment \<Rightarrow> uint \<Rightarrow> exn + uint" where
  "azure_max_concurrency env nprocs =
     (let default_max_concurrency = (if nprocs = 0 then 8 else 1) in
      case getenv_ulong_or env ''RUNAI_STREAMER_CONCURRENCY'' 8 of Inl e \<Rightarrow> Inl e | Inr workers \<Rightarrow>
      case getenv_ulong_or env ''RUNAI_STREAMER_PROCESS_GROUP_SIZE'' 1 of Inl e \<Rightarrow> Inl e | Inr processes \<Rightarrow>
      let divisor = ucast workers * ucast processes :: uint in
      if divisor = 0 then Inl Trap else Inr (max default_max_concurrency (nprocs * 2 div divisor)))"

text \<open>One parameter of the caller; the keys of other plugins are ignored.\<close>

definition azure_set_param :: "string \<times> string \<Rightarrow> azure_credentials \<Rightarrow> azure_credentials" where
  "azure_set_param param c =
     (case param of (key, v) \<Rightarrow>
        if key = ''account_name'' then c\<lparr>ac_account_name := Some v\<rparr>
        else if key = ''account_key'' then c\<lparr>ac_account_key := Some v\<rparr>
        else if key = ''sas_token'' then c\<lparr>ac_sas_token := Some v\<rparr>
        else if key = ''endpoint_suffix'' then c\<lparr>ac_endpoint_suffix := v\<rparr>
        else c)"

definition given_params :: "client_config \<Rightarrow> (string \<times> string) list" where
  "given_params config = take (num_initial_params config) (initial_params config)"

text \<open>The constructor of a client skips empty values.\<close>

definition azure_client_credentials :: "environment \<Rightarrow> client_config \<Rightarrow> azure_credentials" where
  "azure_client_credentials env config =
     fold azure_set_param (filter (\<lambda>(key, v). v \<noteq> []) (given_params config)) (azure_env_credentials env)"

section \<open>The client\<close>

datatype azure_service =
    SasService string
  | SharedKeyService string string string
  | DefaultService string

definition azure_service_of :: "azure_credentials \<Rightarrow> exn + azure_service" where
  "azure_service_of c =
     (case ac_account_name c of
        None \<Rightarrow> Inl (CommonException InvalidParameterError)
      | Some name \<Rightarrow>
          let url = ''https://'' @ name @ ''.'' @ ac_endpoint_suffix c in
          Inr (case ac_sas_token c of
                 Some token \<Rightarrow>
                   SasService (url @ ''?'' @ (if token \<noteq> [] \<and> hd token = CHR ''?'' then tl token else token))
               | None \<Rightarrow>
                   (case ac_account_key c of
                      Some key \<Rightarrow> SharedKeyService url name key
                    | None \<Rightarrow> DefaultService url)))"

text \<open>
  What the SDK and the system do: which services connect, what the loader of the cache provider
  came to, whether the \<open>i\<close>-th thread of a pool can be made, and the window computed in floating point.
\<close>

record azure_world =
  aw_nprocs :: uint
  aw_connects :: "azure_service \<Rightarrow> bool"
  aw_cache_loader :: "exn + cache_loader"
  aw_spawns :: "nat \<Rightarrow> bool"
  aw_window :: "uint \<Rightarrow> size_t \<Rightarrow> size_t"

record azure_client = chunk_state +
  az_credentials :: azure_credentials
  az_service :: azure_service
  az_cache_enabled :: bool
  az_max_inflight_bytes :: size_t

text \<open>
  Every exception of the initialisation is reported as an invalid parameter; \<open>None\<close> is a start of the
  pool that never returns.
\<close>

definition azure_init ::
  "azure_world \<Rightarrow> uint \<Rightarrow> azure_credentials \<Rightarrow> (exn + azure_service \<times> bool) option" where
  "azure_init aw threads c =
     (case azure_service_of c of
        Inl e \<Rightarrow> Some (Inl (CommonException InvalidParameterError))
      | Inr service \<Rightarrow>
          if \<not> aw_connects aw service then Some (Inl (CommonException InvalidParameterError))
          else (case aw_cache_loader aw of
             Inl e \<Rightarrow> Some (Inl (CommonException InvalidParameterError))
           | Inr loader \<Rightarrow>
               (case pool_start (aw_spawns aw) (unat threads) of
                  None \<Rightarrow> None
                | Some (Inl e) \<Rightarrow> Some (Inl (CommonException InvalidParameterError))
                | Some (Inr u) \<Rightarrow> Some (Inr (service, ld_enabled loader)))))"

definition azure_client_make ::
  "environment \<Rightarrow> azure_world \<Rightarrow> client_config \<Rightarrow> (exn + azure_client) option" where
  "azure_client_make env aw config =
     (case azure_max_concurrency env (aw_nprocs aw) of
        Inl e \<Rightarrow> Some (Inl e)
      | Inr threads \<Rightarrow>
          let chunk = default_storage_chunk_size config; c = azure_client_credentials env config in
          (case azure_init aw threads c of
             None \<Rightarrow> None
           | Some (Inl e) \<Rightarrow> Some (Inl e)
           | Some (Inr (service, cache_enabled)) \<Rightarrow>
               Some (Inr \<lparr>sd_stop = False, sd_responder = None, sd_tick = 0, sd_issued = [], sd_fetched = [],
                 cc_chunk_bytesize = chunk, cc_threads = unat threads, cc_reads = [], cc_tasks = [],
                 az_credentials = c, az_service = service, az_cache_enabled = cache_enabled,
                 az_max_inflight_bytes = max (aw_window aw threads chunk) (2 * chunk)\<rparr>)))"

text \<open>
  \<open>verify_credentials\<close>, which does not skip empty values. It reads the configuration again, in an
  environment in which that did not throw when the client was made.
\<close>

definition azure_verify_credentials :: "environment \<Rightarrow> client_config \<Rightarrow> azure_client \<Rightarrow> bool" where
  "azure_verify_credentials env config c \<longleftrightarrow>
     (let temp = fold azure_set_param (given_params config) (azure_env_credentials env) in
      ac_account_name (az_credentials c) = ac_account_name temp \<and>
      ac_account_key (az_credentials c) = ac_account_key temp \<and>
      ac_sas_token (az_credentials c) = ac_sas_token temp \<and>
      ac_endpoint_suffix (az_credentials c) = ac_endpoint_suffix temp)"

definition azure_async_read ::
  "string \<Rightarrow> size_t \<times> size_t \<Rightarrow> ptr \<Rightarrow> object_handle \<Rightarrow> azure_client \<Rightarrow>
    ((exn + response_code) \<times> azure_client) option" where
  "azure_async_read path rng destination_buffer request_id s =
     (let s1 = expect_response s in
      if az_cache_enabled s1 then submit_chunks 1 path rng destination_buffer request_id s1
      else if cc_chunk_bytesize s1 = 0 then Some (Inl Trap, s1)
      else submit_chunks (num_chunks (cc_chunk_bytesize s1) (snd rng)) path rng destination_buffer request_id s1)"

text \<open>
  How a download ends: \<open>DownloadBlobTask::execute\<close>. With the cache provider, a read that is not exactly
  as long as the request throws.
\<close>

datatype download_outcome = Downloaded | RequestFailed int | DownloadThrew | CacheRead int

definition azure_code :: "chunk_task \<Rightarrow> download_outcome \<Rightarrow> response_code option" where
  "azure_code t outcome =
     Some (case outcome of
       Downloaded \<Rightarrow> Success
     | RequestFailed status \<Rightarrow>
         if status = 404 then FileAccessError
         else if status = 416 then EofError
         else FileAccessError
     | DownloadThrew \<Rightarrow> FileAccessError
     | CacheRead bytes_read \<Rightarrow>
         if bytes_read < 0 \<or> word_of_int bytes_read \<noteq> ct_bytesize t then FileAccessError else Success)"

definition azure_async_read_response ::
  "(nat \<Rightarrow> nat \<times> download_outcome) \<Rightarrow> azure_client \<Rightarrow> ((exn + backend_response) \<times> azure_client) option" where
  "azure_async_read_response = chunk_read_response azure_code"

text \<open>\<open>list_files\<close>: the SDK yields pages, or throws.\<close>

fun azure_list_pages :: "string \<Rightarrow> (string \<times> size_t) list option list \<Rightarrow> listing \<Rightarrow> exn + response_code \<times> listing" where
  "azure_list_pages prefix [] results = Inr (Success, results)"
| "azure_list_pages prefix (None # pages) results = Inl StdException"
| "azure_list_pages prefix (Some page # pages) results = azure_list_pages prefix pages (results @ listed prefix page)"

definition azure_list_files ::
  "(string \<Rightarrow> string option \<Rightarrow> string option \<Rightarrow> (string \<times> size_t) list option list) \<Rightarrow> string \<Rightarrow> bool \<Rightarrow>
    (exn + response_code \<times> listing) option" where
  "azure_list_files sdk prefix is_recursive =
     (case make_storage_uri prefix of
        Inl e \<Rightarrow> Some (Inl e)
      | Inr uri \<Rightarrow> Some (azure_list_pages (uri_prefix uri)
          (sdk (uri_bucket uri) (if uri_path uri \<noteq> [] then Some (uri_path uri) else None)
            (if is_recursive then None else Some ''/'')) []))"

section \<open>The entry points\<close>

definition azure_obj_open_backend :: "environment \<Rightarrow> string \<Rightarrow> exn + response_code" where
  "azure_obj_open_backend env glibc =
     (case semver_make (description (code_value GlibcPrerequisite)) of
        Inl e \<Rightarrow> Inl Trap
      | Inr min_glibc_semver \<Rightarrow>
          (case get_glibc_version glibc of
             Inl e \<Rightarrow> Inr FileAccessError
           | Inr glibc_version \<Rightarrow>
               if semver_gt min_glibc_semver glibc_version then Inr GlibcPrerequisite
               else (case try_getenv_ulong env ''RUNAI_STREAMER_CHUNK_BYTESIZE'' of
                  Inl e \<Rightarrow> Inr FileAccessError
                | Inr chunk_size \<Rightarrow> Inr Success)))"

definition azure_obj_close_backend :: response_code where
  "azure_obj_close_backend = Success"

definition azure_obj_get_backend_shutdown_policy :: shutdown_policy where
  "azure_obj_get_backend_shutdown_policy = OnProcessExit"

definition azure_obj_get_backend_config ::
  "string option \<Rightarrow> bool \<Rightarrow> uint option \<Rightarrow> azure_client plugin_state \<Rightarrow> response_code \<times> string option \<times> uint option" where
  "azure_obj_get_backend_config key out_value_buffer in_out_buffer_len st =
     backend_config (pl_window st) key out_value_buffer in_out_buffer_len"

definition azure_obj_create_client ::
  "environment \<Rightarrow> azure_world \<Rightarrow> ptr \<Rightarrow> client_config \<Rightarrow> azure_client plugin_state \<Rightarrow>
    ((exn + response_code \<times> ptr) \<times> azure_client plugin_state) option" where
  "azure_obj_create_client env aw =
     create_or_fail (azure_client_make env aw) (azure_verify_credentials env) az_max_inflight_bytes"

definition azure_obj_remove_client :: "ptr \<Rightarrow> azure_client plugin_state \<Rightarrow> response_code \<times> azure_client plugin_state" where
  "azure_obj_remove_client = release_client"

definition azure_obj_remove_all_clients :: "azure_client plugin_state \<Rightarrow> response_code \<times> azure_client plugin_state" where
  "azure_obj_remove_all_clients = release_all"

definition azure_obj_cancel_all_reads :: "azure_client plugin_state \<Rightarrow> response_code \<times> azure_client plugin_state" where
  "azure_obj_cancel_all_reads = cancel_all sdk_stop"

text \<open>Nothing is caught here.\<close>

definition azure_obj_request_read ::
  "ptr \<Rightarrow> string \<Rightarrow> size_t \<times> size_t \<Rightarrow> ptr \<Rightarrow> object_handle \<Rightarrow> azure_client plugin_state \<Rightarrow>
    ((exn + response_code) \<times> azure_client plugin_state) option" where
  "azure_obj_request_read h path rng destination_buffer request_id st =
     (if h = nullptr then Some (Inr InvalidParameterError, st)
      else wait_client h (azure_async_read path rng destination_buffer request_id) st)"

text \<open>
  The loop of \<open>obj_wait_for_completions\<close>, with room for \<open>k\<close> more events: it ends early at the end of
  the round, and after one event when it must not block.
\<close>

fun azure_collect ::
  "(nat \<Rightarrow> nat \<times> download_outcome) \<Rightarrow> bool \<Rightarrow> nat \<Rightarrow> azure_client \<Rightarrow>
    ((exn + backend_response list) \<times> azure_client) option" where
  "azure_collect sdk non_blocking 0 c = Some (Inr [], c)"
| "azure_collect sdk non_blocking (Suc k) c =
     (case azure_async_read_response sdk c of
        None \<Rightarrow> None
      | Some (Inl e, c') \<Rightarrow> Some (Inl e, c')
      | Some (Inr response, c') \<Rightarrow>
          if br_ret response = FinishedError \<or> non_blocking then Some (Inr [response], c')
          else (case azure_collect sdk non_blocking k c' of
             None \<Rightarrow> None
           | Some (Inl e, c'') \<Rightarrow> Some (Inl e, c'')
           | Some (Inr events, c'') \<Rightarrow> Some (Inr (response # events), c'')))"

definition azure_obj_wait_for_completions ::
  "(nat \<Rightarrow> nat \<times> download_outcome) \<Rightarrow> ptr \<Rightarrow> bool \<Rightarrow> nat \<Rightarrow> bool \<Rightarrow> bool \<Rightarrow> azure_client plugin_state \<Rightarrow>
    ((exn + response_code \<times> nat \<times> backend_response list) \<times> azure_client plugin_state) option" where
  "azure_obj_wait_for_completions sdk h event_buffer max_events out_num_events non_blocking st =
     (if h = nullptr then Some (Inr (InvalidParameterError, 0, []), st)
      else if \<not> out_num_events \<or> \<not> event_buffer \<and> 0 < max_events then Some (Inl Trap, st)
      else map_option (\<lambda>(r, st'). (map_sum id (\<lambda>events. (Success, length events, events)) r, st'))
        (wait_client h (azure_collect sdk non_blocking max_events) st))"

definition azure_obj_list_files ::
  "(string \<Rightarrow> string option \<Rightarrow> string option \<Rightarrow> (string \<times> size_t) list option list) \<Rightarrow> ptr \<Rightarrow> ptr \<Rightarrow>
    string option \<Rightarrow> int \<Rightarrow> bool \<Rightarrow> bool \<Rightarrow> azure_client plugin_state \<Rightarrow>
    (exn + response_code \<times> (entry_block option \<times> uint) option) option" where
  "azure_obj_list_files sdk = plugin_list_files (\<lambda>c. azure_list_files sdk)"

section \<open>The plugin keeps its word\<close>

lemma azure_code_ends: "\<exists>c. azure_code t out = Some c \<and> c \<noteq> FinishedError"
  by (simp add: azure_code_def split: download_outcome.split)

interpretation azure_sdk: sdk_client "\<lambda>s :: azure_client. map task_view (cc_tasks s)" "chunk_callback azure_code sdk" "chunks_ok chunk"
  for sdk chunk
proof
  fix s :: azure_client
  assume "chunks_ok chunk s" and "map task_view (cc_tasks s) \<noteq> []"
  then show "\<exists>xs h x ys c. map task_view (cc_tasks s) = xs @ (h, x) # ys \<and>
      map task_view (cc_tasks (chunk_callback azure_code sdk s)) = xs @ ys \<and> chunks_ok chunk (chunk_callback azure_code sdk s) \<and>
      c \<noteq> FinishedError \<and>
      sd_responder (chunk_callback azure_code sdk s) = sd_responder (push_response h c s) \<and>
      sd_stop (chunk_callback azure_code sdk s) = sd_stop s \<and> sd_issued (chunk_callback azure_code sdk s) = sd_issued s \<and>
      set (sd_fetched s) \<subseteq> set (sd_fetched (chunk_callback azure_code sdk s)) \<and>
      (c = Success \<longrightarrow> x \<in> set (sd_fetched (chunk_callback azure_code sdk s)))"
    by (intro chunk_callback_law azure_code_ends) simp_all
qed (simp_all add: chunks_ok_def)

text \<open>
  A pool that works: the number of its threads can be computed, and either all of them can be made
  or not even the first. There is always at least one.
\<close>

definition azure_pool_ok :: "environment \<Rightarrow> azure_world \<Rightarrow> bool" where
  "azure_pool_ok env aw \<longleftrightarrow>
     (case azure_max_concurrency env (aw_nprocs aw) of
        Inl e \<Rightarrow> e \<noteq> Trap
      | Inr threads \<Rightarrow> starts_cleanly (aw_spawns aw) (unat threads))"

lemma azure_threads_positive: "azure_max_concurrency env nprocs = Inr threads \<Longrightarrow> 0 < unat threads"
  by (auto simp: azure_max_concurrency_def Let_def unat_max split: sum.splits if_splits)

lemma azure_client_make_error:
  assumes "azure_pool_ok env aw"
  shows "azure_client_make env aw config \<noteq> None" and "azure_client_make env aw config \<noteq> Some (Inl Trap)"
    and "azure_client_make env aw config \<noteq> Some (Inl (CommonException Success))"
proof -
  have no: "getenv_ulong_or env v d \<noteq> Inl (CommonException Success)" for v d
    using getenv_ulong_or_error by fastforce
  then have "azure_max_concurrency env (aw_nprocs aw) \<noteq> Inl (CommonException Success)"
    by (auto simp: azure_max_concurrency_def Let_def split: sum.splits if_splits)
  moreover have "azure_max_concurrency env (aw_nprocs aw) \<noteq> Inl Trap"
    using assms by (auto simp: azure_pool_ok_def)
  ultimately show "azure_client_make env aw config \<noteq> Some (Inl Trap)"
    "azure_client_make env aw config \<noteq> Some (Inl (CommonException Success))"
    by (auto simp: azure_client_make_def azure_init_def Let_def split: sum.splits option.splits if_splits)
  have "pool_start (aw_spawns aw) (unat threads) \<noteq> None"
    if "azure_max_concurrency env (aw_nprocs aw) = Inr threads" for threads
    using assms that by (intro pool_start_returns [THEN iffD2]) (simp add: azure_pool_ok_def)
  then show "azure_client_make env aw config \<noteq> None"
    by (auto simp: azure_client_make_def azure_init_def Let_def split: sum.splits option.splits if_splits)
qed

definition azure_cok :: "size_t \<Rightarrow> uint \<Rightarrow> azure_client \<Rightarrow> bool" where
  "azure_cok chunk limit = azure_sdk.invar chunk (ucast limit)"

lemma azure_client_make_fresh:
  assumes "azure_client_make env aw config = Some (Inr c)"
  shows "azure_cok (default_storage_chunk_size config) limit c \<and> azure_sdk.pending c = Map.empty"
proof -
  have "0 < cc_threads c"
    using assms azure_threads_positive [of env "aw_nprocs aw"]
    by (auto simp: azure_client_make_def Let_def split: sum.splits option.splits)
  then show ?thesis
    using assms
    by (auto simp: azure_client_make_def Let_def azure_cok_def azure_sdk.invar_def azure_sdk.pending_def client_inv_def
        responder_ok_def handles_of_def responses_of_def pending_reads_def chunks_ok_def fun_eq_iff
        split: sum.splits option.splits prod.splits)
qed

text \<open>An environment and a system in which the pool works.\<close>

definition azure_safe_env :: "azure_world \<Rightarrow> environment \<Rightarrow> environment" where
  "azure_safe_env aw env = (if azure_pool_ok env aw then env else (\<lambda>v. None))"

definition azure_safe_world :: "environment \<Rightarrow> azure_world \<Rightarrow> azure_world" where
  "azure_safe_world env aw = (if azure_pool_ok env aw then aw else aw\<lparr>aw_spawns := \<lambda>i. True\<rparr>)"

lemma azure_safe: "azure_pool_ok (azure_safe_env aw env) (azure_safe_world env aw)"
proof (cases "azure_pool_ok env aw")
  case False
  have "\<exists>threads. azure_max_concurrency (\<lambda>v. None) n = Inr threads" for n
    by (simp add: azure_max_concurrency_def getenv_ulong_or_def try_getenv_string_def Let_def)
  then obtain threads where "azure_max_concurrency (\<lambda>v. None) (aw_nprocs aw) = Inr threads" by blast
  then show ?thesis
    using False by (simp add: azure_safe_env_def azure_safe_world_def azure_pool_ok_def starts_cleanly_def list_all_iff)
qed (simp add: azure_safe_env_def azure_safe_world_def)

lemma azure_creates:
  assumes ready: "plugin_ready (azure_cok (default_storage_chunk_size config) limit) azure_sdk.pending st"
    and pool: "azure_pool_ok env aw"
  shows "\<exists>ret h st'. azure_obj_create_client env aw p config st = Some (Inr (ret, h), st') \<and>
    (ret = Success \<longrightarrow> (\<exists>c. plugin_lookup h st' = Some c \<and> azure_cok (default_storage_chunk_size config) limit c \<and>
      azure_sdk.pending c = Map.empty))"
  unfolding azure_obj_create_client_def
  by (rule create_or_fail_creates [OF ready _ azure_client_make_error [OF pool]])
    (simp add: azure_client_make_fresh)

lemma azure_async_read_ok:
  assumes inv: "azure_sdk.invar chunk (ucast (limit :: uint)) c" and uri: "make_storage_uri path = Inr u"
    and n: "0 < n" "n \<le> chunk" and h: "h \<notin> dom (azure_sdk.pending c)" "h < ucast limit"
  shows "\<exists>c'. azure_async_read path (off, n) buf h c = Some (Inr Success, c') \<and> azure_sdk.invar chunk (ucast limit) c' \<and>
    azure_sdk.fetched_reads c' = azure_sdk.fetched_reads c \<and>
    azure_sdk.pending c' = (azure_sdk.pending c)(h \<mapsto> (path, off, n, buf))"
proof -
  have chunk: "cc_chunk_bytesize c = chunk" "chunk \<noteq> 0"
    using inv n by (auto simp: azure_sdk.invar_def chunks_ok_def)
  have "unat (ucast limit :: object_handle) < 4294967296" by simp
  from chunk_read_ok [OF _ _ this uri n(1), of c chunk h off buf] inv h
  obtain c' where "submit_chunks 1 path (off, n) buf h (expect_response c) = Some (Inr Success, c')"
      "client_inv (ucast limit) (map task_view (cc_tasks c')) c'" "chunks_ok chunk c'" "sd_fetched c' = sd_fetched c"
      "pending_reads (map task_view (cc_tasks c')) c' =
        (pending_reads (map task_view (cc_tasks c)) c)(h \<mapsto> (path, off, n, buf))"
    by (auto simp: azure_sdk.invar_def azure_sdk.pending_def)
  then show ?thesis
    using chunk num_chunks_one [OF n(2)]
    by (auto simp: azure_async_read_def Let_def expect_response_def azure_sdk.invar_def azure_sdk.pending_def
        azure_sdk.fetched_reads_def)
qed

lemma azure_collect_returns:
  assumes "azure_sdk.invar chunk limit c"
  shows "\<exists>events c'. azure_collect sdk False k c = Some (Inr events, c') \<and>
    azure_sdk.answered_all chunk limit c events c' \<and> length events \<le> k"
  using assms
proof (induction k arbitrary: c)
  case (Suc k)
  obtain r c1 where r: "azure_async_read_response sdk c = Some (Inr r, c1)" "azure_sdk.answered chunk limit c r c1"
    using azure_sdk.async_response_returns [OF Suc.prems, of sdk]
    by (auto simp: azure_async_read_response_def chunk_read_response_def)
  show ?case
  proof (cases "br_ret r = FinishedError")
    case True
    then show ?thesis using r by (intro exI [of _ "[r]"] exI [of _ c1]) auto
  next
    case False
    then have "azure_sdk.invar chunk limit c1" using r(2) by (simp add: azure_sdk.answered_def)
    from Suc.IH [OF this] obtain events c' where
      "azure_collect sdk False k c1 = Some (Inr events, c')" "azure_sdk.answered_all chunk limit c1 events c'"
      "length events \<le> k" by blast
    then show ?thesis using r False by (intro exI [of _ "r # events"] exI [of _ c']) auto
  qed
qed simp

interpretation azure_plugin: plugin_entry_points chunk "ucast (limit :: uint)"
    "\<lambda>config st. the (azure_obj_create_client (azure_safe_env aw env) (azure_safe_world env aw) p config st)"
    "\<lambda>h path rng buf i st. the (azure_obj_request_read h path rng buf i st)"
    "\<lambda>h k. azure_obj_wait_for_completions sdk h True k True False" "azure_cok chunk limit" azure_sdk.pending
    azure_sdk.fetched_reads
  for chunk limit env aw p sdk
proof
  fix st and config :: client_config
  assume "plugin_ready (azure_cok chunk limit) azure_sdk.pending st" "default_storage_chunk_size config = chunk"
  then show "\<exists>ret h st'. the (azure_obj_create_client (azure_safe_env aw env) (azure_safe_world env aw) p config st) =
        (Inr (ret, h), st') \<and>
      (ret = Success \<longrightarrow> (\<exists>c. plugin_lookup h st' = Some c \<and> azure_cok chunk limit c \<and> azure_sdk.pending c = Map.empty))"
    using azure_creates [OF _ azure_safe, of config limit st aw env p] by (metis option.sel)
next
  fix p st c path u n h off buf
  assume c: "plugin_lookup p st = Some c" "azure_cok chunk limit c" and uri: "make_storage_uri path = Inr u"
    and n: "0 < n" "n \<le> chunk" and h: "h \<notin> dom (azure_sdk.pending c)" "h < ucast limit"
  have p: "p \<noteq> nullptr" using c(1) by auto
  from azure_async_read_ok [OF c(2) [unfolded azure_cok_def] uri n h, of off buf] obtain c' where
    "azure_async_read path (off, n) buf h c = Some (Inr Success, c')" "azure_cok chunk limit c'"
    "azure_sdk.fetched_reads c' = azure_sdk.fetched_reads c"
    "azure_sdk.pending c' = (azure_sdk.pending c)(h \<mapsto> (path, off, n, buf))"
    unfolding azure_cok_def by blast
  then show "\<exists>ret c'. the (azure_obj_request_read p path (off, n) buf h st) = (Inr ret, plugin_update p c' st) \<and>
      azure_cok chunk limit c' \<and> azure_sdk.fetched_reads c \<subseteq> azure_sdk.fetched_reads c' \<and>
      azure_sdk.pending c' = (if ret = Success then (azure_sdk.pending c)(h \<mapsto> (path, off, n, buf)) else azure_sdk.pending c)"
    using c p by (auto simp: azure_obj_request_read_def wait_client_def)
next
  fix p st c and k :: nat
  assume c: "plugin_lookup p st = Some c" "azure_cok chunk limit c" and k: "0 < k"
  have p: "p \<noteq> nullptr" using c(1) by auto
  have inv: "azure_sdk.invar chunk (ucast limit) c" using c(2) by (simp add: azure_cok_def)
  from azure_collect_returns [OF inv, of sdk k] obtain events c' where
    e: "azure_collect sdk False k c = Some (Inr events, c')" "azure_sdk.answered_all chunk (ucast limit) c events c'"
      "length events \<le> k"
    by blast
  have "round_ok azure_sdk.pending azure_sdk.fetched_reads k c (Success, length events, events) c'"
    using e(2,3) by (rule azure_sdk.answered_round [OF inv])
  moreover have "azure_cok chunk limit c'" using azure_sdk.answered_all_round [OF inv e(2)] by (simp add: azure_cok_def)
  ultimately show "\<exists>answer c'. azure_obj_wait_for_completions sdk p True k True False st = Some (Inr answer, plugin_update p c' st) \<and>
      azure_cok chunk limit c' \<and> round_ok azure_sdk.pending azure_sdk.fetched_reads k c answer c'"
    using c(1) e(1) p by (auto simp: azure_obj_wait_for_completions_def wait_client_def)
qed

section \<open>The worker on Azure\<close>

definition azure_object_client ::
  "environment \<Rightarrow> azure_world \<Rightarrow> (nat \<Rightarrow> nat \<times> download_outcome) \<Rightarrow> ptr \<Rightarrow> azure_client plugin_state \<Rightarrow>
    azure_client session plugin_reads object_client" where
  "azure_object_client env aw sdk p st =
     plugin_client (session_create (\<lambda>config st. the (azure_obj_create_client env aw p config st)) st) session_window
       (session_read (\<lambda>h path rng buf i st. the (azure_obj_request_read h path rng buf i st)))
       (session_wait (\<lambda>h k. azure_obj_wait_for_completions sdk h True k True False))"

definition azure_reads_done :: "azure_client session plugin_reads \<Rightarrow> (params \<times> segment) set" where
  "azure_reads_done = plugin_got (session_client azure_sdk.fetched_reads)"

definition azure_idle :: "size_t \<Rightarrow> uint \<Rightarrow> azure_client plugin_state \<Rightarrow> bool" where
  "azure_idle chunk limit st = plugin_ready (azure_cok chunk limit) azure_sdk.pending st"

lemma azure_client_ok:
  assumes "azure_idle chunk limit st" and "azure_pool_ok env aw"
  shows "client_ok chunk (ucast limit) (azure_object_client env aw sdk p st)
    (plugin_ok (session_ok (azure_cok chunk limit)) (session_client azure_sdk.pending))
    (plugin_outst (session_client azure_sdk.pending)) azure_reads_done"
proof -
  have "azure_safe_env aw env = env" "azure_safe_world env aw = aw"
    using assms(2) by (simp_all add: azure_safe_env_def azure_safe_world_def)
  then show ?thesis
    using azure_plugin.session_reads_client [of chunk limit st aw env p sdk] assms(1)
    by (simp add: azure_object_client_def azure_reads_done_def azure_idle_def)
qed

section \<open>Reuse of a client\<close>

text \<open>The credentials that a client has are never empty values.\<close>

definition no_empty_value :: "azure_credentials \<Rightarrow> bool" where
  "no_empty_value c \<longleftrightarrow> ac_account_name c \<noteq> Some [] \<and> ac_account_key c \<noteq> Some [] \<and> ac_sas_token c \<noteq> Some [] \<and>
     ac_endpoint_suffix c \<noteq> []"

lemma set_params_no_empty:
  "no_empty_value c \<Longrightarrow> \<forall>(key, v)\<in>set ps. v \<noteq> [] \<Longrightarrow> no_empty_value (fold azure_set_param ps c)"
  by (induction ps arbitrary: c) (auto simp: azure_set_param_def no_empty_value_def)

lemma env_no_empty: "no_empty_value (azure_env_credentials env)"
  by (simp add: no_empty_value_def azure_env_credentials_def nonempty_env_def Let_def)

definition azure_keys :: "string list" where
  "azure_keys = [''account_name'', ''account_key'', ''sas_token'', ''endpoint_suffix'']"

text \<open>
  Property C37: a client fits the configuration it was made for as long as no value in that is
  empty; but add any of the plugin's keys with an empty value, which the constructor of a client
  takes as unset, and the same client is made and is never reused for the configuration it was made
  for.
\<close>

theorem azure_empty_value_not_reused:
  assumes "azure_client_make env aw config = Some (Inr c)"
    and "\<forall>(key, v)\<in>set (given_params config). v \<noteq> []" and "key \<in> set azure_keys"
  shows "azure_verify_credentials env config c \<and>
    (let config' = config\<lparr>initial_params := given_params config @ [(key, [])],
                          num_initial_params := Suc (length (given_params config))\<rparr>
     in azure_client_make env aw config' = Some (Inr c) \<and> \<not> azure_verify_credentials env config' c)"
proof -
  let ?ps = "given_params config" and ?env = "azure_env_credentials env"
  let ?config' = "config\<lparr>initial_params := ?ps @ [(key, [])], num_initial_params := Suc (length ?ps)\<rparr>"
  have all: "filter (\<lambda>(key, v). v \<noteq> []) ?ps = ?ps" using assms(2) by (simp add: filter_id_conv)
  have "given_params (config\<lparr>initial_params := ps @ [x], num_initial_params := Suc (length ps)\<rparr>) = ps @ [x]" for ps x
    by (simp add: given_params_def)
  then have given: "given_params ?config' = ?ps @ [(key, [])]" .
  have same: "azure_client_credentials env ?config' = azure_client_credentials env config"
    unfolding azure_client_credentials_def given by (simp add: all)
  have c: "az_credentials c = fold azure_set_param ?ps ?env"
    using assms(1)
    by (auto simp: azure_client_make_def Let_def azure_client_credentials_def all
        split: sum.splits prod.splits option.splits)
  have "azure_client_make env aw ?config' = azure_client_make env aw config"
    unfolding azure_client_make_def same by (auto simp: Let_def split: sum.splits option.splits)
  moreover have "no_empty_value (fold azure_set_param ?ps ?env)"
    by (rule set_params_no_empty [OF env_no_empty assms(2)])
  then have "\<not> azure_verify_credentials env ?config' c"
    using assms(3) unfolding azure_verify_credentials_def given
    by (auto simp: c azure_keys_def azure_set_param_def no_empty_value_def Let_def)
  moreover have "azure_verify_credentials env config c" by (simp add: azure_verify_credentials_def c)
  ultimately show ?thesis using assms(1) by (simp add: Let_def)
qed

definition sample_azure :: azure_world where
  "sample_azure = \<lparr>aw_nprocs = 16, aw_connects = (\<lambda>s. True), aw_cache_loader = Inr \<lparr>ld_handle = None, ld_enabled = False\<rparr>,
     aw_spawns = (\<lambda>n. True), aw_window = (\<lambda>n chunk. of_nat (unat n) * chunk)\<rparr>"

definition sample_azure_config :: client_config where
  "sample_azure_config = \<lparr>endpoint_url = None, default_storage_chunk_size = 4,
     initial_params = [(''account_name'', ''models''), (''account_key'', ''c2VjcmV0'')], num_initial_params = 2\<rparr>"

lemma sample_azure_threads: "azure_max_concurrency (\<lambda>v. None) 16 = Inr 4"
  by (simp add: azure_max_concurrency_def getenv_ulong_or_def try_getenv_string_def Let_def)

lemma sample_azure_client: "\<exists>c. azure_client_make (\<lambda>v. None) sample_azure sample_azure_config = Some (Inr c)"
proof -
  have "azure_client_credentials (\<lambda>v. None) sample_azure_config = \<lparr>ac_account_name = Some ''models'',
      ac_account_key = Some ''c2VjcmV0'', ac_sas_token = None, ac_endpoint_suffix = ''blob.core.windows.net''\<rparr>"
    by (simp add: azure_client_credentials_def given_params_def sample_azure_config_def azure_env_credentials_def
        nonempty_env_def getenv_string_or_def try_getenv_string_def azure_set_param_def numeral_2_eq_2 Let_def)
  then show ?thesis
    by (simp add: azure_client_make_def sample_azure_def sample_azure_threads azure_init_def azure_service_of_def
        pool_start_def list_all_iff Let_def)
qed

theorem azure_empty_value_not_reused_witness:
  "\<exists>c. azure_client_make (\<lambda>v. None) sample_azure sample_azure_config = Some (Inr c) \<and>
    (let config' = sample_azure_config\<lparr>initial_params := initial_params sample_azure_config @ [(''sas_token'', [])],
                                       num_initial_params := 3\<rparr>
     in azure_client_make (\<lambda>v. None) sample_azure config' = Some (Inr c) \<and> \<not> azure_verify_credentials (\<lambda>v. None) config' c)"
proof -
  obtain c where c: "azure_client_make (\<lambda>v. None) sample_azure sample_azure_config = Some (Inr c)"
    using sample_azure_client by blast
  have given: "given_params sample_azure_config = initial_params sample_azure_config"
    by (simp add: given_params_def sample_azure_config_def numeral_2_eq_2)
  have "\<forall>(key, v)\<in>set (given_params sample_azure_config). v \<noteq> []"
    by (simp add: given, simp add: sample_azure_config_def)
  moreover have "''sas_token'' \<in> set azure_keys" by (simp add: azure_keys_def)
  ultimately show ?thesis
    using azure_empty_value_not_reused [OF c] c unfolding given
    by (simp add: Let_def) (simp add: sample_azure_config_def numeral_3_eq_3)
qed

end
