(* ===== verification/Spec2Isabelle.thy ===== *)
theory Spec2Isabelle
  imports FileDescriptors Semaphores Executing Responses ObjectStorage CApi ObjectSubmission GcsPlugin AzurePlugin
begin

text \<open>
  A verification library for the C++ core of the model streamer (\<open>src/cpp\<close>). The program reads
  byte ranges of many files, from a file system or from object storage, with several workers, and
  hands out one response per range. All paths below are relative to \<open>src/cpp\<close>.

  \<^bold>\<open>The program.\<close> A caller builds a request, a list of files with ranges, each with an offset, a size
  and a destination (\<open>streamer/streamer.cc\<close>). \<open>Streamer::async_request\<close> verifies it, divides it
  between the workers (\<open>Assigner\<close>), turns every slice into batches of tasks that report to one
  \<open>Request\<close> per range (\<open>Batches\<close>), registers the submission and pushes one workload per worker
  to the pool of the backend (\<open>BackendPools\<close>, \<open>ThreadPool\<close>). A worker of the file system executes
  its batches in place (\<open>Batch\<close>, \<open>File\<close>). A worker of object storage cuts the tasks into chunks, and
  keeps as many of them in flight at a storage plugin as its window of bytes admits
  (\<open>ObjectStorageWorker\<close>, \<open>CapacityWorker\<close>, \<open>CapacityQueue\<close>). The last task of a range pushes the
  response of the range to the responder (\<open>SharedQueue\<close>), from which the caller takes it;
  \<open>SubmissionsMgr\<close> tells it when a submission is complete. The plugins are shared libraries that
  \<open>S3ClientWrapper\<close> loads: \<open>s3\<close>, \<open>gcs\<close> and \<open>azure\<close>, each a client over the SDK of its provider,
  kept by a \<open>ClientMgr\<close>.

  \<^bold>\<open>The theories.\<close> Leaves:

  \<^item> \<open>Prelude\<close>: machine words (\<open>size_t\<close> and addresses are 64-bit words, \<open>unsigned\<close> is a 32-bit one),
    segments and layouts, lemmas on sums and lists. \<open>StdMap\<close>: \<open>std::map\<close> as an ordered list.
  \<^item> \<open>ResponseCodes\<close> (\<open>common/response_code\<close>, \<open>common/exception\<close>, both \<open>response\<close>): codes, their
    values, and the exceptions of the code as a datatype; undefined behaviour is the value \<open>Trap\<close>.
  \<^item> \<open>Env\<close>, \<open>Config\<close>, \<open>StorageUri\<close>, \<open>Credentials\<close>, \<open>Semver\<close>, \<open>FdLimit\<close> (\<open>utils/env\<close>,
    \<open>streamer/impl/config\<close>, \<open>common/storage_uri\<close>, \<open>common/s3_credentials\<close>, \<open>utils/semver\<close>,
    \<open>utils/fdlimit\<close>).

  Dividing and reading:

  \<^item> \<open>Assigner\<close> and \<open>Assignment\<close> (\<open>streamer/impl/assigner\<close>): coalescing of adjacent ranges, and the
    two loops that share the bytes out, with their termination, losslessness and bounds.
  \<^item> \<open>Requests\<close> (\<open>streamer/impl/request\<close>, \<open>task\<close>): the two atomic actions of the counter of a range,
    and why exactly one finisher sees the last task, under any interleaving.
  \<^item> \<open>FileReader\<close> (\<open>utils/fd\<close>, \<open>streamer/impl/file\<close>): the loops over \<open>read(2)\<close>, \<open>write(2)\<close> and \<open>lseek(2)\<close>.
    \<open>FileDescriptors\<close> (\<open>utils/fd\<close>): who owns a descriptor, and whole files. \<open>Semaphores\<close>
    (\<open>utils/semaphore\<close>): the waits over \<open>sem_overview(7)\<close>, which the queues see as a counter.
  \<^item> \<open>S3Wrapper\<close> (\<open>common/s3_wrapper\<close>): which library serves an address, its loading and its life.
  \<^item> \<open>Batch\<close> and \<open>Batches\<close> (\<open>streamer/impl/batch\<close>, \<open>batches\<close>): how tasks are made from slices, and how
    a batch executes; \<open>Delivery\<close>: from finished tasks to responses, for every interleaving.
  \<^item> \<open>Workloads\<close>, \<open>ThreadPool\<close>, \<open>Pools\<close> (\<open>streamer/impl/workload\<close>, \<open>utils/threadpool\<close>,
    \<open>streamer/impl/pools\<close>): what is dispatched, the start of the threads, the queue of messages with
    its threads as a step relation, and the race for the lock on the plugin.

  The streamer:

  \<^item> \<open>SharedQueue\<close> (\<open>common/shared_queue\<close>, \<open>common/responder\<close>) and \<open>Submissions\<close>
    (\<open>streamer/impl/submissions\<close>): the responder, alone and raced for, and the registry.
  \<^item> \<open>Streamer\<close> (\<open>streamer/impl/streamer\<close>): all its operations, composed of the above. \<open>Submitting\<close>:
    what building the workloads yields. \<open>Answering\<close>: nothing or everything is committed, and what
    is committed is answered. \<open>Executing\<close>: a submission of local files from the call to the bytes in
    memory. \<open>Responses\<close>: the consumer. \<open>CApi\<close> (\<open>streamer/streamer.cc\<close>): the C functions.

  Object storage:

  \<^item> \<open>CapacityQueue\<close> and \<open>CapacityWorker\<close> (\<open>utils/capacity_queue\<close>, \<open>utils/capacity_worker\<close>): the window
    and the base class; what the hooks of a derived class owe is a locale.
  \<^item> \<open>ObjectWorker\<close> (\<open>streamer/impl/object_storage_worker\<close>, \<open>streamer/impl/s3\<close>): the worker and its
    hooks, over a record of functions that stands for the client. \<open>ObjectReads\<close>, \<open>ObjectFlights\<close>,
    \<open>ObjectCompletion\<close>, \<open>ObjectServing\<close>, \<open>ObjectAdmitting\<close> and \<open>ObjectStorage\<close> prove its invariant
    and that every task is finished once; \<open>client_ok\<close> says what this asks of a client.
  \<^item> \<open>PluginClient\<close>, \<open>PluginApi\<close>, \<open>ClientMgr\<close>, \<open>ListFiles\<close> (\<open>common/client_mgr\<close>,
    \<open>common/backend_api\<close> and what the clients and entry points of the three plugins share): reads
    handed to an SDK, callbacks that push their responses, the entry points, the listing. A locale
    states the session of the wrapper with a plugin once.
  \<^item> \<open>S3Client\<close> and \<open>S3Plugin\<close> (\<open>s3\<close>); \<open>ChunkedReads\<close> with \<open>GcsPlugin\<close> (\<open>gcs\<close>) and \<open>AzurePlugin\<close>
    (\<open>azure\<close>): configuration, client and entry points of each, and a proof that each satisfies
    \<open>client_ok\<close>. \<open>AzCache\<close> (\<open>azure/azcache_provider\<close>): the loader of the cache provider.
  \<^item> \<open>ObjectSubmission\<close>: a submission of objects from the call to the reads of the S3 plugin, over all
    the workers that share it.

  \<^bold>\<open>Errors, loops and time.\<close> An exception is the left side of a sum, so every throw and early return
  is a branch. A loop that need not end is a \<open>partial_function\<close> into \<open>option\<close>, and the theorems about
  it state that it returns (\<open>file_read_correct\<close>, \<open>object_worker_serves\<close>, \<open>submission_executed\<close>).
  Waiting for a plugin's events recurs over the number of reads in flight, which is enough because
  every step of it takes one callback. Concurrency is of two kinds: shared objects (responder, queue
  of messages, plugin lock, clients, cache library) are step relations with one step per critical
  section or atomic action; the tasks of several workers are an arbitrary interleaving, which the
  theorems quantify over. The stop flag, failed allocations, the order of completions, and the
  answers of system calls, linker and SDKs are arguments that the theorems quantify over as well.

  \<^bold>\<open>Calls that never return.\<close> Three situations in which the code waits for ever are values of the
  model. A pool of threads that starts its first thread but not all of them never leaves its
  constructor (\<open>pool_start\<close> is \<open>None\<close>): the started threads wait on a queue that is not stopped, and
  are joined. What makes a pool (\<open>thread_pool_make\<close>, \<open>lock_slow\<close>, \<open>pools_push\<close>, \<open>async_request\<close> and
  \<open>runai_request\<close>, the clients of the GCS and the Azure plugin) then does not return either;
  \<open>starts_cleanly\<close>, \<open>pools_start_cleanly\<close>, \<open>gcs_pool_ok\<close> and \<open>azure_pool_ok\<close> exclude it where a theorem
  states that a call returns, and \<open>plugin_locked_once\<close> and \<open>async_request_atomic\<close> state what happens
  otherwise. A plugin whose pool has no thread at all (\<open>cc_threads\<close>) finishes no chunk, so a wait for
  one of its responses does not return. And a \<open>pop\<close> without a timeout waits for a response.

  \<^bold>\<open>Failed allocations.\<close> The registration of an object-storage workload allocates in four places
  (\<open>allocation\<close>): the node of the map, the index of its chunks, the state of a task, the entry of a
  chunk. A failure of the last three finishes the tasks with an error; without the node the workload
  is lost (\<open>enqueue_drops\<close>). The theorems on the worker say which workloads were served, all of them
  when the nodes are found (\<open>nodes_found\<close>). A dispatch may also find no
  memory for its entry in the queue of a pool, and a pool may fail to start its first thread; both
  are exceptions. The memory for a response that is pushed, and for other small objects, is taken to
  be found.

  \<^bold>\<open>Bounds.\<close> The counters of the code keep their width. The object-storage worker counts chunks
  in 32 bits, so its theorems ask for fewer than \<open>2^32\<close> chunks (\<open>workload_ready\<close>, \<open>chunk_count\<close>), and
  the responder of a plugin counts what it is owed in 32 bits too, hence \<open>limit\<close> in \<open>client_ok\<close>. Byte
  sums are checked by the assigner, and the theorems state when it reports an overflow.

  \<^bold>\<open>Not modelled.\<close> Logging (output only; an \<open>ASSERT\<close> is the exception it throws);
  \<open>utils/thread\<close>, \<open>utils/scope_guard\<close> and \<open>utils/dylib\<close>, wrappers whose effect is in the models of
  their users; \<open>utils/random\<close>, \<open>utils/temp\<close>, the mocks and the main of the tests; in
  \<open>common/backend_api/object_storage/utils.cc\<close> the margin on the window, which is floating point (the
  window is an argument); the code under \<open>AZURITE_TESTING\<close>; the statistics of throughput; the Python
  packages and the build files. The SDKs of the providers, the dynamic linker, the kernel and the
  clock are arguments of the definitions.
\<close>

section \<open>The workers on the plugins that read in chunks\<close>

text \<open>
  Property C7: the object-storage worker on the GCS plugin, and on the Azure plugin, serves every
  schedule of workloads made for the plugin's chunk size, in whatever order the chunks of its reads
  finish and however they end: every task of a workload served is notified exactly once, and a
  success means that the plugin reported pieces that tile the task's range as read, from the object
  of its batch to its destination. Every workload is served unless its registration finds no memory
  for a node. The pool of threads of the plugin must work (\<open>gcs_pool_ok\<close>, \<open>azure_pool_ok\<close>): it must start
  all its threads or not even the first, and the configured number of connections of the GCS plugin
  must not be narrowed to zero; \<open>2^32\<close> of them are, and then a wait for a response never returns.
\<close>

theorem chunked_plugins_serve:
  assumes "gcs_idle chunk limit gcs_st" and "gcs_pool_ok env gw"
    and "azure_idle chunk limit azure_st" and "azure_pool_ok env aw"
    and "\<forall>wl\<in>set (requests_of arrivals). workload_ready chunk (fst world) wl"
    and "1 + sum_list (map (chunk_count chunk (fst world)) (requests_of arrivals)) \<le> unat limit"
  shows "(\<exists>w es served. object_serve env cred oom stopped (gcs_object_client env gw gcs_sdk p gcs_st) arrivals
        (object_worker_make world) = Some (Inr (), w) \<and>
      cw_idle w \<and> ow_inflight (cw_state w) = [] \<and> ow_world (cw_state w) = object_run es world \<and>
      served \<subseteq> {..<length (requests_of arrivals)} \<and>
      (nodes_found oom \<longrightarrow> served = {..<length (requests_of arrivals)}) \<and>
      mset (map fst es) = open_keys (concat (map wl_batches (nths (requests_of arrivals) served))) \<and>
      (\<forall>e\<in>set es. event_read (fst world) (client_reads gcs_reads_done w) e)) \<and>
    (\<exists>w es served. object_serve env cred oom stopped (azure_object_client env aw azure_sdk p azure_st) arrivals
        (object_worker_make world) = Some (Inr (), w) \<and>
      cw_idle w \<and> ow_inflight (cw_state w) = [] \<and> ow_world (cw_state w) = object_run es world \<and>
      served \<subseteq> {..<length (requests_of arrivals)} \<and>
      (nodes_found oom \<longrightarrow> served = {..<length (requests_of arrivals)}) \<and>
      mset (map fst es) = open_keys (concat (map wl_batches (nths (requests_of arrivals) served))) \<and>
      (\<forall>e\<in>set es. event_read (fst world) (client_reads azure_reads_done w) e)) \<and>
    (\<forall>env' nprocs. env' ''RUNAI_STREAMER_S3_MAX_CONNECTIONS'' = Some (to_string 4294967296) \<longrightarrow>
      gcs_max_concurrency env' nprocs = Inr 0) \<and>
    (\<forall>c q. cc_threads c = 0 \<and> sd_responder c = Some q \<and> sq_pop sentinel_backend_response 0 q = None \<longrightarrow>
      gcs_async_read_response gcs_sdk c = None)"
proof -
  have fits: "1 + sum_list (map (chunk_count chunk (fst world)) (requests_of arrivals)) \<le> unat (ucast limit :: 64 word)"
    using assms(6) by simp
  have threads: "\<forall>env' nprocs. env' ''RUNAI_STREAMER_S3_MAX_CONNECTIONS'' = Some (to_string 4294967296) \<longrightarrow>
      gcs_max_concurrency env' nprocs = Inr 0"
    by (intro allI impI gcs_no_threads(1))
  have stuck: "\<forall>c q. cc_threads c = 0 \<and> sd_responder c = Some q \<and> sq_pop sentinel_backend_response 0 q = None \<longrightarrow>
      gcs_async_read_response gcs_sdk c = None"
    unfolding gcs_async_read_response_def by (blast intro: no_threads_stuck)
  show ?thesis
    by (intro conjI object_worker_served [OF gcs_client_ok [OF assms(1,2)] assms(5) fits]
        object_worker_served [OF azure_client_ok [OF assms(3,4)] assms(5) fits] threads stuck)
qed

definition sample_gcs_world :: gcs_world where
  "sample_gcs_world = \<lparr>gw_nprocs = 16, gw_contents = (\<lambda>path. None), gw_window = (\<lambda>n chunk. of_nat (unat n) * chunk),
     gw_spawns = (\<lambda>i. True)\<rparr>"

lemma sample_gcs_threads: "gcs_max_concurrency (\<lambda>v. None) 16 = Inr 4"
  by (simp add: gcs_max_concurrency_def getenv_ulong_or_def try_getenv_string_def Let_def)

theorem chunked_plugins_serve_witness:
  "(\<exists>w es. object_serve (\<lambda>v. None) [] (\<lambda>a. False) (\<lambda>i. False)
      (gcs_object_client (\<lambda>v. None) sample_gcs_world (\<lambda>i. (i, \<lparr>os_bytes = 4, os_bad = i = 2\<rparr>)) 4096 plugin_start)
      sample_arrivals (object_worker_make (sample_objects, [])) = Some (Inr (), w) \<and> cw_idle w \<and> length es = 3 \<and>
    ow_world (cw_state w) = object_run es (sample_objects, [])) \<and>
   (\<exists>w es. object_serve (\<lambda>v. None) [] (\<lambda>a. False) (\<lambda>i. False)
      (azure_object_client (\<lambda>v. None) sample_azure (\<lambda>i. (i, if i = 2 then RequestFailed 404 else Downloaded)) 4096 plugin_start)
      sample_arrivals (object_worker_make (sample_objects, [])) = Some (Inr (), w) \<and> cw_idle w \<and> length es = 3 \<and>
    ow_world (cw_state w) = object_run es (sample_objects, []))"
proof -
  have idle: "gcs_idle 4 9 plugin_start" "azure_idle 4 9 plugin_start" by (simp_all add: gcs_idle_def azure_idle_def)
  have threads: "gcs_pool_ok (\<lambda>v. None) sample_gcs_world" "azure_pool_ok (\<lambda>v. None) sample_azure"
    by (simp_all add: gcs_pool_ok_def sample_gcs_world_def sample_gcs_threads azure_pool_ok_def sample_azure_def
        sample_azure_threads starts_cleanly_def list_all_iff)
  note chunked_plugins_serve [OF idle(1) threads(1) idle(2) threads(2), where arrivals = sample_arrivals
      and world = "(sample_objects, [])" and cred = "[]" and oom = "\<lambda>a. False" and stopped = "\<lambda>i. False" and p = 4096
      and gcs_sdk = "\<lambda>i. (i, \<lparr>os_bytes = 4, os_bad = i = 2\<rparr>)"
      and azure_sdk = "\<lambda>i. (i, if i = 2 then RequestFailed 404 else Downloaded)",
      unfolded sample_arrivals_requests fst_conv, OF sample_ready]
  then show ?thesis unfolding sample_counts using sample_event_count by (simp del: object_run.simps) blast
qed

end
